(* ===== verification/Prelude.thy ===== *)
theory Prelude
  imports Main "HOL-Library.Word"
begin

text \<open>
  Shared vocabulary of the development: the machine types of the C sources, the result type that
  makes every exit and every undefined access a value, memory copies on byte lists, the byte order
  of the host and of the network, and the generic lemmas on lists and words the components use.

  The C code is read on an LP64 little-endian host: \<^verbatim>\<open>int\<close> has 32 bits,
  \<^verbatim>\<open>long\<close>, \<^verbatim>\<open>size_t\<close> and \<^verbatim>\<open>off_t\<close> have 64.
\<close>

unbundle bit_operations_syntax

section \<open>Machine types\<close>

type_synonym u8 = "8 word"
type_synonym u16 = "16 word"
type_synonym u32 = "32 word"
type_synonym u64 = "64 word"
type_synonym byte = "8 word"
type_synonym bytes = "8 word list"

text \<open>A C string literal, without its terminating NUL.\<close>

definition str :: "string \<Rightarrow> bytes" where
  "str s = map of_char s"

lemma str_Nil [simp]: "str [] = []"
  by (simp add: str_def)

lemma str_Cons [simp]: "str (c # s) = of_char c # str s"
  by (simp add: str_def)

lemma length_str [simp]: "length (str s) = length s"
  by (simp add: str_def)

lemma str_append [simp]: "str (s @ t) = str s @ str t"
  by (simp add: str_def)

section \<open>Results: exits and undefined behaviour as values\<close>

text \<open>
  \<open>Exit\<close> is a call of \<^verbatim>\<open>err\<close>, \<^verbatim>\<open>errx\<close> or \<^verbatim>\<open>exit\<close>: the process ends with a message.
  \<open>Undef\<close> is an access the C standard leaves undefined (a NULL dereference, a read or write
  outside an object).
\<close>

datatype fault = Exit string | Undef string

datatype 'a res = Ok 'a | Fault fault

primrec rbind :: "'a res \<Rightarrow> ('a \<Rightarrow> 'b res) \<Rightarrow> 'b res" where
  "rbind (Ok x) f = f x"
| "rbind (Fault e) f = Fault e"

primrec rmap :: "('a \<Rightarrow> 'b) \<Rightarrow> 'a res \<Rightarrow> 'b res" where
  "rmap f (Ok x) = Ok (f x)"
| "rmap f (Fault e) = Fault e"

primrec is_Ok :: "'a res \<Rightarrow> bool" where
  "is_Ok (Ok x) = True"
| "is_Ok (Fault e) = False"

named_theorems res_elims

lemma rbind_cong [fundef_cong]:
  "m = m' \<Longrightarrow> (\<And>x. m' = Ok x \<Longrightarrow> f x = f' x) \<Longrightarrow> rbind m f = rbind m' f'"
  by (cases m') auto

lemma rbind_eq_Ok: "rbind m f = Ok y \<longleftrightarrow> (\<exists>x. m = Ok x \<and> f x = Ok y)"
  by (cases m) auto

lemma rbind_OkE [res_elims, elim]:
  assumes "rbind m f = Ok y"
  obtains x where "m = Ok x" "f x = Ok y"
  using assms by (cases m) auto

lemma rbind_assoc: "rbind (rbind m f) g = rbind m (\<lambda>x. rbind (f x) g)"
  by (cases m) auto

lemma rbind_Ok_right [simp]: "rbind m Ok = m"
  by (cases m) auto

lemma rmap_eq_Ok: "rmap f m = Ok y \<longleftrightarrow> (\<exists>x. m = Ok x \<and> y = f x)"
  by (cases m) auto

lemma is_Ok_iff: "is_Ok m \<longleftrightarrow> (\<exists>x. m = Ok x)"
  by (cases m) auto

text \<open>A loop over a list that stops at the first fault.\<close>

fun rfold :: "('s \<Rightarrow> 'a \<Rightarrow> 's res) \<Rightarrow> 's \<Rightarrow> 'a list \<Rightarrow> 's res" where
  "rfold f s [] = Ok s"
| "rfold f s (x # xs) = rbind (f s x) (\<lambda>s'. rfold f s' xs)"

lemma rfold_append: "rfold f s (xs @ ys) = rbind (rfold f s xs) (\<lambda>s'. rfold f s' ys)"
  by (induction xs arbitrary: s) (auto simp: rbind_assoc)

lemma rfold_invariant:
  assumes "rfold f s xs = Ok t" and "P s"
    and "\<And>s x s'. x \<in> set xs \<Longrightarrow> P s \<Longrightarrow> f s x = Ok s' \<Longrightarrow> P s'"
  shows "P t"
  using assms
proof (induction xs arbitrary: s)
  case Nil
  then show ?case by simp
next
  case (Cons x xs)
  then obtain s' where "f s x = Ok s'" "rfold f s' xs = Ok t" by auto
  with Cons show ?case by (meson list.set_intros)
qed

section \<open>Memory copies\<close>

text \<open>
  \<open>mread xs a n\<close> are the \<open>n\<close> bytes at offset \<open>a\<close>; \<open>mwrite xs a ys\<close> is the object \<open>xs\<close> after
  \<^verbatim>\<open>memcpy (xs + a, ys, length ys)\<close>.
\<close>

definition mread :: "'a list \<Rightarrow> nat \<Rightarrow> nat \<Rightarrow> 'a list" where
  "mread xs a n = take n (drop a xs)"

definition mwrite :: "'a list \<Rightarrow> nat \<Rightarrow> 'a list \<Rightarrow> 'a list" where
  "mwrite xs a ys = take a xs @ ys @ drop (a + length ys) xs"

lemma length_mread: "length (mread xs a n) = min n (length xs - a)"
  by (simp add: mread_def)

lemma length_mread_fits [simp]: "a + n \<le> length xs \<Longrightarrow> length (mread xs a n) = n"
  by (simp add: length_mread)

lemma mread_0_length [simp]: "mread xs 0 (length xs) = xs"
  by (simp add: mread_def)

lemma mread_zero [simp]: "mread xs a 0 = []"
  by (simp add: mread_def)

lemma mread_append_mread:
  "mread xs a n @ mread xs (a + n) m = mread xs a (n + m)"
  by (simp add: mread_def take_add add.commute [of a n])

lemma mread_mread: "i + m \<le> n \<Longrightarrow> mread (mread xs a n) i m = mread xs (a + i) m"
  by (simp add: mread_def drop_take add.commute min_absorb1)

lemma mread_append_left: "a + n \<le> length xs \<Longrightarrow> mread (xs @ ys) a n = mread xs a n"
  by (simp add: mread_def)

lemma mread_append_right:
  "length xs \<le> a \<Longrightarrow> mread (xs @ ys) a n = mread ys (a - length xs) n"
  by (simp add: mread_def)

lemma length_mwrite [simp]: "a + length ys \<le> length xs \<Longrightarrow> length (mwrite xs a ys) = length xs"
  by (simp add: mwrite_def)

lemma splice_Nil [simp]: "mwrite xs a [] = xs"
  by (simp add: mwrite_def)

lemma mread_mwrite_same: "a + length ys \<le> length xs \<Longrightarrow> mread (mwrite xs a ys) a (length ys) = ys"
  by (simp add: mread_def mwrite_def)

lemma nth_mwrite:
  assumes "a + length ys \<le> length xs" "i < length xs"
  shows "mwrite xs a ys ! i = (if a \<le> i \<and> i < a + length ys then ys ! (i - a) else xs ! i)"
  using assms by (auto simp: mwrite_def nth_append)

lemma mwrite_all: "length ys = length xs \<Longrightarrow> mwrite xs 0 ys = ys"
  by (simp add: mwrite_def)

lemma mwrite_append_left:
  "a + length ys \<le> length xs \<Longrightarrow> mwrite (xs @ zs) a ys = mwrite xs a ys @ zs"
  by (simp add: mwrite_def)

lemma mwrite_append_right:
  "length xs \<le> a \<Longrightarrow> mwrite (xs @ zs) a ys = xs @ mwrite zs (a - length xs) ys"
  by (simp add: mwrite_def)

lemma mwrite_mwrite_next:
  "a \<le> length xs \<Longrightarrow> mwrite (mwrite xs a ys) (a + length ys) zs = mwrite xs a (ys @ zs)"
  by (simp add: mwrite_def ac_simps)

lemma list_update_mwrite: "a < length xs \<Longrightarrow> xs[a := v] = mwrite xs a [v]"
  by (simp add: mwrite_def upd_conv_take_nth_drop)

lemma mread_mwrite_below:
  "b + n \<le> a \<Longrightarrow> a + length ys \<le> length xs \<Longrightarrow> mread (mwrite xs a ys) b n = mread xs b n"
  by (simp add: mread_def mwrite_def take_drop min_def)

lemma mread_mwrite_above:
  "a + length ys \<le> b \<Longrightarrow> a + length ys \<le> length xs \<Longrightarrow>
   mread (mwrite xs a ys) b n = mread xs b n"
  by (simp add: mread_def mwrite_def)

text \<open>Lists of a known short length, and quotient and remainder of a number given in that form.\<close>

lemma list4E:
  assumes "length xs = 4"
  obtains a b c d where "xs = [a, b, c, d]"
  using assms by (auto simp: length_Suc_conv eval_nat_numeral)

lemma list5E:
  assumes "length xs = 5"
  obtains a b c d e where "xs = [a, b, c, d, e]"
  using assms by (auto simp: length_Suc_conv eval_nat_numeral)

lemma div_mod_form:
  assumes "r < (n :: nat)"
  shows "(n * k + r) div n = k" "(n * k + r) mod n = r"
  using assms by simp_all

section \<open>Byte order\<close>

text \<open>
  The object representation of a \<^verbatim>\<open>u_int32_t\<close> on the little-endian host, and the conversions
  \<^verbatim>\<open>htonl\<close> and \<^verbatim>\<open>ntohl\<close>, which swap its bytes there.
\<close>

definition mem_u32 :: "u32 \<Rightarrow> bytes" where
  "mem_u32 w = [ucast w, ucast (drop_bit 8 w), ucast (drop_bit 16 w), ucast (drop_bit 24 w)]"

definition u32_mem :: "bytes \<Rightarrow> u32" where
  "u32_mem bs = (case bs of
      b0 # b1 # b2 # b3 # _ \<Rightarrow>
        ucast b0 OR push_bit 8 (ucast b1) OR push_bit 16 (ucast b2) OR push_bit 24 (ucast b3)
    | _ \<Rightarrow> 0)"

definition htonl :: "u32 \<Rightarrow> u32" where
  "htonl w = u32_mem (rev (mem_u32 w))"

definition ntohl :: "u32 \<Rightarrow> u32" where
  "ntohl w = u32_mem (rev (mem_u32 w))"

lemma byte_bit_ge [simp]: "8 \<le> n \<Longrightarrow> \<not> bit (b :: byte) n"
  by (auto dest: bit_imp_le_length)

lemma u32_bit_ge [simp]: "32 \<le> n \<Longrightarrow> \<not> bit (b :: u32) n"
  by (auto dest: bit_imp_le_length)

lemma uint_of_int_small: "0 \<le> x \<Longrightarrow> x < 2 ^ 32 \<Longrightarrow> uint (word_of_int x :: u32) = x"
  by (simp add: unsigned_of_int take_bit_eq_mod)

text \<open>The comparison functions return differences as an \<^verbatim>\<open>int\<close>; below \<open>2 ^ 31\<close> they have the right sign.\<close>

lemma sint_diff:
  assumes "(a::u32) < 2 ^ 31" "b < 2 ^ 31"
  shows "sint (a - b) = uint a - uint b"
proof -
  have s: "sint x = uint x" if "x < 2 ^ 31" for x :: u32
  proof -
    have "uint x < 2 ^ 31" using that by (simp add: word_less_def)
    then have "signed_take_bit 31 (uint x) = uint x" using uint_ge_0 [of x] by (intro signed_take_bit_int_eq_self) linarith+
    then show ?thesis by (simp add: sint_uint)
  qed
  have "uint a < 2 ^ 31" "uint b < 2 ^ 31" using assms by (simp_all add: word_less_def)
  then have "signed_take_bit 31 (uint a - uint b) = uint a - uint b"
    using uint_ge_0 [of a] uint_ge_0 [of b] by (intro signed_take_bit_int_eq_self) linarith+
  then show ?thesis using s [OF assms(1)] s [OF assms(2)] by (simp add: sint_word_ariths)
qed

lemma length_mem_u32 [simp]: "length (mem_u32 w) = 4"
  by (simp add: mem_u32_def)

lemma u32_mem_mem_u32 [simp]: "u32_mem (mem_u32 w @ bs) = w"
  unfolding mem_u32_def u32_mem_def
  by (simp, rule bit_word_eqI) (auto simp: bit_simps; (rule ccontr, simp))

lemma u32_mem_mem_u32_alone [simp]: "u32_mem (mem_u32 w) = w"
  using u32_mem_mem_u32 [of w "[]"] by simp

lemma mem_u32_u32_mem [simp]:
  assumes "length bs = 4"
  shows "mem_u32 (u32_mem bs) = bs"
proof -
  obtain b0 b1 b2 b3 where bs: "bs = [b0, b1, b2, b3]"
    using assms by (rule list4E)
  show ?thesis
    unfolding bs mem_u32_def u32_mem_def
    by (auto intro!: bit_word_eqI simp: bit_simps)
qed

lemma ntohl_htonl [simp]: "ntohl (htonl w) = w"
  by (simp add: ntohl_def htonl_def)

lemma mem_u32_htonl: "mem_u32 (htonl w) = rev (mem_u32 w)"
  by (simp add: htonl_def)

end
