(* ===== verification/Cstring.thy ===== *)
theory Cstring
  imports Prelude
begin

text \<open>
  NUL-terminated strings: \<^verbatim>\<open>openbsd-compat/strlcpy.c\<close>, \<^verbatim>\<open>strlcat.c\<close> and \<^verbatim>\<open>strtonum.c\<close>, and
  \<^verbatim>\<open>xstrdup\<close> of \<^verbatim>\<open>xmalloc.c\<close>. A string argument is the memory object it points into; reading or
  writing past the end of the object is undefined. Sizes are natural numbers (they are lengths of
  objects, so \<^verbatim>\<open>size_t\<close> arithmetic on them does not wrap), but for \<^verbatim>\<open>n--\<close> on zero in
  \<^verbatim>\<open>strlcat\<close>, which the model writes out.
\<close>

section \<open>C strings in memory\<close>

text \<open>\<open>cstr s\<close> is the object that holds \<open>s\<close> and its terminator; \<open>strlen\<close> reads up to the first NUL.\<close>

definition cstr :: "bytes \<Rightarrow> bytes" where
  "cstr s = s @ [0]"

fun strlen :: "bytes \<Rightarrow> nat res" where
  "strlen [] = Fault (Undef ''strlen'')"
| "strlen (c # s) = (if c = 0 then Ok 0 else rmap Suc (strlen s))"

definition nonul :: "bytes \<Rightarrow> bool" where
  "nonul s \<longleftrightarrow> 0 \<notin> set s"

lemma strlen_nul: "nonul s \<Longrightarrow> strlen (s @ 0 # r) = Ok (length s)"
  by (induction s) (auto simp: nonul_def)

lemma strlen_OkD: "strlen m = Ok n \<Longrightarrow> \<exists>r. m = take n m @ 0 # r \<and> nonul (take n m) \<and> n < length m"
proof (induction m arbitrary: n)
  case Nil
  then show ?case by simp
next
  case (Cons c m)
  show ?case
  proof (cases "c = 0")
    case True
    then show ?thesis using Cons.prems by (auto simp: nonul_def)
  next
    case False
    then obtain k where "strlen m = Ok k" "n = Suc k"
      using Cons.prems by (auto simp: rmap_eq_Ok)
    then show ?thesis using Cons.IH [of k] False by (auto simp: nonul_def)
  qed
qed

section \<open>strlcpy\<close>

fun strlcpy_copy :: "nat \<Rightarrow> bytes \<Rightarrow> nat \<Rightarrow> bytes \<Rightarrow> nat \<Rightarrow> (nat \<times> bytes \<times> nat \<times> nat) res" where
  "strlcpy_copy 0 dst d src s = Ok (0, dst, d, s)"
| "strlcpy_copy (Suc n) dst d src s =
     (if n = 0 then Ok (0, dst, d, s)
      else if s \<ge> length src \<or> d \<ge> length dst then Fault (Undef ''strlcpy'')
      else let dst = dst[d := src ! s]
           in if src ! s = 0 then Ok (n, dst, d + 1, s + 1)
              else strlcpy_copy n dst (d + 1) src (s + 1))"

fun skip_string :: "bytes \<Rightarrow> nat \<Rightarrow> nat res" where
  "skip_string [] s = Fault (Undef ''strlcpy'')"
| "skip_string (c # cs) s = (if c = 0 then Ok (s + 1) else skip_string cs (s + 1))"

definition strlcpy :: "bytes \<Rightarrow> bytes \<Rightarrow> nat \<Rightarrow> (nat \<times> bytes) res" where
  "strlcpy dst src siz =
     rbind (strlcpy_copy siz dst 0 src 0) (\<lambda>(n, dst, d, s).
       if n = 0
       then rbind (if siz \<noteq> 0 then (if d < length dst then Ok (dst[d := 0]) else Fault (Undef ''strlcpy''))
                   else Ok dst) (\<lambda>dst.
              rbind (skip_string (drop s src) s) (\<lambda>s. Ok (s - 1, dst)))
       else Ok (s - 1, dst))"

section \<open>strlcat\<close>

text \<open>\<^verbatim>\<open>while (n-- != 0 && *d != 0) d++\<close>: the end of the destination, at most \<^verbatim>\<open>siz\<close> bytes on.\<close>

fun strlcat_end :: "nat \<Rightarrow> bytes \<Rightarrow> nat \<Rightarrow> nat res" where
  "strlcat_end 0 dst d = Ok d"
| "strlcat_end (Suc n) dst d =
     (if d \<ge> length dst then Fault (Undef ''strlcat'')
      else if dst ! d \<noteq> 0 then strlcat_end n dst (d + 1) else Ok d)"

fun strlcat_copy :: "nat \<Rightarrow> bytes \<Rightarrow> nat \<Rightarrow> bytes \<Rightarrow> nat \<Rightarrow> (bytes \<times> nat \<times> nat) res" where
  "strlcat_copy n dst d [] s = Fault (Undef ''strlcat'')"
| "strlcat_copy n dst d (c # src) s =
     (if c = 0 then Ok (dst, d, s)
      else if n \<noteq> 1
           then (if d < length dst then strlcat_copy (n - 1) (dst[d := c]) (d + 1) src (s + 1)
                 else Fault (Undef ''strlcat''))
           else strlcat_copy n dst d src (s + 1))"

definition strlcat :: "bytes \<Rightarrow> bytes \<Rightarrow> nat \<Rightarrow> (nat \<times> bytes) res" where
  "strlcat dst src siz =
     rbind (strlcat_end siz dst 0) (\<lambda>dlen.
       if siz - dlen = 0 then rmap (\<lambda>l. (dlen + l, dst)) (strlen src)
       else rbind (strlcat_copy (siz - dlen) dst dlen src 0) (\<lambda>(dst, d, s).
              if d < length dst then Ok (dlen + s, dst[d := 0]) else Fault (Undef ''strlcat'')))"

section \<open>strtonum\<close>

text \<open>
  \<^verbatim>\<open>strtoll (numstr, &ep, 10)\<close> of the C library: white space, an optional sign, decimal digits; the
  value saturates and sets \<^verbatim>\<open>ERANGE\<close>. The result is the value, the end position and whether
  \<^verbatim>\<open>errno\<close> is \<^verbatim>\<open>ERANGE\<close>; with no digits, the end position is 0.
\<close>

definition LLONG_MIN :: int where "LLONG_MIN = - 0x7fffffffffffffff - 1"
definition LLONG_MAX :: int where "LLONG_MAX = 0x7fffffffffffffff"

definition isspace :: "byte \<Rightarrow> bool" where
  "isspace c \<longleftrightarrow> c = 32 \<or> (9 \<le> c \<and> c \<le> 13)"

definition isdigit :: "byte \<Rightarrow> bool" where
  "isdigit c \<longleftrightarrow> 48 \<le> c \<and> c \<le> 57"

definition digits_val :: "bytes \<Rightarrow> int" where
  "digits_val ds = foldl (\<lambda>a d. 10 * a + (uint d - 48)) 0 ds"

definition strtoll :: "bytes \<Rightarrow> int \<times> nat \<times> bool" where
  "strtoll s =
     (let ws = length (takeWhile isspace s);
          t = drop ws s;
          neg = (t \<noteq> [] \<and> hd t = 45);
          sg = (if t \<noteq> [] \<and> (hd t = 45 \<or> hd t = 43) then 1 else 0);
          ds = takeWhile isdigit (drop sg t);
          v = (if neg then - digits_val ds else digits_val ds)
      in if ds = [] then (0, 0, False)
         else if v < LLONG_MIN then (LLONG_MIN, ws + sg + length ds, True)
         else if v > LLONG_MAX then (LLONG_MAX, ws + sg + length ds, True)
         else (v, ws + sg + length ds, False))"

datatype numerr = INVALID | TOOSMALL | TOOLARGE

text \<open>The error string is one of the three of the table \<^verbatim>\<open>sev\<close>; on an error the value is 0. An object that ends before its
  number does is a fault; one without a digit and without a terminator, which the callers never pass, is \<open>INVALID\<close>.\<close>

definition strtonum :: "bytes \<Rightarrow> int \<Rightarrow> int \<Rightarrow> (int \<times> numerr option) res" where
  "strtonum numstr minval maxval =
     (if minval > maxval then Ok (0, Some INVALID)
      else case strtoll numstr of (ll, ep, erange) \<Rightarrow>
        if ep \<ge> length numstr then Fault (Undef ''strtonum'')
        else if ep = 0 \<or> numstr ! ep \<noteq> 0 then Ok (0, Some INVALID)
        else if (ll = LLONG_MIN \<and> erange) \<or> ll < minval then Ok (0, Some TOOSMALL)
        else if (ll = LLONG_MAX \<and> erange) \<or> ll > maxval then Ok (0, Some TOOLARGE)
        else Ok (ll, None))"

section \<open>xstrdup\<close>

definition xstrdup :: "bytes \<Rightarrow> bytes res" where
  "xstrdup s =
     rbind (strlen s) (\<lambda>l. let len = l + 1 in
       rbind (strlcpy (replicate len 0) s len) (\<lambda>(r, cp).
         if r \<ge> len then Fault (Exit ''xstrdup: string truncated'') else Ok cp))"

section \<open>What strlcpy and strlcat leave in memory\<close>

lemma strlcpy_copy_run:
  assumes "nonul xs" "d + n \<le> length dst" "drop s src = xs @ 0 # r" "n \<noteq> 0"
  shows "strlcpy_copy n dst d src s =
    (if length xs < n - 1
     then Ok (n - 1 - length xs, mwrite dst d (xs @ [0]), d + length xs + 1, s + length xs + 1)
     else Ok (0, mwrite dst d (take (n - 1) xs), d + (n - 1), s + (n - 1)))"
  using assms
proof (induction n arbitrary: xs d s dst)
  case 0
  then show ?case by simp
next
  case (Suc n)
  have s: "s < length src" using Suc.prems(3) by (metis append_is_Nil_conv drop_eq_Nil linorder_not_le list.discI)
  show ?case
  proof (cases xs)
    case Nil
    then have "src ! s = 0" using Suc.prems(3) s by (metis append_Nil nth_via_drop)
    then show ?thesis using Suc.prems Nil s by (simp add: list_update_mwrite)
  next
    case (Cons x xs')
    then have c: "src ! s = x" "drop (s + 1) src = xs' @ 0 # r"
      using Suc.prems(3) s by (metis append_Cons nth_via_drop) (metis Cons Suc.prems(3) add.commute append_Cons drop_drop drop_Suc_Cons drop0 plus_1_eq_Suc)
    have x: "x \<noteq> 0" "nonul xs'" using Suc.prems(1) Cons by (auto simp: nonul_def)
    have sp: "mwrite (dst[d := x]) (Suc d) zs = mwrite dst d (x # zs)" if "d < length dst" for zs
      using that mwrite_mwrite_next [of d dst "[x]" zs] by (simp add: list_update_mwrite)
    show ?thesis
      using Suc.prems Cons s c x Suc.IH [of xs' "d + 1" "dst[d := x]" "s + 1"]
      by (cases n) (simp_all add: sp)
  qed
qed

lemma skip_string_run: "nonul xs \<Longrightarrow> skip_string (xs @ 0 # r) s = Ok (s + length xs + 1)"
  by (induction xs arbitrary: s) (auto simp: nonul_def)

lemma strlcpy_spec:
  assumes "nonul xs" "siz \<le> length dst"
  shows "strlcpy dst (xs @ 0 # r) siz =
    Ok (length xs, if siz = 0 then dst else mwrite dst 0 (take (siz - 1) xs @ [0]))"
proof (cases "siz = 0")
  case True
  then show ?thesis using skip_string_run [OF assms(1), of r 0] by (simp add: strlcpy_def)
next
  case False
  then obtain k where siz: "siz = Suc k" by (cases siz) auto
  note run = strlcpy_copy_run [of xs 0 siz dst 0 "xs @ 0 # r" r, unfolded siz]
  show ?thesis
  proof (cases "length xs < k")
    case True
    then show ?thesis using run assms siz by (simp add: strlcpy_def)
  next
    case long: False
    let ?t = "take k xs" and ?u = "drop k xs"
    have len: "length ?t = k" using long by simp
    have "nonul ?u" using assms(1) by (auto simp: nonul_def dest: in_set_dropD)
    then have sk: "skip_string (?u @ 0 # r) k = Ok (length xs + 1)"
      using skip_string_run [of ?u r k] long by simp
    have sp: "(mwrite dst 0 ?t)[k := 0] = mwrite dst 0 (?t @ [0])"
      using assms(2) siz len mwrite_mwrite_next [of 0 dst ?t "[0]"]
      by (simp add: list_update_mwrite)
    show ?thesis
      using run assms siz long len by (simp add: strlcpy_def sk sp)
  qed
qed

lemma strlcat_end_run:
  assumes "nonul ys" "drop d dst = ys @ 0 # t"
  shows "strlcat_end n dst d = Ok (d + min n (length ys))"
  using assms
proof (induction n arbitrary: d ys)
  case 0
  then show ?case by simp
next
  case (Suc n)
  have d: "d < length dst" using Suc.prems(2) by (metis append_is_Nil_conv drop_eq_Nil linorder_not_le list.discI)
  then have c: "drop d dst = dst ! d # drop (Suc d) dst" by (simp add: Cons_nth_drop_Suc)
  show ?case
  proof (cases ys)
    case Nil
    then show ?thesis using Suc.prems c d by simp
  next
    case (Cons y ys')
    then have "dst ! d = y" "drop (Suc d) dst = ys' @ 0 # t" using Suc.prems(2) c by simp_all
    moreover have "y \<noteq> 0" "nonul ys'" using Suc.prems(1) Cons by (auto simp: nonul_def)
    ultimately show ?thesis using d Suc.IH [of ys' "Suc d"] Cons by simp
  qed
qed

lemma strlcat_copy_run:
  assumes "nonul xs" "d + n \<le> length dst" "n \<noteq> 0"
  shows "strlcat_copy n dst d (xs @ 0 # r) s =
    Ok (mwrite dst d (take (n - 1) xs), d + min (n - 1) (length xs), s + length xs)"
  using assms
proof (induction xs arbitrary: n dst d s)
  case Nil
  then show ?case by simp
next
  case (Cons x xs)
  have x: "x \<noteq> 0" "nonul xs" using Cons.prems(1) by (auto simp: nonul_def)
  show ?case
  proof (cases "n = 1")
    case True
    then show ?thesis using Cons.IH [of d 1 dst "s + 1"] Cons.prems x by simp
  next
    case False
    then obtain k where n: "n = Suc (Suc k)" using Cons.prems(3) by (metis One_nat_def not0_implies_Suc)
    have sp: "mwrite (dst[d := x]) (Suc d) zs = mwrite dst d (x # zs)" for zs
      using Cons.prems(2) n mwrite_mwrite_next [of d dst "[x]" zs] by (simp add: list_update_mwrite)
    show ?thesis
      using Cons.IH [of "Suc d" "Suc k" "dst[d := x]" "s + 1"] Cons.prems x n by (simp add: sp)
  qed
qed

lemma strlcat_spec:
  assumes "nonul ys" "nonul xs" "length ys < siz" "siz \<le> length (ys @ 0 # t)"
  shows "strlcat (ys @ 0 # t) (xs @ 0 # r) siz =
    Ok (length ys + length xs,
        mwrite (ys @ 0 # t) (length ys) (take (siz - length ys - 1) xs @ [0]))"
proof -
  let ?dst = "ys @ 0 # t" and ?n = "siz - length ys"
  let ?t = "take (?n - 1) xs"
  have e: "strlcat_end siz ?dst 0 = Ok (length ys)"
    using strlcat_end_run [of ys 0 ?dst t siz] assms(1,3) by simp
  have c: "strlcat_copy ?n ?dst (length ys) (xs @ 0 # r) 0
      = Ok (mwrite ?dst (length ys) ?t, length ys + min (?n - 1) (length xs), length xs)"
    using strlcat_copy_run [OF assms(2), of "length ys" ?n ?dst r 0] assms(3,4) by simp
  have k: "length ys + min (?n - 1) (length xs) < length ?dst" using assms(3,4) by auto
  have "(mwrite ?dst (length ys) ?t)[length ys + min (?n - 1) (length xs) := 0]
      = mwrite ?dst (length ys) (?t @ [0])"
    using mwrite_mwrite_next [of "length ys" ?dst ?t "[0]"] k
    by (simp add: list_update_mwrite min.commute)
  then show ?thesis
    using e c k assms(3) by (simp add: strlcat_def min.commute)
qed

lemma xstrdup_spec: "nonul s \<Longrightarrow> xstrdup (s @ 0 # r) = Ok (cstr s)"
  using strlcpy_spec [of s "length s + 1" "replicate (length s + 1) 0" r]
  by (simp add: xstrdup_def strlen_nul cstr_def mwrite_def)

section \<open>Decimal numerals: printing and strtonum\<close>

text \<open>The conversions \<^verbatim>\<open>%u\<close> and \<^verbatim>\<open>%d\<close> of the \<^verbatim>\<open>printf\<close> family, without padding.\<close>

fun dec_nat :: "nat \<Rightarrow> bytes" where
  "dec_nat n = (if n < 10 then [of_nat (48 + n)] else dec_nat (n div 10) @ [of_nat (48 + n mod 10)])"

declare dec_nat.simps [simp del]

definition dec_int :: "int \<Rightarrow> bytes" where
  "dec_int i = (if i < 0 then 45 # dec_nat (nat (- i)) else dec_nat (nat i))"

lemma digit_props:
  assumes "k < 10"
  shows "isdigit (of_nat (48 + k))" "uint (of_nat (48 + k) :: byte) - 48 = int k"
    "(of_nat (48 + k) :: byte) \<noteq> 0" "\<not> isspace (of_nat (48 + k))"
    "(of_nat (48 + k) :: byte) \<noteq> 45" "(of_nat (48 + k) :: byte) \<noteq> 43" "(of_nat (48 + k) :: byte) \<noteq> 58"
proof -
  have u: "unat (of_nat (48 + k) :: byte) = 48 + k"
    using assms by (simp add: unat_of_nat del: of_nat_add)
  then show "isdigit (of_nat (48 + k))" "(of_nat (48 + k) :: byte) \<noteq> 0" "\<not> isspace (of_nat (48 + k))"
    "(of_nat (48 + k) :: byte) \<noteq> 45" "(of_nat (48 + k) :: byte) \<noteq> 43" "(of_nat (48 + k) :: byte) \<noteq> 58"
    using assms unfolding isdigit_def isspace_def word_le_nat_alt word_unat_eq_iff by simp_all
  show "uint (of_nat (48 + k) :: byte) - 48 = int k" using u by (simp add: uint_nat del: of_nat_add)
qed

lemma dec_nat_digits:
  "d \<in> set (dec_nat n) \<Longrightarrow> \<exists>k < 10. d = of_nat (48 + k)"
proof (induction n rule: dec_nat.induct)
  case (1 n)
  then show ?case
    by (subst (asm) (2) dec_nat.simps) (auto split: if_splits intro: exI [of _ n] exI [of _ "n mod 10"])
qed

lemma dec_nat_nonempty [simp]: "dec_nat n \<noteq> []"
  by (subst dec_nat.simps) simp

lemma digits_val_dec_nat [simp]: "digits_val (dec_nat n) = int n"
proof (induction n rule: dec_nat.induct)
  case (1 n)
  show ?case
  proof (cases "n < 10")
    case True
    then show ?thesis
      using digit_props(2) [of n] by (subst dec_nat.simps) (simp add: digits_val_def)
  next
    case False
    have "n mod 10 < 10" by simp
    moreover have "10 * int (n div 10) + int (n mod 10) = int n" by presburger
    ultimately show ?thesis
      using 1 [OF False] False digit_props(2) [of "n mod 10"]
      by (subst dec_nat.simps) (simp add: digits_val_def)
  qed
qed

lemma nonul_dec_nat: "nonul (dec_nat n)"
  using dec_nat_digits [of 0 n] digit_props(3) by (fastforce simp: nonul_def)

lemma nonul_dec_int: "nonul (dec_int i)"
  using nonul_dec_nat by (auto simp: nonul_def dec_int_def)

lemma takeWhile_dec_nat: "\<not> isdigit c \<Longrightarrow> takeWhile isdigit (dec_nat n @ c # r) = dec_nat n"
  using dec_nat_digits digit_props(1) by (subst takeWhile_append2) fastforce+

lemma strtoll_dec_int:
  assumes "LLONG_MIN \<le> i" "i \<le> LLONG_MAX" "\<not> isdigit c"
  shows "strtoll (dec_int i @ c # r) = (i, length (dec_int i), False)"
proof (cases "i < 0")
  case True
  have "\<not> isspace 45" by (simp add: isspace_def)
  then show ?thesis
    using True assms by (simp add: dec_int_def strtoll_def Let_def takeWhile_dec_nat)
next
  case False
  obtain d ds where d: "dec_nat (nat i) = d # ds" by (cases "dec_nat (nat i)") auto
  then obtain k where k: "k < 10" "d = of_nat (48 + k)" using dec_nat_digits [of d "nat i"] by auto
  have "\<not> isspace d" "d \<noteq> 45" "d \<noteq> 43" using digit_props [OF k(1)] k(2) by simp_all
  moreover have "takeWhile isdigit (d # ds @ c # r) = d # ds" "digits_val (d # ds) = i"
    using takeWhile_dec_nat [OF assms(3), of "nat i" r] digits_val_dec_nat [of "nat i"] False
    by (simp_all add: d)
  ultimately show ?thesis
    using False assms by (simp add: dec_int_def strtoll_def Let_def d)
qed

lemma strtonum_dec_int:
  assumes "LLONG_MIN \<le> lo" "hi \<le> LLONG_MAX" "lo \<le> i" "i \<le> hi"
  shows "strtonum (dec_int i @ 0 # r) lo hi = Ok (i, None)"
proof -
  have "strtoll (dec_int i @ 0 # r) = (i, length (dec_int i), False)"
    using assms by (intro strtoll_dec_int) (auto simp: isdigit_def)
  moreover have "length (dec_int i) \<noteq> 0" by (simp add: dec_int_def)
  ultimately show ?thesis using assms by (simp add: strtonum_def)
qed

lemma strtonum_range:
  "strtonum s lo hi = Ok (v, None) \<Longrightarrow> lo \<le> v \<and> v \<le> hi"
  by (auto simp: strtonum_def split: if_splits prod.splits)

lemma strtoll_end: "strtoll s = (v, ep, e) \<Longrightarrow> 0 \<notin> set (take ep s)"
proof -
  assume s: "strtoll s = (v, ep, e)"
  let ?ws = "takeWhile isspace s" let ?t = "drop (length ?ws) s"
  let ?sg = "if ?t \<noteq> [] \<and> (hd ?t = 45 \<or> hd ?t = 43) then 1 else 0 :: nat"
  let ?ds = "takeWhile isdigit (drop ?sg ?t)"
  have nz: "0 \<notin> set ?ws" "0 \<notin> set ?ds"
    by (auto dest: set_takeWhileD simp: isspace_def isdigit_def)
  have sg: "0 \<notin> set (take ?sg ?t)"
    by (cases ?t) auto
  have ds: "take (length ?ds) (drop ?sg ?t) = ?ds"
    by (metis append_eq_conv_conj takeWhile_dropWhile_id)
  have "take (length ?ws + ?sg + length ?ds) s = ?ws @ take ?sg ?t @ ?ds"
    using ds by (simp only: take_add drop_drop add.commute [of ?sg] append.assoc)
      (simp add: takeWhile_eq_take [symmetric] add.commute)
  moreover have "ep = 0 \<or> ep = length ?ws + ?sg + length ?ds"
    using s unfolding strtoll_def Let_def by (auto split: if_splits)
  ultimately show ?thesis using nz sg by auto
qed

lemma strtonum_safe:
  assumes "0 \<in> set s"
  shows "\<exists>r. strtonum s lo hi = Ok r"
proof -
  obtain v ep e where st: "strtoll s = (v, ep, e)" by (cases "strtoll s")
  then have "ep < length s" using strtoll_end [OF st] assms by (metis linorder_not_le take_all)
  then show ?thesis using st by (simp add: strtonum_def)
qed

section \<open>Properties\<close>

text \<open>
  \<^verbatim>\<open>strlcpy\<close> on a destination of at least \<open>siz\<close> bytes never leaves it: it returns the length of the
  source, writes the longest prefix that fits together with a terminator, and touches nothing when
  \<open>siz\<close> is 0.
\<close>

theorem strlcpy_correct:
  assumes "nonul s" "siz \<le> length dst"
  shows "strlcpy dst (s @ 0 # r) siz =
    Ok (length s, if siz = 0 then dst else mwrite dst 0 (take (siz - 1) s @ [0]))"
  using assms by (rule strlcpy_spec)

theorem strlcpy_correct_witness:
  "strlcpy [9, 9, 9, 9] (str ''abcde'' @ 0 # [1]) 3 = Ok (5, [97, 98, 0, 9])"
  using strlcpy_correct [of "str ''abcde''" 3 "[9, 9, 9, 9]" "[1]"] by (simp add: nonul_def mwrite_def)

text \<open>
  \<^verbatim>\<open>strlcat\<close> on a destination of at least \<open>siz\<close> bytes that holds a string shorter than \<open>siz\<close>:
  it returns the length the full concatenation would have, appends the longest prefix of the source
  that fits, and terminates the result inside \<open>siz\<close> bytes.
\<close>

theorem strlcat_correct:
  assumes "nonul d" "nonul s" "length d < siz" "siz \<le> length (d @ 0 # t)"
  shows "strlcat (d @ 0 # t) (s @ 0 # r) siz =
    Ok (length d + length s, mwrite (d @ 0 # t) (length d) (take (siz - length d - 1) s @ [0]))"
  using assms by (rule strlcat_spec)

theorem strlcat_correct_witness:
  "strlcat (str ''ab'' @ 0 # [9, 9]) (str ''xyz'' @ 0 # []) 5 = Ok (5, [97, 98, 120, 121, 0])"
  using strlcat_correct [of "str ''ab''" "str ''xyz''" 5 "[9, 9]" "[]"]
  by (simp add: nonul_def mwrite_def)

text \<open>
  (C34) \<^verbatim>\<open>strtonum\<close> reads back every number of its range from its decimal print, and a value it accepts
  always lies in the range asked for.
\<close>

theorem strtonum_roundtrip:
  assumes "LLONG_MIN \<le> lo" "hi \<le> LLONG_MAX"
  shows "(lo \<le> i \<and> i \<le> hi \<longrightarrow> strtonum (dec_int i @ 0 # r) lo hi = Ok (i, None))
    \<and> (strtonum s lo hi = Ok (v, None) \<longrightarrow> lo \<le> v \<and> v \<le> hi)"
  using assms strtonum_dec_int [of lo hi i r] strtonum_range [of s lo hi v] by blast

theorem strtonum_roundtrip_witness:
  "strtonum (dec_int (-12) @ 0 # [5]) (-20) 65535 = Ok (-12, None)"
  using strtonum_roundtrip [of "-20" 65535 "-12" "[5]"] by (simp add: LLONG_MIN_def LLONG_MAX_def)

end
