(* ===== verification/Buf.thy ===== *)
theory Buf
  imports Prelude
begin

text \<open>
  The byte buffers of \<^verbatim>\<open>buf.c\<close>: allocation, loading a file, \<^verbatim>\<open>buf_set\<close> and \<^verbatim>\<open>buf_grow\<close>, the reading
  position that the bencode lexer moves with \<^verbatim>\<open>buf_getc\<close> and \<^verbatim>\<open>buf_ungetc\<close>, and the write loop. The
  pointer \<^verbatim>\<open>cb_cur\<close> is its offset from \<^verbatim>\<open>cb_buf\<close>; a NULL \<^verbatim>\<open>cb_buf\<close> is the empty object. The locale
  \<open>char_source\<close> is the contract the lexer relies on.
\<close>

section \<open>The structure and its operations\<close>

record buf =
  cb_flags :: u32
  cb_buf :: bytes
  cb_size :: nat
  cb_cur :: nat
  cb_len :: nat
  cb_pos :: nat

definition BUF_AUTOEXT :: u32 where "BUF_AUTOEXT = 1"

definition SIZE_LEFT :: "buf \<Rightarrow> nat" where
  "SIZE_LEFT b = cb_size b - cb_cur b - cb_len b"

definition buf_alloc :: "nat \<Rightarrow> u32 \<Rightarrow> buf" where
  "buf_alloc len flags =
     \<lparr>cb_flags = flags, cb_buf = replicate len 0, cb_size = len, cb_cur = 0, cb_len = 0, cb_pos = 0\<rparr>"

text \<open>
  \<^verbatim>\<open>buf_load\<close>: the file system answers \<^verbatim>\<open>open\<close> (NULL is returned when it fails) and then each
  \<^verbatim>\<open>read\<close>, with the bytes delivered or an error; an empty answer is the end of the file. The list
  runs out when the answers given so far do not decide the result.
\<close>

datatype read_answer = Bytes bytes | Read_error

fun buf_load_loop :: "buf \<Rightarrow> nat \<Rightarrow> read_answer list \<Rightarrow> buf res option" where
  "buf_load_loop b bp [] = None"
| "buf_load_loop b bp (Read_error # as) = Some (Fault (Exit ''buf_load''))"
| "buf_load_loop b bp (Bytes d # as) =
     (if d = [] then Some (Ok b)
      else if length d > SIZE_LEFT b \<or> bp + length d > length (cb_buf b)
      then Some (Fault (Undef ''read''))
      else buf_load_loop (b\<lparr>cb_buf := mwrite (cb_buf b) bp d, cb_len := cb_len b + length d\<rparr>)
             (bp + length d) as)"

definition buf_load :: "nat option \<Rightarrow> u32 \<Rightarrow> read_answer list \<Rightarrow> buf option res option" where
  "buf_load st_size flags answers =
     (case st_size of
        None \<Rightarrow> Some (Ok None)
      | Some sz \<Rightarrow> (let b = buf_alloc sz flags in
          map_option (rmap Some) (buf_load_loop b (cb_cur b) answers)))"

definition buf_release :: "buf \<Rightarrow> bytes" where
  "buf_release b = cb_buf b"

text \<open>The new bytes are zero here; \<^verbatim>\<open>xrealloc\<close> leaves them uninitialised.\<close>

definition buf_grow :: "buf \<Rightarrow> nat \<Rightarrow> buf" where
  "buf_grow b len =
     (let diff = cb_cur b; tmp = cb_buf b @ replicate len 0
      in b\<lparr>cb_buf := tmp, cb_size := cb_size b + len, cb_cur := diff\<rparr>)"

definition buf_set :: "buf \<Rightarrow> bytes \<Rightarrow> nat \<Rightarrow> nat \<Rightarrow> (nat \<times> buf) res" where
  "buf_set b src len off =
     (let (b, rlen) =
        (if cb_size b < len + off
         then if cb_flags b AND BUF_AUTOEXT \<noteq> 0
              then (buf_grow b (len + off - cb_size b), len + off)
              else (b, if off \<le> cb_size b then cb_size b - off else 2 ^ 64 - (off - cb_size b))
         else (b, len));
        b = b\<lparr>cb_len := rlen\<rparr>
      in if rlen > length src \<or> off + rlen > length (cb_buf b) then Fault (Undef ''memcpy'')
         else let b = b\<lparr>cb_buf := mwrite (cb_buf b) off (take rlen src)\<rparr>;
                  b = (if cb_len b = 0 then b\<lparr>cb_cur := off, cb_len := rlen\<rparr> else b)
              in Ok (rlen, b))"

definition buf_getc :: "buf \<Rightarrow> (byte option \<times> buf) res" where
  "buf_getc b =
     (if cb_pos b < cb_len b
      then if cb_cur b + cb_pos b < length (cb_buf b)
           then Ok (Some (cb_buf b ! (cb_cur b + cb_pos b)), b\<lparr>cb_pos := cb_pos b + 1\<rparr>)
           else Fault (Undef ''buf_getc'')
      else Ok (None, b))"

definition buf_ungetc :: "buf \<Rightarrow> buf" where
  "buf_ungetc b =
     (if cb_len b > 0 then b\<lparr>cb_pos := (if cb_pos b = 0 then 2 ^ 64 - 1 else cb_pos b - 1)\<rparr> else b)"

definition buf_len :: "buf \<Rightarrow> nat" where "buf_len b = cb_len b"
definition buf_pos :: "buf \<Rightarrow> nat" where "buf_pos b = cb_pos b"

text \<open>
  \<^verbatim>\<open>buf_write_fd\<close>: the kernel answers each \<^verbatim>\<open>write\<close> with the number of bytes taken or an error; after
  \<^verbatim>\<open>EINTR\<close> or \<^verbatim>\<open>EAGAIN\<close>, \<^verbatim>\<open>continue\<close> goes to the loop's test, so the loop ends if no byte is left.
  The result is the return value with the bytes the descriptor received.
\<close>

datatype write_answer = Wrote nat | Retry | Write_error

fun write_loop :: "bytes \<Rightarrow> bytes \<Rightarrow> write_answer list \<Rightarrow> (int \<times> bytes) option" where
  "write_loop bp out [] = None"
| "write_loop bp out (Write_error # as) = Some (-1, out)"
| "write_loop bp out (Retry # as) =
     (if bp \<noteq> [] then write_loop bp out as else Some (0, out))"
| "write_loop bp out (Wrote k # as) =
     (let bp' = drop k bp; out' = out @ take k bp
      in if bp' \<noteq> [] then write_loop bp' out' as else Some (0, out'))"

definition buf_write_fd :: "buf \<Rightarrow> write_answer list \<Rightarrow> (int \<times> bytes) option" where
  "buf_write_fd b answers = write_loop (mread (cb_buf b) (cb_cur b) (cb_len b)) [] answers"

section \<open>Well-formed buffers\<close>

definition buf_ok :: "buf \<Rightarrow> bool" where
  "buf_ok b \<longleftrightarrow> length (cb_buf b) = cb_size b \<and> cb_cur b + cb_len b \<le> cb_size b \<and> cb_size b < 2 ^ 64
     \<and> cb_pos b \<le> cb_len b"

text \<open>The bytes in use, and those still to be read.\<close>

definition buf_data :: "buf \<Rightarrow> bytes" where
  "buf_data b = mread (cb_buf b) (cb_cur b) (cb_len b)"

definition buf_rest :: "buf \<Rightarrow> bytes" where
  "buf_rest b = drop (cb_pos b) (buf_data b)"

lemma length_buf_data: "buf_ok b \<Longrightarrow> length (buf_data b) = cb_len b"
  by (simp add: buf_ok_def buf_data_def)

lemma buf_alloc_ok: "len < 2 ^ 64 \<Longrightarrow> buf_ok (buf_alloc len flags)"
  by (simp add: buf_ok_def buf_alloc_def)

lemma buf_grow_ok: "buf_ok b \<Longrightarrow> cb_size b + n < 2 ^ 64 \<Longrightarrow> buf_ok (buf_grow b n)"
  by (simp add: buf_ok_def buf_grow_def Let_def)

lemma buf_grow_data: "buf_ok b \<Longrightarrow> buf_data (buf_grow b n) = buf_data b"
  by (simp add: buf_ok_def buf_grow_def buf_data_def Let_def mread_append_left)

lemma buf_load_loop_data:
  assumes "buf_ok b" "cb_cur b = 0" "cb_len b = bp" "cb_pos b = 0"
    and "cb_len b + sum_list (map length ds) \<le> cb_size b" "\<forall>d \<in> set ds. d \<noteq> []"
  shows "\<exists>b'. buf_load_loop b bp (map Bytes ds @ Bytes [] # as) = Some (Ok b')
    \<and> buf_ok b' \<and> buf_data b' = buf_data b @ concat ds \<and> cb_pos b' = 0 \<and> cb_cur b' = 0
    \<and> cb_size b' = cb_size b"
  using assms
proof (induction ds arbitrary: b bp)
  case Nil
  then show ?case by simp
next
  case (Cons d ds)
  let ?b = "b\<lparr>cb_buf := mwrite (cb_buf b) bp d, cb_len := cb_len b + length d\<rparr>"
  have len: "length (cb_buf b) = cb_size b" "bp + length d \<le> cb_size b"
    using Cons.prems by (simp_all add: buf_ok_def)
  have data: "buf_data ?b = buf_data b @ d"
    using Cons.prems(2,3) len by (simp add: buf_data_def mread_def mwrite_def)
  have ok: "buf_ok ?b" using Cons.prems len by (simp add: buf_ok_def)
  obtain b' where "buf_load_loop ?b (bp + length d) (map Bytes ds @ Bytes [] # as) = Some (Ok b')"
    "buf_ok b'" "buf_data b' = buf_data ?b @ concat ds" "cb_pos b' = 0" "cb_cur b' = 0"
    "cb_size b' = cb_size ?b"
    using Cons.IH [of ?b "bp + length d"] ok Cons.prems by auto
  then show ?case using Cons.prems len data by (auto simp: SIZE_LEFT_def)
qed

section \<open>The contract of a character source\<close>

locale char_source =
  fixes getc :: "'s \<Rightarrow> (byte option \<times> 's) res"
    and ungetc :: "'s \<Rightarrow> 's"
    and pos :: "'s \<Rightarrow> nat"
    and rest :: "'s \<Rightarrow> bytes"
    and invar :: "'s \<Rightarrow> bool"
  assumes getc_eof: "invar s \<Longrightarrow> rest s = [] \<Longrightarrow> getc s = Ok (None, s)"
    and getc_next: "invar s \<Longrightarrow> rest s = c # r \<Longrightarrow>
      \<exists>s'. getc s = Ok (Some c, s') \<and> rest s' = r \<and> pos s' = pos s + 1 \<and> invar s' \<and> ungetc s' = s"
begin

text \<open>A source whose rest starts with a string delivers it, one character at a time.\<close>

fun getcs :: "nat \<Rightarrow> 's \<Rightarrow> (bytes \<times> 's) res" where
  "getcs 0 s = Ok ([], s)"
| "getcs (Suc n) s = rbind (getc s) (\<lambda>(c, s).
     case c of None \<Rightarrow> Ok ([], s) | Some c \<Rightarrow> rmap (\<lambda>(cs, s). (c # cs, s)) (getcs n s))"

lemma getcs_prefix:
  "invar s \<Longrightarrow> rest s = cs @ r \<Longrightarrow>
   \<exists>s'. getcs (length cs) s = Ok (cs, s') \<and> rest s' = r \<and> pos s' = pos s + length cs \<and> invar s'"
proof (induction cs arbitrary: s)
  case Nil
  then show ?case by simp
next
  case (Cons c cs)
  then obtain s1 where s1: "getc s = Ok (Some c, s1)" "rest s1 = cs @ r" "pos s1 = pos s + 1" "invar s1"
    using getc_next [of s c "cs @ r"] by auto
  then obtain s' where "getcs (length cs) s1 = Ok (cs, s')" "rest s' = r"
    "pos s' = pos s1 + length cs" "invar s'"
    using Cons.IH by blast
  with s1 show ?case by simp
qed

end

lemma buf_rest_Cons:
  assumes "buf_ok b" "buf_rest b = c # r"
  shows "cb_pos b < cb_len b" "cb_buf b ! (cb_cur b + cb_pos b) = c"
proof -
  show lt: "cb_pos b < cb_len b"
    using assms length_buf_data [OF assms(1)] by (metis buf_rest_def drop_eq_Nil list.discI not_less)
  have "c = buf_data b ! cb_pos b"
    using assms by (metis buf_rest_def nth_via_drop)
  then show "cb_buf b ! (cb_cur b + cb_pos b) = c"
    using lt assms(1) by (simp add: buf_data_def mread_def buf_ok_def)
qed

interpretation src: char_source buf_getc buf_ungetc buf_pos buf_rest buf_ok
proof
  fix b
  assume "buf_ok b" "buf_rest b = []"
  then have "\<not> cb_pos b < cb_len b" using length_buf_data [of b] by (simp add: buf_rest_def)
  then show "buf_getc b = Ok (None, b)" by (simp add: buf_getc_def)
next
  fix b c r
  assume ok: "buf_ok b" and rest: "buf_rest b = c # r"
  let ?b = "b\<lparr>cb_pos := cb_pos b + 1\<rparr>"
  have lt: "cb_pos b < cb_len b" and ch: "cb_buf b ! (cb_cur b + cb_pos b) = c"
    using buf_rest_Cons [OF ok rest] by simp_all
  have "buf_getc b = Ok (Some c, ?b)"
    using lt ch ok by (simp add: buf_getc_def buf_ok_def)
  moreover have "buf_rest ?b = r"
    using rest by (simp add: buf_rest_def buf_data_def drop_Suc [symmetric] flip: tl_drop)
      (metis drop_Suc list.sel(3) tl_drop)
  moreover have "buf_ungetc ?b = b"
    using lt ok by (simp add: buf_ungetc_def buf_ok_def)
  moreover have "buf_ok ?b" using lt ok by (simp add: buf_ok_def)
  ultimately show "\<exists>s'. buf_getc b = Ok (Some c, s') \<and> buf_rest s' = r
      \<and> buf_pos s' = buf_pos b + 1 \<and> buf_ok s' \<and> buf_ungetc s' = b"
    by (auto simp: buf_pos_def)
qed

section \<open>Properties\<close>

lemma write_loop_complete:
  "write_loop bp out as = Some (0, out') \<Longrightarrow> out' = out @ bp"
proof (induction bp out as rule: write_loop.induct)
  case (4 bp out k as)
  then show ?case by (auto simp: Let_def split: if_splits)
qed (auto split: if_splits)

lemma buf_load_run:
  assumes "sz < 2 ^ 64" "length (concat ds) \<le> sz" "\<forall>d \<in> set ds. d \<noteq> []"
  shows "\<exists>b. buf_load (Some sz) fl (map Bytes ds @ Bytes [] # as) = Some (Ok (Some b))
    \<and> buf_ok b \<and> buf_data b = concat ds \<and> buf_pos b = 0 \<and> cb_size b = sz"
proof -
  let ?b = "buf_alloc sz fl"
  have "\<exists>b'. buf_load_loop ?b 0 (map Bytes ds @ Bytes [] # as) = Some (Ok b')
    \<and> buf_ok b' \<and> buf_data b' = buf_data ?b @ concat ds \<and> cb_pos b' = 0 \<and> cb_cur b' = 0
    \<and> cb_size b' = cb_size ?b"
    using assms buf_alloc_ok [OF assms(1)]
    by (intro buf_load_loop_data) (simp_all add: buf_alloc_def length_concat)
  then show ?thesis
    by (auto simp: buf_load_def Let_def buf_alloc_def buf_data_def buf_pos_def)
qed

text \<open>
  \<^verbatim>\<open>buf_load\<close> returns a buffer that holds exactly the bytes the file delivers, in order and whatever
  the sizes of the partial reads, with the reading position at the start, provided the reads deliver
  no more than the size \<^verbatim>\<open>fstat\<close> reported.
\<close>

theorem buf_load_contents:
  assumes "sz < 2 ^ 64" "length (concat ds) \<le> sz" "\<forall>d \<in> set ds. d \<noteq> []"
  shows "\<exists>b. buf_load (Some sz) fl (map Bytes ds @ Bytes [] # as) = Some (Ok (Some b))
    \<and> buf_ok b \<and> buf_data b = concat ds \<and> buf_pos b = 0 \<and> cb_size b = sz"
  using assms by (rule buf_load_run)

theorem buf_load_contents_witness:
  "\<exists>b. buf_load (Some 8) BUF_AUTOEXT (map Bytes [[1, 2, 3], [4]] @ Bytes [] # []) = Some (Ok (Some b))
    \<and> buf_ok b \<and> buf_data b = [1, 2, 3, 4] \<and> buf_pos b = 0 \<and> cb_size b = 8"
  using buf_load_contents [of 8 "[[1, 2, 3], [4]]" BUF_AUTOEXT "[]"] by simp

text \<open>
  \<^verbatim>\<open>buf_write_fd\<close> reports success only when the descriptor has received every byte of the buffer, in
  order, whatever short writes and interruptions came before.
\<close>

theorem buf_write_fd_complete:
  assumes "buf_write_fd b as = Some (0, out)"
  shows "out = buf_data b"
  using write_loop_complete [of "buf_data b" "[]" as out] assms
  by (simp add: buf_write_fd_def buf_data_def)

theorem buf_write_fd_complete_witness:
  "buf_data \<lparr>cb_flags = 0, cb_buf = [7, 8, 9, 0], cb_size = 4, cb_cur = 0, cb_len = 3, cb_pos = 0\<rparr> = [7, 8, 9]"
  using buf_write_fd_complete
    [of "\<lparr>cb_flags = 0, cb_buf = [7, 8, 9, 0], cb_size = 4, cb_cur = 0, cb_len = 3, cb_pos = 0\<rparr>"
       "[Retry, Wrote 1, Retry, Wrote 2]" "[7, 8, 9]"]
  by (simp add: buf_write_fd_def mread_def)

end
