(* ===== verification/Bencode.thy ===== *)
theory Bencode
  imports Cstring Buf "HOL-Library.Multiset"
begin

text \<open>
  The bencode trees of \<^verbatim>\<open>bencode.c\<close>: nodes as the structure \<^verbatim>\<open>benc_node\<close> has them (flag word, union,
  queue of children, end offset), the operations that build, search, print and free a tree, and the
  proof that the search is the first match of a depth-first listing of the dictionary entries.
\<close>

section \<open>Nodes\<close>

definition BSTRING :: u32 where "BSTRING = 1"
definition BINT :: u32 where "BINT = 2"
definition BDICT :: u32 where "BDICT = 4"
definition BLIST :: u32 where "BLIST = 8"
definition BDICT_ENTRY :: u32 where "BDICT_ENTRY = 16"

lemmas bflag_defs = BSTRING_def BINT_def BDICT_def BLIST_def BDICT_ENTRY_def

text \<open>
  \<open>Zero\<close> is the union after \<^verbatim>\<open>memset\<close>. Strings and keys are the memory objects the pointers refer to.
\<close>

datatype benc_node = Benc_node (nflags: u32) (nbody: benc_body) (nchildren: "benc_node list") (nend: nat)
  and benc_body = Zero | Number int | Bytestring bytes nat | Entry bytes benc_node

definition IS_CONTAINER_TYPE :: "benc_node \<Rightarrow> bool" where
  "IS_CONTAINER_TYPE x \<longleftrightarrow> nflags x AND BDICT \<noteq> 0 \<or> nflags x AND BLIST \<noteq> 0"

definition benc_node_add :: "benc_node \<Rightarrow> benc_node \<Rightarrow> benc_node" where
  "benc_node_add node new =
     Benc_node (nflags node) (nbody node) (nchildren node @ [new]) (nend node)"

definition benc_node_add_head :: "benc_node \<Rightarrow> benc_node \<Rightarrow> benc_node" where
  "benc_node_add_head node new =
     Benc_node (nflags node) (nbody node) (new # nchildren node) (nend node)"

definition benc_node_create :: benc_node where
  "benc_node_create = Benc_node 0 Zero [] 0"

definition set_flags :: "u32 \<Rightarrow> benc_node \<Rightarrow> benc_node" where
  "set_flags f node = Benc_node f (nbody node) (nchildren node) (nend node)"

definition set_body :: "benc_body \<Rightarrow> benc_node \<Rightarrow> benc_node" where
  "set_body u node = Benc_node (nflags node) u (nchildren node) (nend node)"

definition set_end :: "nat \<Rightarrow> benc_node \<Rightarrow> benc_node" where
  "set_end n node = Benc_node (nflags node) (nbody node) (nchildren node) n"

definition benc_root_create :: benc_node where
  "benc_root_create = set_flags BLIST benc_node_create"

section \<open>Search\<close>

text \<open>\<^verbatim>\<open>strcmp (s, t) == 0\<close> on two objects; running off an object before a NUL is undefined.\<close>

fun streq :: "bytes \<Rightarrow> bytes \<Rightarrow> bool res" where
  "streq (a # s) (b # t) = (if a \<noteq> b then Ok False else if a = 0 then Ok True else streq s t)"
| "streq _ _ = Fault (Undef ''strcmp'')"

text \<open>
  The three tests of the code in their order: the key of an entry, the children of an entry's value,
  the children of the node. The members of the union are read only when the flag says they are there;
  reading \<^verbatim>\<open>dict_entry\<close> of a union that holds something else is undefined.
\<close>

fun benc_node_find :: "benc_node \<Rightarrow> bytes \<Rightarrow> benc_node option res"
  and find_children :: "benc_node list \<Rightarrow> bytes \<Rightarrow> benc_node option res" where
  "benc_node_find (Benc_node f u cs e) key =
     (let container = (f AND BDICT \<noteq> 0 \<or> f AND BLIST \<noteq> 0);
          own = (if container then find_children cs key else Ok None)
      in if f AND BDICT_ENTRY \<noteq> 0
         then case u of
                Entry k (Benc_node vf vu vcs ve) \<Rightarrow>
                  rbind (streq key k) (\<lambda>eq.
                    if eq then Ok (Some (Benc_node vf vu vcs ve))
                    else rbind (if container then find_children vcs key else Ok None) (\<lambda>r.
                      case r of Some x \<Rightarrow> Ok (Some x) | None \<Rightarrow> own))
              | _ \<Rightarrow> Fault (Undef ''benc_node_find'')
         else own)"
| "find_children [] key = Ok None"
| "find_children (c # cs) key =
     rbind (benc_node_find c key) (\<lambda>r. case r of Some x \<Rightarrow> Ok (Some x) | None \<Rightarrow> find_children cs key)"

section \<open>Printing and freeing\<close>

text \<open>\<^verbatim>\<open>printf ("%s")\<close>: the bytes of the object up to its first NUL.\<close>

definition print_s :: "bytes \<Rightarrow> bytes res" where
  "print_s m = rmap (\<lambda>n. take n m) (strlen m)"

fun benc_node_print :: "benc_node \<Rightarrow> nat \<Rightarrow> bytes res"
  and print_children :: "benc_node list \<Rightarrow> nat \<Rightarrow> bytes res" where
  "benc_node_print (Benc_node f u cs e) level =
     rbind
       (if f AND BDICT_ENTRY \<noteq> 0
        then (case u of Entry k v \<Rightarrow>
                rbind (print_s k) (\<lambda>k. rmap (\<lambda>v. str ''key: '' @ k @ v) (benc_node_print v level))
              | _ \<Rightarrow> Fault (Undef ''benc_node_print''))
        else if f AND BSTRING \<noteq> 0
        then (case u of Bytestring v l \<Rightarrow>
                rmap (\<lambda>s. str ''string len: '' @ dec_nat l @ str '' value: '' @ s @ [10]) (print_s v)
              | _ \<Rightarrow> Fault (Undef ''benc_node_print''))
        else if f AND BINT \<noteq> 0
        then (case u of Number n \<Rightarrow> Ok (str ''int value: '' @ dec_int n @ [10])
              | _ \<Rightarrow> Fault (Undef ''benc_node_print''))
        else Ok []) (\<lambda>body.
     rbind (if f AND BLIST \<noteq> 0
            then rmap (\<lambda>o1. str ''blist'' @ [10] @ o1) (print_children cs (level + 1)) else Ok []) (\<lambda>l.
     rbind (if f AND BDICT \<noteq> 0
            then rmap (\<lambda>o1. str ''bdict, end: '' @ dec_nat e @ [10] @ o1) (print_children cs (level + 1))
            else Ok []) (\<lambda>d.
     Ok (replicate level 9 @ body @ l @ d))))"
| "print_children [] level = Ok []"
| "print_children (c # cs) level =
     rbind (benc_node_print c level) (\<lambda>o1. rmap (\<lambda>o2. o1 @ o2) (print_children cs level))"

text \<open>
  \<^verbatim>\<open>benc_node_freeall\<close>: the objects freed, in order. \<open>N\<close> stands for the node structures and \<open>S\<close> for
  the strings; a tree uses each object once.
\<close>

datatype freed = S bytes | N benc_node

fun benc_node_freeall :: "benc_node \<Rightarrow> freed list res"
  and free_children :: "benc_node list \<Rightarrow> freed list res" where
  "benc_node_freeall (Benc_node f u cs e) =
     rbind
       (if f AND BDICT_ENTRY \<noteq> 0
        then (case u of Entry k v \<Rightarrow> rmap (\<lambda>fs. S k # fs) (benc_node_freeall v)
              | _ \<Rightarrow> Fault (Undef ''benc_node_freeall''))
        else if f AND BSTRING \<noteq> 0
        then (case u of Bytestring v l \<Rightarrow> Ok [S v] | _ \<Rightarrow> Fault (Undef ''benc_node_freeall''))
        else Ok []) (\<lambda>fs.
     rbind (if f AND BDICT \<noteq> 0 \<or> f AND BLIST \<noteq> 0 then free_children cs else Ok []) (\<lambda>gs.
     Ok (fs @ gs @ [N (Benc_node f u cs e)])))"
| "free_children [] = Ok []"
| "free_children (c # cs) =
     rbind (benc_node_freeall c) (\<lambda>fs. rmap (\<lambda>gs. fs @ gs) (free_children cs))"

section \<open>Well-formed trees\<close>

text \<open>
  The trees the parser builds: the flag of a node says which member of the union is valid, an entry
  carries the flag of its value, entries occur as the children of dictionaries and nowhere else.
\<close>

definition is_entry :: "benc_node \<Rightarrow> bool" where
  "is_entry n \<longleftrightarrow> (\<exists>k v. nbody n = Entry k v)"

fun wf_node :: "benc_node \<Rightarrow> bool" and wf_body :: "u32 \<Rightarrow> benc_body \<Rightarrow> bool" where
  "wf_node (Benc_node f u cs e) \<longleftrightarrow> wf_body f u
     \<and> (if u = Zero then (\<forall>c \<in> set cs. wf_node c \<and> (is_entry c \<longleftrightarrow> f = BDICT)) else cs = [])"
| "wf_body f Zero \<longleftrightarrow> f = BLIST \<or> f = BDICT"
| "wf_body f (Number i) \<longleftrightarrow> f = BINT"
| "wf_body f (Bytestring v l) \<longleftrightarrow> f = BSTRING"
| "wf_body f (Entry k v) \<longleftrightarrow> f = nflags v OR BDICT_ENTRY \<and> wf_node v \<and> \<not> is_entry v"

lemma wf_plain_flags:
  assumes "wf_node v" "\<not> is_entry v"
  shows "nflags v \<in> {BSTRING, BINT, BDICT, BLIST}"
  using assms by (cases v; cases "nbody v") (auto simp: is_entry_def)

lemma entry_flag_tests [simp]:
  "BLIST AND BDICT_ENTRY = 0" "BDICT AND BDICT_ENTRY = 0" "BINT AND BDICT_ENTRY = 0"
  "BSTRING AND BDICT_ENTRY = 0" "BDICT_ENTRY \<noteq> 0"
  "(f OR BDICT_ENTRY) AND BDICT = f AND BDICT" "(f OR BDICT_ENTRY) AND BLIST = f AND BLIST"
  "(f OR BDICT_ENTRY) AND BSTRING = f AND BSTRING" "(f OR BDICT_ENTRY) AND BINT = f AND BINT"
  by (simp_all add: bflag_defs bit.conj_disj_distrib2)

lemma flags_distinct [simp]: "BLIST \<noteq> BDICT" "BDICT \<noteq> BLIST"
  by (simp_all add: bflag_defs)

text \<open>The entries below a node, depth first, as the search meets them.\<close>

fun entries :: "benc_node \<Rightarrow> (bytes \<times> benc_node) list" and body_entries :: "benc_body \<Rightarrow> (bytes \<times> benc_node) list" where
  "entries (Benc_node f u cs e) = body_entries u @ concat (map entries cs)"
| "body_entries (Entry k v) = (k, v) # entries v"
| "body_entries _ = []"

text \<open>The string an object holds, and objects that are terminated.\<close>

definition strof :: "bytes \<Rightarrow> bytes" where
  "strof m = takeWhile (\<lambda>c. c \<noteq> 0) m"

definition terminated :: "bytes \<Rightarrow> bool" where
  "terminated m \<longleftrightarrow> 0 \<in> set m"

lemma streq_strof: "terminated s \<Longrightarrow> terminated t \<Longrightarrow> streq s t = Ok (strof s = strof t)"
  by (induction s t rule: streq.induct) (auto simp: terminated_def strof_def)

lemma strof_cstr [simp]: "nonul s \<Longrightarrow> strof (cstr s) = s"
  by (auto simp: strof_def cstr_def nonul_def takeWhile_append)

lemma terminated_cstr [simp]: "terminated (cstr s)"
  by (simp add: terminated_def cstr_def)

definition lookup_first :: "(bytes \<times> benc_node) list \<Rightarrow> bytes \<Rightarrow> benc_node option" where
  "lookup_first es key = map_of (map (\<lambda>(k, v). (strof k, v)) es) key"

lemma lookup_first_simps [simp]:
  "lookup_first [] key = None"
  "lookup_first ((k, v) # es) key = (if strof k = key then Some v else lookup_first es key)"
  "lookup_first (es @ fs) key =
     (case lookup_first es key of Some v \<Rightarrow> Some v | None \<Rightarrow> lookup_first fs key)"
  by (simp_all add: lookup_first_def map_add_def split: option.splits)

definition keys_ok :: "benc_node \<Rightarrow> bool" where
  "keys_ok n \<longleftrightarrow> (\<forall>(k, v) \<in> set (entries n). terminated k)"

lemma wf_container:
  assumes "wf_node (Benc_node f u cs e)" "\<not> is_entry (Benc_node f u cs e)"
  shows "f AND BDICT_ENTRY = 0" "body_entries u = []"
    and "(f AND BDICT \<noteq> 0 \<or> f AND BLIST \<noteq> 0) = (u = Zero)"
  using assms by (cases u; auto simp: is_entry_def bflag_defs)+

lemma find_plain:
  assumes "wf_node (Benc_node f u cs e)" "\<not> is_entry (Benc_node f u cs e)"
  shows "benc_node_find (Benc_node f u cs e) key = (if u = Zero then find_children cs key else Ok None)"
    and "u \<noteq> Zero \<Longrightarrow> cs = []"
  using wf_container [OF assms] assms(1) by (simp_all add: Let_def)

lemma find_entry:
  assumes "wf_node (Benc_node f (Entry k v) cs e)" "streq key k = Ok eq"
  shows "benc_node_find (Benc_node f (Entry k v) cs e) key =
    (if eq then Ok (Some v) else if nbody v = Zero then find_children (nchildren v) key else Ok None)"
proof -
  obtain vf vu vcs ve where v: "v = Benc_node vf vu vcs ve" by (cases v)
  have wf: "wf_node v" "\<not> is_entry v" "f = vf OR BDICT_ENTRY" "cs = []"
    using assms(1) v by auto
  note vc = wf_container [OF wf(1,2) [unfolded v]]
  have "(f AND BDICT \<noteq> 0 \<or> f AND BLIST \<noteq> 0) = (vu = Zero)" "f AND BDICT_ENTRY \<noteq> 0"
    using vc wf(3) by simp_all
  then show ?thesis
    using assms(2) wf(4) by (cases "find_children vcs key") (simp_all add: Let_def v rbind_assoc split: option.splits)
qed

lemma keys_ok_children: "keys_ok (Benc_node f u cs e) \<Longrightarrow> c \<in> set cs \<Longrightarrow> keys_ok c"
  by (auto simp: keys_ok_def)

lemma keys_ok_entry: "keys_ok (Benc_node f (Entry k v) cs e) \<Longrightarrow> terminated k \<and> keys_ok v"
  by (auto simp: keys_ok_def)

lemma wf_children: "wf_node (Benc_node f Zero cs e) \<Longrightarrow> c \<in> set cs \<Longrightarrow> wf_node c"
  by simp

lemma find_first_node:
  assumes "terminated key" "wf_node n" "keys_ok n"
  shows "benc_node_find n key = Ok (lookup_first (entries n) (strof key))"
  using assms(2,3)
proof (induction "size n" arbitrary: n rule: less_induct)
  case less
  have sub: "find_children (nchildren m) key = Ok (lookup_first (concat (map entries (nchildren m))) (strof key))"
    if m: "wf_node m" "keys_ok m" "nbody m = Zero" "size m \<le> size n" for m
  proof -
    obtain f cs e where m': "m = Benc_node f Zero cs e" using m(3) by (cases m) auto
    have "benc_node_find c key = Ok (lookup_first (entries c) (strof key))" if c: "c \<in> set cs" for c
    proof (rule less.hyps)
      have "size c \<le> size_list size cs" using c by (simp add: size_list_estimation')
      then show "size c < size n" using m(4) by (simp add: m')
    qed (use m c in \<open>auto simp: m' keys_ok_def\<close>)
    then have "find_children cs key = Ok (lookup_first (concat (map entries cs)) (strof key))"
      by (induction cs) (simp_all split: option.splits)
    then show ?thesis by (simp add: m')
  qed
  obtain f u cs e where n: "n = Benc_node f u cs e" by (cases n)
  show ?case
  proof (cases u)
    case (Entry k v)
    have wf: "wf_node v" "\<not> is_entry v" "cs = []" using less.prems(1) n Entry by simp_all
    have k: "terminated k" "keys_ok v" using less.prems(2) keys_ok_entry n Entry by blast+
    have ev: "entries v = (if nbody v = Zero then concat (map entries (nchildren v)) else [])"
      using wf_container wf(1,2) by (cases v) (auto split: if_splits)
    show ?thesis
      using find_entry [of f k v cs e key] streq_strof [OF assms(1) k(1)] less.prems(1) wf k(2) sub [of v]
      by (auto simp: n Entry ev)
  next
    case Zero
    then show ?thesis
      using sub [of n] less.prems find_plain(1) [of f u cs e key] by (simp add: n is_entry_def)
  qed (use less.prems find_plain(1) [of f u cs e key] in \<open>simp_all add: n is_entry_def\<close>)
qed

section \<open>Freeing\<close>

text \<open>All the objects a tree owns: the node structures, the keys and the string values.\<close>

fun objects :: "benc_node \<Rightarrow> freed list" and body_objects :: "benc_body \<Rightarrow> freed list" where
  "objects (Benc_node f u cs e) = N (Benc_node f u cs e) # body_objects u @ concat (map objects cs)"
| "body_objects Zero = []"
| "body_objects (Number i) = []"
| "body_objects (Bytestring v l) = [S v]"
| "body_objects (Entry k v) = S k # objects v"

lemma free_children_objects:
  assumes "\<And>c. c \<in> set cs \<Longrightarrow> \<exists>fs. benc_node_freeall c = Ok fs \<and> mset fs = mset (objects c)"
  shows "\<exists>fs. free_children cs = Ok fs \<and> mset fs = mset (concat (map objects cs))"
  using assms
proof (induction cs)
  case (Cons c cs)
  obtain fs where "benc_node_freeall c = Ok fs" "mset fs = mset (objects c)" using Cons.prems by auto
  moreover obtain gs where "free_children cs = Ok gs" "mset gs = mset (concat (map objects cs))"
    using Cons by auto
  ultimately show ?case by simp
qed simp

lemma freeall_objects:
  "wf_node n \<Longrightarrow> \<exists>fs. benc_node_freeall n = Ok fs \<and> mset fs = mset (objects n)"
proof (induction "size n" arbitrary: n rule: less_induct)
  case less
  obtain f u cs e where n: "n = Benc_node f u cs e" by (cases n)
  show ?case
  proof (cases u)
    case Zero
    have "\<exists>fs. free_children cs = Ok fs \<and> mset fs = mset (concat (map objects cs))"
    proof (rule free_children_objects)
      fix c
      assume c: "c \<in> set cs"
      then have "size c \<le> size_list size cs" by (simp add: size_list_estimation')
      then show "\<exists>fs. benc_node_freeall c = Ok fs \<and> mset fs = mset (objects c)"
        using less.hyps [of c] less.prems c by (simp add: n Zero)
    qed
    then show ?thesis using less.prems by (auto simp: n Zero bflag_defs)
  next
    case (Entry k v)
    then have "wf_node v" "cs = []" "f = nflags v OR BDICT_ENTRY" using less.prems by (simp_all add: n)
    moreover have "\<exists>fs. benc_node_freeall v = Ok fs \<and> mset fs = mset (objects v)"
      using less.hyps [of v] calculation by (simp add: n Entry)
    ultimately show ?thesis by (auto simp: n Entry)
  qed (use less.prems in \<open>auto simp: n bflag_defs\<close>)
qed

section \<open>Properties\<close>

text \<open>
  (C31) \<^verbatim>\<open>benc_node_find\<close> returns, on every well-formed tree whose keys are terminated, the value of the
  first entry with the given key in the depth-first order of the tree, and NULL when no entry has it;
  no access is undefined.
\<close>

theorem benc_find_first:
  assumes "nonul key" "wf_node n" "keys_ok n"
  shows "benc_node_find n (cstr key) = Ok (lookup_first (entries n) key)"
  using find_first_node [of "cstr key" n] assms by simp

definition example_tree :: benc_node where
  "example_tree = Benc_node BLIST Zero [Benc_node BDICT Zero
     [Benc_node (BDICT OR BDICT_ENTRY) (Entry (cstr [97]) (Benc_node BDICT Zero
        [Benc_node (BINT OR BDICT_ENTRY) (Entry (cstr [98]) (Benc_node BINT (Number 5) [] 0)) [] 0] 7)) [] 0] 8] 0"

theorem benc_find_first_witness:
  "benc_node_find example_tree (cstr [98]) = Ok (Some (Benc_node BINT (Number 5) [] 0))"
proof -
  have "wf_node example_tree" "keys_ok example_tree"
    by (simp_all add: example_tree_def keys_ok_def is_entry_def)
  moreover have "lookup_first (entries example_tree) [98] = Some (Benc_node BINT (Number 5) [] 0)"
    by (simp add: example_tree_def strof_def cstr_def)
  ultimately show ?thesis using benc_find_first [of "[98]" example_tree] by (simp add: nonul_def)
qed

text \<open>
  (C32) \<^verbatim>\<open>benc_node_freeall\<close> on a well-formed tree frees every object the tree owns (nodes, keys and string
  values) exactly once, and makes no undefined access.
\<close>

theorem benc_freeall_complete:
  assumes "wf_node n"
  shows "\<exists>fs. benc_node_freeall n = Ok fs \<and> mset fs = mset (objects n)"
  using assms by (rule freeall_objects)

theorem benc_freeall_complete_witness:
  "\<exists>fs. benc_node_freeall example_tree = Ok fs \<and> mset fs = mset (objects example_tree)"
  by (rule benc_freeall_complete) (simp add: example_tree_def is_entry_def)

end
