(* ===== verification/Parse.thy ===== *)
theory Parse
  imports Bencode
begin

text \<open>
  The bencode parser of \<^verbatim>\<open>parse.y\<close>: the lexer \<^verbatim>\<open>yylex\<close> with its static flags, and the grammar with its
  actions as the pushdown machine that \<^verbatim>\<open>yacc\<close> makes of it. The lexer depends on when it is called,
  because the action of \<^verbatim>\<open>bstrflag\<close> sets a flag it reads; the machine therefore fetches a token exactly
  where the generated parser does. In the state after \<^verbatim>\<open>DICT_START\<close> the only action is the reduction of
  \<^verbatim>\<open>bstrflag\<close>, made without a token; every other state that may start a \<^verbatim>\<open>bstring\<close> also shifts other
  tokens and so looks at one first.

  Both callers of \<^verbatim>\<open>benc_parse_buf\<close> end the process when the parse fails, so a rejected parse is a value
  without a state. The driver runs on fuel; \<open>parse_fuel\<close> is enough for every input.
\<close>

section \<open>The lexer\<close>

definition BENC_STACK_SIZE :: nat where "BENC_STACK_SIZE = 16"
definition BENC_BUFFER_SIZE :: nat where "BENC_BUFFER_SIZE = 128"
definition BENC_BUFFER_INCREMENT :: nat where "BENC_BUFFER_INCREMENT = 20480"

datatype token = EOF | COLON | END nat | INT_START | DICT_START | LIST_START | STRING bytes

record lexer =
  bstrlen :: int
  bstrflag :: bool
  bdone :: bool
  bcdone :: bool
  inb :: buf

text \<open>
  One pass of the loop for each character; \<open>buf\<close> is the token's memory object and \<open>i\<close> the number of
  characters in it, which is also the offset of \<^verbatim>\<open>p\<close>.
\<close>

definition lex_grow :: "bytes \<Rightarrow> nat \<Rightarrow> bytes" where
  "lex_grow buf i = (if i = length buf then buf @ replicate BENC_BUFFER_INCREMENT 0 else buf)"

lemma buf_getc_pos:
  "buf_getc b = Ok (Some c, b') \<Longrightarrow> cb_len b' = cb_len b \<and> cb_pos b' = Suc (cb_pos b) \<and> cb_pos b < cb_len b"
  by (auto simp: buf_getc_def split: if_splits)

datatype lexed = Token token lexer | More lexer bytes nat

text \<open>The body of the loop once a character is read; \<open>inb s\<close> is the buffer after \<^verbatim>\<open>buf_getc\<close>.\<close>

definition lex_char :: "lexer \<Rightarrow> bytes \<Rightarrow> nat \<Rightarrow> byte \<Rightarrow> lexed" where
  "lex_char s buf i c =
     (let skip = ((c = 58 \<and> \<not> bdone s \<and> bcdone s) \<or> (c \<noteq> 58 \<and> bstrflag s)) in
      if \<not> skip \<and> c = 58
      then if \<not> bdone s \<and> i > 0
           then Token (STRING buf) (s\<lparr>bdone := True, bcdone := False, inb := buf_ungetc (inb s)\<rparr>)
           else Token COLON (s\<lparr>bdone := False, bcdone := True\<rparr>)
      else if \<not> skip \<and> c = 101
      then if \<not> bdone s \<and> i > 0
           then Token (STRING buf) (s\<lparr>bdone := True, inb := buf_ungetc (inb s)\<rparr>)
           else Token (END (buf_pos (inb s))) (s\<lparr>bdone := False\<rparr>)
      else if \<not> skip \<and> c = 105 then Token INT_START s
      else if \<not> skip \<and> c = 100 then Token DICT_START s
      else if \<not> skip \<and> c = 108 then Token LIST_START s
      else let buf = buf[i := c]; i = i + 1 in
        if int i = bstrlen s \<and> bstrflag s
        then Token (STRING buf) (s\<lparr>bstrlen := 0, bstrflag := False, bcdone := False\<rparr>)
        else More s buf i)"

definition lex_turn :: "lexer \<Rightarrow> bytes \<Rightarrow> nat \<Rightarrow> lexed res" where
  "lex_turn s buf i =
     (let buf = lex_grow buf i in
      if bstrlen s = 0 \<and> bstrflag s \<and> bcdone s
      then Ok (Token (STRING buf) (s\<lparr>bstrlen := 0, bstrflag := False, bcdone := False\<rparr>))
      else rbind (buf_getc (inb s)) (\<lambda>(c, b). case c of
          None \<Rightarrow> Ok (Token EOF (s\<lparr>inb := b\<rparr>))
        | Some c \<Rightarrow> Ok (lex_char (s\<lparr>inb := b\<rparr>) buf i c)))"

lemma lex_char_More: "lex_char s buf i c = More s' buf' i' \<Longrightarrow> s' = s \<and> buf' = buf[i := c] \<and> i' = Suc i"
  by (simp add: lex_char_def Let_def split: if_splits)

lemma lex_turn_More:
  assumes "lex_turn s buf i = Ok (More s' buf' i')"
  shows "\<exists>c. buf_getc (inb s) = Ok (Some c, inb s')"
  using assms by (auto simp: lex_turn_def Let_def rbind_eq_Ok dest!: lex_char_More split: if_splits option.splits)

function yylex_loop :: "lexer \<Rightarrow> bytes \<Rightarrow> nat \<Rightarrow> (token \<times> lexer) res" where
  "yylex_loop s buf i = (case lex_turn s buf i of
      Fault e \<Rightarrow> Fault e
    | Ok (Token t s) \<Rightarrow> Ok (t, s)
    | Ok (More s buf i) \<Rightarrow> yylex_loop s buf i)"
  by pat_completeness auto
termination
proof (relation "measure (\<lambda>(s, buf, i). cb_len (inb s) - cb_pos (inb s))")
  fix s buf i r s' buf' i'
  assume "lex_turn s buf i = Ok r" "r = More s' buf' i'"
  then obtain c where "buf_getc (inb s) = Ok (Some c, inb s')" using lex_turn_More by blast
  then show "((s', buf', i'), s, buf, i) \<in> measure (\<lambda>(s, buf, i). cb_len (inb s) - cb_pos (inb s))"
    by (auto dest!: buf_getc_pos)
qed simp

declare yylex_loop.simps [simp del]

definition yylex :: "lexer \<Rightarrow> (token \<times> lexer) res" where
  "yylex s = yylex_loop s (replicate BENC_BUFFER_SIZE 0) 0"

section \<open>The node stack\<close>

definition benc_stack_push :: "benc_node \<Rightarrow> benc_node list \<Rightarrow> benc_node list res" where
  "benc_stack_push node bstack =
     (if length bstack = BENC_STACK_SIZE - 1 then Fault (Exit ''benc_stack_push: stack overflow'')
      else Ok (node # bstack))"

fun benc_stack_pop :: "benc_node list \<Rightarrow> (benc_node \<times> benc_node list) res" where
  "benc_stack_pop [] = Fault (Undef ''benc_stack_pop'')"
| "benc_stack_pop (node # bstack) = Ok (node, bstack)"

text \<open>\<^verbatim>\<open>benc_node_add (benc_stack_peek (), new)\<close>\<close>

fun add_to_peek :: "benc_node list \<Rightarrow> benc_node \<Rightarrow> benc_node list res" where
  "add_to_peek [] new = Fault (Undef ''benc_stack_peek'')"
| "add_to_peek (node # bstack) new = Ok (benc_node_add node new # bstack)"

section \<open>The grammar\<close>

text \<open>
  The parse stack, without the symbols whose value is not used: \<open>Bencode\<close> is the start symbol,
  \<open>Blist e\<close> and \<open>Bdict e\<close> an open list or dictionary (\<open>e\<close> the value of \<^verbatim>\<open>blist_entries\<close> or
  \<^verbatim>\<open>bdict_entries\<close>, \<open>None\<close> before the first entry), \<open>Bkey k\<close> an entry whose key is complete. The
  control says what the innermost rule waits for: the start of an item or, inside a \<^verbatim>\<open>bstring\<close> or
  \<^verbatim>\<open>bint\<close>, its next symbol.
\<close>

datatype frame = Bencode | Blist "benc_node option" | Bdict "benc_node option" | Bkey bytes

datatype control = Item | Str_colon int | Str_value int | Int_number | Int_end int

record parser =
  frames :: "frame list"
  ctrl :: control
  bstack :: "benc_node list"
  root :: benc_node
  lex :: lexer

datatype verdict = Accept parser | Reject | Continue parser

text \<open>The action of \<^verbatim>\<open>number\<close>; \<open>None\<close> is \<^verbatim>\<open>YYERROR\<close>.\<close>

definition number_action :: "bytes \<Rightarrow> lexer \<Rightarrow> (int \<times> lexer) option res" where
  "number_action s l = rbind (strtonum s LLONG_MIN LLONG_MAX) (\<lambda>(lval, err).
     if err \<noteq> None then Ok None
     else Ok (Some (lval, if bstrflag l then l\<lparr>bstrlen := lval\<rparr> else l)))"

definition bstring_node :: "int \<Rightarrow> bytes \<Rightarrow> benc_node" where
  "bstring_node n v = set_flags BSTRING (set_body (Bytestring v (nat (n mod 2 ^ 64))) benc_node_create)"

definition bint_node :: "int \<Rightarrow> benc_node" where
  "bint_node n = set_flags BINT (set_body (Number n) benc_node_create)"

text \<open>The four alternatives of \<^verbatim>\<open>bdict_entry\<close>: the entry has the flag of its value and \<^verbatim>\<open>BDICT_ENTRY\<close>.\<close>

definition entry_node :: "bytes \<Rightarrow> benc_node \<Rightarrow> benc_node" where
  "entry_node k v = set_body (Entry k v) (set_flags (nflags v OR BDICT_ENTRY) benc_node_create)"

text \<open>A complete item (\<^verbatim>\<open>bstring\<close>, \<^verbatim>\<open>bint\<close>, \<^verbatim>\<open>blist\<close> or \<^verbatim>\<open>bdict\<close>) is reduced into the rule around it.\<close>

definition reduce_entry :: "parser \<Rightarrow> frame list \<Rightarrow> benc_node \<Rightarrow> verdict res" where
  "reduce_entry p fs e = (case fs of
      Bdict None # fs' \<Rightarrow> Ok (Continue (p\<lparr>frames := Bdict (Some e) # fs', ctrl := Item\<rparr>))
    | Bdict (Some e0) # fs' \<Rightarrow> rmap (\<lambda>st. Continue (p\<lparr>frames := fs, ctrl := Item, bstack := st\<rparr>))
        (add_to_peek (bstack p) e)
    | _ \<Rightarrow> Ok Reject)"

definition reduce_item :: "parser \<Rightarrow> benc_node \<Rightarrow> verdict res" where
  "reduce_item p v = (case frames p of
      [Bencode] \<Rightarrow> Ok (Continue (p\<lparr>ctrl := Item, root := benc_node_add (root p) v\<rparr>))
    | Blist None # fs \<Rightarrow> Ok (Continue (p\<lparr>frames := Blist (Some v) # fs, ctrl := Item\<rparr>))
    | Blist (Some e0) # fs \<Rightarrow> rmap (\<lambda>st. Continue (p\<lparr>ctrl := Item, bstack := st\<rparr>))
        (add_to_peek (bstack p) v)
    | Bkey k # fs \<Rightarrow> reduce_entry p fs (entry_node k v)
    | Bdict e # fs \<Rightarrow> (case nbody v of
          Bytestring k n \<Rightarrow> Ok (Continue (p\<lparr>frames := Bkey k # frames p, ctrl := Item\<rparr>))
        | _ \<Rightarrow> Ok Reject)
    | _ \<Rightarrow> Ok Reject)"

definition start_string :: "parser \<Rightarrow> bytes \<Rightarrow> verdict res" where
  "start_string p s = rmap (\<lambda>r. case r of
       None \<Rightarrow> Reject
     | Some (n, l) \<Rightarrow> Continue (p\<lparr>ctrl := Str_colon n, lex := l\<rparr>))
     (number_action s ((lex p)\<lparr>bstrflag := True\<rparr>))"

definition start_container :: "parser \<Rightarrow> u32 \<Rightarrow> frame \<Rightarrow> verdict res" where
  "start_container p flag f =
     rmap (\<lambda>st. Continue (p\<lparr>frames := f # frames p, ctrl := Item, bstack := st\<rparr>))
       (benc_stack_push (set_flags flag benc_node_create) (bstack p))"

definition end_list :: "parser \<Rightarrow> frame list \<Rightarrow> benc_node \<Rightarrow> verdict res" where
  "end_list p fs e = rbind (benc_stack_pop (bstack p)) (\<lambda>(node, st).
     reduce_item (p\<lparr>frames := fs, bstack := st\<rparr>) (benc_node_add_head node e))"

definition end_dict :: "parser \<Rightarrow> frame list \<Rightarrow> benc_node \<Rightarrow> nat \<Rightarrow> verdict res" where
  "end_dict p fs e pos = rbind (benc_stack_pop (bstack p)) (\<lambda>(node, st).
     reduce_item (p\<lparr>frames := fs, bstack := st\<rparr>) (benc_node_add_head (set_end pos node) e))"

text \<open>What a state that waits for an item does with a token.\<close>

definition item_action :: "parser \<Rightarrow> token \<Rightarrow> verdict res" where
  "item_action p t = (case (t, frames p) of
      (STRING s, _) \<Rightarrow> start_string p s
    | (EOF, [Bencode]) \<Rightarrow> Ok (Accept p)
    | (END n, Blist (Some e) # fs) \<Rightarrow> end_list p fs e
    | (END n, Bdict (Some e) # fs) \<Rightarrow> end_dict p fs e n
    | (_, Bdict e # fs) \<Rightarrow> Ok Reject
    | (INT_START, _) \<Rightarrow> Ok (Continue (p\<lparr>ctrl := Int_number\<rparr>))
    | (LIST_START, _) \<Rightarrow> start_container p BLIST (Blist None)
    | (DICT_START, _) \<Rightarrow> start_container p BDICT (Bdict None)
    | _ \<Rightarrow> Ok Reject)"

definition token_action :: "parser \<Rightarrow> token \<Rightarrow> verdict res" where
  "token_action p t = (case ctrl p of
      Item \<Rightarrow> item_action p t
    | Str_colon n \<Rightarrow> (if t = COLON then Ok (Continue (p\<lparr>ctrl := Str_value n\<rparr>)) else Ok Reject)
    | Str_value n \<Rightarrow> (case t of STRING v \<Rightarrow> reduce_item p (bstring_node n v) | _ \<Rightarrow> Ok Reject)
    | Int_number \<Rightarrow> (case t of
          STRING s \<Rightarrow> rmap (\<lambda>r. case r of
              None \<Rightarrow> Reject
            | Some (n, l) \<Rightarrow> Continue (p\<lparr>ctrl := Int_end n, lex := l\<rparr>)) (number_action s (lex p))
        | _ \<Rightarrow> Ok Reject)
    | Int_end n \<Rightarrow> (case t of END e \<Rightarrow> reduce_item p (bint_node n) | _ \<Rightarrow> Ok Reject))"

text \<open>One turn of the parser's loop: the reduction made without a token, a token, its action.\<close>

definition before_token :: "parser \<Rightarrow> parser" where
  "before_token p = (case (ctrl p, frames p) of
      (Item, Bdict None # fs) \<Rightarrow> p\<lparr>lex := (lex p)\<lparr>bstrflag := True\<rparr>\<rparr>
    | _ \<Rightarrow> p)"

definition yystep :: "parser \<Rightarrow> verdict res" where
  "yystep p = (let p = before_token p in
     rbind (yylex (lex p)) (\<lambda>(t, l). token_action (p\<lparr>lex := l\<rparr>) t))"

fun yyparse :: "nat \<Rightarrow> parser \<Rightarrow> parser option res option" where
  "yyparse 0 p = None"
| "yyparse (Suc n) p = (case yystep p of
      Fault e \<Rightarrow> Some (Fault e)
    | Ok (Accept p') \<Rightarrow> Some (Ok (Some p'))
    | Ok Reject \<Rightarrow> Some (Ok None)
    | Ok (Continue p') \<Rightarrow> yyparse n p')"

text \<open>
  \<^verbatim>\<open>benc_parse_buf\<close>: the static variables have the values the program starts with, which is also what an
  accepted parse leaves.
\<close>

definition lexer_init :: "buf \<Rightarrow> lexer" where
  "lexer_init b = \<lparr>bstrlen = 0, bstrflag = False, bdone = False, bcdone = False, inb = b\<rparr>"

definition parser_init :: "buf \<Rightarrow> benc_node \<Rightarrow> parser" where
  "parser_init b node = \<lparr>frames = [Bencode], ctrl = Item, bstack = [], root = node, lex = lexer_init b\<rparr>"

definition parse_fuel :: "buf \<Rightarrow> nat" where
  "parse_fuel b = 2 * (cb_len b - cb_pos b) + 2"

definition benc_parse_buf :: "buf \<Rightarrow> benc_node \<Rightarrow> benc_node option res option" where
  "benc_parse_buf b node = map_option (rmap (map_option root)) (yyparse (parse_fuel b) (parser_init b node))"

end
