(* ===== verification/Parse_Safe.thy ===== *)
theory Parse_Safe
  imports Parse
begin

text \<open>
  What the parser does on arbitrary input: it always ends within its fuel, it never reads or writes
  outside an object and never underflows its stack, and the tree of an accepted input is well formed.
\<close>

section \<open>Termination\<close>

text \<open>Every token but the end of input uses up a character or, for an empty string, the flag \<^verbatim>\<open>bcdone\<close>.\<close>

definition lex_left :: "lexer \<Rightarrow> nat" where
  "lex_left s = 2 * (cb_len (inb s) - cb_pos (inb s)) + (if bcdone s then 1 else 0)"

lemma getc_ok:
  assumes "buf_ok b"
  shows "buf_getc b = Ok (None, b) \<and> buf_rest b = [] \<or>
    (\<exists>c b'. buf_getc b = Ok (Some c, b') \<and> buf_ok b' \<and> buf_ungetc b' = b
      \<and> cb_len b' = cb_len b \<and> cb_pos b' = Suc (cb_pos b) \<and> cb_pos b < cb_len b)"
proof (cases "buf_rest b")
  case Nil
  then show ?thesis using src.getc_eof [OF assms] by simp
next
  case (Cons c r)
  then show ?thesis using src.getc_next [OF assms Cons] buf_getc_pos by blast
qed

lemma lex_char_token:
  assumes "lex_char s buf i c = Token t s'" "buf_ok (inb s)" "buf_ok (buf_ungetc (inb s))"
    "cb_len (buf_ungetc (inb s)) = cb_len (inb s)" "cb_pos (inb s) = Suc (cb_pos (buf_ungetc (inb s)))"
  shows "buf_ok (inb s') \<and> t \<noteq> EOF
    \<and> lex_left s' < 2 * (cb_len (inb s) - cb_pos (inb s)) + 2 + (if bcdone s then 1 else 0) + 2 * i"
  using assms(1) assms(2-)
  by (auto simp: lex_char_def Let_def lex_left_def split: if_splits)

lemma yylex_loop_left:
  assumes "yylex_loop s buf i = Ok (t, s')" "buf_ok (inb s)"
  shows "buf_ok (inb s') \<and> (t = EOF \<or> lex_left s' < lex_left s + 2 * i)"
  using assms
proof (induction s buf i rule: yylex_loop.induct)
  case (1 s buf i)
  show ?case
  proof (cases "bstrlen s = 0 \<and> bstrflag s \<and> bcdone s")
    case True
    then have "s' = s\<lparr>bstrlen := 0, bstrflag := False, bcdone := False\<rparr>"
      using 1(2) by (subst (asm) yylex_loop.simps) (simp add: lex_turn_def)
    then show ?thesis using 1(3) True by (simp add: lex_left_def)
  next
    case False
    consider (eof) "buf_getc (inb s) = Ok (None, inb s)"
      | (char) c b where "buf_getc (inb s) = Ok (Some c, b)" "buf_ok b" "buf_ungetc b = inb s"
        "cb_len b = cb_len (inb s)" "cb_pos b = Suc (cb_pos (inb s))" "cb_pos (inb s) < cb_len (inb s)"
      using getc_ok [OF 1(3)] by blast
    then show ?thesis
    proof cases
      case eof
      then show ?thesis using 1(2,3) False by (subst (asm) yylex_loop.simps) (auto simp: lex_turn_def)
    next
      case char
      let ?s = "s\<lparr>inb := b\<rparr>"
      have turn: "lex_turn s buf i = Ok (lex_char ?s (lex_grow buf i) i c)"
        using char(1) False by (auto simp: lex_turn_def)
      show ?thesis
      proof (cases "lex_char ?s (lex_grow buf i) i c")
        case (Token t1 s1)
        then have "t1 = t" "s1 = s'" using 1(2) turn by (subst (asm) yylex_loop.simps, simp)+
        moreover have "cb_len (inb s) - cb_pos (inb s) = Suc (cb_len b - cb_pos b)" using char by simp
        ultimately show ?thesis
          using lex_char_token [OF Token] char(2-5) 1(3) by (simp add: lex_left_def [of s])
      next
        case (More s1 buf1 i1)
        then have m: "s1 = ?s" "i1 = Suc i" using lex_char_More by blast+
        have "yylex_loop s1 buf1 i1 = Ok (t, s')" using 1(2) turn More by (subst (asm) yylex_loop.simps) simp
        then show ?thesis
          using 1(1) [OF turn More] m char by (auto simp: lex_left_def split: if_splits)
      qed
    qed
  qed
qed

lemma yylex_left:
  assumes "yylex s = Ok (t, s')" "buf_ok (inb s)"
  shows "buf_ok (inb s')" "t = EOF \<or> lex_left s' < lex_left s"
  using yylex_loop_left [of s _ 0 t s'] assms by (simp_all add: yylex_def)

text \<open>No action moves the reading position or the flag \<^verbatim>\<open>bcdone\<close>, and none goes on after the end of input.\<close>

definition same_input :: "lexer \<Rightarrow> lexer \<Rightarrow> bool" where
  "same_input l l' \<longleftrightarrow> inb l' = inb l \<and> bcdone l' = bcdone l"

lemma reduce_entry_lex: "reduce_entry p fs e = Ok (Continue p') \<Longrightarrow> lex p' = lex p"
  by (auto simp: reduce_entry_def rmap_eq_Ok split: list.splits frame.splits option.splits)

lemma reduce_item_lex: "reduce_item p v = Ok (Continue p') \<Longrightarrow> lex p' = lex p"
  by (auto simp: reduce_item_def rmap_eq_Ok dest: reduce_entry_lex
      split: list.splits frame.splits option.splits benc_body.splits)

lemma number_action_lex: "number_action s l = Ok (Some (n, l')) \<Longrightarrow> same_input l l'"
  by (auto simp: number_action_def same_input_def rbind_eq_Ok split: if_splits)

lemma start_string_lex: "start_string p s = Ok (Continue p') \<Longrightarrow> same_input (lex p) (lex p')"
  by (auto simp: start_string_def rmap_eq_Ok split: option.splits dest!: number_action_lex)
    (simp add: same_input_def)

lemma item_action_lex:
  assumes "item_action p t = Ok (Continue p')"
  shows "same_input (lex p) (lex p') \<and> t \<noteq> EOF"
  using assms
  by (cases t) (auto simp: item_action_def start_container_def end_list_def end_dict_def rmap_eq_Ok same_input_def
      dest!: start_string_lex reduce_item_lex split: list.splits frame.splits option.splits)

lemma same_input_refl [simp]: "same_input l l"
  by (simp add: same_input_def)

lemma token_action_lex:
  assumes "token_action p t = Ok (Continue p')"
  shows "same_input (lex p) (lex p') \<and> t \<noteq> EOF"
  using assms
  by (auto simp: token_action_def rmap_eq_Ok
      dest!: item_action_lex number_action_lex reduce_item_lex split: control.splits token.splits if_splits option.splits)

lemma before_token_same: "same_input (lex p) (lex (before_token p))"
  by (simp add: before_token_def same_input_def split: control.splits list.splits frame.splits option.splits)

lemma same_input_left: "same_input l l' \<Longrightarrow> lex_left l' = lex_left l"
  by (simp add: same_input_def lex_left_def)

lemma yystep_left:
  assumes "yystep p = Ok (Continue p')" "buf_ok (inb (lex p))"
  shows "buf_ok (inb (lex p'))" "lex_left (lex p') < lex_left (lex p)"
proof -
  let ?p = "before_token p"
  obtain t l where tl: "yylex (lex ?p) = Ok (t, l)" "token_action (?p\<lparr>lex := l\<rparr>) t = Ok (Continue p')"
    using assms(1) by (auto simp: yystep_def Let_def)
  have b: "buf_ok (inb (lex ?p))" "lex_left (lex ?p) = lex_left (lex p)"
    using same_input_left [OF before_token_same [of p]] before_token_same [of p] assms(2)
    by (simp_all add: same_input_def)
  have "same_input l (lex p')" "t \<noteq> EOF" using token_action_lex [OF tl(2)] by simp_all
  then show "buf_ok (inb (lex p'))" "lex_left (lex p') < lex_left (lex p)"
    using yylex_left [OF tl(1) b(1)] b(2) same_input_left [of l "lex p'"] by (auto simp: same_input_def)
qed

lemma yyparse_enough:
  assumes "buf_ok (inb (lex p))" "lex_left (lex p) < n"
  shows "yyparse n p \<noteq> None"
  using assms
proof (induction n arbitrary: p)
  case (Suc n)
  show ?case
  proof (cases "\<exists>p'. yystep p = Ok (Continue p')")
    case True
    then obtain p' where "yystep p = Ok (Continue p')" by blast
    then show ?thesis using Suc.IH [of p'] yystep_left [of p p'] Suc.prems by simp
  qed (auto split: res.splits verdict.splits)
qed simp

lemma yyparse_mono: "yyparse n p = Some r \<Longrightarrow> yyparse (n + k) p = Some r"
  by (induction n arbitrary: p) (auto split: res.splits verdict.splits)

lemma yyparse_unique: "yyparse n p = Some r \<Longrightarrow> yyparse m p = Some r' \<Longrightarrow> r = r'"
  using yyparse_mono [of n p r m] yyparse_mono [of m p r' n] by (simp add: add.commute)

section \<open>The tokens and the flags they leave\<close>

definition zeros_from :: "bytes \<Rightarrow> nat \<Rightarrow> bool" where
  "zeros_from buf i \<longleftrightarrow> i \<le> length buf \<and> (\<forall>j. i \<le> j \<longrightarrow> j < length buf \<longrightarrow> buf ! j = 0)"

lemma zeros_from_grow:
  "zeros_from buf i \<Longrightarrow> zeros_from (lex_grow buf i) i \<and> i < length (lex_grow buf i)"
  by (auto simp: zeros_from_def lex_grow_def BENC_BUFFER_INCREMENT_def nth_append)

lemma zeros_from_update: "zeros_from buf i \<Longrightarrow> zeros_from ((lex_grow buf i)[i := c]) (Suc i)"
  using zeros_from_grow [of buf i] by (auto simp: zeros_from_def)

text \<open>A token comes from a last turn of the loop, with the flags the lexer was called with.\<close>

lemma yylex_last_turn:
  assumes "yylex_loop s buf i = Ok (t, s')" "zeros_from buf i"
  shows "\<exists>b buf1 i1. lex_turn (s\<lparr>inb := b\<rparr>) buf1 i1 = Ok (Token t s') \<and> zeros_from buf1 i1"
  using assms
proof (induction s buf i rule: yylex_loop.induct)
  case (1 s buf i)
  obtain r where r: "lex_turn s buf i = Ok r" using 1(2) by (subst (asm) yylex_loop.simps) (auto split: res.splits)
  show ?case
  proof (cases r)
    case (Token t1 s1)
    then have "lex_turn (s\<lparr>inb := inb s\<rparr>) buf i = Ok (Token t s')"
      using 1(2) r by (subst (asm) yylex_loop.simps) simp
    then show ?thesis using 1(3) by blast
  next
    case (More s1 buf1 i1)
    have loop: "yylex_loop s1 buf1 i1 = Ok (t, s')" using 1(2) r More by (subst (asm) yylex_loop.simps) simp
    obtain b c where "s1 = s\<lparr>inb := b\<rparr>" "buf1 = (lex_grow buf i)[i := c]" "i1 = Suc i"
      using r More by (auto simp: lex_turn_def Let_def rbind_eq_Ok dest!: lex_char_More split: if_splits option.splits)
    then show ?thesis
      using 1(1) [OF r More loop] zeros_from_update [OF 1(3)] by auto
  qed
qed

lemma lex_turn_cases:
  assumes "lex_turn s buf i = Ok (Token t s')"
  shows "bstrlen s = 0 \<and> bstrflag s \<and> bcdone s \<and> t = STRING (lex_grow buf i)
      \<and> s' = s\<lparr>bstrlen := 0, bstrflag := False, bcdone := False\<rparr>
    \<or> t = EOF \<and> (\<exists>b. s' = s\<lparr>inb := b\<rparr>)
    \<or> (\<exists>b c. lex_char (s\<lparr>inb := b\<rparr>) (lex_grow buf i) i c = Token t s')"
  using assms by (auto simp: lex_turn_def Let_def rbind_eq_Ok split: if_splits option.splits)

lemma zeros_terminated: "zeros_from buf i \<Longrightarrow> terminated (lex_grow buf i)"
  using zeros_from_grow [of buf i] nth_mem [of i "lex_grow buf i"]
  by (auto simp: terminated_def zeros_from_def)

lemma zeros_init: "zeros_from (replicate BENC_BUFFER_SIZE 0) 0"
  by (simp add: zeros_from_def)

lemma yylex_item:
  assumes "yylex s = Ok (t, s')" "bstrlen s = 0" "\<not> bcdone s"
  shows "bstrlen s' = 0 \<and> bstrflag s' = bstrflag s \<and> (bcdone s' \<longrightarrow> t = COLON)
    \<and> (bdone s' \<longrightarrow> bdone s \<or> (\<exists>m. t = STRING m)) \<and> (\<forall>n. t = END n \<longrightarrow> \<not> bdone s')
    \<and> (\<forall>m. t = STRING m \<longrightarrow> terminated m)"
proof -
  obtain b buf i where turn: "lex_turn (s\<lparr>inb := b\<rparr>) buf i = Ok (Token t s')" and z: "zeros_from buf i"
    using yylex_last_turn [OF _ zeros_init] assms(1) unfolding yylex_def by blast
  show ?thesis
    using lex_turn_cases [OF turn] assms(2,3) zeros_terminated [OF z]
    by (auto simp: lex_char_def Let_def split: if_splits)
qed

lemma yylex_colon:
  assumes "yylex s = Ok (COLON, s')"
  shows "bstrflag s' = bstrflag s \<and> bcdone s' \<and> \<not> bdone s'"
proof -
  obtain b buf i where turn: "lex_turn (s\<lparr>inb := b\<rparr>) buf i = Ok (Token COLON s')"
    using yylex_last_turn [OF _ zeros_init] assms unfolding yylex_def by blast
  show ?thesis
    using lex_turn_cases [OF turn] by (auto simp: lex_char_def Let_def split: if_splits)
qed

lemma yylex_value:
  assumes "yylex s = Ok (STRING m, s')" "bstrflag s" "bcdone s" "\<not> bdone s"
  shows "bstrlen s' = 0 \<and> \<not> bstrflag s' \<and> \<not> bcdone s' \<and> \<not> bdone s'"
proof -
  obtain b buf i where turn: "lex_turn (s\<lparr>inb := b\<rparr>) buf i = Ok (Token (STRING m) s')"
    using yylex_last_turn [OF _ zeros_init] assms(1) unfolding yylex_def by blast
  show ?thesis
    using lex_turn_cases [OF turn] assms(2-) by (auto simp: lex_char_def Let_def split: if_splits)
qed

lemma yylex_total: "buf_ok (inb s) \<Longrightarrow> \<exists>t s'. yylex s = Ok (t, s')"
proof -
  have "\<exists>t s'. yylex_loop s buf i = Ok (t, s')" if "buf_ok (inb s)" for s buf i
    using that
  proof (induction s buf i rule: yylex_loop.induct)
    case (1 s buf i)
    obtain r where r: "lex_turn s buf i = Ok r"
    proof -
      have "is_Ok (lex_turn s buf i)" using getc_ok [OF 1(2)] by (auto simp: lex_turn_def Let_def)
      then show ?thesis using that by (auto simp: is_Ok_iff)
    qed
    show ?case
    proof (cases r)
      case (More s1 buf1 i1)
      then have "buf_ok (inb s1)"
        using lex_turn_More [of s buf i s1] r getc_ok [OF 1(2)] by auto
      then show ?thesis using 1(1) [OF r More] r More by (subst yylex_loop.simps) simp
    qed (use r in \<open>subst yylex_loop.simps, simp\<close>)
  qed
  then show "buf_ok (inb s) \<Longrightarrow> \<exists>t s'. yylex s = Ok (t, s')" by (simp add: yylex_def)
qed

section \<open>The invariant of the parser\<close>

text \<open>What the lexer's flags are in each state, and what the parse stack and the node stack hold.\<close>

definition lex_clean :: "lexer \<Rightarrow> bool" where
  "lex_clean l \<longleftrightarrow> bstrlen l = 0 \<and> \<not> bstrflag l \<and> \<not> bcdone l \<and> \<not> bdone l"

fun lex_state :: "control \<Rightarrow> lexer \<Rightarrow> bool" where
  "lex_state (Str_colon n) l \<longleftrightarrow> bstrflag l"
| "lex_state (Str_value n) l \<longleftrightarrow> bstrflag l \<and> bcdone l \<and> \<not> bdone l"
| "lex_state (Int_end n) l \<longleftrightarrow> bstrlen l = 0 \<and> \<not> bstrflag l \<and> \<not> bcdone l"
| "lex_state _ l \<longleftrightarrow> lex_clean l"

definition plain :: "benc_node \<Rightarrow> bool" where
  "plain v \<longleftrightarrow> wf_node v \<and> \<not> is_entry v"

definition open_node :: "u32 \<Rightarrow> benc_node \<Rightarrow> bool" where
  "open_node f n \<longleftrightarrow> wf_node n \<and> nbody n = Zero \<and> nflags n = f"

fun stack_ok :: "frame list \<Rightarrow> benc_node list \<Rightarrow> bool" where
  "stack_ok [Bencode] st \<longleftrightarrow> st = []"
| "stack_ok (Blist e # fs) (n # st) \<longleftrightarrow> open_node BLIST n \<and> pred_option plain e \<and> stack_ok fs st"
| "stack_ok (Bdict e # fs) (n # st) \<longleftrightarrow>
     open_node BDICT n \<and> pred_option (\<lambda>v. wf_node v \<and> is_entry v) e \<and> stack_ok fs st"
| "stack_ok (Bkey k # Bdict e # fs) st \<longleftrightarrow> stack_ok (Bdict e # fs) st"
| "stack_ok _ _ \<longleftrightarrow> False"

definition parser_ok :: "parser \<Rightarrow> bool" where
  "parser_ok p \<longleftrightarrow> buf_ok (inb (lex p)) \<and> lex_state (ctrl p) (lex p)
     \<and> stack_ok (frames p) (bstack p) \<and> open_node BLIST (root p)"

text \<open>The results of a step that keep the invariant: an undefined access is not among them.\<close>

fun good :: "verdict res \<Rightarrow> bool" where
  "good (Ok (Continue p)) \<longleftrightarrow> parser_ok p"
| "good (Ok (Accept p)) \<longleftrightarrow> open_node BLIST (root p) \<and> lex_clean (lex p)"
| "good (Ok Reject) \<longleftrightarrow> True"
| "good (Fault (Exit m)) \<longleftrightarrow> True"
| "good (Fault (Undef m)) \<longleftrightarrow> False"

lemma open_add: "open_node f n \<Longrightarrow> wf_node v \<Longrightarrow> is_entry v \<longleftrightarrow> f = BDICT \<Longrightarrow> open_node f (benc_node_add n v)"
  by (cases n) (auto simp: open_node_def benc_node_add_def)

lemma open_add_head: "open_node f n \<Longrightarrow> wf_node v \<Longrightarrow> is_entry v \<longleftrightarrow> f = BDICT \<Longrightarrow> plain (benc_node_add_head n v)"
  by (cases n) (auto simp: open_node_def plain_def is_entry_def benc_node_add_head_def)

lemma open_set_end: "open_node f n \<Longrightarrow> open_node f (set_end e n)"
  by (cases n) (auto simp: open_node_def set_end_def)

lemma open_new: "f = BLIST \<or> f = BDICT \<Longrightarrow> open_node f (set_flags f benc_node_create)"
  by (auto simp: open_node_def set_flags_def benc_node_create_def)

lemma plain_nodes: "plain (bstring_node n v)" "plain (bint_node n)"
  by (simp_all add: plain_def is_entry_def bstring_node_def bint_node_def set_flags_def set_body_def benc_node_create_def)

lemma wf_entry: "plain v \<Longrightarrow> wf_node (entry_node k v) \<and> is_entry (entry_node k v)"
  by (simp add: plain_def entry_node_def is_entry_def set_body_def set_flags_def benc_node_create_def)

lemma reduce_entry_good:
  assumes "buf_ok (inb (lex p))" "lex_clean (lex p)" "stack_ok fs (bstack p)" "open_node BLIST (root p)"
    and "wf_node e" "is_entry e"
  shows "good (reduce_entry p fs e)"
  using assms
  by (cases fs; cases "bstack p")
    (auto simp: reduce_entry_def parser_ok_def open_add split: frame.splits option.splits)

lemma reduce_item_good:
  assumes "buf_ok (inb (lex p))" "lex_clean (lex p)" "stack_ok (frames p) (bstack p)" "open_node BLIST (root p)"
    and "plain v"
  shows "good (reduce_item p v)"
proof (cases "frames p")
  case (Cons f fs)
  note ok = assms wf_entry [OF assms(5)] open_add [of BLIST _ v] open_add [of BDICT _ v]
  show ?thesis
  proof (cases f)
    case Bencode
    then show ?thesis using ok Cons
      by (cases fs) (auto simp: reduce_item_def parser_ok_def plain_def)
  next
    case (Blist e)
    then show ?thesis using ok Cons
      by (cases e; cases "bstack p") (auto simp: reduce_item_def parser_ok_def plain_def)
  next
    case (Bdict e)
    then show ?thesis using ok Cons
      by (cases "bstack p"; cases "nbody v") (auto simp: reduce_item_def parser_ok_def)
  next
    case (Bkey k)
    moreover obtain e fs' where "fs = Bdict e # fs'" "stack_ok fs (bstack p)"
      using assms(3) Cons Bkey by (cases fs; cases "hd fs") auto
    ultimately show ?thesis
      using Cons assms(1,2,4) wf_entry [OF assms(5), of k] reduce_entry_good [of p fs]
      by (simp add: reduce_item_def)
  qed
qed (use assms(3) in simp)

lemma number_action_ok:
  assumes "terminated s"
  shows "\<exists>r. number_action s l = Ok r"
  using strtonum_safe [of s LLONG_MIN LLONG_MAX] assms by (auto simp: number_action_def terminated_def)

lemma number_action_clean:
  "number_action s l = Ok (Some (n, l')) \<Longrightarrow> inb l' = inb l \<and> bstrflag l' = bstrflag l \<and> bcdone l' = bcdone l
     \<and> bdone l' = bdone l \<and> (bstrflag l \<or> bstrlen l' = bstrlen l)"
  by (auto simp: number_action_def rbind_eq_Ok split: if_splits)

text \<open>The state a token leaves before its action: the stacks of the invariant, and the lexer's input.\<close>

definition parser_mid :: "parser \<Rightarrow> bool" where
  "parser_mid p \<longleftrightarrow> buf_ok (inb (lex p)) \<and> stack_ok (frames p) (bstack p) \<and> open_node BLIST (root p)"

lemma start_string_good:
  assumes "parser_mid p" "terminated s"
  shows "good (start_string p s)"
  using number_action_ok [OF assms(2), of "(lex p)\<lparr>bstrflag := True\<rparr>"] assms(1)
  by (auto simp: start_string_def parser_ok_def parser_mid_def split: option.splits dest!: number_action_clean)

lemma int_number_good:
  assumes "parser_mid p" "terminated s" "bstrlen (lex p) = 0" "\<not> bstrflag (lex p)" "\<not> bcdone (lex p)"
  shows "good (rmap (\<lambda>r. case r of None \<Rightarrow> Reject
    | Some (n, l) \<Rightarrow> Continue (p\<lparr>ctrl := Int_end n, lex := l\<rparr>)) (number_action s (lex p)))"
  using number_action_ok [OF assms(2), of "lex p"] assms
  by (auto simp: parser_ok_def parser_mid_def split: option.splits dest!: number_action_clean)

lemma start_container_good:
  assumes "parser_mid p" "lex_clean (lex p)" "f = BLIST \<and> fr = Blist None \<or> f = BDICT \<and> fr = Bdict None"
  shows "good (start_container p f fr)"
  using assms open_new [of f]
  by (auto simp: start_container_def benc_stack_push_def parser_ok_def parser_mid_def)

lemma end_list_good:
  assumes "parser_mid p" "lex_clean (lex p)" "frames p = Blist (Some e) # fs"
  shows "good (end_list p fs e)"
proof (cases "bstack p")
  case (Cons n st)
  have "plain (benc_node_add_head n e)"
    using assms Cons by (intro open_add_head [of BLIST]) (auto simp: parser_mid_def plain_def)
  then show ?thesis
    using assms Cons by (auto simp: end_list_def parser_mid_def intro!: reduce_item_good)
qed (use assms in \<open>simp add: parser_mid_def\<close>)

lemma end_dict_good:
  assumes "parser_mid p" "lex_clean (lex p)" "frames p = Bdict (Some e) # fs"
  shows "good (end_dict p fs e pos)"
proof (cases "bstack p")
  case (Cons n st)
  have "plain (benc_node_add_head (set_end pos n) e)"
    using assms Cons by (intro open_add_head [of BDICT] open_set_end) (auto simp: parser_mid_def)
  then show ?thesis
    using assms Cons by (auto simp: end_dict_def parser_mid_def intro!: reduce_item_good)
qed (use assms in \<open>simp add: parser_mid_def\<close>)

lemma item_action_good:
  assumes "parser_mid p" "\<forall>m. t = STRING m \<longrightarrow> terminated m"
    and "(\<exists>m. t = STRING m) \<or> t = COLON \<or> lex_clean (lex p) \<or> frames p = Bdict None # fs0"
  shows "good (item_action p t)"
proof (cases t)
  case (STRING m)
  then show ?thesis using start_string_good [OF assms(1)] assms(2) by (simp add: item_action_def)
next
  case (END n)
  then show ?thesis using assms end_list_good [of p] end_dict_good [of p]
    by (auto simp: item_action_def split: list.splits frame.splits option.splits)
next
  case INT_START
  then show ?thesis using assms
    by (auto simp: item_action_def parser_ok_def parser_mid_def split: list.splits frame.splits)
next
  case EOF
  then show ?thesis using assms
    by (auto simp: item_action_def parser_mid_def split: list.splits frame.splits)
qed (use assms start_container_good [of p] in
    \<open>auto simp: item_action_def split: list.splits frame.splits\<close>)

lemma step_good:
  assumes "parser_ok p"
  shows "good (yystep p)"
proof -
  let ?p = "before_token p"
  have same: "frames ?p = frames p" "bstack ?p = bstack p" "root ?p = root p" "ctrl ?p = ctrl p"
    "inb (lex ?p) = inb (lex p)"
    by (auto simp: before_token_def split: control.splits list.splits frame.splits option.splits)
  obtain t l where tl: "yylex (lex ?p) = Ok (t, l)"
    using yylex_total [of "lex ?p"] assms same by (auto simp: parser_ok_def)
  have mid: "parser_mid (?p\<lparr>lex := l\<rparr>)"
    using yylex_left(1) [OF tl] assms same by (simp add: parser_ok_def parser_mid_def)
  have "good (token_action (?p\<lparr>lex := l\<rparr>) t)"
  proof (cases "ctrl p")
    case Item
    then have c: "lex_clean (lex p)" using assms by (simp add: parser_ok_def)
    have lex: "bstrlen (lex ?p) = 0" "\<not> bcdone (lex ?p)" "\<not> bdone (lex ?p)"
      "bstrflag (lex ?p) \<longrightarrow> (\<exists>fs. frames p = Bdict None # fs)"
      using c Item by (auto simp: before_token_def lex_clean_def split: list.splits frame.splits option.splits)
    have "good (item_action (?p\<lparr>lex := l\<rparr>) t)"
      using yylex_item [OF tl lex(1,2)] lex(3,4) same mid
      by (intro item_action_good [where ?fs0.0 = "tl (frames p)"]) (auto simp: lex_clean_def)
    then show ?thesis using Item same by (simp add: token_action_def)
  next
    case (Str_colon n)
    then show ?thesis
      using yylex_colon [of "lex ?p" l] tl mid assms same
      by (auto simp: token_action_def parser_mid_def parser_ok_def before_token_def split: list.splits frame.splits)
  next
    case (Str_value n)
    then have "lex ?p = lex p" by (simp add: before_token_def)
    then show ?thesis
      using yylex_value [of "lex p" _ l] tl mid assms same Str_value
      by (auto simp: token_action_def parser_mid_def parser_ok_def lex_clean_def plain_nodes
          intro!: reduce_item_good split: token.splits)
  next
    case Int_number
    then have "lex ?p = lex p" by (simp add: before_token_def)
    then show ?thesis
      using yylex_item [of "lex p" t l] tl assms same Int_number int_number_good [OF mid]
      by (auto simp: token_action_def parser_ok_def lex_clean_def split: token.splits)
  next
    case (Int_end n)
    then have "lex ?p = lex p" by (simp add: before_token_def)
    then show ?thesis
      using yylex_item [of "lex p" t l] tl mid assms same Int_end
      by (auto simp: token_action_def parser_mid_def parser_ok_def lex_clean_def plain_nodes
          intro!: reduce_item_good split: token.splits)
  qed
  then show ?thesis using tl by (simp add: yystep_def)
qed

text \<open>The invariant carries over the whole run.\<close>

lemma yyparse_good:
  assumes "parser_ok p" "yyparse n p = Some r"
  shows "(\<exists>m. r = Fault (Exit m)) \<or> r = Ok None
    \<or> (\<exists>q. r = Ok (Some q) \<and> open_node BLIST (root q) \<and> lex_clean (lex q))"
  using assms
proof (induction n arbitrary: p)
  case (Suc n)
  note g = step_good [OF Suc.prems(1)]
  show ?case
  proof (cases "yystep p")
    case (Ok v)
    then show ?thesis using Suc.IH Suc.prems(2) g by (cases v) auto
  next
    case (Fault e)
    then show ?thesis using Suc.prems(2) g by (cases e) auto
  qed
qed simp

lemma parser_init_ok: "buf_ok b \<Longrightarrow> parser_ok (parser_init b benc_root_create)"
  by (auto simp: parser_ok_def parser_init_def lexer_init_def lex_clean_def benc_root_create_def open_new)

lemma parse_returns: "buf_ok b \<Longrightarrow> yyparse (parse_fuel b) (parser_init b node) \<noteq> None"
  by (rule yyparse_enough) (simp_all add: parser_init_def lexer_init_def lex_left_def parse_fuel_def)

section \<open>Properties\<close>

text \<open>
  (C4) On every input, malformed or hostile, the parser ends within its fuel and makes no undefined
  access: it rejects the input, or exits because more than fifteen containers are nested, or accepts
  with a well-formed list node as the root.
\<close>

theorem benc_parse_safe:
  assumes "buf_ok b"
  shows "benc_parse_buf b benc_root_create = Some (Ok None)
    \<or> (\<exists>m. benc_parse_buf b benc_root_create = Some (Fault (Exit m)))
    \<or> (\<exists>t. benc_parse_buf b benc_root_create = Some (Ok (Some t))
          \<and> wf_node t \<and> nbody t = Zero \<and> nflags t = BLIST)"
proof -
  obtain r where r: "yyparse (parse_fuel b) (parser_init b benc_root_create) = Some r"
    using parse_returns [OF assms] by blast
  then show ?thesis
    using yyparse_good [OF parser_init_ok [OF assms] r] by (auto simp: benc_parse_buf_def open_node_def)
qed

text \<open>A buffer that holds exactly the given bytes, not yet read.\<close>

definition buf_of :: "bytes \<Rightarrow> buf" where
  "buf_of d = \<lparr>cb_flags = 0, cb_buf = d, cb_size = length d, cb_cur = 0, cb_len = length d, cb_pos = 0\<rparr>"

lemma buf_of_ok [simp]: "length d < 2 ^ 64 \<Longrightarrow> buf_ok (buf_of d)" "buf_rest (buf_of d) = d"
  "cb_pos (buf_of d) = 0"
  by (simp_all add: buf_of_def buf_ok_def buf_rest_def buf_data_def)

theorem benc_parse_safe_witness:
  "benc_parse_buf (buf_of (str ''d1:'')) benc_root_create = Some (Ok None)
    \<or> (\<exists>m. benc_parse_buf (buf_of (str ''d1:'')) benc_root_create = Some (Fault (Exit m)))
    \<or> (\<exists>t. benc_parse_buf (buf_of (str ''d1:'')) benc_root_create = Some (Ok (Some t))
          \<and> wf_node t \<and> nbody t = Zero \<and> nflags t = BLIST)"
  by (rule benc_parse_safe) (simp add: buf_of_ok)

text \<open>
  The static variables of the lexer are what they were at program start after every accepted
  parse, so the next parse starts from the same state.
\<close>

lemma parse_leaves_lexer_clean:
  assumes "buf_ok b" "yyparse n (parser_init b benc_root_create) = Some (Ok (Some q))"
  shows "lex q = lexer_init (inb (lex q))"
proof -
  have "lex_clean (lex q)" using yyparse_good [OF parser_init_ok [OF assms(1)] assms(2)] by auto
  then show ?thesis by (cases "lex q") (simp add: lex_clean_def lexer_init_def)
qed

end
