(* ===== verification/Parse_Roundtrip.thy ===== *)
theory Parse_Roundtrip
  imports Parse_Safe
begin

text \<open>
  The parser of \<^verbatim>\<open>parse.y\<close> inverts the bencode encoding: abstract values, their encoding, the tree
  that stands for a value at an offset of the input, and the proof that the machine builds that tree
  and nothing else, for every value the parser can represent (no empty container, at most fifteen
  nested containers, integers of 64 bits).
\<close>

section \<open>Values, encoding, and the trees that represent them\<close>

datatype bval = BInt int | BStr bytes | BList "bval list" | BDict "(bytes \<times> bval) list"

definition enc_str :: "bytes \<Rightarrow> bytes" where
  "enc_str s = dec_nat (length s) @ 58 # s"

fun enc :: "bval \<Rightarrow> bytes" where
  "enc (BInt i) = 105 # dec_int i @ [101]"
| "enc (BStr s) = enc_str s"
| "enc (BList vs) = 108 # concat (map enc vs) @ [101]"
| "enc (BDict kvs) = 100 # concat (map (\<lambda>(k, v). enc_str k @ enc v) kvs) @ [101]"

text \<open>The object the lexer returns for a string of the given length: at least 128 bytes, NUL filled.\<close>

definition lexbuf_len :: "nat \<Rightarrow> nat" where
  "lexbuf_len n = 128 + 20480 * ((n + 20351) div 20480)"

definition lexbuf :: "bytes \<Rightarrow> bytes" where
  "lexbuf s = s @ replicate (lexbuf_len (length s) - length s) 0"

fun node_at :: "nat \<Rightarrow> bval \<Rightarrow> benc_node"
  and nodes_at :: "nat \<Rightarrow> bval list \<Rightarrow> benc_node list"
  and entries_at :: "nat \<Rightarrow> (bytes \<times> bval) list \<Rightarrow> benc_node list" where
  "node_at p (BInt i) = bint_node i"
| "node_at p (BStr s) = bstring_node (int (length s)) (lexbuf s)"
| "node_at p (BList vs) = Benc_node BLIST Zero (nodes_at (p + 1) vs) 0"
| "node_at p (BDict kvs) = Benc_node BDICT Zero (entries_at (p + 1) kvs) (p + length (enc (BDict kvs)))"
| "nodes_at p [] = []"
| "nodes_at p (v # vs) = node_at p v # nodes_at (p + length (enc v)) vs"
| "entries_at p [] = []"
| "entries_at p ((k, v) # kvs) =
     entry_node (lexbuf k) (node_at (p + length (enc_str k)) v)
       # entries_at (p + length (enc_str k) + length (enc v)) kvs"

text \<open>What the parser can represent, with \<open>d\<close> free places on its stack.\<close>

fun valid :: "nat \<Rightarrow> bval \<Rightarrow> bool" where
  "valid d (BInt i) \<longleftrightarrow> LLONG_MIN \<le> i \<and> i \<le> LLONG_MAX"
| "valid d (BStr s) \<longleftrightarrow> True"
| "valid d (BList vs) \<longleftrightarrow> 0 < d \<and> vs \<noteq> [] \<and> (\<forall>v \<in> set vs. valid (d - 1) v)"
| "valid d (BDict kvs) \<longleftrightarrow> 0 < d \<and> kvs \<noteq> [] \<and> (\<forall>(k, v) \<in> set kvs. valid (d - 1) v)"

section \<open>The lexer on encoded input\<close>

definition adv :: "buf \<Rightarrow> nat \<Rightarrow> buf" where
  "adv b n = b\<lparr>cb_pos := cb_pos b + n\<rparr>"

lemma adv_0 [simp]: "adv b 0 = b"
  by (simp add: adv_def)

lemma adv_adv [simp]: "adv (adv b m) n = adv b (m + n)"
  by (simp add: adv_def add.assoc)

lemma cb_pos_adv [simp]: "cb_pos (adv b n) = cb_pos b + n" "cb_len (adv b n) = cb_len b"
  by (simp_all add: adv_def)

lemma getc_adv:
  assumes "buf_ok b" "buf_rest b = c # r"
  shows "buf_getc b = Ok (Some c, adv b 1)" "buf_ok (adv b 1)" "buf_rest (adv b 1) = r"
    "buf_ungetc (adv b 1) = b"
proof -
  obtain b' where b': "buf_getc b = Ok (Some c, b')" "buf_rest b' = r" "buf_ok b'" "buf_ungetc b' = b"
    using src.getc_next [OF assms] by blast
  moreover have "b' = adv b 1"
    using b'(1) by (auto simp: buf_getc_def adv_def split: if_splits)
  ultimately show "buf_getc b = Ok (Some c, adv b 1)" "buf_ok (adv b 1)" "buf_rest (adv b 1) = r"
    "buf_ungetc (adv b 1) = b"
    by simp_all
qed

lemma adv_rest:
  assumes "buf_ok b" "buf_rest b = xs @ r"
  shows "buf_ok (adv b (length xs)) \<and> buf_rest (adv b (length xs)) = r"
  using assms
proof (induction xs arbitrary: b)
  case (Cons x xs)
  then show ?case using getc_adv [of b x "xs @ r"] Cons.IH [of "adv b 1"] by simp
qed simp

abbreviation LX :: "int \<Rightarrow> bool \<Rightarrow> bool \<Rightarrow> bool \<Rightarrow> buf \<Rightarrow> lexer" where
  "LX n f d c b \<equiv> \<lparr>bstrlen = n, bstrflag = f, bdone = d, bcdone = c, inb = b\<rparr>"

text \<open>One turn of the lexer's loop when a character is there.\<close>

lemma loop_char:
  assumes "buf_ok (inb s)" "buf_rest (inb s) = c # r" "\<not> (bstrlen s = 0 \<and> bstrflag s \<and> bcdone s)"
  shows "yylex_loop s buf i =
    (case lex_char (s\<lparr>inb := adv (inb s) 1\<rparr>) (lex_grow buf i) i c of
       Token t s \<Rightarrow> Ok (t, s) | More s buf i \<Rightarrow> yylex_loop s buf i)"
  using assms getc_adv(1) [OF assms(1,2)]
  by (subst yylex_loop.simps) (auto simp: lex_turn_def split: lexed.splits)

lemmas lex_simps = yylex_def loop_char lex_char_def Let_def buf_pos_def

lemma lex_int:
  "buf_ok b \<Longrightarrow> buf_rest b = 105 # r \<Longrightarrow>
   yylex (LX 0 False False False b) = Ok (INT_START, LX 0 False False False (adv b 1))"
  by (simp add: lex_simps)

lemma lex_dict:
  "buf_ok b \<Longrightarrow> buf_rest b = 100 # r \<Longrightarrow>
   yylex (LX 0 False False False b) = Ok (DICT_START, LX 0 False False False (adv b 1))"
  by (simp add: lex_simps)

lemma lex_list:
  "buf_ok b \<Longrightarrow> buf_rest b = 108 # r \<Longrightarrow>
   yylex (LX 0 False False False b) = Ok (LIST_START, LX 0 False False False (adv b 1))"
  by (simp add: lex_simps)

lemma lex_end:
  "buf_ok b \<Longrightarrow> buf_rest b = 101 # r \<Longrightarrow>
   yylex (LX 0 False d False b) = Ok (END (cb_pos b + 1), LX 0 False False False (adv b 1))"
  by (simp add: lex_simps)

lemma lex_colon:
  "buf_ok b \<Longrightarrow> buf_rest b = 58 # r \<Longrightarrow>
   yylex (LX n f True False b) = Ok (COLON, LX n f False True (adv b 1))"
  by (simp add: lex_simps)

lemma lex_eof:
  "buf_ok b \<Longrightarrow> buf_rest b = [] \<Longrightarrow>
   yylex (LX 0 False False False b) = Ok (EOF, LX 0 False False False b)"
  using src.getc_eof [of b] by (simp add: yylex_def) (subst yylex_loop.simps, simp add: lex_turn_def)

lemma lexbuf_len_form:
  obtains q r where "n + 20351 = 20480 * q + r" "r < 20480" "lexbuf_len n = 128 + 20480 * q"
  by (rule that [of "(n + 20351) div 20480" "(n + 20351) mod 20480"]) (simp_all add: lexbuf_len_def)

lemma lexbuf_len_ge: "n \<le> lexbuf_len n"
  by (rule lexbuf_len_form [of n]) linarith

lemma lexbuf_len_Suc: "lexbuf_len (Suc n) = (if n = lexbuf_len n then n + 20480 else lexbuf_len n)"
proof -
  obtain q r where q: "n + 20351 = 20480 * q + r" "r < 20480" "lexbuf_len n = 128 + 20480 * q"
    by (rule lexbuf_len_form)
  show ?thesis
  proof (cases "r = 20479")
    case True
    then have "Suc n + 20351 = 20480 * Suc q + 0" "n = lexbuf_len n" using q by simp_all
    then show ?thesis using q(3) div_mod_form(1) [of 0 20480 "Suc q"] by (simp add: lexbuf_len_def)
  next
    case False
    then have "Suc n + 20351 = 20480 * q + Suc r" "Suc r < 20480" "n \<noteq> lexbuf_len n" using q by simp_all
    then show ?thesis using q(3) div_mod_form(1) [of "Suc r" 20480 q] by (simp add: lexbuf_len_def)
  qed
qed

lemma length_lexbuf [simp]: "length (lexbuf s) = lexbuf_len (length s)"
  using lexbuf_len_ge [of "length s"] by (simp add: lexbuf_def)

lemma lexbuf_Nil: "lexbuf [] = replicate BENC_BUFFER_SIZE 0"
  by (simp add: lexbuf_def lexbuf_len_def BENC_BUFFER_SIZE_def)

lemma lexbuf_short: "length s \<le> 128 \<Longrightarrow> lexbuf s = s @ replicate (128 - length s) 0"
  by (simp add: lexbuf_def lexbuf_len_def)

lemma lexbuf_snoc: "(lex_grow (lexbuf s) (length s))[length s := c] = lexbuf (s @ [c])"
proof (cases "length s = lexbuf_len (length s)")
  case True
  have "lexbuf s = s" using True by (simp add: lexbuf_def)
  moreover have "lexbuf (s @ [c]) = s @ [c] @ replicate (20480 - 1) 0"
    using True lexbuf_len_Suc [of "length s"] by (simp add: lexbuf_def)
  moreover have "replicate BENC_BUFFER_INCREMENT (0 :: byte) = 0 # replicate (20480 - 1) 0"
    by (simp add: BENC_BUFFER_INCREMENT_def flip: replicate_Suc)
  ultimately show ?thesis by (simp add: lex_grow_def)
next
  case False
  then obtain k where "lexbuf_len (length s) - length s = Suc k"
    using lexbuf_len_ge [of "length s"] by (metis Suc_diff_Suc le_neq_implies_less)
  then show ?thesis
    using False lexbuf_len_Suc [of "length s"] by (simp add: lex_grow_def lexbuf_def)
qed

lemma loop_number:
  assumes "buf_ok b" "buf_rest b = ds @ t # r" "\<forall>d \<in> set ds. d \<notin> {58, 101, 105, 100, 108}"
    and "t = 58 \<or> t = 101 \<and> \<not> f" "length pre + length ds < 128" "pre @ ds \<noteq> []"
  shows "yylex_loop (LX 0 f False False b) (lexbuf pre) (length pre) =
    Ok (STRING (lexbuf (pre @ ds)), LX 0 f True False (adv b (length ds)))"
  using assms
proof (induction ds arbitrary: b pre)
  case Nil
  have "lex_grow (lexbuf pre) (length pre) = lexbuf pre"
    using Nil.prems(5) by (simp add: lex_grow_def lexbuf_short)
  then show ?case
    using Nil.prems getc_adv(4) [of b t r] by (auto simp: loop_char lex_char_def Let_def)
next
  case (Cons d ds)
  have "yylex_loop (LX 0 f False False b) (lexbuf pre) (length pre)
      = yylex_loop (LX 0 f False False (adv b 1)) (lexbuf (pre @ [d])) (length (pre @ [d]))"
    using Cons.prems by (simp add: loop_char lex_char_def Let_def lexbuf_snoc)
  moreover have "buf_ok (adv b 1)" "buf_rest (adv b 1) = ds @ t # r"
    using getc_adv [of b d "ds @ t # r"] Cons.prems by simp_all
  ultimately show ?case using Cons.IH [of "adv b 1" "pre @ [d]"] Cons.prems by simp
qed

lemma loop_string:
  assumes "buf_ok b" "buf_rest b = cs @ r" "cs \<noteq> []" "n = int (length pre + length cs)"
  shows "yylex_loop (LX n True False True b) (lexbuf pre) (length pre) =
    Ok (STRING (lexbuf (pre @ cs)), LX 0 False False False (adv b (length cs)))"
  using assms
proof (induction cs arbitrary: b pre)
  case (Cons c cs)
  show ?case
  proof (cases "cs = []")
    case True
    then show ?thesis using Cons.prems by (simp add: loop_char lex_char_def Let_def lexbuf_snoc)
  next
    case False
    have "yylex_loop (LX n True False True b) (lexbuf pre) (length pre)
        = yylex_loop (LX n True False True (adv b 1)) (lexbuf (pre @ [c])) (length (pre @ [c]))"
      using Cons.prems False by (simp add: loop_char lex_char_def Let_def lexbuf_snoc)
    moreover have "buf_ok (adv b 1)" "buf_rest (adv b 1) = cs @ r"
      using getc_adv [of b c "cs @ r"] Cons.prems by simp_all
    ultimately show ?thesis using Cons.IH [of "adv b 1" "pre @ [c]"] Cons.prems False by simp
  qed
qed simp

lemma lex_string:
  assumes "buf_ok b" "buf_rest b = s @ r"
  shows "yylex (LX (int (length s)) True False True b) =
    Ok (STRING (lexbuf s), LX 0 False False False (adv b (length s)))"
proof (cases "s = []")
  case True
  then show ?thesis
    by (simp add: yylex_def flip: lexbuf_Nil)
      (subst yylex_loop.simps, simp add: lex_turn_def Let_def lex_grow_def lexbuf_len_def)
next
  case False
  then show ?thesis
    using loop_string [of b s r "int (length s)" "[]"] assms by (simp add: yylex_def lexbuf_Nil)
qed

section \<open>Numbers\<close>

lemma length_dec_nat: "n < 10 ^ k \<Longrightarrow> 0 < k \<Longrightarrow> length (dec_nat n) \<le> k"
proof (induction k arbitrary: n)
  case (Suc k)
  show ?case
  proof (cases "n < 10")
    case False
    then have "0 < k" "n div 10 < 10 ^ k" using Suc.prems(1) by (auto intro: gr0I)
    then show ?thesis using Suc.IH [of "n div 10"] False by (subst dec_nat.simps) simp
  qed (subst dec_nat.simps, simp)
qed simp

definition is64 :: "int \<Rightarrow> bool" where
  "is64 i \<longleftrightarrow> LLONG_MIN \<le> i \<and> i \<le> LLONG_MAX"

lemma length_dec_int: "is64 i \<Longrightarrow> length (dec_int i) < 128"
  using length_dec_nat [of "nat \<bar>i\<bar>" 20]
  by (auto simp: is64_def dec_int_def LLONG_MIN_def LLONG_MAX_def nat_less_iff abs_if split: if_splits)

lemma dec_int_chars: "d \<in> set (dec_int i) \<Longrightarrow> d \<notin> {58, 101, 105, 100, 108}"
proof -
  have "(of_nat (48 + k) :: byte) \<notin> {58, 101, 105, 100, 108}" if "k < 10" for k
    using digit_props(1,7) [OF that] by (auto simp: isdigit_def)
  moreover assume "d \<in> set (dec_int i)"
  then have "d = 45 \<or> (\<exists>k < 10. d = of_nat (48 + k))"
    using dec_nat_digits [of d] by (auto simp: dec_int_def split: if_splits)
  ultimately show ?thesis by auto
qed

lemma lex_number:
  assumes "buf_ok b" "buf_rest b = dec_int i @ t # r" "is64 i" "t = 58 \<or> t = 101 \<and> \<not> f"
  shows "yylex (LX 0 f False False b) =
    Ok (STRING (lexbuf (dec_int i)), LX 0 f True False (adv b (length (dec_int i))))"
  using loop_number [of b "dec_int i" t r f "[]"] assms length_dec_int [OF assms(3)] dec_int_chars [of _ i]
  by (auto simp: yylex_def lexbuf_Nil dec_int_def)

lemma number_action_dec:
  assumes "is64 i"
  shows "number_action (lexbuf (dec_int i)) l = Ok (Some (i, if bstrflag l then l\<lparr>bstrlen := i\<rparr> else l))"
proof -
  obtain r where "lexbuf (dec_int i) = dec_int i @ 0 # r"
    using length_dec_int [OF assms] by (simp add: lexbuf_short less_imp_le)
      (metis Suc_diff_Suc replicate_Suc)
  then show ?thesis
    using strtonum_dec_int [of LLONG_MIN LLONG_MAX i] assms by (simp add: number_action_def is64_def)
qed

section \<open>Runs of the machine\<close>

definition yynext :: "parser \<Rightarrow> parser \<Rightarrow> bool" where
  "yynext p q \<longleftrightarrow> yystep p = Ok (Continue q)"

abbreviation PS :: "frame list \<Rightarrow> control \<Rightarrow> benc_node list \<Rightarrow> benc_node \<Rightarrow> lexer \<Rightarrow> parser" where
  "PS fs c st rt l \<equiv> \<lparr>frames = fs, ctrl = c, bstack = st, root = rt, lex = l\<rparr>"

abbreviation LZ :: "buf \<Rightarrow> lexer" where
  "LZ b \<equiv> LX 0 False False False b"

lemma run_through:
  assumes "yynext p q" "yynext\<^sup>*\<^sup>* q r" "yynext\<^sup>*\<^sup>* r s" "yynext s t"
  shows "yynext\<^sup>*\<^sup>* p t"
  using assms by (meson converse_rtranclp_into_rtranclp rtranclp.rtrancl_into_rtrancl rtranclp_trans)

lemma reduce_item_ctrl: "reduce_item (PS fs c st rt l) v = reduce_item (PS fs Item st rt l) v"
proof (cases fs)
  case (Cons f fs')
  then show ?thesis
    by (cases f) (simp_all add: reduce_item_def reduce_entry_def
        split: list.splits frame.splits option.splits benc_body.splits)
qed (simp add: reduce_item_def)

fun in_dict :: "frame list \<Rightarrow> bool" where
  "in_dict (Bdict e # fs) = True"
| "in_dict fs = False"

lemma before_token_flag:
  "\<exists>f. before_token (PS fs Item st rt (LZ b)) = PS fs Item st rt (LX 0 f False False b)"
  by (auto simp: before_token_def split: list.splits frame.splits option.splits)

lemma before_token_plain:
  "c \<noteq> Item \<or> \<not> in_dict fs \<Longrightarrow> before_token (PS fs c st rt l) = PS fs c st rt l"
  by (auto simp: before_token_def split: list.splits frame.splits option.splits control.splits)

lemma before_token_more: "before_token (PS (Bdict (Some e) # fs) c st rt l) = PS (Bdict (Some e) # fs) c st rt l"
  by (auto simp: before_token_def split: control.splits)

lemma dec_nat_int: "dec_nat n = dec_int (int n)"
  by (simp add: dec_int_def)

definition fits :: "bytes \<Rightarrow> bool" where
  "fits s \<longleftrightarrow> int (length s) \<le> LLONG_MAX"

lemma fits_is64: "fits s \<Longrightarrow> is64 (int (length s))"
  by (simp add: fits_def is64_def LLONG_MIN_def)

lemma string_run:
  assumes "buf_ok b" "buf_rest b = enc_str s @ r" "fits s"
    and "reduce_item (PS fs Item st rt (LZ (adv b (length (enc_str s))))) (bstring_node (int (length s)) (lexbuf s))
       = Ok (Continue p')"
  shows "yynext\<^sup>*\<^sup>* (PS fs Item st rt (LZ b)) p'"
proof -
  let ?n = "int (length s)" and ?k = "length (dec_int (int (length s)))"
  obtain f where f: "before_token (PS fs Item st rt (LZ b)) = PS fs Item st rt (LX 0 f False False b)"
    using before_token_flag by blast
  have rest: "buf_rest b = dec_int ?n @ 58 # s @ r" using assms(2) by (simp add: enc_str_def dec_nat_int)
  have b1: "buf_ok (adv b ?k)" "buf_rest (adv b ?k) = 58 # s @ r"
    using adv_rest [OF assms(1) rest] by simp_all
  have b2: "buf_ok (adv b (?k + 1))" "buf_rest (adv b (?k + 1)) = s @ r"
    using getc_adv(2,3) [OF b1] by simp_all
  have "yynext (PS fs Item st rt (LZ b)) (PS fs (Str_colon ?n) st rt (LX ?n True True False (adv b ?k)))"
    using lex_number [OF assms(1) rest fits_is64 [OF assms(3)], of f]
    by (simp add: yynext_def yystep_def f token_action_def item_action_def start_string_def
        number_action_dec [OF fits_is64 [OF assms(3)]])
  moreover have "yynext (PS fs (Str_colon ?n) st rt (LX ?n True True False (adv b ?k)))
      (PS fs (Str_value ?n) st rt (LX ?n True False True (adv b (?k + 1))))"
    using lex_colon [OF b1, of ?n True]
    by (simp add: yynext_def yystep_def before_token_plain token_action_def)
  moreover have "yynext (PS fs (Str_value ?n) st rt (LX ?n True False True (adv b (?k + 1)))) p'"
    using lex_string [OF b2] assms(4)
    by (simp add: yynext_def yystep_def before_token_plain token_action_def reduce_item_ctrl [of fs "Str_value ?n"]
        enc_str_def dec_nat_int)
  ultimately show ?thesis by (meson converse_rtranclp_into_rtranclp r_into_rtranclp)
qed

lemma int_run:
  assumes "buf_ok b" "buf_rest b = enc (BInt i) @ r" "is64 i" "\<not> in_dict fs"
    and "reduce_item (PS fs Item st rt (LZ (adv b (length (enc (BInt i)))))) (bint_node i) = Ok (Continue p')"
  shows "yynext\<^sup>*\<^sup>* (PS fs Item st rt (LZ b)) p'"
proof -
  let ?k = "length (dec_int i)"
  have rest: "buf_rest b = 105 # dec_int i @ 101 # r" using assms(2) by simp
  have b1: "buf_ok (adv b 1)" "buf_rest (adv b 1) = dec_int i @ 101 # r"
    using getc_adv(2,3) [OF assms(1) rest] by simp_all
  have b2: "buf_ok (adv b (1 + ?k))" "buf_rest (adv b (1 + ?k)) = 101 # r"
    using adv_rest [OF b1] by simp_all
  have "yynext (PS fs Item st rt (LZ b)) (PS fs Int_number st rt (LZ (adv b 1)))"
    using lex_int [OF assms(1) rest] assms(4)
    by (auto simp: yynext_def yystep_def before_token_plain token_action_def item_action_def
        split: list.splits frame.splits)
  moreover have "yynext (PS fs Int_number st rt (LZ (adv b 1)))
      (PS fs (Int_end i) st rt (LX 0 False True False (adv b (1 + ?k))))"
    using lex_number [OF b1 assms(3), of False]
    by (simp add: yynext_def yystep_def before_token_plain token_action_def number_action_dec [OF assms(3)])
  moreover have "yynext (PS fs (Int_end i) st rt (LX 0 False True False (adv b (1 + ?k)))) p'"
    using lex_end [OF b2, of True] assms(5)
    by (simp add: yynext_def yystep_def before_token_plain token_action_def reduce_item_ctrl [of fs "Int_end i"])
  ultimately show ?thesis by (meson converse_rtranclp_into_rtranclp r_into_rtranclp)
qed

text \<open>
  \<open>item_runs d v\<close>: with \<open>d\<close> free places on the stack, the machine that waits for an item reads the
  encoding of \<open>v\<close> and reduces the tree of \<open>v\<close> into the rule around it.
\<close>

definition item_runs :: "nat \<Rightarrow> bval \<Rightarrow> bool" where
  "item_runs d v \<longleftrightarrow> (\<forall>b r fs st rt p'. buf_ok b \<longrightarrow> buf_rest b = enc v @ r \<longrightarrow> fits (enc v) \<longrightarrow>
     \<not> in_dict fs \<longrightarrow> length st + d \<le> 15 \<longrightarrow>
     reduce_item (PS fs Item st rt (LZ (adv b (length (enc v))))) (node_at (cb_pos b) v) = Ok (Continue p') \<longrightarrow>
     yynext\<^sup>*\<^sup>* (PS fs Item st rt (LZ b)) p')"

lemma item_runsD:
  assumes "item_runs d v" "buf_ok b" "buf_rest b = enc v @ r" "fits (enc v)" "\<not> in_dict fs"
    and "length st + d \<le> 15"
    and "reduce_item (PS fs Item st rt (LZ (adv b (length (enc v))))) (node_at (cb_pos b) v) = Ok (Continue p')"
  shows "yynext\<^sup>*\<^sup>* (PS fs Item st rt (LZ b)) p'"
  using assms unfolding item_runs_def by blast

lemma list_rest_run:
  assumes "\<forall>v \<in> set vs. item_runs d v" "buf_ok b" "buf_rest b = concat (map enc vs) @ r"
    and "fits (concat (map enc vs))" "length st + d < 15"
  shows "yynext\<^sup>*\<^sup>* (PS (Blist (Some e) # fs) Item (Benc_node f u cs n # st) rt (LZ b))
    (PS (Blist (Some e) # fs) Item (Benc_node f u (cs @ nodes_at (cb_pos b) vs) n # st) rt
      (LZ (adv b (length (concat (map enc vs))))))"
  using assms
proof (induction vs arbitrary: b cs)
  case (Cons v vs)
  let ?b = "adv b (length (enc v))" and ?c = "cs @ [node_at (cb_pos b) v]"
  have fit: "fits (enc v)" "fits (concat (map enc vs))" using Cons.prems(4) by (simp_all add: fits_def)
  have b: "buf_ok ?b" "buf_rest ?b = concat (map enc vs) @ r"
    using adv_rest [of b "enc v"] Cons.prems(2,3) by simp_all
  have s1: "yynext\<^sup>*\<^sup>* (PS (Blist (Some e) # fs) Item (Benc_node f u cs n # st) rt (LZ b))
      (PS (Blist (Some e) # fs) Item (Benc_node f u ?c n # st) rt (LZ ?b))"
    using Cons.prems fit(1)
    by (intro item_runsD [of d v b "concat (map enc vs) @ r"]) (simp_all add: reduce_item_def benc_node_add_def)
  have s2: "yynext\<^sup>*\<^sup>* (PS (Blist (Some e) # fs) Item (Benc_node f u ?c n # st) rt (LZ ?b)) (PS (Blist (Some e) # fs) Item
      (Benc_node f u (?c @ nodes_at (cb_pos ?b) vs) n # st) rt (LZ (adv ?b (length (concat (map enc vs))))))"
    using Cons.prems fit(2) b by (intro Cons.IH) simp_all
  show ?case using rtranclp_trans [OF s1 s2] by simp
qed simp

lemma list_run:
  assumes "\<forall>v \<in> set vs. item_runs d v" "vs \<noteq> []"
  shows "item_runs (Suc d) (BList vs)"
  unfolding item_runs_def
proof (intro allI impI)
  fix b r fs st rt p'
  assume ok: "buf_ok b" and rest: "buf_rest b = enc (BList vs) @ r" and fit: "fits (enc (BList vs))"
    and nd: "\<not> in_dict fs" and room: "length st + Suc d \<le> 15"
    and red: "reduce_item (PS fs Item st rt (LZ (adv b (length (enc (BList vs)))))) (node_at (cb_pos b) (BList vs))
       = Ok (Continue p')"
  obtain v vs' where vs: "vs = v # vs'" using assms(2) by (cases vs) auto
  let ?ns = "nodes_at (cb_pos b + 1 + length (enc v)) vs'" and ?e = "node_at (cb_pos b + 1) v"
  let ?b1 = "adv b 1" let ?b2 = "adv ?b1 (length (enc v))"
  let ?b3 = "adv ?b2 (length (concat (map enc vs')))"
  let ?N = "Benc_node BLIST Zero"
  have fits: "fits (enc v)" "fits (concat (map enc vs'))" using fit by (simp_all add: vs fits_def)
  have r0: "buf_rest b = 108 # enc v @ concat (map enc vs') @ 101 # r" using rest by (simp add: vs)
  have b1: "buf_ok ?b1" "buf_rest ?b1 = enc v @ concat (map enc vs') @ 101 # r"
    using getc_adv(2,3) [OF ok r0] by simp_all
  have b2: "buf_ok ?b2" "buf_rest ?b2 = concat (map enc vs') @ 101 # r" using adv_rest [OF b1] by simp_all
  have b3: "buf_ok ?b3" "buf_rest ?b3 = 101 # r" using adv_rest [OF b2] by simp_all
  have s1: "yynext (PS fs Item st rt (LZ b)) (PS (Blist None # fs) Item (?N [] 0 # st) rt (LZ ?b1))"
    using lex_list [OF ok r0] nd room
    by (auto simp: yynext_def yystep_def before_token_plain token_action_def item_action_def start_container_def
        benc_stack_push_def BENC_STACK_SIZE_def set_flags_def benc_node_create_def split: list.splits frame.splits)
  have s2: "yynext\<^sup>*\<^sup>* (PS (Blist None # fs) Item (?N [] 0 # st) rt (LZ ?b1))
      (PS (Blist (Some ?e) # fs) Item (?N [] 0 # st) rt (LZ ?b2))"
    using assms(1) b1 fits(1) room
    by (intro item_runsD [of d v ?b1 "concat (map enc vs') @ 101 # r"]) (simp_all add: vs reduce_item_def)
  have s3: "yynext\<^sup>*\<^sup>* (PS (Blist (Some ?e) # fs) Item (?N [] 0 # st) rt (LZ ?b2)) (PS (Blist (Some ?e) # fs) Item (?N ([] @ nodes_at (cb_pos ?b2) vs') 0 # st) rt (LZ ?b3))"
    using assms(1) b2 fits(2) room by (intro list_rest_run [where d = d]) (simp_all add: vs)
  have s4: "yynext (PS (Blist (Some ?e) # fs) Item (?N ([] @ nodes_at (cb_pos ?b2) vs') 0 # st) rt (LZ ?b3)) p'"
    using lex_end [OF b3, of False] red
    by (simp add: yynext_def yystep_def before_token_plain token_action_def item_action_def end_list_def
        benc_node_add_head_def vs add.assoc)
  show "yynext\<^sup>*\<^sup>* (PS fs Item st rt (LZ b)) p'"
    by (rule run_through [OF s1 s2 s3 s4])
qed

abbreviation enc_entry :: "bytes \<times> bval \<Rightarrow> bytes" where
  "enc_entry \<equiv> \<lambda>(k, v). enc_str k @ enc v"

text \<open>One entry of a dictionary: its key, then its value, up to the reduction of the entry.\<close>

lemma entry_run:
  assumes "item_runs d v" "buf_ok b" "buf_rest b = enc_entry (k, v) @ r" "fits (enc_entry (k, v))"
    and "length st + d \<le> 15"
    and "reduce_entry (PS (Bkey (lexbuf k) # Bdict e # fs) Item st rt (LZ (adv b (length (enc_entry (k, v))))))
        (Bdict e # fs) (entry_node (lexbuf k) (node_at (cb_pos b + length (enc_str k)) v)) = Ok (Continue p')"
  shows "yynext\<^sup>*\<^sup>* (PS (Bdict e # fs) Item st rt (LZ b)) p'"
proof -
  let ?b = "adv b (length (enc_str k))"
  have rest: "buf_rest b = enc_str k @ enc v @ r" using assms(3) by simp
  have fit: "fits k" "fits (enc v)" using assms(4) by (simp_all add: fits_def enc_str_def)
  have b: "buf_ok ?b" "buf_rest ?b = enc v @ r" using adv_rest [OF assms(2) rest] by simp_all
  have s1: "yynext\<^sup>*\<^sup>* (PS (Bdict e # fs) Item st rt (LZ b)) (PS (Bkey (lexbuf k) # Bdict e # fs) Item st rt (LZ ?b))"
    using assms(2) rest fit(1)
    by (intro string_run [of b k "enc v @ r"])
      (simp_all add: reduce_item_def bstring_node_def set_flags_def set_body_def benc_node_create_def)
  have s2: "yynext\<^sup>*\<^sup>* (PS (Bkey (lexbuf k) # Bdict e # fs) Item st rt (LZ ?b)) p'"
    using assms(1,5,6) b fit(2) by (intro item_runsD [of d v ?b r]) (simp_all add: reduce_item_def)
  show ?thesis by (rule rtranclp_trans [OF s1 s2])
qed

lemma dict_rest_run:
  assumes "\<forall>(k, v) \<in> set kvs. item_runs d v" "buf_ok b" "buf_rest b = concat (map enc_entry kvs) @ r"
    and "fits (concat (map enc_entry kvs))" "length st + d < 15"
  shows "yynext\<^sup>*\<^sup>* (PS (Bdict (Some e) # fs) Item (Benc_node f u cs n # st) rt (LZ b))
    (PS (Bdict (Some e) # fs) Item (Benc_node f u (cs @ entries_at (cb_pos b) kvs) n # st) rt
      (LZ (adv b (length (concat (map enc_entry kvs))))))"
  using assms
proof (induction kvs arbitrary: b cs)
  case (Cons kv kvs)
  obtain k v where kv: "kv = (k, v)" by (cases kv)
  let ?b = "adv b (length (enc_entry kv))"
  let ?c = "cs @ [entry_node (lexbuf k) (node_at (cb_pos b + length (enc_str k)) v)]"
  have fit: "fits (enc_entry (k, v))" "fits (concat (map enc_entry kvs))"
    using Cons.prems(4) by (simp_all add: kv fits_def)
  have b: "buf_ok ?b" "buf_rest ?b = concat (map enc_entry kvs) @ r"
    using adv_rest [of b "enc_entry kv"] Cons.prems(2,3) by simp_all
  have s1: "yynext\<^sup>*\<^sup>* (PS (Bdict (Some e) # fs) Item (Benc_node f u cs n # st) rt (LZ b))
      (PS (Bdict (Some e) # fs) Item (Benc_node f u ?c n # st) rt (LZ ?b))"
    using Cons.prems fit(1)
    by (intro entry_run [of d v b k "concat (map enc_entry kvs) @ r"])
      (simp_all add: kv reduce_entry_def benc_node_add_def)
  have s2: "yynext\<^sup>*\<^sup>* (PS (Bdict (Some e) # fs) Item (Benc_node f u ?c n # st) rt (LZ ?b)) (PS (Bdict (Some e) # fs) Item
      (Benc_node f u (?c @ entries_at (cb_pos ?b) kvs) n # st) rt (LZ (adv ?b (length (concat (map enc_entry kvs))))))"
    using Cons.prems fit(2) b by (intro Cons.IH) simp_all
  show ?case using rtranclp_trans [OF s1 s2] by (simp add: kv add.assoc)
qed simp

lemma dict_run:
  assumes "\<forall>(k, v) \<in> set kvs. item_runs d v" "kvs \<noteq> []"
  shows "item_runs (Suc d) (BDict kvs)"
  unfolding item_runs_def
proof (intro allI impI)
  fix b r fs st rt p'
  assume ok: "buf_ok b" and rest: "buf_rest b = enc (BDict kvs) @ r" and fit: "fits (enc (BDict kvs))"
    and nd: "\<not> in_dict fs" and room: "length st + Suc d \<le> 15"
    and red: "reduce_item (PS fs Item st rt (LZ (adv b (length (enc (BDict kvs)))))) (node_at (cb_pos b) (BDict kvs))
       = Ok (Continue p')"
  obtain k v kvs' where kvs: "kvs = (k, v) # kvs'" using assms(2) by (cases kvs) auto
  let ?e = "entry_node (lexbuf k) (node_at (cb_pos b + 1 + length (enc_str k)) v)"
  let ?rest = "concat (map enc_entry kvs')"
  let ?b1 = "adv b 1" let ?b2 = "adv ?b1 (length (enc_entry (k, v)))" let ?b3 = "adv ?b2 (length ?rest)"
  let ?N = "Benc_node BDICT Zero"
  have fits: "fits (enc_entry (k, v))" "fits ?rest" using fit by (simp_all add: kvs fits_def)
  have r0: "buf_rest b = 100 # enc_entry (k, v) @ ?rest @ 101 # r" using rest by (simp add: kvs)
  have b1: "buf_ok ?b1" "buf_rest ?b1 = enc_entry (k, v) @ ?rest @ 101 # r"
    using getc_adv(2,3) [OF ok r0] by simp_all
  have b2: "buf_ok ?b2" "buf_rest ?b2 = ?rest @ 101 # r" using adv_rest [OF b1] by simp_all
  have b3: "buf_ok ?b3" "buf_rest ?b3 = 101 # r" using adv_rest [OF b2] by simp_all
  have s1: "yynext (PS fs Item st rt (LZ b)) (PS (Bdict None # fs) Item (?N [] 0 # st) rt (LZ ?b1))"
    using lex_dict [OF ok r0] nd room
    by (auto simp: yynext_def yystep_def before_token_plain token_action_def item_action_def start_container_def
        benc_stack_push_def BENC_STACK_SIZE_def set_flags_def benc_node_create_def split: list.splits frame.splits)
  have s2: "yynext\<^sup>*\<^sup>* (PS (Bdict None # fs) Item (?N [] 0 # st) rt (LZ ?b1))
      (PS (Bdict (Some ?e) # fs) Item (?N [] 0 # st) rt (LZ ?b2))"
    using assms(1) b1 fits(1) room
    by (intro entry_run [of d v ?b1 k "?rest @ 101 # r"]) (simp_all add: kvs reduce_entry_def)
  have s3: "yynext\<^sup>*\<^sup>* (PS (Bdict (Some ?e) # fs) Item (?N [] 0 # st) rt (LZ ?b2)) (PS (Bdict (Some ?e) # fs) Item (?N ([] @ entries_at (cb_pos ?b2) kvs') 0 # st) rt (LZ ?b3))"
    using assms(1) b2 fits(2) room by (intro dict_rest_run [where d = d]) (simp_all add: kvs)
  have s4: "yynext (PS (Bdict (Some ?e) # fs) Item (?N ([] @ entries_at (cb_pos ?b2) kvs') 0 # st) rt (LZ ?b3)) p'"
    using lex_end [OF b3, of False] red
    by (simp add: yynext_def yystep_def before_token_more token_action_def item_action_def end_dict_def
        benc_node_add_head_def set_end_def kvs add.assoc)
  show "yynext\<^sup>*\<^sup>* (PS fs Item st rt (LZ b)) p'"
    by (rule run_through [OF s1 s2 s3 s4])
qed

lemma valid_runs: "valid d v \<Longrightarrow> item_runs d v"
proof (induction d v rule: valid.induct)
  case (1 d i)
  then show ?case unfolding item_runs_def using int_run by (simp add: is64_def)
next
  case (2 d s)
  show ?case unfolding item_runs_def
  proof (intro allI impI)
    fix b r fs st rt p'
    assume "buf_ok b" "buf_rest b = enc (BStr s) @ r" "fits (enc (BStr s))"
      "reduce_item (PS fs Item st rt (LZ (adv b (length (enc (BStr s)))))) (node_at (cb_pos b) (BStr s))
       = Ok (Continue p')"
    then show "yynext\<^sup>*\<^sup>* (PS fs Item st rt (LZ b)) p'"
      by (intro string_run [of b s r]) (simp_all add: fits_def enc_str_def)
  qed
next
  case (3 d vs)
  then show ?case using list_run [of vs "d - 1"] by simp
next
  case (4 d kvs)
  then show ?case using dict_run [of kvs "d - 1"] by fastforce
qed

lemma top_run:
  assumes "\<forall>v \<in> set vs. item_runs 15 v" "buf_ok b" "buf_rest b = concat (map enc vs) @ r"
    and "fits (concat (map enc vs))"
  shows "yynext\<^sup>*\<^sup>* (PS [Bencode] Item [] (Benc_node f u cs n) (LZ b))
    (PS [Bencode] Item [] (Benc_node f u (cs @ nodes_at (cb_pos b) vs) n)
      (LZ (adv b (length (concat (map enc vs))))))"
  using assms
proof (induction vs arbitrary: b cs)
  case (Cons v vs)
  let ?b = "adv b (length (enc v))" and ?c = "cs @ [node_at (cb_pos b) v]"
  have fit: "fits (enc v)" "fits (concat (map enc vs))" using Cons.prems(4) by (simp_all add: fits_def)
  have b: "buf_ok ?b" "buf_rest ?b = concat (map enc vs) @ r"
    using adv_rest [of b "enc v"] Cons.prems(2,3) by simp_all
  have s1: "yynext\<^sup>*\<^sup>* (PS [Bencode] Item [] (Benc_node f u cs n) (LZ b))
      (PS [Bencode] Item [] (Benc_node f u ?c n) (LZ ?b))"
    using Cons.prems fit(1)
    by (intro item_runsD [of 15 v b "concat (map enc vs) @ r"]) (simp_all add: reduce_item_def benc_node_add_def)
  have s2: "yynext\<^sup>*\<^sup>* (PS [Bencode] Item [] (Benc_node f u ?c n) (LZ ?b)) (PS [Bencode] Item []
      (Benc_node f u (?c @ nodes_at (cb_pos ?b) vs) n) (LZ (adv ?b (length (concat (map enc vs))))))"
    using Cons.prems fit(2) b by (intro Cons.IH) simp_all
  show ?case using rtranclp_trans [OF s1 s2] by simp
qed simp

lemma run_accept:
  assumes "yynext\<^sup>*\<^sup>* p q" "yystep q = Ok (Accept q')"
  shows "\<exists>n. yyparse n p = Some (Ok (Some q'))"
  using assms
proof (induction rule: converse_rtranclp_induct)
  case base
  then have "yyparse 1 q = Some (Ok (Some q'))" by simp
  then show ?case by blast
next
  case (step p p1)
  then obtain n where "yyparse n p1 = Some (Ok (Some q'))" by blast
  then have "yyparse (Suc n) p = Some (Ok (Some q'))" using step(1) by (simp add: yynext_def)
  then show ?case by blast
qed

lemma parse_enc:
  assumes "buf_ok b" "buf_rest b = concat (map enc vs)" "fits (concat (map enc vs))"
    and "\<forall>v \<in> set vs. valid 15 v"
  shows "benc_parse_buf b benc_root_create = Some (Ok (Some (Benc_node BLIST Zero (nodes_at (cb_pos b) vs) 0)))"
proof -
  let ?b = "adv b (length (concat (map enc vs)))" and ?rt = "Benc_node BLIST Zero (nodes_at (cb_pos b) vs) 0"
  have init: "parser_init b benc_root_create = PS [Bencode] Item [] (Benc_node BLIST Zero [] 0) (LZ b)"
    by (simp add: parser_init_def lexer_init_def benc_root_create_def set_flags_def benc_node_create_def)
  have "yynext\<^sup>*\<^sup>* (parser_init b benc_root_create) (PS [Bencode] Item [] ?rt (LZ ?b))"
    using top_run [of vs b "[]" BLIST Zero "[]" 0] valid_runs assms by (simp add: init)
  moreover have "buf_ok ?b" "buf_rest ?b = []" using adv_rest [of b "concat (map enc vs)" "[]"] assms by simp_all
  then have "yystep (PS [Bencode] Item [] ?rt (LZ ?b)) = Ok (Accept (PS [Bencode] Item [] ?rt (LZ ?b)))"
    using lex_eof [of ?b] by (simp add: yystep_def before_token_def token_action_def item_action_def)
  ultimately obtain n where "yyparse n (parser_init b benc_root_create)
      = Some (Ok (Some (PS [Bencode] Item [] ?rt (LZ ?b))))"
    using run_accept by blast
  moreover obtain r where "yyparse (parse_fuel b) (parser_init b benc_root_create) = Some r"
    using parse_returns [OF assms(1)] by blast
  ultimately have "yyparse (parse_fuel b) (parser_init b benc_root_create)
      = Some (Ok (Some (PS [Bencode] Item [] ?rt (LZ ?b))))"
    using yyparse_unique by blast
  then show ?thesis by (simp add: benc_parse_buf_def)
qed

section \<open>Properties\<close>

text \<open>
  (C2) Parsing inverts encoding: on the encodings of any sequence of values that the parser can
  represent, \<^verbatim>\<open>benc_parse_buf\<close> returns the root with exactly the trees of these values as children, with
  the end offset of every dictionary, and consumes the whole input.
\<close>

theorem benc_roundtrip:
  assumes "buf_ok b" "buf_rest b = concat (map enc vs)" "fits (concat (map enc vs))"
    and "\<forall>v \<in> set vs. valid 15 v"
  shows "benc_parse_buf b benc_root_create = Some (Ok (Some (Benc_node BLIST Zero (nodes_at (cb_pos b) vs) 0)))"
  using assms by (rule parse_enc)

theorem benc_roundtrip_witness:
  "benc_parse_buf (buf_of (concat (map enc [BDict [([97], BList [BInt (-7), BStr [0, 58, 101]])]])))
     benc_root_create
   = Some (Ok (Some (Benc_node BLIST Zero
       (nodes_at 0 [BDict [([97], BList [BInt (-7), BStr [0, 58, 101]])]]) 0)))"
proof -
  let ?vs = "[BDict [([97], BList [BInt (-7), BStr [0, 58, 101]])]]"
  have short: "length (concat (map enc ?vs)) < 30"
    by (simp add: enc_str_def dec_int_def dec_nat.simps)
  show ?thesis
    using benc_roundtrip [of "buf_of (concat (map enc ?vs))" ?vs] short
    by (simp add: fits_def LLONG_MAX_def LLONG_MIN_def del: enc.simps nodes_at.simps)
qed

end
