(* ===== verification/Bitfield.thy ===== *)
theory Bitfield
  imports Prelude
begin

text \<open>
  The bit arrays of \<^verbatim>\<open>util.c\<close>: \<^verbatim>\<open>util_setbit\<close> and \<^verbatim>\<open>util_getbit\<close>. A bit field is a byte list; an
  access to a byte the array does not have is undefined. The locale \<open>bit_array\<close> is the interface
  the clients rely on (bit fields of peers, of the local torrent and of the fast-resume file).
\<close>

section \<open>util.c: util_setbit, util_getbit\<close>

definition util_setbit :: "bytes \<Rightarrow> u32 \<Rightarrow> bytes res" where
  "util_setbit bitfield bi =
     (let byte = drop_bit 3 bi in
      if unat byte < length bitfield
      then Ok (bitfield[unat byte :=
             bitfield ! unat byte OR push_bit (unat (7 - (bi AND 7))) 1])
      else Fault (Undef ''util_setbit''))"

definition util_getbit :: "bytes \<Rightarrow> u32 \<Rightarrow> bool res" where
  "util_getbit bitfield bi =
     (let byte = drop_bit 3 bi in
      if unat byte < length bitfield
      then Ok ((ucast (bitfield ! unat byte) AND push_bit (unat (7 - (bi AND 7))) (1 :: u32)) \<noteq> 0)
      else Fault (Undef ''util_getbit''))"

text \<open>The byte and the position a bit index denotes.\<close>

definition byte_of :: "u32 \<Rightarrow> nat" where
  "byte_of i = unat i div 8"

definition pos_of :: "u32 \<Rightarrow> nat" where
  "pos_of i = 7 - unat i mod 8"

section \<open>Bit-level lemmas\<close>

lemma unat_drop3 [simp]: "unat (drop_bit 3 (i :: u32)) = byte_of i"
  by (simp add: byte_of_def drop_bit_eq_div unat_div_distrib)

lemma unat_and7: "unat ((i :: u32) AND 7) = unat i mod 8"
proof -
  have "i AND 7 = take_bit 3 i" by (simp add: take_bit_eq_mask mask_eq_exp_minus_1)
  then show ?thesis by (simp add: take_bit_eq_mod unat_mod_distrib)
qed

lemma unat_pos [simp]: "unat (7 - ((i :: u32) AND 7)) = pos_of i"
proof -
  have "unat (i AND 7) \<le> 7" by (simp add: unat_and7)
  then have "i AND 7 \<le> 7" by (simp add: word_le_nat_alt)
  then show ?thesis by (simp add: pos_of_def unat_sub unat_and7)
qed

lemma pos_of_less [simp]: "pos_of i < 8"
  by (simp add: pos_of_def)

lemma byte_pos_inject: "byte_of i = byte_of j \<Longrightarrow> pos_of i = pos_of j \<Longrightarrow> i = j"
proof -
  assume "byte_of i = byte_of j" "pos_of i = pos_of j"
  then have d: "unat i div 8 = unat j div 8" and m: "7 - unat i mod 8 = 7 - unat j mod 8"
    by (simp_all add: byte_of_def pos_of_def)
  have "unat i mod 8 < 8" "unat j mod 8 < 8" by simp_all
  with m have "unat i mod 8 = unat j mod 8" by linarith
  with d have "unat i = unat j" by (metis div_mult_mod_eq)
  then show ?thesis by (rule unsigned_word_eqI)
qed

lemma bit_test: "((ucast (b :: byte) :: u32) AND push_bit n 1 \<noteq> 0) \<longleftrightarrow> bit b n" if "n < 8"
proof -
  have "(ucast b :: u32) AND push_bit n 1 = (if bit b n then push_bit n 1 else 0)"
    using that by (auto intro!: bit_word_eqI simp: bit_simps)
  moreover have "push_bit n (1 :: u32) \<noteq> 0"
    using that by (simp add: push_bit_eq_mult)
  ultimately show ?thesis by simp
qed

lemma getbit_bit: "util_getbit bf i =
    (if byte_of i < length bf then Ok (bit (bf ! byte_of i) (pos_of i)) else Fault (Undef ''util_getbit''))"
  using bit_test [of "pos_of i" "bf ! byte_of i"] by (simp add: util_getbit_def Let_def)

lemma setbit_update: "util_setbit bf i =
    (if byte_of i < length bf then Ok (bf[byte_of i := bf ! byte_of i OR push_bit (pos_of i) 1])
     else Fault (Undef ''util_setbit''))"
  by (simp add: util_setbit_def Let_def)

section \<open>The interface of a bit array\<close>

text \<open>
  What a client may assume: an index below the capacity can be read and set, setting keeps the
  capacity, and a set changes exactly the bit it names.
\<close>

locale bit_array =
  fixes setb :: "'f \<Rightarrow> u32 \<Rightarrow> 'f res"
    and getb :: "'f \<Rightarrow> u32 \<Rightarrow> bool res"
    and cap :: "'f \<Rightarrow> nat"
  assumes get_in: "unat i < cap f \<Longrightarrow> is_Ok (getb f i)"
    and set_in: "unat i < cap f \<Longrightarrow> is_Ok (setb f i)"
    and set_cap: "setb f i = Ok f' \<Longrightarrow> cap f' = cap f"
    and get_set: "setb f i = Ok f' \<Longrightarrow> getb f' j = (if j = i then Ok True else getb f j)"
begin

text \<open>Setting a list of bits one after the other: the loop every client runs.\<close>

lemma set_list_ok:
  assumes "\<forall>i \<in> set is. unat i < cap f"
  shows "\<exists>f'. rfold setb f is = Ok f' \<and> cap f' = cap f"
  using assms
proof (induction "is" arbitrary: f)
  case Nil
  then show ?case by simp
next
  case (Cons i "is")
  then obtain f1 where f1: "setb f i = Ok f1" using set_in [of i f] by (auto simp: is_Ok_iff)
  then have cap1: "cap f1 = cap f" by (rule set_cap)
  with Cons.prems have "\<forall>k \<in> set is. unat k < cap f1" by simp
  then obtain f' where "rfold setb f1 is = Ok f'" "cap f' = cap f1"
    using Cons.IH by blast
  with f1 cap1 show ?case by simp
qed

lemma get_set_list:
  assumes "rfold setb f is = Ok f'"
  shows "getb f' j = (if j \<in> set is then Ok True else getb f j)"
  using assms
proof (induction "is" arbitrary: f)
  case Nil
  then show ?case by simp
next
  case (Cons i "is")
  then obtain f1 where f1: "setb f i = Ok f1" "rfold setb f1 is = Ok f'" by auto
  have "getb f' j = (if j \<in> set is then Ok True else getb f1 j)"
    using f1(2) by (rule Cons.IH)
  with get_set [OF f1(1)] show ?case by auto
qed

end

lemma byte_of_in: "unat i < 8 * length bf \<longleftrightarrow> byte_of i < length bf"
  by (auto simp: byte_of_def)

interpretation bf: bit_array util_setbit util_getbit "\<lambda>f. 8 * length f"
proof
  fix i :: u32 and f :: bytes
  assume "unat i < 8 * length f"
  then show "is_Ok (util_getbit f i)" by (simp add: getbit_bit byte_of_in)
next
  fix i :: u32 and f :: bytes
  assume "unat i < 8 * length f"
  then show "is_Ok (util_setbit f i)" by (simp add: setbit_update byte_of_in)
next
  fix f f' :: bytes and i :: u32
  assume "util_setbit f i = Ok f'"
  then show "8 * length f' = 8 * length f" by (auto simp: setbit_update split: if_splits)
next
  fix f f' :: bytes and i j :: u32
  assume "util_setbit f i = Ok f'"
  then have f': "f' = f[byte_of i := f ! byte_of i OR push_bit (pos_of i) 1]"
    and len: "byte_of i < length f"
    by (auto simp: setbit_update split: if_splits)
  show "util_getbit f' j = (if j = i then Ok True else util_getbit f j)"
    using len byte_pos_inject [of i j]
    by (auto simp: f' getbit_bit nth_list_update bit_simps)
qed

text \<open>The all-zero field that \<^verbatim>\<open>memset\<close> leaves, and the all-ones field of a HAVEALL message.\<close>

lemma getbit_zero: "util_getbit (replicate n 0) i =
    (if unat i < 8 * n then Ok False else Fault (Undef ''util_getbit''))"
  using byte_of_in [of i "replicate n 0"] by (auto simp: getbit_bit)

lemma getbit_ones: "util_getbit (replicate n 255) i =
    (if unat i < 8 * n then Ok True else Fault (Undef ''util_getbit''))"
proof -
  have "(255 :: byte) = mask 8" by (simp add: mask_eq_exp_minus_1)
  then have "bit (255 :: byte) (pos_of i)" by (simp only: bit_mask_iff) simp
  then show ?thesis using byte_of_in [of i "replicate n 255"] by (auto simp: getbit_bit)
qed

section \<open>Properties\<close>

text \<open>
  Setting any list of bit indexes that lie in a zeroed field of \<open>n\<close> bytes succeeds, keeps the
  size, and leaves a field in which exactly the listed bits read as set; every other index inside
  reads as clear and an index outside is an out-of-bounds read.
\<close>

theorem bitfield_set_get:
  assumes "\<forall>i \<in> set is. unat i < 8 * n"
  shows "\<exists>f. rfold util_setbit (replicate n 0) is = Ok f \<and> length f = n
    \<and> (\<forall>j. util_getbit f j =
          (if j \<in> set is then Ok True
           else if unat j < 8 * n then Ok False else Fault (Undef ''util_getbit'')))"
proof -
  obtain f where f: "rfold util_setbit (replicate n 0) is = Ok f" "8 * length f = 8 * n"
    using bf.set_list_ok [of "is" "replicate n 0"] assms by auto
  then have "length f = n" by simp
  with f(1) show ?thesis using bf.get_set_list [OF f(1)] by (auto simp: getbit_zero)
qed

theorem bitfield_set_get_witness:
  "\<exists>f. rfold util_setbit (replicate 2 0) [3, 9, 15] = Ok f \<and> length f = 2
    \<and> (\<forall>j. util_getbit f j =
          (if j \<in> set [3, 9, 15] then Ok True
           else if unat j < 8 * 2 then Ok False else Fault (Undef ''util_getbit'')))"
  by (rule bitfield_set_get) simp

end
