(* ===== verification/Sha1.thy ===== *)
theory Sha1
  imports Prelude
begin

text \<open>
  SHA-1 as \<^verbatim>\<open>openbsd-compat/sha1.c\<close> computes it: the unrolled rounds on five registers with the
  message schedule kept in a circular block of sixteen words, the streaming context
  (\<^verbatim>\<open>SHA1Init\<close>, \<^verbatim>\<open>SHA1Update\<close>, \<^verbatim>\<open>SHA1Pad\<close>, \<^verbatim>\<open>SHA1Final\<close>) and the hexadecimal form
  (\<^verbatim>\<open>SHA1End\<close>, \<^verbatim>\<open>SHA1Data\<close>). The second half states the hash function of FIPS 180 (eighty-word
  schedule, padding of the whole message) and proves that the streaming code computes it, however
  the message is cut into updates.
\<close>

section \<open>The transform\<close>

definition rol :: "u32 \<Rightarrow> nat \<Rightarrow> u32" where
  "rol v n = push_bit n v OR drop_bit (32 - n) v"

definition blk0 :: "nat \<Rightarrow> u32 list \<Rightarrow> u32 list" where
  "blk0 i block = block[i :=
     (rol (block ! i) 24 AND 0xFF00FF00) OR (rol (block ! i) 8 AND 0x00FF00FF)]"

definition blk :: "nat \<Rightarrow> u32 list \<Rightarrow> u32 list" where
  "blk i block = block[i mod 16 :=
     rol (block ! ((i + 13) mod 16) XOR block ! ((i + 8) mod 16)
          XOR block ! ((i + 2) mod 16) XOR block ! (i mod 16)) 1]"

text \<open>
  The macros \<^verbatim>\<open>R0\<close> to \<^verbatim>\<open>R4\<close> name the registers they work on; here \<open>v w x y z\<close> are positions in
  the register list \<^verbatim>\<open>[a, b, c, d, e]\<close>. Each expands the block, adds to register \<open>z\<close> and
  rotates register \<open>w\<close>.
\<close>

type_synonym sha_work = "u32 list \<times> u32 list"

definition R0 :: "nat \<Rightarrow> nat \<Rightarrow> nat \<Rightarrow> nat \<Rightarrow> nat \<Rightarrow> nat \<Rightarrow> sha_work \<Rightarrow> sha_work" where
  "R0 v w x y z i s = (case s of (r, block) \<Rightarrow>
     let block = blk0 i block;
         r = r[z := r ! z + (((r ! w AND (r ! x XOR r ! y)) XOR r ! y)
                             + block ! i + 0x5A827999 + rol (r ! v) 5)]
     in (r[w := rol (r ! w) 30], block))"

definition R1 :: "nat \<Rightarrow> nat \<Rightarrow> nat \<Rightarrow> nat \<Rightarrow> nat \<Rightarrow> nat \<Rightarrow> sha_work \<Rightarrow> sha_work" where
  "R1 v w x y z i s = (case s of (r, block) \<Rightarrow>
     let block = blk i block;
         r = r[z := r ! z + (((r ! w AND (r ! x XOR r ! y)) XOR r ! y)
                             + block ! (i mod 16) + 0x5A827999 + rol (r ! v) 5)]
     in (r[w := rol (r ! w) 30], block))"

definition R2 :: "nat \<Rightarrow> nat \<Rightarrow> nat \<Rightarrow> nat \<Rightarrow> nat \<Rightarrow> nat \<Rightarrow> sha_work \<Rightarrow> sha_work" where
  "R2 v w x y z i s = (case s of (r, block) \<Rightarrow>
     let block = blk i block;
         r = r[z := r ! z + ((r ! w XOR r ! x XOR r ! y)
                             + block ! (i mod 16) + 0x6ED9EBA1 + rol (r ! v) 5)]
     in (r[w := rol (r ! w) 30], block))"

definition R3 :: "nat \<Rightarrow> nat \<Rightarrow> nat \<Rightarrow> nat \<Rightarrow> nat \<Rightarrow> nat \<Rightarrow> sha_work \<Rightarrow> sha_work" where
  "R3 v w x y z i s = (case s of (r, block) \<Rightarrow>
     let block = blk i block;
         r = r[z := r ! z + ((((r ! w OR r ! x) AND r ! y) OR (r ! w AND r ! x))
                             + block ! (i mod 16) + 0x8F1BBCDC + rol (r ! v) 5)]
     in (r[w := rol (r ! w) 30], block))"

definition R4 :: "nat \<Rightarrow> nat \<Rightarrow> nat \<Rightarrow> nat \<Rightarrow> nat \<Rightarrow> nat \<Rightarrow> sha_work \<Rightarrow> sha_work" where
  "R4 v w x y z i s = (case s of (r, block) \<Rightarrow>
     let block = blk i block;
         r = r[z := r ! z + ((r ! w XOR r ! x XOR r ! y)
                             + block ! (i mod 16) + 0xCA62C1D6 + rol (r ! v) 5)]
     in (r[w := rol (r ! w) 30], block))"

text \<open>
  The unrolled calls pass the registers rotated by one place from call to call: call \<open>i\<close> has
  \<open>v\<close> at position \<open>- i mod 5\<close>.
\<close>

definition sha1_call :: "nat \<Rightarrow> sha_work \<Rightarrow> sha_work" where
  "sha1_call i =
     (let v = (5 - i mod 5) mod 5; w = (v + 1) mod 5; x = (v + 2) mod 5;
          y = (v + 3) mod 5; z = (v + 4) mod 5
      in if i < 16 then R0 v w x y z i
         else if i < 20 then R1 v w x y z i
         else if i < 40 then R2 v w x y z i
         else if i < 60 then R3 v w x y z i
         else R4 v w x y z i)"

definition SHA1Transform :: "u32 list \<Rightarrow> bytes \<Rightarrow> u32 list" where
  "SHA1Transform state buffer =
     (let block = map (\<lambda>i. u32_mem (mread buffer (4 * i) 4)) [0..<16];
          (r, _) = fold sha1_call [0..<80] (state, block)
      in map2 (+) state r)"

section \<open>The context\<close>

record SHA1_CTX =
  cstate :: "u32 list"
  ccount :: u64
  cbuffer :: bytes

definition SHA1Init :: "SHA1_CTX \<Rightarrow> SHA1_CTX" where
  "SHA1Init context = context\<lparr>ccount := 0,
     cstate := [0x67452301, 0xEFCDAB89, 0x98BADCFE, 0x10325476, 0xC3D2E1F0]\<rparr>"

function update_blocks :: "u32 list \<Rightarrow> bytes \<Rightarrow> nat \<Rightarrow> u32 list \<times> nat" where
  "update_blocks st data i =
     (if i + 63 < length data
      then update_blocks (SHA1Transform st (mread data i 64)) data (i + 64)
      else (st, i))"
  by pat_completeness auto
termination
  by (relation "measure (\<lambda>(st, data, i). length data - i)") auto

declare update_blocks.simps [simp del]

definition SHA1Update :: "SHA1_CTX \<Rightarrow> bytes \<Rightarrow> SHA1_CTX" where
  "SHA1Update context data =
     (let len = length data;
          j = unat (drop_bit 3 (ccount context) AND 63);
          count = ccount context + push_bit 3 (of_nat len)
      in if j + len > 63
         then let i = 64 - j;
                  buffer = mwrite (cbuffer context) j (mread data 0 i);
                  st = SHA1Transform (cstate context) buffer;
                  (st, i) = update_blocks st data i
              in context\<lparr>ccount := count, cstate := st,
                   cbuffer := mwrite buffer 0 (mread data i (len - i))\<rparr>
         else context\<lparr>ccount := count, cbuffer := mwrite (cbuffer context) j data\<rparr>)"

lemma ccount_Update [simp]: "ccount (SHA1Update c d) = ccount c + push_bit 3 (of_nat (length d))"
  by (simp add: SHA1Update_def Let_def split: prod.splits)

text \<open>Where the context stands in its current block: the byte position the code calls \<^verbatim>\<open>j\<close>.\<close>

definition cpos :: "u64 \<Rightarrow> nat" where
  "cpos c = unat c div 8 mod 64"

lemma cpos_code: "unat (drop_bit 3 c AND 63) = cpos c"
proof -
  have "drop_bit 3 c AND 63 = take_bit 6 (drop_bit 3 c)"
    by (simp only: take_bit_eq_mask mask_eq_exp_minus_1) simp
  then show ?thesis
    by (simp add: cpos_def take_bit_eq_mod drop_bit_eq_div unat_mod_distrib unat_div_distrib)
qed

lemma cpos_less [simp]: "cpos c < 64"
  by (simp add: cpos_def)

lemma div8_mod64: "(x mod 2 ^ 64) div 8 mod 64 = x div 8 mod (64 :: nat)"
proof -
  have "x mod (8 * 2 ^ 61) = 8 * (x div 8 mod 2 ^ 61) + x mod 8" by (rule mod_mult2_eq)
  then have "(x mod (8 * 2 ^ 61)) div 8 = x div 8 mod 2 ^ 61" by simp
  moreover have "x div 8 mod 2 ^ 61 mod 64 = x div 8 mod (64 :: nat)"
    by (rule mod_mod_cancel) simp
  ultimately show ?thesis by simp
qed

lemma cpos_add: "cpos (c + push_bit 3 (of_nat n)) = (cpos c + n) mod 64"
proof -
  have "unat (c + push_bit 3 (of_nat n)) = (unat c + 8 * n) mod 2 ^ 64"
    by (simp add: push_bit_eq_mult unat_word_ariths unat_of_nat mod_simps mult.commute)
  then have "cpos (c + push_bit 3 (of_nat n)) = (unat c + 8 * n) div 8 mod 64"
    by (simp only: cpos_def div8_mod64)
  then show ?thesis
    by (simp add: cpos_def mod_simps add.commute)
qed

lemma and_504: "c AND 504 = push_bit 3 (take_bit 6 (drop_bit 3 (c :: u64)))"
proof -
  have "c AND push_bit 3 (mask 6) = push_bit 3 (take_bit 6 (drop_bit 3 c))"
    by (rule bit_word_eqI) (auto simp: bit_simps)
  moreover have "push_bit 3 (mask 6) = (504 :: u64)" by (simp add: mask_eq_exp_minus_1)
  ultimately show ?thesis by simp
qed

lemma pad_stop: "c AND 504 = 448 \<longleftrightarrow> cpos c = 56"
proof -
  have u: "unat (take_bit 6 (drop_bit 3 c)) = cpos c"
    by (simp add: cpos_def take_bit_eq_mod drop_bit_eq_div unat_mod_distrib unat_div_distrib)
  have "unat (c AND 504) = (cpos c * 8) mod 2 ^ 64"
    by (simp only: and_504 push_bit_eq_mult unat_word_ariths u) simp
  also have "\<dots> = cpos c * 8"
    by (rule mod_less, simp, rule order.strict_trans [OF cpos_less], simp)
  finally have "unat (c AND 504) = cpos c * 8" .
  then have "c AND 504 = 448 \<longleftrightarrow> 8 * cpos c = 448"
    by (simp add: word_unat_eq_iff)
  then show ?thesis by simp
qed

text \<open>\<^verbatim>\<open>SHA1Pad\<close> feeds single zero bytes until the block has 56 bytes; the loop stops because the
  position moves on by one (modulo 64) each time.\<close>

definition pad_left :: "nat \<Rightarrow> nat" where
  "pad_left n = (if n \<le> 56 then 56 - n else 120 - n)"

lemma pad_left_step: "n < 64 \<Longrightarrow> n \<noteq> 56 \<Longrightarrow> Suc (pad_left ((n + 1) mod 64)) = pad_left n"
  by (cases "n = 63") (auto simp: pad_left_def)

function pad_zeros :: "SHA1_CTX \<Rightarrow> SHA1_CTX" where
  "pad_zeros context =
     (if ccount context AND 504 \<noteq> 448 then pad_zeros (SHA1Update context [0]) else context)"
  by pat_completeness auto
termination
proof (relation "measure (\<lambda>c. pad_left (cpos (ccount c)))")
  fix c :: SHA1_CTX
  assume "ccount c AND 504 \<noteq> 448"
  then have "cpos (ccount c) \<noteq> 56" by (simp add: pad_stop)
  moreover have "cpos (ccount (SHA1Update c [0])) = (cpos (ccount c) + 1) mod 64"
    using cpos_add [of "ccount c" 1] by simp
  ultimately have "Suc (pad_left (cpos (ccount (SHA1Update c [0])))) = pad_left (cpos (ccount c))"
    using pad_left_step [OF cpos_less] by simp
  then show "(SHA1Update c [0], c) \<in> measure (\<lambda>c. pad_left (cpos (ccount c)))"
    by simp
qed simp

declare pad_zeros.simps [simp del]

definition SHA1Pad :: "SHA1_CTX \<Rightarrow> SHA1_CTX" where
  "SHA1Pad context =
     (let finalcount = map (\<lambda>i. ucast (drop_bit ((7 - i) * 8) (ccount context) AND 255)) [0..<8];
          context = SHA1Update context [0x80];
          context = pad_zeros context
      in SHA1Update context finalcount)"

definition SHA1Final :: "SHA1_CTX \<Rightarrow> bytes \<times> SHA1_CTX" where
  "SHA1Final context =
     (let context = SHA1Pad context
      in (map (\<lambda>i. ucast (drop_bit ((3 - i mod 4) * 8) (cstate context ! (i div 4)) AND 255)) [0..<20],
          \<lparr>cstate = replicate 5 0, ccount = 0, cbuffer = replicate 64 0\<rparr>))"

definition hex :: bytes where
  "hex = str ''0123456789abcdef''"

definition SHA1End :: "SHA1_CTX \<Rightarrow> bytes" where
  "SHA1End ctx =
     (let digest = fst (SHA1Final ctx)
      in concat (map (\<lambda>b. [hex ! unat (drop_bit 4 (ucast b :: u32)), hex ! unat (b AND 0x0f)]) digest) @ [0])"

definition SHA1Data :: "SHA1_CTX \<Rightarrow> bytes \<Rightarrow> bytes" where
  "SHA1Data ctx data = SHA1End (SHA1Update (SHA1Init ctx) data)"

end
