(* ===== verification/Torrent.thy ===== *)
theory Torrent
  imports Bitfield Sha1 Cstring
begin

text \<open>
  The data of a torrent and its storage, from \<^verbatim>\<open>includes.h\<close> and \<^verbatim>\<open>torrent.c\<close>: files, pieces, the memory
  mappings of a piece, reading and writing blocks through them, the hash check, the bit field and the
  fast-resume file.

  The contents of the torrent's files are a list of byte lists, by position in the file list; a
  mapping is a range of one of them, and an access outside the file is undefined. System calls that
  fail for reasons outside the program (no such permission, a locked file, no memory) are not
  modelled; \<^verbatim>\<open>off_t\<close> is \<open>int\<close>, \<^verbatim>\<open>u_int32_t\<close> keeps its width. A pointer to a piece is its position
  in \<^verbatim>\<open>piece_array\<close>.
\<close>

section \<open>Structures\<close>

datatype ttype = MULTIFILE | SINGLEFILE

record torrent_mmap =
  mm_file :: nat
  mm_off :: int
  mm_aligned :: int
  mm_maplen :: u32
  mm_len :: u32

definition TORRENT_PIECE_CKSUMOK :: u32 where "TORRENT_PIECE_CKSUMOK = 1"
definition TORRENT_PIECE_MAPPED :: u32 where "TORRENT_PIECE_MAPPED = 2"

record torrent_piece =
  tpp_flags :: u32
  tpp_blocks :: u32
  tpp_len :: u32
  tpp_index :: u32
  tpp_mmaps :: "torrent_mmap list"

record torrent_file =
  file_length :: int
  md5sum :: "bytes option"
  tf_path :: bytes
  tf_open :: bool
  refs :: nat

text \<open>
  The union is its valid member: \<open>files\<close> has the one file of a SINGLEFILE torrent, or the queue of a
  MULTIFILE one; \<open>base_name\<close> and \<open>total_length\<close> are used in the second case.
\<close>

record torrent =
  ttype :: ttype
  files :: "torrent_file list"
  base_name :: bytes
  pieces :: bytes
  total_length :: int
  announce_url :: bytes
  creation_date :: int
  comment :: "bytes option"
  created_by :: "bytes option"
  info_hash :: bytes
  num_pieces :: u32
  piece_length :: u32
  good_pieces :: u32
  uploaded :: int
  downloaded :: int
  left :: int
  interval :: u32
  trackerid :: "bytes option"
  tname :: bytes
  isnew :: bool
  complete :: u32
  incomplete :: u32
  piece_array :: "torrent_piece list"

type_synonym disk = "bytes list"

section \<open>Blocks\<close>

text \<open>Reading and writing memory through a mapping, \<open>k\<close> bytes from its start.\<close>

definition mm_load :: "disk \<Rightarrow> torrent_mmap \<Rightarrow> nat \<Rightarrow> nat \<Rightarrow> bytes res" where
  "mm_load d m k n =
     (let a = nat (mm_off m) + k in
      if n = 0 then Ok []
      else if mm_file m < length d \<and> 0 \<le> mm_off m \<and> a + n \<le> length (d ! mm_file m)
      then Ok (mread (d ! mm_file m) a n) else Fault (Undef ''memcpy''))"

definition mm_store :: "disk \<Rightarrow> torrent_mmap \<Rightarrow> nat \<Rightarrow> bytes \<Rightarrow> disk res" where
  "mm_store d m k bs =
     (let a = nat (mm_off m) + k in
      if bs = [] then Ok d
      else if mm_file m < length d \<and> 0 \<le> mm_off m \<and> a + length bs \<le> length (d ! mm_file m)
      then Ok (d[mm_file m := mwrite (d ! mm_file m) a bs]) else Fault (Undef ''memcpy''))"

text \<open>\<open>n\<close> bytes of the caller's buffer, from \<open>k\<close>.\<close>

definition src_bytes :: "bytes \<Rightarrow> nat \<Rightarrow> nat \<Rightarrow> bytes res" where
  "src_bytes d k n = (if k + n \<le> length d then Ok (mread d k n) else Fault (Undef ''memcpy''))"

text \<open>The loop of \<^verbatim>\<open>torrent_block_write\<close> over the mappings of the piece.\<close>

fun block_write_loop ::
  "torrent_mmap list \<Rightarrow> int \<Rightarrow> u32 \<Rightarrow> bytes \<Rightarrow> int \<Rightarrow> int \<Rightarrow> u32 \<Rightarrow> disk \<Rightarrow> disk res" where
  "block_write_loop [] off len d cntlen cntbase bytesleft dk = Ok dk"
| "block_write_loop (tmmp # ms) off len d cntlen cntbase bytesleft dk =
     (if bytesleft < len
      then let diff = len - bytesleft in
           if bytesleft > mm_len tmmp
           then rbind (src_bytes d (unat diff) (unat (mm_len tmmp))) (\<lambda>bs.
                rbind (mm_store dk tmmp 0 bs) (\<lambda>dk.
                  block_write_loop ms off len d cntlen cntbase (bytesleft - mm_len tmmp) dk))
           else rbind (src_bytes d (unat diff) (unat bytesleft)) (\<lambda>bs. mm_store dk tmmp 0 bs)
      else let cntlen = cntlen + uint (mm_len tmmp) in
           if cntlen < off
           then block_write_loop ms off len d cntlen (cntbase + uint (mm_len tmmp)) bytesleft dk
           else let k = nat (off - cntbase); cntbase = max cntbase off;
                    tlen = mm_len tmmp - of_nat k in
                if len > tlen
                then rbind (src_bytes d 0 (unat tlen)) (\<lambda>bs.
                     rbind (mm_store dk tmmp k bs) (\<lambda>dk.
                       block_write_loop ms off len d cntlen cntbase (bytesleft - tlen) dk))
                else rbind (src_bytes d 0 (unat len)) (\<lambda>bs. mm_store dk tmmp k bs))"

definition torrent_block_write :: "torrent_piece \<Rightarrow> int \<Rightarrow> u32 \<Rightarrow> bytes \<Rightarrow> disk \<Rightarrow> disk res" where
  "torrent_block_write tpp off len d dk = block_write_loop (tpp_mmaps tpp) off len d 0 0 len dk"

text \<open>
  \<^verbatim>\<open>torrent_block_read\<close>: the result is NULL, or the bytes the returned pointer refers to together with
  \<^verbatim>\<open>hint\<close>. A byte of the copied block that was never written has no value. \<open>acc\<close> is what the block
  holds before \<^verbatim>\<open>bptr\<close>, \<open>None\<close> while no block is allocated.
\<close>

definition finish_block :: "u32 \<Rightarrow> bytes \<Rightarrow> byte option list" where
  "finish_block len acc = map Some acc @ replicate (unat len - length acc) None"

fun block_read_loop ::
  "torrent_mmap list \<Rightarrow> int \<Rightarrow> u32 \<Rightarrow> int \<Rightarrow> int \<Rightarrow> u32 \<Rightarrow> bytes option \<Rightarrow> disk
     \<Rightarrow> (byte option list \<times> bool) option res" where
  "block_read_loop [] off len cntlen cntbase tlen acc dk =
     Ok (map_option (\<lambda>bs. (finish_block len bs, True)) acc)"
| "block_read_loop (tmmp # ms) off len cntlen cntbase tlen acc dk =
     (let cntlen = cntlen + uint (mm_len tmmp) in
      if cntlen < off
      then block_read_loop ms off len cntlen (cntbase + uint (mm_len tmmp)) tlen acc dk
      else let ilen = word_of_int (uint (mm_len tmmp) - (off - cntbase)) :: u32;
               k = nat (off - cntbase); cntbase = max cntbase off in
           if ilen > mm_len tmmp then Fault (Exit ''overflow: ilen > tmmp->len'')
           else if ilen < tlen
           then rbind (mm_load dk tmmp k (unat ilen)) (\<lambda>bs.
                  block_read_loop ms off len cntlen cntbase (tlen - ilen)
                    (Some ((case acc of None \<Rightarrow> [] | Some a \<Rightarrow> a) @ bs)) dk)
           else rbind (mm_load dk tmmp k (unat tlen)) (\<lambda>bs. case acc of
                  None \<Rightarrow> Ok (Some (map Some bs, False))
                | Some a \<Rightarrow> Ok (Some (finish_block len (a @ bs), True))))"

definition torrent_block_read :: "torrent_piece \<Rightarrow> int \<Rightarrow> u32 \<Rightarrow> disk \<Rightarrow> (byte option list \<times> bool) option res" where
  "torrent_block_read tpp off len dk = block_read_loop (tpp_mmaps tpp) off len 0 0 len None dk"

section \<open>Pieces\<close>

definition torrent_piece_find :: "torrent \<Rightarrow> u32 \<Rightarrow> torrent_piece res" where
  "torrent_piece_find tp idx =
     (if idx > num_pieces tp - 1 then Fault (Exit ''torrent_piece_find: index out of bounds'')
      else if unat idx < length (piece_array tp) then Ok (piece_array tp ! unat idx)
      else Fault (Undef ''piece_array''))"

definition update_piece :: "torrent \<Rightarrow> u32 \<Rightarrow> torrent_piece \<Rightarrow> torrent" where
  "update_piece tp idx tpp = tp\<lparr>piece_array := (piece_array tp)[unat idx := tpp]\<rparr>"

text \<open>The descriptor of piece \<open>i\<close>, with the zeros of \<^verbatim>\<open>xcalloc\<close> in the other members.\<close>

definition piece_create :: "torrent \<Rightarrow> u32 \<Rightarrow> torrent_piece" where
  "piece_create tp i =
     (let off = uint (piece_length tp) * uint i;
          len = (if i = num_pieces tp - 1
                 then (case ttype tp of
                         SINGLEFILE \<Rightarrow> word_of_int (file_length (hd (files tp)) - off)
                       | MULTIFILE \<Rightarrow> word_of_int (total_length tp
                             - uint ((num_pieces tp - 1) * piece_length tp)))
                 else piece_length tp)
      in \<lparr>tpp_flags = 0, tpp_blocks = 0, tpp_len = len, tpp_index = i, tpp_mmaps = []\<rparr>)"

definition torrent_pieces_create :: "torrent \<Rightarrow> torrent" where
  "torrent_pieces_create tp =
     tp\<lparr>piece_array := map (\<lambda>i. piece_create tp (of_nat i)) [0..<unat (num_pieces tp)]\<rparr>"

text \<open>
  \<^verbatim>\<open>torrent_mmap_create\<close>: the file is opened when it is not, and grown by writing a zero byte at its
  new end when it is too short (then it is closed and opened again). \<open>pagesize\<close> is the answer of
  \<^verbatim>\<open>sysconf\<close>. The operating system grants what is asked: left out are the exits for a path that is too long, for
  directories that cannot be made and for an \<^verbatim>\<open>open\<close> or \<^verbatim>\<open>mmap\<close> that fails.
\<close>

definition torrent_mmap_create ::
  "int \<Rightarrow> nat \<Rightarrow> int \<Rightarrow> u32 \<Rightarrow> torrent \<times> disk \<Rightarrow> (torrent_mmap \<times> torrent \<times> disk) res" where
  "torrent_mmap_create pagesize f off len st = (case st of (tp, dk) \<Rightarrow>
     if f \<ge> length (files tp) \<or> f \<ge> length dk then Fault (Undef ''tfp'')
     else
       let readonly = (good_pieces tp = num_pieces tp);
           tfp = (files tp ! f)\<lparr>tf_open := True\<rparr>;
           need = uint len + off
       in if int (length (dk ! f)) < need \<and> readonly
          then Fault (Exit ''torrent_mmap_create: write() failure'')
          else
            let grown = int (length (dk ! f)) < need;
                dk = (if grown
                      then dk[f := dk ! f @ replicate (nat need - length (dk ! f)) 0] else dk);
                page_off = (if off > 0 then (off div pagesize) * pagesize else 0);
                maplen = (if off > 0 then len + word_of_int (off - page_off) else len);
                tmmp = \<lparr>mm_file = f, mm_off = off, mm_aligned = page_off, mm_maplen = maplen, mm_len = len\<rparr>;
                tfp = tfp\<lparr>refs := refs tfp + 1\<rparr>
            in Ok (tmmp, tp\<lparr>files := (files tp)[f := tfp], isnew := isnew tp \<or> grown\<rparr>, dk))"

text \<open>One mapping more at the end of the piece's queue.\<close>

type_synonym map_state = "torrent_piece \<times> torrent \<times> disk"

definition map_one :: "int \<Rightarrow> map_state \<Rightarrow> nat \<times> int \<times> u32 \<Rightarrow> map_state res" where
  "map_one pagesize st seg = (case (st, seg) of ((tpp, s), (f, off, n)) \<Rightarrow>
     rbind (torrent_mmap_create pagesize f off n s) (\<lambda>(m, s).
       Ok (tpp\<lparr>tpp_mmaps := tpp_mmaps tpp @ [m], tpp_len := tpp_len tpp + mm_len m\<rparr>, s)))"

text \<open>
  The loop over the files of a multi-file torrent, by the lengths of the files that are left; \<open>f\<close> is
  the position of the first of them.
\<close>

fun piece_map_loop :: "int \<Rightarrow> nat \<Rightarrow> int list \<Rightarrow> int \<Rightarrow> u32 \<Rightarrow> map_state \<Rightarrow> map_state res" where
  "piece_map_loop pg f [] off len st = Ok st"
| "piece_map_loop pg f (fl # fls) off len st =
     (if off > fl then piece_map_loop pg (f + 1) fls (off - fl) len st
      else if fl < uint len \<and> tpp_len (fst st) < len
      then if fl - off = 0 then piece_map_loop pg (f + 1) fls off len st
           else rbind (map_one pg st (f, off, word_of_int (fl - off))) (\<lambda>st.
                  piece_map_loop pg (f + 1) fls 0 (len - word_of_int (fl - off)) st)
      else if off + uint len > fl
      then if fl = off then piece_map_loop pg (f + 1) fls 0 len st
           else rbind (map_one pg st (f, off, word_of_int (fl - off))) (\<lambda>st.
                  let len = len - word_of_int (fl - off); off = off + 1 in
                  case fls of
                    [] \<Rightarrow> Fault (Undef ''nxttfp'')
                  | nl # nls \<Rightarrow>
                      if nl < uint len
                      then if nl = 0 then piece_map_loop pg (f + 1) fls off len st
                           else rbind (map_one pg st (f + 1, 0, word_of_int nl)) (\<lambda>st.
                                  piece_map_loop pg (f + 2) nls 0 (len - word_of_int nl) st)
                      else if len = 0 then piece_map_loop pg (f + 1) fls off len st
                           else map_one pg st (f + 1, 0, len))
      else if off < fl
      then if len = 0 then piece_map_loop pg (f + 1) fls off len st
           else map_one pg st (f, off, len)
      else piece_map_loop pg (f + 1) fls off len st)"

definition torrent_piece_map :: "int \<Rightarrow> torrent_piece \<Rightarrow> torrent \<times> disk \<Rightarrow> map_state res" where
  "torrent_piece_map pg tpp s =
     (let tp = fst s; off = uint (piece_length tp) * uint (tpp_index tpp) in
      rmap (\<lambda>(tpp, s). (tpp\<lparr>tpp_flags := tpp_flags tpp OR TORRENT_PIECE_MAPPED\<rparr>, s))
        (case ttype tp of
           SINGLEFILE \<Rightarrow> rbind (torrent_mmap_create pg 0 off (tpp_len tpp) s) (\<lambda>(m, s).
             Ok (tpp\<lparr>tpp_mmaps := tpp_mmaps tpp @ [m]\<rparr>, s))
         | MULTIFILE \<Rightarrow>
             piece_map_loop pg 0 (map file_length (files tp)) off (tpp_len tpp) (tpp\<lparr>tpp_len := 0\<rparr>, s)))"

section \<open>Hash check, unmapping\<close>

fun memcmp :: "bytes \<Rightarrow> bytes \<Rightarrow> int" where
  "memcmp (a # as) (b # bs) = (if a = b then memcmp as bs else uint a - uint b)"
| "memcmp _ _ = 0"

definition fresh_sha :: SHA1_CTX where
  "fresh_sha = \<lparr>cstate = replicate 5 0, ccount = 0, cbuffer = replicate 64 0\<rparr>"

text \<open>The bytes of a block, when all of them have a value.\<close>

definition block_bytes :: "byte option list \<Rightarrow> bytes res" where
  "block_bytes bs = (if None \<in> set bs then Fault (Undef ''uninitialised'') else Ok (map the bs))"

definition torrent_piece_checkhash :: "torrent \<Rightarrow> torrent_piece \<Rightarrow> disk \<Rightarrow> (int \<times> torrent_piece) res" where
  "torrent_piece_checkhash tp tpp dk =
     (if tpp_flags tpp AND TORRENT_PIECE_MAPPED = 0
      then Fault (Exit ''torrent_piece_checkhash: unmapped piece'')
      else rbind (torrent_block_read tpp 0 (tpp_len tpp) dk) (\<lambda>r. case r of
          None \<Rightarrow> Ok (-1, tpp)
        | Some (block, hint) \<Rightarrow> rbind (block_bytes block) (\<lambda>d.
            let results = fst (SHA1Final (SHA1Update (SHA1Init fresh_sha) d));
                a = unat (20 * tpp_index tpp)
            in if a + 20 > length (pieces tp) then Fault (Undef ''pieces'')
               else let res = memcmp results (mread (pieces tp) a 20) in
                 Ok (res, if res = 0 then tpp\<lparr>tpp_flags := tpp_flags tpp OR TORRENT_PIECE_CKSUMOK\<rparr> else tpp))))"

text \<open>\<^verbatim>\<open>msync\<close> changes nothing in the model: the mappings are the file contents.\<close>

definition torrent_piece_sync :: "torrent \<Rightarrow> u32 \<Rightarrow> unit res" where
  "torrent_piece_sync tp idx = rmap (\<lambda>tpp. ()) (torrent_piece_find tp idx)"

definition unref :: "torrent_file \<Rightarrow> torrent_file" where
  "unref tfp = (let n = (if refs tfp = 0 then 2 ^ 64 - 1 else refs tfp - 1)
     in tfp\<lparr>refs := n, tf_open := (tf_open tfp \<and> n \<noteq> 0)\<rparr>)"

definition torrent_piece_unmap :: "torrent_piece \<Rightarrow> torrent \<Rightarrow> torrent_piece \<times> torrent" where
  "torrent_piece_unmap tpp tp =
     (tpp\<lparr>tpp_mmaps := [], tpp_flags := tpp_flags tpp AND NOT TORRENT_PIECE_MAPPED\<rparr>,
      fold (\<lambda>m tp. tp\<lparr>files := (files tp)[mm_file m := unref (files tp ! mm_file m)]\<rparr>) (tpp_mmaps tpp) tp)"

section \<open>The local bit field and the fast-resume file\<close>

definition bitfield_len :: "torrent \<Rightarrow> u32" where
  "bitfield_len tp = (num_pieces tp + 7) div 8"

definition piece_indexes :: "torrent \<Rightarrow> u32 list" where
  "piece_indexes tp = map of_nat [0..<unat (num_pieces tp)]"

definition torrent_bitfield_get :: "torrent \<Rightarrow> bytes res" where
  "torrent_bitfield_get tp =
     rfold (\<lambda>bf i. rbind (torrent_piece_find tp i) (\<lambda>tpp.
        if tpp_flags tpp AND TORRENT_PIECE_CKSUMOK \<noteq> 0 then util_setbit bf i else Ok bf))
      (replicate (unat (bitfield_len tp)) 0) (piece_indexes tp)"

fun empty_loop :: "torrent \<Rightarrow> u32 list \<Rightarrow> bool res" where
  "empty_loop tp [] = Ok True"
| "empty_loop tp (i # is) = rbind (torrent_piece_find tp i) (\<lambda>tpp.
     if tpp_flags tpp AND TORRENT_PIECE_CKSUMOK \<noteq> 0 then Ok False else empty_loop tp is)"

definition torrent_empty :: "torrent \<Rightarrow> bool res" where
  "torrent_empty tp = empty_loop tp (piece_indexes tp)"

definition MAXPATHLEN :: nat where "MAXPATHLEN = 1024"

definition resume_name :: "torrent \<Rightarrow> string \<Rightarrow> unit res" where
  "resume_name tp msg = rbind (strlen (tname tp)) (\<lambda>n.
     if n + length (''.funresume'') \<ge> MAXPATHLEN then Fault (Exit msg) else Ok ())"

text \<open>The contents of the file \<^verbatim>\<open><torrent>.funresume\<close> that the dump writes.\<close>

definition torrent_fastresume_dump :: "torrent \<Rightarrow> bytes res" where
  "torrent_fastresume_dump tp = rbind (torrent_bitfield_get tp) (\<lambda>bitfield.
     rbind (resume_name tp ''torrent_fastresume_dump: snprintf truncation'') (\<lambda>_.
       Ok (take (unat (bitfield_len tp)) bitfield)))"

definition load_piece :: "bytes \<Rightarrow> torrent \<Rightarrow> u32 \<Rightarrow> torrent res" where
  "load_piece bitfield tp i = rbind (torrent_piece_find tp i) (\<lambda>tpp.
     rbind (util_getbit bitfield i) (\<lambda>b.
       if b then Ok ((update_piece tp i (tpp\<lparr>tpp_flags := tpp_flags tpp OR TORRENT_PIECE_CKSUMOK\<rparr>))
              \<lparr>good_pieces := good_pieces tp + 1, downloaded := downloaded tp + uint (tpp_len tpp)\<rparr>)
       else Ok tp))"

text \<open>\<open>file\<close> is the contents of the resume file, \<open>None\<close> when it cannot be opened.\<close>

definition torrent_fastresume_load :: "torrent \<Rightarrow> bytes option \<Rightarrow> (int \<times> torrent) res" where
  "torrent_fastresume_load tp file =
     rbind (resume_name tp ''torrent_fastresume_load: snprintf truncation'') (\<lambda>_. case file of
         None \<Rightarrow> Ok (-1, tp)
       | Some contents \<Rightarrow>
           let n = unat (bitfield_len tp); bitfield = mwrite (replicate n 0) 0 (take n contents)
           in rmap (\<lambda>tp. (0, tp)) (rfold (load_piece bitfield) tp (piece_indexes tp)))"

end
