(* ===== verification/Torrent_Blocks.thy ===== *)
theory Torrent_Blocks
  imports Torrent
begin

text \<open>
  What \<^verbatim>\<open>torrent_block_read\<close> and \<^verbatim>\<open>torrent_block_write\<close> do to the contents of a piece: the mappings of a
  piece, put one after the other, are a byte string, and the two functions read and write a range of
  it. The locale \<open>block_store\<close> is this contract; the assembly of a piece from blocks that arrive in
  any order is proved in it.
\<close>

section \<open>The bytes behind a list of mappings\<close>

definition mm_ok :: "disk \<Rightarrow> torrent_mmap \<Rightarrow> bool" where
  "mm_ok dk m \<longleftrightarrow> mm_file m < length dk \<and> 0 \<le> mm_off m
     \<and> nat (mm_off m) + unat (mm_len m) \<le> length (dk ! mm_file m)"

definition view :: "disk \<Rightarrow> torrent_mmap \<Rightarrow> bytes" where
  "view dk m = mread (dk ! mm_file m) (nat (mm_off m)) (unat (mm_len m))"

definition pview :: "disk \<Rightarrow> torrent_mmap list \<Rightarrow> bytes" where
  "pview dk ms = concat (map (view dk) ms)"

lemma pview_simps [simp]: "pview dk [] = []" "pview dk (m # ms) = view dk m @ pview dk ms"
  by (simp_all add: pview_def)

lemma length_view [simp]: "mm_ok dk m \<Longrightarrow> length (view dk m) = unat (mm_len m)"
  by (simp add: mm_ok_def view_def)

lemma mm_load_view:
  assumes "mm_ok dk m" "k + n \<le> unat (mm_len m)"
  shows "mm_load dk m k n = Ok (mread (view dk m) k n)"
  using assms by (auto simp: mm_load_def mm_ok_def view_def mread_mread Let_def)

lemma mread_mwrite_inside:
  assumes "a \<le> b" "b + length ys \<le> a + n" "a + n \<le> length xs"
  shows "mread (mwrite xs b ys) a n = mwrite (mread xs a n) (b - a) ys"
proof (rule nth_equalityI)
  show "length (mread (mwrite xs b ys) a n) = length (mwrite (mread xs a n) (b - a) ys)"
    using assms by simp
next
  fix i
  assume "i < length (mread (mwrite xs b ys) a n)"
  then have "i < n" using assms by simp
  then show "mread (mwrite xs b ys) a n ! i = mwrite (mread xs a n) (b - a) ys ! i"
    using assms nth_mwrite [of b ys xs "a + i"] nth_mwrite [of "b - a" ys "mread xs a n" i]
    by (auto simp: mread_def add.commute)
qed

text \<open>A store changes its own mapping and no other file, and no mapping becomes invalid.\<close>

definition same_shape :: "disk \<Rightarrow> disk \<Rightarrow> bool" where
  "same_shape dk dk' \<longleftrightarrow> map length dk' = map length dk"

lemma same_shape_ok: "same_shape dk dk' \<Longrightarrow> mm_ok dk' m = mm_ok dk m"
proof -
  assume s: "same_shape dk dk'"
  then have "length dk' = length dk" using map_eq_imp_length_eq by (auto simp: same_shape_def)
  moreover have "length (dk' ! f) = length (dk ! f)" if "f < length dk" for f
    using arg_cong [OF s [unfolded same_shape_def], of "\<lambda>xs. xs ! f"] that calculation by simp
  ultimately show ?thesis by (auto simp: mm_ok_def)
qed

text \<open>Two mappings with no byte in common.\<close>

definition apart :: "torrent_mmap \<Rightarrow> torrent_mmap \<Rightarrow> bool" where
  "apart m m' \<longleftrightarrow> mm_file m \<noteq> mm_file m' \<or> mm_off m + uint (mm_len m) \<le> mm_off m'
     \<or> mm_off m' + uint (mm_len m') \<le> mm_off m"

lemma apart_sym: "apart m m' \<Longrightarrow> apart m' m"
  by (auto simp: apart_def)

text \<open>\<open>keeps dk dk' ms\<close>: no file changes its size, and every mapping apart from \<open>ms\<close> keeps its bytes.\<close>

definition keeps :: "disk \<Rightarrow> disk \<Rightarrow> torrent_mmap list \<Rightarrow> bool" where
  "keeps dk dk' ms \<longleftrightarrow> same_shape dk dk'
     \<and> (\<forall>m'. mm_ok dk m' \<longrightarrow> (\<forall>m \<in> set ms. apart m m') \<longrightarrow> view dk' m' = view dk m')"

lemma keeps_trans: "keeps dk dk1 [m] \<Longrightarrow> keeps dk1 dk2 ms \<Longrightarrow> keeps dk dk2 (m # ms)"
  using same_shape_ok [of dk dk1] by (auto simp: keeps_def same_shape_def)

lemma keeps_pview:
  "keeps dk dk' ms \<Longrightarrow> \<forall>m' \<in> set ms'. mm_ok dk m' \<and> (\<forall>m \<in> set ms. apart m m') \<Longrightarrow> pview dk' ms' = pview dk ms'"
  by (induction ms') (auto simp: keeps_def)

lemma mm_store_view:
  assumes "mm_ok dk m" "k + length bs \<le> unat (mm_len m)"
  obtains dk' where "mm_store dk m k bs = Ok dk'" "keeps dk dk' [m]" "view dk' m = mwrite (view dk m) k bs"
proof (cases "bs = []")
  case True
  then show ?thesis using that [of dk] by (simp add: mm_store_def keeps_def same_shape_def)
next
  case False
  let ?f = "mm_file m" and ?a = "nat (mm_off m)"
  let ?dk = "dk[?f := mwrite (dk ! ?f) (?a + k) bs]"
  have "mm_store dk m k bs = Ok ?dk"
    using assms False by (auto simp: mm_store_def mm_ok_def)
  moreover have shape: "same_shape dk ?dk"
    using assms by (auto simp: same_shape_def mm_ok_def map_update list_update_same_conv nth_map)
  moreover have "view ?dk m = mwrite (view dk m) k bs"
    using assms mread_mwrite_inside [of ?a "?a + k" bs "unat (mm_len m)" "dk ! ?f"]
    by (simp add: view_def mm_ok_def)
  moreover have "view ?dk m' = view dk m'" if m': "mm_ok dk m'" "apart m m'" for m'
  proof (cases "mm_file m' = ?f")
    case True
    have "nat (mm_off m') + unat (mm_len m') \<le> ?a + k \<or> ?a + k + length bs \<le> nat (mm_off m')"
    proof -
      have "int (unat (mm_len m)) = uint (mm_len m)" "int (unat (mm_len m')) = uint (mm_len m')" by simp_all
      then show ?thesis
        using m' assms True unfolding apart_def mm_ok_def by linarith
    qed
    then show ?thesis
      using True assms by (auto simp: view_def mm_ok_def mread_mwrite_below mread_mwrite_above)
  qed (simp add: view_def)
  ultimately show ?thesis using that [of ?dk] by (simp add: keeps_def)
qed

section \<open>Reading\<close>

lemma read_rest:
  assumes "\<forall>m \<in> set ms. mm_ok dk m" "off \<le> cntlen"
  shows "block_read_loop ms off len cntlen off tlen (Some a) dk
    = Ok (Some (finish_block len (a @ take (unat tlen) (pview dk ms)), True))"
  using assms
proof (induction ms arbitrary: cntlen tlen a)
  case (Cons m ms)
  have ok: "mm_ok dk m" using Cons.prems(1) by simp
  have ge: "\<not> cntlen + uint (mm_len m) < off" "off \<le> cntlen + uint (mm_len m)"
    using Cons.prems(2) uint_ge_0 [of "mm_len m"] by linarith+
  show ?case
  proof (cases "mm_len m < tlen")
    case True
    then have u: "unat (tlen - mm_len m) = unat tlen - unat (mm_len m)" "unat (mm_len m) < unat tlen"
      by (simp_all add: unat_sub word_less_nat_alt less_imp_le word_le_nat_alt)
    have ld: "mm_load dk m 0 (unat (mm_len m)) = Ok (view dk m)"
      using mm_load_view [OF ok, of 0 "unat (mm_len m)"] length_view [OF ok] by (metis add_0 order.refl mread_0_length)
    have "block_read_loop (m # ms) off len cntlen off tlen (Some a) dk
        = block_read_loop ms off len (cntlen + uint (mm_len m)) off (tlen - mm_len m) (Some (a @ view dk m)) dk"
      using ge True ld by (simp add: Let_def)
    then show ?thesis
      using Cons.IH [of "cntlen + uint (mm_len m)"] Cons.prems ok u ge by simp
  next
    case False
    then have u: "unat tlen \<le> unat (mm_len m)" by (simp add: word_le_nat_alt not_less)
    then show ?thesis
      using ge False mm_load_view [OF ok, of 0 "unat tlen"] ok
      by (simp add: Let_def mread_def)
  qed
qed simp

lemma finish_exact: "length bs = unat len \<Longrightarrow> finish_block len bs = map Some bs"
  by (simp add: finish_block_def)

lemma read_hit:
  assumes "\<not> c + uint (mm_len m) < off" "c \<le> off"
  obtains k n where "nat (off - c) = k" "k + n = unat (mm_len m)" "unat (of_nat n :: u32) = n"
    "\<And>ms. block_read_loop (m # ms) off len c c len None dk =
      (if n < unat len
       then rbind (mm_load dk m k n) (\<lambda>bs.
              block_read_loop ms off len (c + uint (mm_len m)) off (len - of_nat n) (Some bs) dk)
       else rbind (mm_load dk m k (unat len)) (\<lambda>bs. Ok (Some (map Some bs, False))))"
proof -
  define k where "k = nat (off - c)"
  have u: "int (unat (mm_len m)) = uint (mm_len m)" by simp
  have "off - c = int k" using assms(2) by (simp add: k_def)
  then have "k \<le> unat (mm_len m)" using assms(1) u by linarith
  then obtain n where n: "unat (mm_len m) = k + n" by (auto simp: le_iff_add)
  have "uint (mm_len m) - (off - c) = int n" using u n \<open>off - c = int k\<close> by linarith
  then have il: "word_of_int (uint (mm_len m) - (off - c)) = (of_nat n :: u32)" by (simp only: of_int_of_nat_eq)
  have un: "unat (of_nat n :: u32) = n"
    using unsigned_less [of "mm_len m", where 'a = nat] n by (simp add: unat_of_nat)
  have le: "\<not> of_nat n > mm_len m" and mx: "max c off = off"
    and lt: "of_nat n < len \<longleftrightarrow> n < unat len"
    using un n assms(2) by (simp_all add: word_less_nat_alt)
  show thesis
  proof (rule that)
    show "nat (off - c) = k" "k + n = unat (mm_len m)" "unat (of_nat n :: u32) = n"
      using n un by (simp_all add: k_def)
    show "block_read_loop (m # ms) off len c c len None dk =
      (if n < unat len
       then rbind (mm_load dk m k n) (\<lambda>bs.
              block_read_loop ms off len (c + uint (mm_len m)) off (len - of_nat n) (Some bs) dk)
       else rbind (mm_load dk m k (unat len)) (\<lambda>bs. Ok (Some (map Some bs, False))))" for ms
      using assms(1) le
      by (simp only: block_read_loop.simps Let_def il mx lt un k_def [symmetric] option.simps append_Nil if_False)
  qed
qed

lemma read_run:
  assumes "\<forall>m \<in> set ms. mm_ok dk m" "0 \<le> c" "c \<le> off"
  shows "off > c + int (length (pview dk ms)) \<Longrightarrow> block_read_loop ms off len c c len None dk = Ok None"
    and "off \<le> c + int (length (pview dk ms)) \<Longrightarrow> ms \<noteq> [] \<Longrightarrow>
      \<exists>h. block_read_loop ms off len c c len None dk
        = Ok (Some (finish_block len (take (unat len) (drop (nat (off - c)) (pview dk ms))), h))"
  using assms
proof (induction ms arbitrary: c)
  case (Cons m ms)
  {
    case (1 c)
    let ?c = "c + uint (mm_len m)"
    have ok: "mm_ok dk m" using 1 by simp
    have "c + uint (mm_len m) + int (length (pview dk ms)) < off" using 1(1) ok by simp
    then have "?c < off" by linarith
    then show ?case using 1 Cons.IH(1) [of ?c] ok by simp
  next
    case (2 c)
    let ?c = "c + uint (mm_len m)"
    have ok: "mm_ok dk m" using 2 by simp
    show ?case
    proof (cases "?c < off")
      case True
      have d: "drop (nat (off - c)) (pview dk (m # ms)) = drop (nat (off - ?c)) (pview dk ms)"
      proof -
        have "int (unat (mm_len m)) = uint (mm_len m)" by simp
        then have "nat (off - c) - unat (mm_len m) = nat (off - ?c)" "unat (mm_len m) \<le> nat (off - c)"
          using True by linarith+
        then show ?thesis using ok by simp
      qed
      have "ms \<noteq> []" using True 2(1) ok by auto
      moreover have "off \<le> ?c + int (length (pview dk ms))" using 2(1) ok by simp
      ultimately show ?thesis
        using True Cons.IH(2) [of ?c] 2 ok d by (simp add: Let_def del: pview_simps)
    next
      case False
      obtain k n where k: "nat (off - c) = k" "k + n = unat (mm_len m)" "unat (of_nat n :: u32) = n"
        and hit: "\<And>ms. block_read_loop (m # ms) off len c c len None dk =
          (if n < unat len
           then rbind (mm_load dk m k n) (\<lambda>bs.
                  block_read_loop ms off len ?c off (len - of_nat n) (Some bs) dk)
           else rbind (mm_load dk m k (unat len)) (\<lambda>bs. Ok (Some (map Some bs, False))))"
        by (rule read_hit [OF False 2(5)]) blast
      have kl: "length (view dk m) = k + n" "k \<le> unat (mm_len m)" using ok k(2) by simp_all
      show ?thesis
      proof (cases "n < unat len")
        case True
        then have "unat (len - of_nat n) = unat len - n"
          using k(3) by (subst unat_sub) (simp_all add: word_le_nat_alt less_imp_le)
        moreover have "mm_load dk m k n = Ok (drop k (view dk m))"
          using mm_load_view [OF ok, of k n] k(2) kl by (simp add: mread_def)
        ultimately show ?thesis
          using True kl 2(3) False read_rest [of ms dk off ?c len "len - of_nat n" "drop k (view dk m)"]
          by (auto simp: hit k(1) not_less simp del: block_read_loop.simps)
      next
        case nlt: False
        then show ?thesis
          using mm_load_view [OF ok, of k "unat len"] kl k(2)
          by (auto simp: hit k(1) mread_def finish_exact simp del: block_read_loop.simps)
      qed
    qed
  }
qed simp_all

section \<open>Writing\<close>

lemma mwrite_front: "length a = length x \<Longrightarrow> mwrite (a @ b) 0 (x @ y) = x @ mwrite b 0 y"
  by (simp add: mwrite_def)

lemma src_bytes_ok: "k + n \<le> length d \<Longrightarrow> src_bytes d k n = Ok (mread d k n)"
  by (simp add: src_bytes_def)

lemma unat_minus: "(b :: u32) \<le> a \<Longrightarrow> unat (a - b) = unat a - unat b"
  by (rule unat_sub)

lemma write_rest:
  assumes "\<forall>m \<in> set ms. mm_ok dk m" "sorted_wrt apart ms" "bl < len" "0 < bl" "unat len \<le> length d"
    and "unat bl \<le> length (pview dk ms)"
  shows "\<exists>dk'. block_write_loop ms off len d cl cb bl dk = Ok dk' \<and> keeps dk dk' ms
    \<and> pview dk' ms = mwrite (pview dk ms) 0 (mread d (unat len - unat bl) (unat bl))"
  using assms
proof (induction ms arbitrary: bl dk)
  case Nil
  then show ?case by (simp add: word_less_nat_alt)
next
  case (Cons m ms)
  let ?q = "unat len - unat bl"
  have ok: "mm_ok dk m" and ap: "\<forall>m' \<in> set ms. mm_ok dk m' \<and> (\<forall>x \<in> set [m]. apart x m')"
    using Cons.prems(1,2) by auto
  have q: "unat (len - bl) = ?q" "?q + unat bl = unat len" "unat bl < unat len"
    using Cons.prems(3) by (simp_all add: unat_minus less_imp_le word_less_nat_alt word_le_nat_alt)
  show ?case
  proof (cases "bl > mm_len m")
    case True
    let ?bs = "mread d ?q (unat (mm_len m))" and ?bl = "bl - mm_len m"
    have l: "unat (mm_len m) < unat bl" using True by (simp add: word_less_nat_alt)
    have ubl: "unat ?bl = unat bl - unat (mm_len m)" using True by (simp add: unat_minus less_imp_le)
    have src: "src_bytes d ?q (unat (mm_len m)) = Ok ?bs"
      using q l Cons.prems(5) by (intro src_bytes_ok) linarith
    have lbs: "length ?bs = unat (mm_len m)" using q l Cons.prems(5) by simp
    obtain dk1 where dk1: "mm_store dk m 0 ?bs = Ok dk1" "keeps dk dk1 [m]" "view dk1 m = mwrite (view dk m) 0 ?bs"
      using mm_store_view [OF ok, of 0 ?bs] lbs by auto
    have v1: "view dk1 m = ?bs" using dk1(3) lbs ok by (simp add: mwrite_all)
    have p1: "pview dk1 ms = pview dk ms" using keeps_pview [OF dk1(2) ap] .
    have ok1: "mm_ok dk1 m' = mm_ok dk m'" for m' using dk1(2) same_shape_ok by (simp add: keeps_def)
    have "\<exists>dk'. block_write_loop ms off len d cl cb ?bl dk1 = Ok dk' \<and> keeps dk1 dk' ms
      \<and> pview dk' ms = mwrite (pview dk1 ms) 0 (mread d (unat len - unat ?bl) (unat ?bl))"
    proof (rule Cons.IH)
      show "\<forall>m \<in> set ms. mm_ok dk1 m" "sorted_wrt apart ms" "unat len \<le> length d"
        using Cons.prems ok1 by simp_all
      show "?bl < len" "0 < ?bl" using q(3) l by (simp_all add: word_less_nat_alt ubl)
      show "unat ?bl \<le> length (pview dk1 ms)" using Cons.prems(6) ok p1 ubl by simp
    qed
    then obtain dk' where dk': "block_write_loop ms off len d cl cb ?bl dk1 = Ok dk'" "keeps dk1 dk' ms"
      "pview dk' ms = mwrite (pview dk ms) 0 (mread d (unat len - unat ?bl) (unat ?bl))"
      using p1 by auto
    have "view dk' m = ?bs"
      using dk'(2) ok ok1 ap apart_sym v1 unfolding keeps_def by auto
    moreover have "?bs @ mread d (unat len - unat ?bl) (unat ?bl) = mread d ?q (unat bl)"
      using mread_append_mread [of d ?q "unat (mm_len m)" "unat ?bl"] l q ubl by simp
    then have "mwrite (view dk m @ pview dk ms) 0 (mread d ?q (unat bl))
        = ?bs @ mwrite (pview dk ms) 0 (mread d (unat len - unat ?bl) (unat ?bl))"
      using mwrite_front [of "view dk m" ?bs "pview dk ms"] lbs ok by (metis length_view)
    ultimately show ?thesis
      using True Cons.prems(3) src dk1(1) dk' keeps_trans [OF dk1(2) dk'(2)] q(1) by simp
  next
    case False
    let ?bs = "mread d ?q (unat bl)"
    have l: "unat bl \<le> unat (mm_len m)" using False by (simp add: word_le_nat_alt not_less)
    have src: "src_bytes d ?q (unat bl) = Ok ?bs" using q Cons.prems(5) by (intro src_bytes_ok) simp
    have lbs: "length ?bs = unat bl" using q Cons.prems(5) by simp
    obtain dk1 where dk1: "mm_store dk m 0 ?bs = Ok dk1" "keeps dk dk1 [m]" "view dk1 m = mwrite (view dk m) 0 ?bs"
      using mm_store_view [OF ok, of 0 ?bs] lbs l by auto
    have "pview dk1 ms = pview dk ms" using keeps_pview [OF dk1(2) ap] .
    moreover have "keeps dk dk1 (m # ms)" using dk1(2) by (auto simp: keeps_def)
    moreover have "mwrite (view dk m @ pview dk ms) 0 ?bs = mwrite (view dk m) 0 ?bs @ pview dk ms"
      using l lbs ok by (intro mwrite_append_left) simp
    ultimately show ?thesis using False Cons.prems(3) src dk1 q(1) by simp
  qed
qed

lemma write_hit:
  assumes "\<not> c + uint (mm_len m) < off" "c \<le> off"
  obtains k n where "nat (off - c) = k" "k + n = unat (mm_len m)"
    "unat len - n = unat (len - (mm_len m - of_nat k)) \<or> unat len \<le> n"
    "\<And>ms. block_write_loop (m # ms) off len d c c len dk =
      (if n < unat len
       then rbind (src_bytes d 0 n) (\<lambda>bs. rbind (mm_store dk m k bs) (\<lambda>dk.
              block_write_loop ms off len d (c + uint (mm_len m)) off (len - (mm_len m - of_nat k)) dk))
       else rbind (src_bytes d 0 (unat len)) (\<lambda>bs. mm_store dk m k bs))"
proof -
  define k where "k = nat (off - c)"
  have u: "int (unat (mm_len m)) = uint (mm_len m)" by simp
  have "off - c = int k" using assms(2) by (simp add: k_def)
  then have "k \<le> unat (mm_len m)" using assms(1) u by linarith
  then obtain n where n: "unat (mm_len m) = k + n" by (auto simp: le_iff_add)
  have uk: "unat (of_nat k :: u32) = k"
    using unsigned_less [of "mm_len m", where 'a = nat] n by (simp add: unat_of_nat)
  then have un: "unat (mm_len m - of_nat k) = n" using n by (simp add: unat_minus word_le_nat_alt)
  have lt: "len > mm_len m - of_nat k \<longleftrightarrow> n < unat len" by (simp add: word_less_nat_alt un)
  have mx: "max c off = off" using assms(2) by simp
  show thesis
  proof (rule that)
    show "nat (off - c) = k" "k + n = unat (mm_len m)" using n by (simp_all add: k_def)
    show "unat len - n = unat (len - (mm_len m - of_nat k)) \<or> unat len \<le> n"
      using un unat_minus [of "mm_len m - of_nat k" len] by (auto simp: word_le_nat_alt)
    show "block_write_loop (m # ms) off len d c c len dk =
      (if n < unat len
       then rbind (src_bytes d 0 n) (\<lambda>bs. rbind (mm_store dk m k bs) (\<lambda>dk.
              block_write_loop ms off len d (c + uint (mm_len m)) off (len - (mm_len m - of_nat k)) dk))
       else rbind (src_bytes d 0 (unat len)) (\<lambda>bs. mm_store dk m k bs))" for ms
      using assms(1)
      by (simp only: block_write_loop.simps Let_def mx lt un k_def [symmetric] if_False less_irrefl)
  qed
qed

text \<open>The first store of a block: \<open>n\<close> bytes go to the end of mapping \<open>m\<close>, the rest to the mappings after it.\<close>

lemma write_span:
  assumes "mm_ok dk m" "\<forall>m' \<in> set ms. mm_ok dk m' \<and> apart m m'" "k + n = unat (mm_len m)" "n \<le> length d"
    and rest: "\<And>dk1. keeps dk dk1 [m] \<Longrightarrow> pview dk1 ms = pview dk ms \<Longrightarrow> \<forall>m' \<in> set ms. mm_ok dk1 m' \<Longrightarrow>
      \<exists>dk'. run dk1 = Ok dk' \<and> keeps dk1 dk' ms \<and> pview dk' ms = mwrite (pview dk1 ms) 0 (drop n d)"
  shows "\<exists>dk'. rbind (src_bytes d 0 n) (\<lambda>bs. rbind (mm_store dk m k bs) run) = Ok dk'
    \<and> keeps dk dk' (m # ms) \<and> pview dk' (m # ms) = mwrite (pview dk (m # ms)) k d"
proof -
  let ?bs = "mread d 0 n"
  have lbs: "length ?bs = n" and src: "src_bytes d 0 n = Ok ?bs"
    using assms(4) by (simp_all add: src_bytes_ok)
  obtain dk1 where dk1: "mm_store dk m k ?bs = Ok dk1" "keeps dk dk1 [m]" "view dk1 m = mwrite (view dk m) k ?bs"
    using mm_store_view [OF assms(1), of k ?bs] lbs assms(3) by auto
  have p1: "pview dk1 ms = pview dk ms" using keeps_pview [OF dk1(2), of ms] assms(2) by simp
  have ok1: "mm_ok dk1 m' = mm_ok dk m'" for m' using dk1(2) same_shape_ok by (simp add: keeps_def)
  obtain dk' where dk': "run dk1 = Ok dk'" "keeps dk1 dk' ms" "pview dk' ms = mwrite (pview dk ms) 0 (drop n d)"
    using rest [OF dk1(2) p1] assms(2) ok1 p1 by auto
  have "view dk' m = view dk1 m"
    using dk'(2) assms(1,2) ok1 apart_sym unfolding keeps_def by auto
  moreover have "mwrite (view dk m @ pview dk ms) k d = mwrite (view dk m) k ?bs @ mwrite (pview dk ms) 0 (drop n d)"
  proof -
    have "k + length d - unat (mm_len m) = length d - n" using assms(3) by linarith
    moreover have "d = take n d @ drop n d" by simp
    ultimately show ?thesis using assms(1,3,4)
      by (simp add: mwrite_def mread_def)
  qed
  ultimately show ?thesis using src dk1 dk' keeps_trans [OF dk1(2) dk'(2)] by simp
qed

lemma write_last:
  assumes "mm_ok dk m" "\<forall>m' \<in> set ms. mm_ok dk m' \<and> apart m m'" "k + length d \<le> unat (mm_len m)"
  shows "\<exists>dk'. rbind (src_bytes d 0 (length d)) (\<lambda>bs. mm_store dk m k bs) = Ok dk'
    \<and> keeps dk dk' (m # ms) \<and> pview dk' (m # ms) = mwrite (pview dk (m # ms)) k d"
proof -
  obtain dk1 where dk1: "mm_store dk m k d = Ok dk1" "keeps dk dk1 [m]" "view dk1 m = mwrite (view dk m) k d"
    using mm_store_view [OF assms(1,3)] by auto
  have "pview dk1 ms = pview dk ms" using keeps_pview [OF dk1(2), of ms] assms(2) by simp
  moreover have "keeps dk dk1 (m # ms)" using dk1(2) by (auto simp: keeps_def)
  moreover have "mwrite (view dk m @ pview dk ms) k d = mwrite (view dk m) k d @ pview dk ms"
    using assms(1,3) by (intro mwrite_append_left) simp
  ultimately show ?thesis using dk1 by (simp add: src_bytes_ok)
qed

lemma write_run:
  assumes "\<forall>m \<in> set ms. mm_ok dk m" "sorted_wrt apart ms" "c \<le> off" "length d = unat len"
    and "off + int (length d) \<le> c + int (length (pview dk ms))"
  shows "\<exists>dk'. block_write_loop ms off len d c c len dk = Ok dk' \<and> keeps dk dk' ms
    \<and> pview dk' ms = mwrite (pview dk ms) (nat (off - c)) d"
  using assms
proof (induction ms arbitrary: c dk)
  case Nil
  then have "off + int (length d) \<le> c" by (simp only: pview_simps list.size of_nat_0 add_0_right)
  then have "length d = 0" "off = c" using Nil.prems(3) by linarith+
  then show ?case using Nil by (simp add: keeps_def same_shape_def)
next
  case (Cons m ms)
  let ?c = "c + uint (mm_len m)"
  have ok: "mm_ok dk m" and ap: "\<forall>m' \<in> set ms. mm_ok dk m' \<and> apart m m'" using Cons.prems(1,2) by auto
  have sub: "\<forall>m \<in> set ms. mm_ok dk m" "sorted_wrt apart ms" using Cons.prems(1,2) by simp_all
  have u: "int (unat (mm_len m)) = uint (mm_len m)" by simp
  have room: "off + int (length d) \<le> ?c + int (length (pview dk ms))" using Cons.prems(5) ok by simp
  show ?case
  proof (cases "?c < off")
    case True
    obtain dk' where dk': "block_write_loop ms off len d ?c ?c len dk = Ok dk'" "keeps dk dk' ms"
      "pview dk' ms = mwrite (pview dk ms) (nat (off - ?c)) d"
      using Cons.IH [of dk ?c] sub room Cons.prems(4) True by auto
    have ka: "keeps dk dk' (m # ms)" using dk'(2) by (auto simp: keeps_def)
    have "view dk' m = view dk m" using dk'(2) ok ap apart_sym unfolding keeps_def by auto
    moreover have "nat (off - c) - unat (mm_len m) = nat (off - ?c)" "unat (mm_len m) \<le> nat (off - c)"
      using u True by linarith+
    then have "mwrite (view dk m @ pview dk ms) (nat (off - c)) d = view dk m @ mwrite (pview dk ms) (nat (off - ?c)) d"
      using ok by (simp add: mwrite_append_right)
    ultimately show ?thesis using True dk'(1,3) ka by simp
  next
    case False
    obtain k n where k: "nat (off - c) = k" "k + n = unat (mm_len m)"
      and lft: "unat len - n = unat (len - (mm_len m - of_nat k)) \<or> unat len \<le> n"
      and hit: "\<And>ms. block_write_loop (m # ms) off len d c c len dk =
      (if n < unat len
       then rbind (src_bytes d 0 n) (\<lambda>bs. rbind (mm_store dk m k bs) (\<lambda>dk.
              block_write_loop ms off len d ?c off (len - (mm_len m - of_nat k)) dk))
       else rbind (src_bytes d 0 (unat len)) (\<lambda>bs. mm_store dk m k bs))"
      by (rule write_hit [OF False Cons.prems(3)]) blast
    show ?thesis
    proof (cases "n < unat len")
      case True
      let ?bl = "len - (mm_len m - of_nat k)"
      have ubl: "unat ?bl = unat len - n" using lft True by auto
      have c: "c + int k = off" using k(1) Cons.prems(3) by simp
      have "\<exists>dk'. block_write_loop ms off len d ?c off ?bl dk1 = Ok dk' \<and> keeps dk1 dk' ms
          \<and> pview dk' ms = mwrite (pview dk1 ms) 0 (drop n d)"
        if dk1: "pview dk1 ms = pview dk ms" "\<forall>m' \<in> set ms. mm_ok dk1 m'" for dk1
      proof (cases "n = 0")
        case True
        then have "?bl = len" "?c = off" using ubl k u c by (simp add: word_unat_eq_iff, linarith)
        then show ?thesis
          using Cons.IH [of dk1 off] sub room dk1 Cons.prems(4) True by simp
      next
        case False
        have "unat ?bl \<le> length (pview dk ms)" using room u k(2) c Cons.prems(4) ubl by linarith
        then have "unat ?bl \<le> length (pview dk1 ms)" using dk1(1) by simp
        moreover have "?bl < len" "0 < ?bl" using False True ubl by (simp_all add: word_less_nat_alt)
        moreover have "mread d (unat len - unat ?bl) (unat ?bl) = drop n d"
          using ubl True Cons.prems(4) by (simp add: mread_def)
        ultimately show ?thesis
          using write_rest [of ms dk1 ?bl len d off ?c off] sub dk1 Cons.prems(4) by simp
      qed
      then have "\<exists>dk'. rbind (src_bytes d 0 n) (\<lambda>bs. rbind (mm_store dk m k bs) (\<lambda>dk.
              block_write_loop ms off len d ?c off ?bl dk)) = Ok dk'
        \<and> keeps dk dk' (m # ms) \<and> pview dk' (m # ms) = mwrite (pview dk (m # ms)) k d"
        using True Cons.prems(4) by (intro write_span [OF ok ap k(2)]) simp_all
      then show ?thesis using True k(1) by (simp add: hit del: block_write_loop.simps)
    next
      case nlt: False
      then show ?thesis
        using write_last [OF ok ap, of k d] k Cons.prems(4) by (simp add: hit del: block_write_loop.simps)
    qed
  qed
qed

section \<open>The contract of a block store\<close>

locale block_store =
  fixes bread :: "'s \<Rightarrow> int \<Rightarrow> u32 \<Rightarrow> (byte option list \<times> bool) option res"
    and bwrite :: "int \<Rightarrow> u32 \<Rightarrow> bytes \<Rightarrow> 's \<Rightarrow> 's res"
    and contents :: "'s \<Rightarrow> bytes"
    and invar :: "'s \<Rightarrow> bool"
  assumes read_in: "invar s \<Longrightarrow> 0 \<le> off \<Longrightarrow> off + uint len \<le> int (length (contents s)) \<Longrightarrow>
      \<exists>h. bread s off len = Ok (Some (map Some (mread (contents s) (nat off) (unat len)), h))"
    and write_in: "invar s \<Longrightarrow> 0 \<le> off \<Longrightarrow> length d = unat len \<Longrightarrow>
      off + uint len \<le> int (length (contents s)) \<Longrightarrow>
      \<exists>s'. bwrite off len d s = Ok s' \<and> invar s' \<and> contents s' = mwrite (contents s) (nat off) d"
begin

text \<open>What was written is read back.\<close>

lemma read_written:
  assumes "invar s" "0 \<le> off" "length d = unat len" "off + uint len \<le> int (length (contents s))"
  shows "\<exists>s' h. bwrite off len d s = Ok s' \<and> bread s' off len = Ok (Some (map Some d, h))"
proof -
  have fit: "nat off + length d \<le> length (contents s)"
  proof -
    have "int (unat len) = uint len" by simp
    then show ?thesis using assms(2-4) by linarith
  qed
  obtain s' where s': "bwrite off len d s = Ok s'" "invar s'" "contents s' = mwrite (contents s) (nat off) d"
    using write_in [OF assms] by blast
  then obtain h where "bread s' off len = Ok (Some (map Some (mread (contents s') (nat off) (unat len)), h))"
    using read_in [of s' off len] assms fit by auto
  then show ?thesis using s' mread_mwrite_same [OF fit] assms(3) by auto
qed

text \<open>Blocks of one byte string \<open>T\<close>, written in any order and possibly more than once.\<close>

lemma fill:
  assumes "invar s" "length (contents s) = length T" "\<forall>(b, l) \<in> set bs. b + unat l \<le> length T"
  shows "\<exists>s'. rfold (\<lambda>s (b, l). bwrite (int b) l (mread T b (unat l)) s) s bs = Ok s' \<and> invar s'
    \<and> length (contents s') = length T
    \<and> (\<forall>i < length T. contents s' ! i =
         (if \<exists>(b, l) \<in> set bs. b \<le> i \<and> i < b + unat l then T ! i else contents s ! i))"
  using assms
proof (induction bs arbitrary: s)
  case (Cons x bs)
  obtain b l where x: "x = (b, l)" by (cases x)
  let ?d = "mread T b (unat l)"
  have fit: "b + unat l \<le> length T" using Cons.prems(3) by (simp add: x)
  have "int (unat l) = uint l" by simp
  then have "int b + uint l \<le> int (length (contents s))" using fit Cons.prems(2) by linarith
  moreover have "length ?d = unat l" using fit by simp
  ultimately obtain s1 where s1: "bwrite (int b) l ?d s = Ok s1" "invar s1" "contents s1 = mwrite (contents s) b ?d"
    using write_in [of s "int b" ?d l] Cons.prems(1) by auto
  then have len1: "length (contents s1) = length T" using fit Cons.prems(2) by simp
  have c1: "contents s1 ! i = (if b \<le> i \<and> i < b + unat l then T ! i else contents s ! i)" if "i < length T" for i
    using that fit Cons.prems(2) nth_mwrite [of b ?d "contents s" i] s1(3) by (auto simp: mread_def)
  obtain s' where "rfold (\<lambda>s (b, l). bwrite (int b) l (mread T b (unat l)) s) s1 bs = Ok s'" "invar s'"
    "length (contents s') = length T"
    "\<forall>i < length T. contents s' ! i =
         (if \<exists>(b, l) \<in> set bs. b \<le> i \<and> i < b + unat l then T ! i else contents s1 ! i)"
    using Cons.IH [OF s1(2) len1] Cons.prems(3) by auto
  then show ?case using s1(1) c1 by (auto simp: x)
qed simp

end

definition piece_ok :: "torrent_piece \<Rightarrow> disk \<Rightarrow> bool" where
  "piece_ok tpp dk \<longleftrightarrow> tpp_mmaps tpp \<noteq> [] \<and> (\<forall>m \<in> set (tpp_mmaps tpp). mm_ok dk m) \<and> sorted_wrt apart (tpp_mmaps tpp)"

definition piece_bytes :: "torrent_piece \<Rightarrow> disk \<Rightarrow> bytes" where
  "piece_bytes tpp dk = pview dk (tpp_mmaps tpp)"

lemma block_read_piece:
  assumes "piece_ok tpp dk" "0 \<le> off"
  shows "off > int (length (piece_bytes tpp dk)) \<Longrightarrow> torrent_block_read tpp off len dk = Ok None"
    and "off \<le> int (length (piece_bytes tpp dk)) \<Longrightarrow> \<exists>h. torrent_block_read tpp off len dk
        = Ok (Some (finish_block len (mread (piece_bytes tpp dk) (nat off) (unat len)), h))"
  using read_run [of "tpp_mmaps tpp" dk 0 off len] assms
  by (simp_all add: torrent_block_read_def piece_bytes_def piece_ok_def mread_def)

lemma block_write_piece:
  assumes "piece_ok tpp dk" "0 \<le> off" "length d = unat len"
    and "off + uint len \<le> int (length (piece_bytes tpp dk))"
  shows "\<exists>dk'. torrent_block_write tpp off len d dk = Ok dk' \<and> keeps dk dk' (tpp_mmaps tpp)
    \<and> piece_bytes tpp dk' = mwrite (piece_bytes tpp dk) (nat off) d"
  using write_run [of "tpp_mmaps tpp" dk 0 off d len] assms
  by (simp add: torrent_block_write_def piece_bytes_def piece_ok_def)

lemma keeps_piece_ok: "keeps dk dk' ms \<Longrightarrow> piece_ok tpp dk' = piece_ok tpp dk"
  using same_shape_ok [of dk dk'] by (simp add: keeps_def piece_ok_def)

interpretation pc: block_store "\<lambda>dk off len. torrent_block_read tpp off len dk"
  "\<lambda>off len d dk. torrent_block_write tpp off len d dk" "piece_bytes tpp" "piece_ok tpp"
  for tpp :: torrent_piece
proof
  fix dk off and len :: u32
  assume a: "piece_ok tpp dk" "0 \<le> off" "off + uint len \<le> int (length (piece_bytes tpp dk))"
  then have fit: "nat off + unat len \<le> length (piece_bytes tpp dk)"
  proof -
    have "int (unat len) = uint len" by simp
    then show ?thesis using a by linarith
  qed
  have "off \<le> int (length (piece_bytes tpp dk))" using a(3) uint_ge_0 [of len] by linarith
  then show "\<exists>h. torrent_block_read tpp off len dk
      = Ok (Some (map Some (mread (piece_bytes tpp dk) (nat off) (unat len)), h))"
    using block_read_piece(2) [OF a(1,2), of len] fit by (auto simp: finish_exact)
next
  fix dk off and d :: bytes and len :: u32
  assume "piece_ok tpp dk" "0 \<le> off" "length d = unat len" "off + uint len \<le> int (length (piece_bytes tpp dk))"
  then show "\<exists>dk'. torrent_block_write tpp off len d dk = Ok dk' \<and> piece_ok tpp dk'
      \<and> piece_bytes tpp dk' = mwrite (piece_bytes tpp dk) (nat off) d"
    using block_write_piece [of tpp dk off d len] keeps_piece_ok by blast
qed

section \<open>Properties\<close>

text \<open>
  (C29) \<^verbatim>\<open>torrent_block_read\<close> on a mapped piece: NULL when the offset lies past the end of the piece;
  otherwise exactly the bytes of the piece from that offset, across mappings and files, followed, when
  the request runs past the end of the piece, by bytes of the allocated block that were never written.
\<close>

theorem block_read_correct:
  assumes "piece_ok tpp dk" "0 \<le> off"
  shows "if off > int (length (piece_bytes tpp dk)) then torrent_block_read tpp off len dk = Ok None
    else (\<exists>h. torrent_block_read tpp off len dk
        = Ok (Some (finish_block len (mread (piece_bytes tpp dk) (nat off) (unat len)), h)))"
  using block_read_piece [OF assms] by (simp add: not_less)

definition two_maps :: torrent_piece where
  "two_maps = \<lparr>tpp_flags = 2, tpp_blocks = 0, tpp_len = 5, tpp_index = 0, tpp_mmaps =
     [\<lparr>mm_file = 0, mm_off = 1, mm_aligned = 0, mm_maplen = 3, mm_len = 2\<rparr>,
      \<lparr>mm_file = 1, mm_off = 0, mm_aligned = 0, mm_maplen = 3, mm_len = 3\<rparr>]\<rparr>"

lemma two_maps_ok: "piece_ok two_maps [[1, 2, 3], [4, 5, 6, 7]]"
  "piece_bytes two_maps [[1, 2, 3], [4, 5, 6, 7]] = [2, 3, 4, 5, 6]"
  by (simp_all add: two_maps_def piece_ok_def mm_ok_def apart_def piece_bytes_def view_def mread_def)

theorem block_read_correct_witness:
  "\<exists>h. torrent_block_read two_maps 1 3 [[1, 2, 3], [4, 5, 6, 7]] = Ok (Some ([Some 3, Some 4, Some 5], h))"
  using block_read_correct [OF two_maps_ok(1), of 1 3]
  by (simp add: two_maps_ok mread_def finish_block_def)

text \<open>
  (C28) \<^verbatim>\<open>torrent_block_write\<close> of a block that fits in the piece replaces exactly that range of the piece,
  across mappings and files, changes no file size and no byte outside the piece's mappings.
\<close>

theorem block_write_correct:
  assumes "piece_ok tpp dk" "0 \<le> off" "length d = unat len"
    and "off + uint len \<le> int (length (piece_bytes tpp dk))"
  shows "\<exists>dk'. torrent_block_write tpp off len d dk = Ok dk'
    \<and> piece_bytes tpp dk' = mwrite (piece_bytes tpp dk) (nat off) d
    \<and> map length dk' = map length dk
    \<and> (\<forall>m. mm_ok dk m \<longrightarrow> (\<forall>m' \<in> set (tpp_mmaps tpp). apart m' m) \<longrightarrow> view dk' m = view dk m)"
  using block_write_piece [OF assms] by (auto simp: keeps_def same_shape_def)

theorem block_write_correct_witness:
  "\<exists>dk'. torrent_block_write two_maps 1 2 [8, 9] [[1, 2, 3], [4, 5, 6, 7]] = Ok dk'
    \<and> piece_bytes two_maps dk' = [2, 8, 9, 5, 6]"
  using block_write_correct [OF two_maps_ok(1), of 1 "[8, 9]" 2]
  by (simp add: two_maps_ok mwrite_def) blast

text \<open>
  (C5) A piece is assembled whatever the order of its blocks: writing blocks of a byte string \<open>T\<close> of
  the piece's length, in any order, overlapping or repeated, succeeds, and when they cover every
  position the piece holds \<open>T\<close>.
\<close>

theorem piece_assembly:
  assumes "piece_ok tpp dk" "length T = length (piece_bytes tpp dk)"
    and "\<forall>(b, l) \<in> set bs. b + unat l \<le> length T"
    and "\<forall>i < length T. \<exists>(b, l) \<in> set bs. b \<le> i \<and> i < b + unat l"
  shows "\<exists>dk'. rfold (\<lambda>dk (b, l). torrent_block_write tpp (int b) l (mread T b (unat l)) dk) dk bs = Ok dk'
    \<and> piece_ok tpp dk' \<and> piece_bytes tpp dk' = T"
proof -
  obtain dk' where dk': "rfold (\<lambda>dk (b, l). torrent_block_write tpp (int b) l (mread T b (unat l)) dk) dk bs = Ok dk'"
    "piece_ok tpp dk'" "length (piece_bytes tpp dk') = length T"
    "\<forall>i < length T. piece_bytes tpp dk' ! i =
       (if \<exists>(b, l) \<in> set bs. b \<le> i \<and> i < b + unat l then T ! i else piece_bytes tpp dk ! i)"
    using pc.fill [OF assms(1) assms(2) [symmetric] assms(3)] by blast
  then have "piece_bytes tpp dk' = T" using assms(4) by (intro nth_equalityI) auto
  then show ?thesis using dk' by blast
qed

theorem piece_assembly_witness:
  "\<exists>dk'. rfold (\<lambda>dk (b, l). torrent_block_write two_maps (int b) l (mread [9, 8, 7, 6, 5] b (unat l)) dk)
      [[1, 2, 3], [4, 5, 6, 7]] [(3, 2), (0, 2), (1, 3 :: u32)] = Ok dk'
    \<and> piece_ok two_maps dk' \<and> piece_bytes two_maps dk' = [9, 8, 7, 6, 5]"
proof (rule piece_assembly [OF two_maps_ok(1)])
  show "\<forall>i < length [9, 8, 7, 6, 5 :: byte]. \<exists>(b, l) \<in> set [(3, 2), (0, 2), (1, 3 :: u32)]. b \<le> i \<and> i < b + unat l"
    by auto
qed (simp_all add: two_maps_ok)

end
