(* ===== verification/Torrent_Map.thy ===== *)
theory Torrent_Map
  imports Torrent_Blocks
begin

text \<open>
  Which bytes a piece is: \<^verbatim>\<open>torrent_pieces_create\<close> and \<^verbatim>\<open>torrent_piece_map\<close> against the definition of the
  protocol, which takes the files of a torrent as one stream and cuts it into pieces of equal length.
  The loop of \<^verbatim>\<open>torrent_piece_map\<close> is compared with the list of file ranges that cover a range of the
  stream; the files on disk count as padded with zeros to their full length, which is what growing
  them does.
\<close>

section \<open>The file ranges that cover a range of the stream\<close>

fun cover :: "nat \<Rightarrow> int list \<Rightarrow> int \<Rightarrow> int \<Rightarrow> (nat \<times> int \<times> int) list" where
  "cover f [] s n = []"
| "cover f (fl # fls) s n =
     (if n \<le> 0 then []
      else if fl \<le> s then cover (f + 1) fls (s - fl) n
      else let k = min n (fl - s) in (f, s, k) # cover (f + 1) fls 0 (n - k))"

lemma cover_zero [simp]: "n \<le> 0 \<Longrightarrow> cover f fls s n = []"
  by (cases fls) simp_all

definition seg_u32 :: "nat \<times> int \<times> int \<Rightarrow> nat \<times> int \<times> u32" where
  "seg_u32 = (\<lambda>(f, s, k). (f, s, word_of_int k))"

lemma uint_minus_of_int:
  assumes "0 \<le> x" "x \<le> uint (len :: u32)"
  shows "uint (len - word_of_int x) = uint len - x"
proof -
  have "uint (len - word_of_int x) = (uint len - x) mod 2 ^ 32"
    by (simp add: uint_word_ariths unsigned_of_int take_bit_eq_mod mod_simps)
  also have "\<dots> = uint len - x"
    using assms unsigned_less [of len, where 'a = int] by (intro mod_pos_pos_trivial) simp_all
  finally show ?thesis .
qed

lemma word_of_int_nonzero: "0 < uint (len :: u32) \<Longrightarrow> len \<noteq> 0"
  by auto

text \<open>The part of the loop that handles the file after the current one.\<close>

definition next_file where
  "next_file pg f fls off len st = (case fls of
       [] \<Rightarrow> Fault (Undef ''nxttfp'')
     | nl # nls \<Rightarrow>
         if nl < uint len
         then if nl = 0 then piece_map_loop pg (f + 1) fls off len st
              else rbind (map_one pg st (f + 1, 0, word_of_int nl)) (\<lambda>st.
                     piece_map_loop pg (f + 2) nls 0 (len - word_of_int nl) st)
         else if len = 0 then piece_map_loop pg (f + 1) fls off len st
              else map_one pg st (f + 1, 0, len))"

lemma piece_map_loop_Cons:
  "piece_map_loop pg f (fl # fls) off len st =
     (if off > fl then piece_map_loop pg (f + 1) fls (off - fl) len st
      else if fl < uint len \<and> tpp_len (fst st) < len
      then if fl - off = 0 then piece_map_loop pg (f + 1) fls off len st
           else rbind (map_one pg st (f, off, word_of_int (fl - off))) (\<lambda>st.
                  piece_map_loop pg (f + 1) fls 0 (len - word_of_int (fl - off)) st)
      else if off + uint len > fl
      then if fl = off then piece_map_loop pg (f + 1) fls 0 len st
           else rbind (map_one pg st (f, off, word_of_int (fl - off))) (\<lambda>st.
                  next_file pg f fls (off + 1) (len - word_of_int (fl - off)) st)
      else if off < fl
      then if len = 0 then piece_map_loop pg (f + 1) fls off len st
           else map_one pg st (f, off, len)
      else piece_map_loop pg (f + 1) fls off len st)"
  by (simp only: piece_map_loop.simps next_file_def Let_def)

declare piece_map_loop.simps(2) [simp del]

text \<open>\<open>covers pg fls\<close>: from the start of the files \<open>fls\<close> on, the loop maps the covering ranges.\<close>

definition covers :: "int \<Rightarrow> int list \<Rightarrow> bool" where
  "covers pg fls \<longleftrightarrow> (\<forall>f len. 0 < uint len \<longrightarrow> uint len \<le> sum_list fls \<longrightarrow>
     piece_map_loop pg f fls 0 len = (\<lambda>st. rfold (map_one pg) st (map seg_u32 (cover f fls 0 (uint len)))))"

lemma next_file_covers:
  assumes "0 < nl" "covers pg nls" "0 < uint len" "uint len \<le> sum_list (nl # nls)"
  shows "next_file pg f (nl # nls) off len st
    = rfold (map_one pg) st (map seg_u32 (cover (f + 1) (nl # nls) 0 (uint len)))"
proof (cases "nl < uint len")
  case True
  let ?len = "len - word_of_int nl"
  have ul: "uint ?len = uint len - nl" using True assms(1) by (intro uint_minus_of_int) simp_all
  then have "piece_map_loop pg (f + 2) nls 0 ?len
      = (\<lambda>st. rfold (map_one pg) st (map seg_u32 (cover (f + 2) nls 0 (uint ?len))))"
    using assms(2,4) True unfolding covers_def by simp
  then show ?thesis using True assms(1) ul by (simp add: next_file_def seg_u32_def)
next
  case False
  then show ?thesis using assms(1,3) word_of_int_nonzero [OF assms(3)]
    by (simp add: next_file_def seg_u32_def)
qed

text \<open>A file that the piece fills from \<open>off\<close> to its end and leaves.\<close>

lemma leave_file:
  assumes "0 \<le> off" "off < fl" "fl < off + uint len" "covers pg fls" "covers pg (tl fls)"
    and "\<forall>x \<in> set fls. 0 < x" "off + uint len \<le> fl + sum_list fls"
  shows "piece_map_loop pg f (fl # fls) off len st
    = rfold (map_one pg) st (map seg_u32 (cover f (fl # fls) off (uint len)))"
proof -
  let ?len = "len - word_of_int (fl - off)"
  have ul: "uint ?len = uint len - (fl - off)" using assms(2,3) by (intro uint_minus_of_int) simp_all
  have cov: "cover f (fl # fls) off (uint len) = (f, off, fl - off) # cover (f + 1) fls 0 (uint ?len)"
    using assms(2,3) ul by (simp add: Let_def)
  obtain nl nls where nls: "fls = nl # nls" using assms(3,7) by (cases fls) auto
  have "piece_map_loop pg (f + 1) fls 0 ?len
      = (\<lambda>st. rfold (map_one pg) st (map seg_u32 (cover (f + 1) fls 0 (uint ?len))))"
    using assms(3,4,7) ul unfolding covers_def by simp
  moreover have "next_file pg f fls (off + 1) ?len
      = (\<lambda>st. rfold (map_one pg) st (map seg_u32 (cover (f + 1) fls 0 (uint ?len))))"
    using next_file_covers [of nl pg nls ?len f "off + 1"] assms(3,5-7) ul by (intro ext) (simp add: nls)
  ultimately show ?thesis using assms(2,3) unfolding cov
    by (simp add: piece_map_loop_Cons seg_u32_def del: cover.simps)
qed

lemma pos_tl: "\<forall>x \<in> set xs. 0 < x \<Longrightarrow> \<forall>x \<in> set (tl xs). 0 < (x :: int)"
  by (cases xs) simp_all

lemma map_loop_start: "\<forall>fl \<in> set fls. 0 < fl \<Longrightarrow> covers pg fls"
proof (induction fls rule: length_induct)
  case (1 fls)
  show ?case
  proof (cases fls)
    case Nil
    then show ?thesis by (simp add: covers_def)
  next
    case (Cons fl fls')
    have fl: "0 < fl" and c: "covers pg fls'" "covers pg (tl fls')"
      using 1(1) [rule_format, of fls'] 1(1) [rule_format, of "tl fls'"] 1(2) Cons pos_tl [of fls'] by simp_all
    show ?thesis
      unfolding covers_def
    proof (intro allI impI ext)
      fix f st and len :: u32
      assume len: "0 < uint len" "uint len \<le> sum_list fls"
      show "piece_map_loop pg f fls 0 len st = rfold (map_one pg) st (map seg_u32 (cover f fls 0 (uint len)))"
      proof (cases "fl < uint len")
        case True
        then show ?thesis
          using leave_file [of 0 fl len pg fls'] fl c 1(2) len by (simp add: Cons)
      next
        case False
        then show ?thesis
          using fl len(1) word_of_int_nonzero [OF len(1)] by (simp add: Cons piece_map_loop_Cons seg_u32_def)
      qed
    qed
  qed
qed

text \<open>
  From the start of the piece: the piece may begin at the end of a file only if that file is at least
  as long as the piece.
\<close>

lemma map_loop_cover:
  assumes "\<forall>fl \<in> set fls. 0 < fl" "0 < uint len" "0 \<le> off" "off + uint len \<le> sum_list fls"
    and "tpp_len (fst st) = 0"
    and "\<forall>k < length fls. sum_list (take (Suc k) fls) = off \<longrightarrow> uint len \<le> fls ! k"
  shows "piece_map_loop pg f fls off len st = rfold (map_one pg) st (map seg_u32 (cover f fls off (uint len)))"
  using assms
proof (induction fls arbitrary: f off)
  case Nil
  then show ?case by simp
next
  case (Cons fl fls)
  have fl: "0 < fl" and c: "covers pg fls" "covers pg (tl fls)"
    using Cons.prems(1) pos_tl [of fls] by (simp_all add: map_loop_start)
  have nz: "len \<noteq> 0" using Cons.prems(2) by auto
  have zero: "tpp_len (fst st) < len" using Cons.prems(5) nz by (simp add: word_neq_0_conv)
  consider "off > fl" | "off = fl" | "off < fl" "off + uint len > fl" | "off < fl" "off + uint len \<le> fl"
    by linarith
  then show ?case
  proof cases
    case 1
    have "\<forall>k < length fls. sum_list (take (Suc k) fls) = off - fl \<longrightarrow> uint len \<le> fls ! k"
    proof (intro allI impI)
      fix k
      assume "k < length fls" "sum_list (take (Suc k) fls) = off - fl"
      then show "uint len \<le> fls ! k" using Cons.prems(6) [rule_format, of "Suc k"] by simp
    qed
    then have "piece_map_loop pg (f + 1) fls (off - fl) len st
        = rfold (map_one pg) st (map seg_u32 (cover (f + 1) fls (off - fl) (uint len)))"
      using Cons.prems 1 by (intro Cons.IH) auto
    then show ?thesis using 1 Cons.prems(2) by (simp add: piece_map_loop_Cons)
  next
    case 2
    then have "\<not> fl < uint len" using Cons.prems(6) [rule_format, of 0] by simp
    moreover have "piece_map_loop pg (f + 1) fls 0 len st
        = rfold (map_one pg) st (map seg_u32 (cover (f + 1) fls 0 (uint len)))"
      using c(1) Cons.prems(2,4) 2 unfolding covers_def by simp
    ultimately show ?thesis using 2 Cons.prems(2) by (simp add: piece_map_loop_Cons)
  next
    case 3
    then show ?thesis using leave_file [of off fl len pg fls f st] Cons.prems c by simp
  next
    case 4
    then show ?thesis
      using Cons.prems(2,3) nz by (simp add: piece_map_loop_Cons seg_u32_def Let_def)
  qed
qed

section \<open>The covering ranges are the range\<close>

lemma cover_in:
  assumes "(g, s', k) \<in> set (cover f fls s n)" "0 \<le> s"
  shows "f \<le> g \<and> g < f + length fls \<and> 0 \<le> s' \<and> 0 < k \<and> k \<le> n \<and> s' + k \<le> fls ! (g - f)"
  using assms
proof (induction f fls s n rule: cover.induct)
  case (2 f fl fls s n)
  have shift: "fls ! (g - (f + 1)) = (fl # fls) ! (g - f)" if "f + 1 \<le> g"
    using that by (simp add: nth_Cons')
  show ?case
  proof (cases "n \<le> 0")
    case False
    show ?thesis
    proof (cases "fl \<le> s")
      case True
      then show ?thesis using 2(1) [OF False True] 2(3,4) False shift by auto
    next
      case nle: False
      let ?k = "min n (fl - s)"
      consider "(g, s', k) = (f, s, ?k)" | "(g, s', k) \<in> set (cover (f + 1) fls 0 (n - ?k))"
        using 2(3) False nle by (auto simp: Let_def)
      then show ?thesis
        using 2(2) [OF False nle refl] 2(4) False nle shift by cases auto
    qed
  qed (use 2(3) in simp)
qed simp

lemma cover_sorted: "0 \<le> s \<Longrightarrow> sorted_wrt (\<lambda>x y. fst x < fst y) (cover f fls s n)"
proof (induction f fls s n rule: cover.induct)
  case (2 f fl fls s n)
  have "f < fst x" if "x \<in> set (cover (f + 1) fls 0 m)" for x m
    using cover_in [of "fst x" "fst (snd x)" "snd (snd x)" "f + 1" fls 0 m] that by simp
  then show ?case using 2 by (auto simp: Let_def)
qed simp

lemma cover_sum:
  "0 \<le> n \<Longrightarrow> 0 \<le> s \<Longrightarrow> s + n \<le> sum_list fls \<Longrightarrow> sum_list (map (\<lambda>(g, s, k). k) (cover f fls s n)) = n"
  by (induction f fls s n rule: cover.induct) (auto simp: Let_def min_def)

lemma mread_append_split:
  "a \<le> length xs \<Longrightarrow> length xs - a \<le> n \<Longrightarrow>
   mread (xs @ ys) a n = mread xs a (length xs - a) @ mread ys 0 (n - (length xs - a))"
  by (simp add: mread_def)

lemma cover_bytes:
  assumes "map length ps = map nat fls" "\<forall>fl \<in> set fls. 0 \<le> fl" "0 \<le> s" "0 \<le> n" "s + n \<le> sum_list fls"
  shows "concat (map (\<lambda>(g, s, k). mread (ps ! (g - f)) (nat s) (nat k)) (cover f fls s n))
    = mread (concat ps) (nat s) (nat n)"
  using assms
proof (induction f fls s n arbitrary: ps rule: cover.induct)
  case (1 f s n)
  then show ?case by (simp add: mread_def)
next
  case (2 f fl fls s n)
  obtain p ps' where ps: "ps = p # ps'" and p: "length p = nat fl" "map length ps' = map nat fls"
    using 2(3) by (cases ps) auto
  have shift: "map (\<lambda>(g, s, k). mread (ps ! (g - f)) (nat s) (nat k)) (cover (f + 1) fls s' m)
      = map (\<lambda>(g, s, k). mread (ps' ! (g - (f + 1))) (nat s) (nat k)) (cover (f + 1) fls s' m)"
    if "0 \<le> s'" for s' m
  proof (rule map_cong [OF refl])
    fix x
    assume x: "x \<in> set (cover (f + 1) fls s' m)"
    obtain g a k where g: "x = (g, a, k)" by (cases x)
    then have "f + 1 \<le> g" using cover_in [of g a k "f + 1" fls s' m] x that by simp
    then have "ps ! (g - f) = ps' ! (g - (f + 1))" by (simp add: ps nth_Cons')
    then show "(case x of (g, s, k) \<Rightarrow> mread (ps ! (g - f)) (nat s) (nat k))
        = (case x of (g, s, k) \<Rightarrow> mread (ps' ! (g - (f + 1))) (nat s) (nat k))"
      by (simp add: g)
  qed
  show ?case
  proof (cases "n \<le> 0")
    case True
    then show ?thesis by simp
  next
    case n: False
    show ?thesis
    proof (cases "fl \<le> s")
      case True
      have "concat (map (\<lambda>(g, s, k). mread (ps' ! (g - (f + 1))) (nat s) (nat k)) (cover (f + 1) fls (s - fl) n))
          = mread (concat ps') (nat (s - fl)) (nat n)"
        using 2(1) [OF n True, of ps'] 2(4-7) p True by simp
      moreover have "mread (concat ps) (nat s) (nat n) = mread (concat ps') (nat (s - fl)) (nat n)"
        using True p(1) 2(4) by (simp add: ps mread_append_right nat_diff_distrib)
      ultimately have "concat (map (\<lambda>(g, s, k). mread (ps ! (g - f)) (nat s) (nat k)) (cover (f + 1) fls (s - fl) n))
          = mread (concat ps) (nat s) (nat n)"
        using True by (simp only: shift diff_ge_0_iff_ge)
      then show ?thesis using True n by simp
    next
      case False
      let ?k = "min n (fl - s)"
      have "0 \<le> sum_list fls" using 2(4) by (intro sum_list_nonneg) simp
      then have "n - ?k \<le> sum_list fls" using 2(7) by (simp add: min_def)
      then have "concat (map (\<lambda>(g, s, k). mread (ps' ! (g - (f + 1))) (nat s) (nat k)) (cover (f + 1) fls 0 (n - ?k)))
          = mread (concat ps') 0 (nat (n - ?k))"
        using 2(2) [OF n False refl, of ps'] 2(4-7) p False by auto
      moreover have "mread (concat ps) (nat s) (nat n) = mread p (nat s) (nat ?k) @ mread (concat ps') 0 (nat (n - ?k))"
      proof (cases "n \<le> fl - s")
        case True
        then show ?thesis using p(1) 2(5) n by (simp add: ps mread_append_left min_def nat_add_distrib [symmetric] nat_le_eq_zle)
      next
        case big: False
        have "nat s \<le> length p" "length p - nat s \<le> nat n" "length p - nat s = nat (fl - s)"
          using p(1) False big 2(5) n by (simp_all add: nat_diff_distrib)
        then show ?thesis
          using big mread_append_split [of "nat s" p "nat n" "concat ps'"] 2(5) False n
          by (simp add: ps min_def nat_diff_distrib)
      qed
      ultimately have "mread p (nat s) (nat ?k)
            @ concat (map (\<lambda>(g, s, k). mread (ps ! (g - f)) (nat s) (nat k)) (cover (f + 1) fls 0 (n - ?k)))
          = mread (concat ps) (nat s) (nat n)"
        by (simp only: shift order.refl)
      then show ?thesis using False n by (simp add: Let_def ps)
    qed
  qed
qed

section \<open>Creating mappings\<close>

text \<open>A file padded with zeros to its full length, and the stream of the files.\<close>

definition pad :: "int \<Rightarrow> bytes \<Rightarrow> bytes" where
  "pad fl bs = take (nat fl) (bs @ replicate (nat fl) 0)"

definition padded :: "torrent \<Rightarrow> disk \<Rightarrow> bytes list" where
  "padded tp dk = map2 pad (map file_length (files tp)) dk"

definition stream :: "torrent \<Rightarrow> disk \<Rightarrow> bytes" where
  "stream tp dk = concat (padded tp dk)"

lemma length_pad [simp]: "length (pad fl bs) = nat fl"
  by (simp add: pad_def)

lemma pad_grow: "nat fl \<ge> length bs + z \<Longrightarrow> pad fl (bs @ replicate z 0) = pad fl bs"
  by (simp add: pad_def flip: replicate_add)

lemma mread_pad:
  assumes "a + n \<le> length bs" "int (a + n) \<le> fl"
  shows "mread (pad fl bs) a n = mread bs a n"
proof -
  have "a + n \<le> nat fl" using assms(2) by linarith
  then show ?thesis using assms(1) by (simp add: pad_def mread_def drop_take min_def)
qed

text \<open>
  \<open>can_map\<close>: the disk has a content for each file, and the files may be grown or are complete (they
  are opened for reading only once all pieces are good).
\<close>

definition can_map :: "torrent \<Rightarrow> disk \<Rightarrow> bool" where
  "can_map tp dk \<longleftrightarrow> length dk = length (files tp) \<and>
     (good_pieces tp = num_pieces tp \<longrightarrow> (\<forall>f < length dk. file_length (files tp ! f) \<le> int (length (dk ! f))))"

text \<open>\<open>grown\<close>: what creating mappings may change. With files of full length on the disk nothing grows.\<close>

definition full_files :: "torrent \<Rightarrow> disk \<Rightarrow> bool" where
  "full_files tp dk \<longleftrightarrow> list_all2 (\<lambda>fl d. fl \<le> int (length d)) (map file_length (files tp)) dk"

definition grown :: "torrent \<times> disk \<Rightarrow> torrent \<times> disk \<Rightarrow> bool" where
  "grown s s' \<longleftrightarrow> (case (s, s') of ((tp, dk), (tp', dk')) \<Rightarrow>
     map file_length (files tp') = map file_length (files tp) \<and> can_map tp' dk'
     \<and> padded tp' dk' = padded tp dk
     \<and> (\<forall>m. mm_ok dk m \<longrightarrow> mm_ok dk' m \<and> view dk' m = view dk m)
     \<and> tp' = tp\<lparr>files := files tp', isnew := isnew tp'\<rparr>
     \<and> (full_files tp dk \<longrightarrow> isnew tp' = isnew tp \<and> dk' = dk))"

lemma grown_refl: "can_map tp dk \<Longrightarrow> grown (tp, dk) (tp, dk)"
  by (simp add: grown_def)

lemma grown_trans:
  assumes "grown s1 s2" "grown s2 s3"
  shows "grown s1 s3"
proof -
  obtain tp1 dk1 tp2 dk2 tp3 dk3 where s: "s1 = (tp1, dk1)" "s2 = (tp2, dk2)" "s3 = (tp3, dk3)" by (cases s1; cases s2; cases s3)
  have "tp2 = tp1\<lparr>files := files tp2, isnew := isnew tp2\<rparr>" "tp3 = tp2\<lparr>files := files tp3, isnew := isnew tp3\<rparr>"
    using assms by (auto simp: grown_def s)
  then have "tp3 = tp1\<lparr>files := files tp3, isnew := isnew tp3\<rparr>" by (cases tp1; cases tp2; cases tp3) simp
  moreover have "full_files tp2 dk1 = full_files tp1 dk1" using assms by (simp add: grown_def s full_files_def)
  ultimately show ?thesis using assms by (auto simp: grown_def s)
qed

lemma grow_file:
  assumes "f < length dk" "length (dk ! f) + z \<le> nat fl \<or> z = 0"
  defines "dk' \<equiv> dk[f := dk ! f @ replicate z 0]"
  shows "mm_ok dk m \<Longrightarrow> mm_ok dk' m \<and> view dk' m = view dk m"
    and "pad fl (dk' ! f) = pad fl (dk ! f)"
  using assms
  by (auto simp: dk'_def mm_ok_def view_def nth_list_update mread_append_left pad_grow)

lemma mmap_create_ok:
  assumes "can_map tp dk" "f < length dk" "0 \<le> off" "off + uint len \<le> file_length (files tp ! f)"
  obtains m s' where "torrent_mmap_create pg f off len (tp, dk) = Ok (m, s')"
    "mm_file m = f" "mm_off m = off" "mm_len m = len" "grown (tp, dk) s'" "mm_ok (snd s') m"
    "view (snd s') m = mread (padded tp dk ! f) (nat off) (unat len)"
proof -
  let ?need = "uint len + off" and ?fl = "file_length (files tp ! f)"
  define z where "z = nat ?need - length (dk ! f)"
  let ?dk = "dk[f := dk ! f @ replicate z 0]"
  let ?short = "int (length (dk ! f)) < ?need"
  have len: "length dk = length (files tp)" using assms(1) by (simp add: can_map_def)
  have ro: "\<not> (?short \<and> good_pieces tp = num_pieces tp)"
    using assms unfolding can_map_def by fastforce
  have dk: "(if ?short then dk[f := dk ! f @ replicate (nat ?need - length (dk ! f)) 0] else dk) = ?dk"
    by (auto simp: z_def)
  obtain m tp' where res: "torrent_mmap_create pg f off len (tp, dk) = Ok (m, tp', ?dk)"
    and m: "mm_file m = f" "mm_off m = off" "mm_len m = len"
    and tp': "map file_length (files tp') = map file_length (files tp)" "good_pieces tp' = good_pieces tp"
      "num_pieces tp' = num_pieces tp" "tp' = tp\<lparr>files := files tp', isnew := isnew tp \<or> ?short\<rparr>"
    using assms(2) len ro dk
    by (simp add: torrent_mmap_create_def Let_def not_le map_update list_update_same_conv)
  have u: "int (unat len) = uint len" by simp
  have fit: "length (dk ! f) + z \<le> nat ?fl \<or> z = 0" and big: "nat off + unat len \<le> length (dk ! f) + z"
    using assms(3,4) u unfolding z_def by linarith+
  note grow = grow_file [OF assms(2) fit]
  have fl: "length (files tp') = length (files tp)" using arg_cong [OF tp'(1), of length] by simp
  then have fl': "file_length (files tp' ! g) = file_length (files tp ! g)" if "g < length dk" for g
    using arg_cong [OF tp'(1), of "\<lambda>xs. xs ! g"] that len by simp
  have "x \<le> int (length (?dk ! g))" if "x \<le> int (length (dk ! g))" for x g
    using that assms(2) by (cases "g = f") simp_all
  then have "can_map tp' ?dk"
    using assms(1) fl fl' tp'(2,3) unfolding can_map_def by auto
  moreover have pads: "padded tp' ?dk = padded tp dk"
  proof (rule nth_equalityI)
    fix g
    assume "g < length (padded tp' ?dk)"
    then have "g < length (files tp)" "g < length dk" using len fl by (simp_all add: padded_def)
    then show "padded tp' ?dk ! g = padded tp dk ! g"
      using grow(2) len fl fl' by (cases "g = f") (simp_all add: padded_def)
  qed (use len fl in \<open>simp add: padded_def\<close>)
  moreover have new: "isnew tp' = (isnew tp \<or> ?short)" using arg_cong [OF tp'(4), of isnew] by simp
  moreover have "isnew tp' = isnew tp \<and> ?dk = dk" if full: "full_files tp dk"
  proof -
    have "?fl \<le> int (length (dk ! f))" using full assms(2) len by (simp add: full_files_def list_all2_conv_all_nth)
    then have "\<not> ?short" using assms(4) by linarith
    then show ?thesis using new dk by simp
  qed
  moreover have "tp' = tp\<lparr>files := files tp', isnew := isnew tp'\<rparr>"
    unfolding new by (rule tp'(4))
  ultimately have gr: "grown (tp, dk) (tp', ?dk)" using tp'(1) grow(1) by (auto simp: grown_def)
  have mok: "mm_ok ?dk m" using m big assms(2,3) by (simp add: mm_ok_def)
  have "view ?dk m = mread (padded tp' ?dk ! f) (nat off) (unat len)"
    using m big assms(2-4) len fl u tp'(1) mread_pad [of "nat off" "unat len" "?dk ! f" ?fl]
    by (simp add: view_def padded_def fl')
  then show thesis using that [OF res m] gr mok pads by simp
qed

text \<open>A range of a file, as the padded files hold it.\<close>

definition seg_bytes :: "bytes list \<Rightarrow> nat \<times> int \<times> int \<Rightarrow> bytes" where
  "seg_bytes ps = (\<lambda>(f, s, k). mread (ps ! f) (nat s) (nat k))"

definition seg_ok :: "torrent \<Rightarrow> nat \<times> int \<times> int \<Rightarrow> bool" where
  "seg_ok tp = (\<lambda>(f, s, k). f < length (files tp) \<and> 0 \<le> s \<and> 0 \<le> k \<and> k < 2 ^ 32
     \<and> s + k \<le> file_length (files tp ! f))"

lemma seg_ok_grown: "grown (tp, dk) (tp', dk') \<Longrightarrow> seg_ok tp' = seg_ok tp"
proof -
  assume "grown (tp, dk) (tp', dk')"
  then have m: "map file_length (files tp') = map file_length (files tp)" by (simp add: grown_def)
  then have "length (files tp') = length (files tp)" using map_eq_imp_length_eq by blast
  moreover have "file_length (files tp' ! f) = file_length (files tp ! f)" if "f < length (files tp)" for f
    using arg_cong [OF m, of "\<lambda>xs. xs ! f"] that calculation by simp
  ultimately show ?thesis by (auto simp: seg_ok_def fun_eq_iff)
qed

lemma map_segments:
  assumes "can_map tp dk" "\<forall>x \<in> set segs. seg_ok tp x"
  shows "\<exists>tpp' s' ms. rfold (map_one pg) (tpp, tp, dk) (map seg_u32 segs) = Ok (tpp', s')
    \<and> tpp' = tpp\<lparr>tpp_mmaps := tpp_mmaps tpp @ ms,
        tpp_len := tpp_len tpp + word_of_int (sum_list (map (\<lambda>(f, s, k). k) segs))\<rparr>
    \<and> map (\<lambda>m. (mm_file m, mm_off m, uint (mm_len m))) ms = segs
    \<and> grown (tp, dk) s' \<and> (\<forall>m \<in> set ms. mm_ok (snd s') m)
    \<and> pview (snd s') ms = concat (map (seg_bytes (padded tp dk)) segs)"
  using assms
proof (induction segs arbitrary: tpp tp dk)
  case Nil
  then show ?case by (simp add: grown_refl)
next
  case (Cons x segs)
  obtain f s k where x: "x = (f, s, k)" by (cases x)
  have sk: "f < length dk" "0 \<le> s" "0 \<le> k" "k < 2 ^ 32" "s + k \<le> file_length (files tp ! f)"
    using Cons.prems x by (simp_all add: seg_ok_def can_map_def)
  then have uk: "uint (word_of_int k :: u32) = k" "unat (word_of_int k :: u32) = nat k"
    by (simp_all add: unsigned_of_int take_bit_eq_mod)
  obtain m tp1 dk1 where m: "torrent_mmap_create pg f s (word_of_int k) (tp, dk) = Ok (m, tp1, dk1)"
    "mm_file m = f" "mm_off m = s" "mm_len m = word_of_int k" "grown (tp, dk) (tp1, dk1)" "mm_ok dk1 m"
    "view dk1 m = mread (padded tp dk ! f) (nat s) (nat k)"
    by (rule mmap_create_ok [OF Cons.prems(1) sk(1,2), of "word_of_int k" pg]) (use sk(5) uk in auto)
  let ?tpp = "tpp\<lparr>tpp_mmaps := tpp_mmaps tpp @ [m], tpp_len := tpp_len tpp + mm_len m\<rparr>"
  have c1: "can_map tp1 dk1" and pads: "padded tp1 dk1 = padded tp dk" using m(5) by (simp_all add: grown_def)
  have s1: "\<forall>x \<in> set segs. seg_ok tp1 x" using Cons.prems(2) seg_ok_grown [OF m(5)] by simp
  obtain tpp' s' ms where ih: "rfold (map_one pg) (?tpp, tp1, dk1) (map seg_u32 segs) = Ok (tpp', s')"
    "tpp' = ?tpp\<lparr>tpp_mmaps := tpp_mmaps ?tpp @ ms,
        tpp_len := tpp_len ?tpp + word_of_int (sum_list (map (\<lambda>(f, s, k). k) segs))\<rparr>"
    "map (\<lambda>m. (mm_file m, mm_off m, uint (mm_len m))) ms = segs"
    "grown (tp1, dk1) s'" "\<forall>m \<in> set ms. mm_ok (snd s') m"
    "pview (snd s') ms = concat (map (seg_bytes (padded tp dk)) segs)"
    using Cons.IH [OF c1 s1, of ?tpp] unfolding pads by blast
  have "mm_ok (snd s') m \<and> view (snd s') m = view dk1 m" using ih(4) m(6) by (auto simp: grown_def)
  moreover have "map_one pg (tpp, tp, dk) (seg_u32 x) = Ok (?tpp, tp1, dk1)"
    by (simp add: x map_one_def seg_u32_def m)
  ultimately show ?case
    using m(2-4,7) ih uk grown_trans [OF m(5) ih(4)]
    by (intro exI [of _ tpp'] exI [of _ s'] exI [of _ "m # ms"]) (simp add: x seg_bytes_def add.assoc)
qed

section \<open>Piece lengths\<close>

text \<open>The whole length of the content: what the pieces have to add up to.\<close>

definition content_length :: "torrent \<Rightarrow> int" where
  "content_length tp = (case ttype tp of SINGLEFILE \<Rightarrow> file_length (hd (files tp)) | MULTIFILE \<Rightarrow> total_length tp)"

definition piece_start :: "torrent \<Rightarrow> u32 \<Rightarrow> int" where
  "piece_start tp i = uint (piece_length tp) * uint i"

lemma create_lens:
  assumes "i < num_pieces tp"
  shows "tpp_len (piece_create tp i) =
    (if i = num_pieces tp - 1 then word_of_int (content_length tp - piece_start tp i) else piece_length tp)"
proof -
  have "word_of_int (uint ((num_pieces tp - 1) * piece_length tp))
      = (word_of_int (uint (piece_length tp) * uint (num_pieces tp - 1)) :: u32)"
    by (simp add: mult.commute)
  then show ?thesis
    by (auto simp: piece_create_def content_length_def piece_start_def Let_def split: ttype.splits)
qed

lemma create_length:
  assumes "unat i < unat (num_pieces tp)"
    and "uint (piece_length tp) * (uint (num_pieces tp) - 1) < content_length tp"
    and "content_length tp \<le> uint (piece_length tp) * uint (num_pieces tp)"
  shows "uint (tpp_len (piece_create tp i)) = min (uint (piece_length tp)) (content_length tp - piece_start tp i)"
proof -
  have lt: "i < num_pieces tp" using assms(1) by (simp add: word_less_nat_alt)
  have "(1 :: u32) \<le> num_pieces tp" using assms(1) by (simp add: word_le_nat_alt)
  then have n1: "unat (num_pieces tp - 1) = unat (num_pieces tp) - 1" by (simp add: unat_sub)
  have u: "int (unat i) = uint i" "int (unat (num_pieces tp)) = uint (num_pieces tp)" by simp_all
  show ?thesis
  proof (cases "i = num_pieces tp - 1")
    case True
    then have "unat i = unat (num_pieces tp) - 1" using n1 by simp
    then have last: "uint i = uint (num_pieces tp) - 1" using u assms(1) by linarith
    let ?r = "content_length tp - piece_start tp i"
    have "0 \<le> ?r" "?r \<le> uint (piece_length tp)"
      using assms(2,3) by (simp_all add: piece_start_def last algebra_simps)
    moreover have "?r < 2 ^ 32" using calculation unsigned_less [of "piece_length tp", where 'a = int] by simp
    ultimately have "uint (word_of_int ?r :: u32) = ?r" "min (uint (piece_length tp)) ?r = ?r"
      by (simp_all only: uint_of_int_small min_absorb2)
    then show ?thesis unfolding create_lens [OF lt] using True by (simp only: if_True refl)
  next
    case False
    then have "unat i \<noteq> unat (num_pieces tp) - 1" using n1 by (metis word_unat_eq_iff)
    then have "uint i + 1 \<le> uint (num_pieces tp) - 1" using u assms(1) by linarith
    then have "uint (piece_length tp) * (uint i + 1) \<le> uint (piece_length tp) * (uint (num_pieces tp) - 1)"
      by (intro mult_left_mono) simp_all
    then show ?thesis
      using False assms(2) by (simp add: create_lens [OF lt] piece_start_def algebra_simps)
  qed
qed

section \<open>Mapping a piece\<close>

lemma padded_lengths: "can_map tp dk \<Longrightarrow> map length (padded tp dk) = map nat (map file_length (files tp))"
  by (rule nth_equalityI) (simp_all add: padded_def can_map_def)

lemma sorted_apart:
  "sorted_wrt (\<lambda>x y. fst x < fst y) (map (\<lambda>m. (mm_file m, mm_off m, uint (mm_len m))) ms) \<Longrightarrow> sorted_wrt apart ms"
  by (induction ms) (auto simp: apart_def)

text \<open>The piece after the mapping, as the theorems state it: mapped, sound, and with its bytes of the stream.\<close>

definition mapped_to :: "map_state \<Rightarrow> torrent_piece \<Rightarrow> bytes \<Rightarrow> bool" where
  "mapped_to st tpp bs \<longleftrightarrow> (case st of (tpp', tp', dk') \<Rightarrow>
     piece_ok tpp' dk' \<and> piece_bytes tpp' dk' = bs \<and> tpp_len tpp' = tpp_len tpp
     \<and> tpp_index tpp' = tpp_index tpp \<and> tpp_blocks tpp' = tpp_blocks tpp \<and> tpp_flags tpp' = tpp_flags tpp OR TORRENT_PIECE_MAPPED)"

text \<open>The ranges of files that a piece is mapped to.\<close>

definition place :: "torrent_piece \<Rightarrow> (nat \<times> int \<times> int) list" where
  "place tpp = map (\<lambda>m. (mm_file m, mm_off m, uint (mm_len m))) (tpp_mmaps tpp)"

lemma multi_map:
  assumes "ttype tp = MULTIFILE" "can_map tp dk" "tpp_mmaps tpp = []" "0 < uint (tpp_len tpp)"
    and "\<forall>f \<in> set (files tp). 0 < file_length f"
    and "piece_start tp (tpp_index tpp) + uint (tpp_len tpp) \<le> sum_list (map file_length (files tp))"
    and "\<forall>k < length (files tp). sum_list (take (Suc k) (map file_length (files tp))) = piece_start tp (tpp_index tpp)
        \<longrightarrow> uint (tpp_len tpp) \<le> file_length (files tp ! k)"
  shows "\<exists>st. torrent_piece_map pg tpp (tp, dk) = Ok st
    \<and> mapped_to st tpp (mread (stream tp dk) (nat (piece_start tp (tpp_index tpp))) (unat (tpp_len tpp)))
    \<and> grown (tp, dk) (snd st)
    \<and> place (fst st) = cover 0 (map file_length (files tp)) (piece_start tp (tpp_index tpp)) (uint (tpp_len tpp))"
proof -
  let ?fls = "map file_length (files tp)" and ?s = "piece_start tp (tpp_index tpp)" and ?n = "uint (tpp_len tpp)"
  let ?segs = "cover 0 ?fls ?s ?n" and ?tpp = "tpp\<lparr>tpp_len := 0\<rparr>"
  have pos: "\<forall>fl \<in> set ?fls. 0 < fl" and s0: "0 \<le> ?s" using assms(5) by (auto simp: piece_start_def)
  have loop: "piece_map_loop pg 0 ?fls ?s (tpp_len tpp) (?tpp, tp, dk)
      = rfold (map_one pg) (?tpp, tp, dk) (map seg_u32 ?segs)"
    using assms(4,6,7) pos s0 by (intro map_loop_cover) simp_all
  have n32: "?n < 2 ^ 32" using unsigned_less [of "tpp_len tpp", where 'a = int] by simp
  have "seg_ok tp x" if "x \<in> set ?segs" for x
    using cover_in [of "fst x" "fst (snd x)" "snd (snd x)" 0 ?fls ?s ?n] that s0 n32
    by (cases x) (auto simp: seg_ok_def)
  then obtain tpp' s' ms where run: "rfold (map_one pg) (?tpp, tp, dk) (map seg_u32 ?segs) = Ok (tpp', s')"
    and tpp': "tpp' = ?tpp\<lparr>tpp_mmaps := tpp_mmaps ?tpp @ ms,
        tpp_len := tpp_len ?tpp + word_of_int (sum_list (map (\<lambda>(f, s, k). k) ?segs))\<rparr>"
    and ms: "map (\<lambda>m. (mm_file m, mm_off m, uint (mm_len m))) ms = ?segs"
    and gr: "grown (tp, dk) s'" "\<forall>m \<in> set ms. mm_ok (snd s') m"
    and bytes: "pview (snd s') ms = concat (map (seg_bytes (padded tp dk)) ?segs)"
    using map_segments [OF assms(2), of ?segs pg ?tpp] by blast
  have sum: "sum_list (map (\<lambda>(f, s, k). k) ?segs) = ?n" using assms(4,6) s0 by (intro cover_sum) simp_all
  have view: "pview (snd s') ms = mread (stream tp dk) (nat ?s) (unat (tpp_len tpp))"
    using cover_bytes [OF padded_lengths [OF assms(2)], of ?s ?n 0] pos s0 assms(6) bytes
    by (simp add: stream_def seg_bytes_def less_imp_le)
  have "ms \<noteq> []" using ms sum assms(4) by auto
  moreover have "sorted_wrt apart ms" using cover_sorted [OF s0, of 0 ?fls ?n] by (intro sorted_apart) (simp only: ms)
  ultimately show ?thesis
    using assms(1,3) loop run gr view tpp' sum ms
    by (cases s') (simp add: place_def torrent_piece_map_def mapped_to_def piece_ok_def piece_bytes_def Let_def
        flip: piece_start_def)
qed

lemma single_map:
  assumes "ttype tp = SINGLEFILE" "length (files tp) = 1" "can_map tp dk" "tpp_mmaps tpp = []"
    and "piece_start tp (tpp_index tpp) + uint (tpp_len tpp) \<le> file_length (hd (files tp))"
  shows "\<exists>st. torrent_piece_map pg tpp (tp, dk) = Ok st
    \<and> mapped_to st tpp (mread (stream tp dk) (nat (piece_start tp (tpp_index tpp))) (unat (tpp_len tpp)))
    \<and> grown (tp, dk) (snd st) \<and> place (fst st) = [(0, piece_start tp (tpp_index tpp), uint (tpp_len tpp))]"
proof -
  let ?s = "piece_start tp (tpp_index tpp)"
  obtain tf where tf: "files tp = [tf]" using assms(2) by (auto simp: length_Suc_conv)
  obtain d where d: "dk = [d]" using assms(3) tf by (auto simp: can_map_def length_Suc_conv)
  have s: "stream tp dk = padded tp dk ! 0" by (simp add: stream_def padded_def tf d)
  obtain m s' where m: "torrent_mmap_create pg 0 ?s (tpp_len tpp) (tp, dk) = Ok (m, s')" "mm_len m = tpp_len tpp" "mm_file m = 0" "mm_off m = ?s"
    "grown (tp, dk) s'" "mm_ok (snd s') m" "view (snd s') m = mread (padded tp dk ! 0) (nat ?s) (unat (tpp_len tpp))"
    by (rule mmap_create_ok [OF assms(3), of 0 ?s "tpp_len tpp" pg]) (use assms(5) tf d in \<open>auto simp: piece_start_def\<close>)
  then show ?thesis
    using assms(1,4) s
    by (cases s') (simp add: place_def torrent_piece_map_def mapped_to_def piece_ok_def piece_bytes_def Let_def
        flip: piece_start_def)
qed

text \<open>
  Where the condition of the next theorem fails: a piece that begins at the end of a file shorter than
  the piece keeps its offset into the next file.
\<close>

lemma piece_map_boundary:
  assumes "tpp_len (fst st) = 0"
  shows "cover 0 [3, 2, 20] 5 5 = [(2, 0, 5)]" "piece_map_loop pg 0 [3, 2, 20] 5 5 st = map_one pg st (Suc (Suc 0), 2, 5)"
  using assms by (simp_all add: piece_map_loop_Cons Let_def)

section \<open>A small torrent\<close>

definition example_torrent :: "u32 \<Rightarrow> torrent" where
  "example_torrent good = \<lparr>ttype = SINGLEFILE,
     files = [\<lparr>file_length = 12, md5sum = None, tf_path = cstr [102], tf_open = False, refs = 0\<rparr>],
     base_name = [], pieces = replicate 40 0, total_length = 0, announce_url = [], creation_date = 0,
     comment = None, created_by = None, info_hash = replicate 20 0, num_pieces = 2, piece_length = 8,
     good_pieces = good, uploaded = 0, downloaded = 0, left = 12, interval = 0, trackerid = None,
     tname = cstr [116], isnew = False, complete = 0, incomplete = 0, piece_array = []\<rparr>"

section \<open>Properties\<close>

text \<open>
  (C30) \<^verbatim>\<open>torrent_pieces_create\<close> gives every piece the length the protocol defines: \<^verbatim>\<open>piece_length\<close> for all
  but the last, the remainder of the content for the last, although the code computes the start of
  the last piece of a multi-file torrent in 32 bits, where it may wrap.
\<close>

theorem pieces_create_lengths:
  assumes "unat i < unat (num_pieces tp)"
    and "uint (piece_length tp) * (uint (num_pieces tp) - 1) < content_length tp"
    and "content_length tp \<le> uint (piece_length tp) * uint (num_pieces tp)"
  shows "unat (tpp_index (piece_array (torrent_pieces_create tp) ! unat i)) = unat i
    \<and> uint (tpp_len (piece_array (torrent_pieces_create tp) ! unat i))
      = min (uint (piece_length tp)) (content_length tp - piece_start tp i)"
proof -
  have el: "piece_array (torrent_pieces_create tp) ! unat i = piece_create tp i"
    using assms(1) by (simp add: torrent_pieces_create_def)
  show ?thesis using create_length [OF assms] by (simp add: el) (simp add: piece_create_def Let_def)
qed

theorem pieces_create_lengths_witness:
  "unat (tpp_index (piece_array (torrent_pieces_create (example_torrent 0)) ! unat (1 :: u32))) = unat (1 :: u32)
    \<and> uint (tpp_len (piece_array (torrent_pieces_create (example_torrent 0)) ! unat (1 :: u32)))
      = min (uint (piece_length (example_torrent 0))) (content_length (example_torrent 0) - piece_start (example_torrent 0) 1)"
  by (rule pieces_create_lengths) (simp_all add: example_torrent_def content_length_def)

text \<open>
  (C7) \<^verbatim>\<open>torrent_piece_map\<close> maps a piece of a multi-file torrent to exactly its bytes of the stream of all
  files, in order and across file boundaries, and grows the files on disk as needed without changing
  any byte of the stream. The files have to be non-empty, and a piece that begins where a file ends
  must not be longer than that file (see the finding on the reset of the offset).
\<close>

theorem piece_map_multi_correct:
  assumes "ttype tp = MULTIFILE" "can_map tp dk" "tpp_mmaps tpp = []" "0 < uint (tpp_len tpp)"
    and "\<forall>f \<in> set (files tp). 0 < file_length f"
    and "piece_start tp (tpp_index tpp) + uint (tpp_len tpp) \<le> sum_list (map file_length (files tp))"
    and "\<forall>k < length (files tp). sum_list (take (Suc k) (map file_length (files tp))) = piece_start tp (tpp_index tpp)
        \<longrightarrow> uint (tpp_len tpp) \<le> file_length (files tp ! k)"
  shows "\<exists>st. torrent_piece_map pg tpp (tp, dk) = Ok st
    \<and> mapped_to st tpp (mread (stream tp dk) (nat (piece_start tp (tpp_index tpp))) (unat (tpp_len tpp)))
    \<and> stream (fst (snd st)) (snd (snd st)) = stream tp dk"
  using multi_map [OF assms, of pg] by (auto simp: grown_def stream_def)

definition example_files :: "int list \<Rightarrow> torrent_file list" where
  "example_files = map (\<lambda>n. \<lparr>file_length = n, md5sum = None, tf_path = [], tf_open = False, refs = 0\<rparr>)"

definition multi_torrent :: torrent where
  "multi_torrent = (example_torrent 0)\<lparr>ttype := MULTIFILE, files := example_files [3, 4, 5], total_length := 12\<rparr>"

definition example_piece :: "u32 \<Rightarrow> torrent_piece" where
  "example_piece i = \<lparr>tpp_flags = 0, tpp_blocks = 0, tpp_len = 8, tpp_index = i, tpp_mmaps = []\<rparr>"

theorem piece_map_multi_correct_witness:
  "\<exists>st. torrent_piece_map 4096 (example_piece 0) (multi_torrent, [[1, 2, 3], [4], []]) = Ok st
    \<and> mapped_to st (example_piece 0) [1, 2, 3, 4, 0, 0, 0, 0]
    \<and> stream (fst (snd st)) (snd (snd st)) = stream multi_torrent [[1, 2, 3], [4], []]"
proof -
  let ?tp = multi_torrent and ?p = "example_piece 0" and ?dk = "[[1, 2, 3], [4], []] :: disk"
  have "\<exists>st. torrent_piece_map 4096 ?p (?tp, ?dk) = Ok st
    \<and> mapped_to st ?p (mread (stream ?tp ?dk) (nat (piece_start ?tp (tpp_index ?p))) (unat (tpp_len ?p)))
    \<and> stream (fst (snd st)) (snd (snd st)) = stream ?tp ?dk"
    by (rule piece_map_multi_correct)
      (auto simp: multi_torrent_def example_piece_def example_files_def example_torrent_def can_map_def
        piece_start_def less_Suc_eq numeral_3_eq_3)
  moreover have "stream ?tp ?dk = [1, 2, 3, 4, 0, 0, 0, 0, 0, 0, 0, 0]"
    by (simp add: multi_torrent_def example_files_def stream_def padded_def pad_def numeral_eq_Suc)
  then have "mread (stream ?tp ?dk) (nat (piece_start ?tp (tpp_index ?p))) (unat (tpp_len ?p)) = [1, 2, 3, 4, 0, 0, 0, 0]"
    by (simp add: example_piece_def piece_start_def mread_def)
  ultimately show ?thesis by simp
qed

text \<open>
  \<^verbatim>\<open>torrent_piece_map\<close> on a single-file torrent maps the piece to its bytes of the file, zeros where
  the file did not reach yet.
\<close>

theorem piece_map_single_correct:
  assumes "ttype tp = SINGLEFILE" "length (files tp) = 1" "can_map tp dk" "tpp_mmaps tpp = []"
    and "piece_start tp (tpp_index tpp) + uint (tpp_len tpp) \<le> file_length (hd (files tp))"
  shows "\<exists>st. torrent_piece_map pg tpp (tp, dk) = Ok st
    \<and> mapped_to st tpp (mread (stream tp dk) (nat (piece_start tp (tpp_index tpp))) (unat (tpp_len tpp)))
    \<and> stream (fst (snd st)) (snd (snd st)) = stream tp dk"
  using single_map [OF assms, of pg] by (auto simp: grown_def stream_def)

theorem piece_map_single_correct_witness:
  "\<exists>st. torrent_piece_map 4096 (example_piece 0) (example_torrent 0, [[9, 9]]) = Ok st
    \<and> mapped_to st (example_piece 0) (mread (stream (example_torrent 0) [[9, 9]]) (nat (piece_start (example_torrent 0) 0)) 8)
    \<and> stream (fst (snd st)) (snd (snd st)) = stream (example_torrent 0) [[9, 9]]"
  using piece_map_single_correct [of "example_torrent 0" "[[9, 9]]" "example_piece 0" 4096]
  by (simp add: example_torrent_def example_piece_def example_files_def can_map_def piece_start_def)

end
