(* ===== verification/Sha1_Spec.thy ===== *)
theory Sha1_Spec
  imports Sha1
begin

text \<open>
  The hash function of FIPS 180-1 on whole messages, and the proof that the code of
  \<^verbatim>\<open>sha1.c\<close> computes it: the transform against the eighty-word schedule, the streaming context
  against the padded message.
\<close>

section \<open>The specification\<close>

fun sched :: "u32 list \<Rightarrow> nat \<Rightarrow> u32" where
  "sched M t = (if t < 16 then M ! t
     else rol (sched M (t - 3) XOR sched M (t - 8) XOR sched M (t - 14) XOR sched M (t - 16)) 1)"

declare sched.simps [simp del]

definition ft :: "nat \<Rightarrow> u32 \<Rightarrow> u32 \<Rightarrow> u32 \<Rightarrow> u32" where
  "ft t b c d = (if t < 20 then (b AND c) OR (NOT b AND d)
     else if t < 40 then b XOR c XOR d
     else if t < 60 then (b AND c) OR (b AND d) OR (c AND d)
     else b XOR c XOR d)"

definition Kt :: "nat \<Rightarrow> u32" where
  "Kt t = (if t < 20 then 0x5A827999 else if t < 40 then 0x6ED9EBA1
     else if t < 60 then 0x8F1BBCDC else 0xCA62C1D6)"

type_synonym quint = "u32 \<times> u32 \<times> u32 \<times> u32 \<times> u32"

definition spec_round :: "(nat \<Rightarrow> u32) \<Rightarrow> nat \<Rightarrow> quint \<Rightarrow> quint" where
  "spec_round W t q = (case q of (a, b, c, d, e) \<Rightarrow>
     (rol a 5 + ft t b c d + e + W t + Kt t, a, rol b 30, c, d))"

definition be_word :: "bytes \<Rightarrow> u32" where
  "be_word bs = u32_mem (rev bs)"

definition block_words :: "bytes \<Rightarrow> u32 list" where
  "block_words bs = map (\<lambda>i. be_word (mread bs (4 * i) 4)) [0..<16]"

definition spec_compress :: "u32 list \<Rightarrow> bytes \<Rightarrow> u32 list" where
  "spec_compress H bs =
     (case fold (spec_round (sched (block_words bs))) [0..<80] (H ! 0, H ! 1, H ! 2, H ! 3, H ! 4)
      of (a, b, c, d, e) \<Rightarrow> [H ! 0 + a, H ! 1 + b, H ! 2 + c, H ! 3 + d, H ! 4 + e])"

function hash_blocks :: "u32 list \<Rightarrow> bytes \<Rightarrow> u32 list" where
  "hash_blocks H m = (if length m < 64 then H else hash_blocks (spec_compress H (take 64 m)) (drop 64 m))"
  by pat_completeness auto
termination
  by (relation "measure (\<lambda>(H, m). length m)") auto

declare hash_blocks.simps [simp del]

definition be64 :: "nat \<Rightarrow> bytes" where
  "be64 n = map (\<lambda>i. of_nat (n div 256 ^ (7 - i))) [0..<8]"

definition spec_pad :: "bytes \<Rightarrow> bytes" where
  "spec_pad m = m @ [0x80] @ replicate ((119 - length m mod 64) mod 64) 0 @ be64 (8 * length m)"

definition spec_IV :: "u32 list" where
  "spec_IV = [0x67452301, 0xEFCDAB89, 0x98BADCFE, 0x10325476, 0xC3D2E1F0]"

definition sha1_spec :: "bytes \<Rightarrow> bytes" where
  "sha1_spec m = concat (map (\<lambda>w. rev (mem_u32 w)) (hash_blocks spec_IV (spec_pad m)))"

section \<open>The transform implements the compression function\<close>

lemma quarter_cases:
  assumes "n < (32 :: nat)"
  obtains k where "k < 8" "n = k \<or> n = 8 + k \<or> n = 16 + k \<or> n = 24 + k"
proof
  show "n mod 8 < 8" by simp
  have "n div 8 < 4" using assms by linarith
  then have "n div 8 = 0 \<or> n div 8 = 1 \<or> n div 8 = 2 \<or> n div 8 = 3" by linarith
  then show "n = n mod 8 \<or> n = 8 + n mod 8 \<or> n = 16 + n mod 8 \<or> n = 24 + n mod 8"
    using div_mult_mod_eq [of n 8] by linarith
qed

lemma blk0_swap: "(rol w 24 AND 0xFF00FF00) OR (rol w 8 AND 0x00FF00FF) = u32_mem (rev (mem_u32 w))"
proof -
  have a: "(0xFF00FF00 :: u32) = push_bit 24 (mask 8) OR push_bit 8 (mask 8)"
    by (simp add: mask_eq_exp_minus_1)
  have b: "(0x00FF00FF :: u32) = push_bit 16 (mask 8) OR mask 8"
    by (simp add: mask_eq_exp_minus_1)
  show ?thesis
  proof (rule bit_word_eqI)
    fix n
    assume "n < LENGTH(32)"
    then have "n < 32" by simp
    then obtain k where "k < 8" "n = k \<or> n = 8 + k \<or> n = 16 + k \<or> n = 24 + k"
      by (rule quarter_cases)
    then show "bit ((rol w 24 AND 0xFF00FF00) OR (rol w 8 AND 0x00FF00FF)) n
        = bit (u32_mem (rev (mem_u32 w))) n"
      unfolding a b u32_mem_def mem_u32_def rol_def
      by (elim disjE) (auto simp: bit_simps simp del: mask_numeral)
  qed
qed

lemma ft_choose: "((b AND (c XOR d)) XOR d) = (b AND c) OR (NOT b AND (d :: u32))"
  by (rule bit_word_eqI) (auto simp: bit_simps)

lemma ft_major: "(((b OR c) AND d) OR (b AND c)) = (b AND c) OR (b AND d) OR (c AND (d :: u32))"
  by (rule bit_word_eqI) (auto simp: bit_simps)

text \<open>
  The invariant of the eighty calls: the registers are the specification's tuple rotated by the
  number of calls done, and the circular block holds the last sixteen words of the schedule (before
  call 16, the words not yet used are still in the byte order of the host).
\<close>

definition regs_rep :: "nat \<Rightarrow> u32 list \<Rightarrow> quint \<Rightarrow> bool" where
  "regs_rep n r q = (case q of (a, b, c, d, e) \<Rightarrow>
     let v = (5 - n mod 5) mod 5 in
     length r = 5 \<and> r ! v = a \<and> r ! ((v + 1) mod 5) = b \<and> r ! ((v + 2) mod 5) = c
     \<and> r ! ((v + 3) mod 5) = d \<and> r ! ((v + 4) mod 5) = e)"

definition block_rep :: "u32 list \<Rightarrow> (nat \<Rightarrow> u32) \<Rightarrow> nat \<Rightarrow> u32 list \<Rightarrow> bool" where
  "block_rep raw W n block \<longleftrightarrow> length block = 16
     \<and> (\<forall>t. t < n \<longrightarrow> n \<le> t + 16 \<longrightarrow> block ! (t mod 16) = W t)
     \<and> (\<forall>t < 16. n \<le> t \<longrightarrow> block ! t = raw ! t)"

lemma mod16_neq: "t < n \<Longrightarrow> n < t + 16 \<Longrightarrow> t mod 16 \<noteq> n mod (16 :: nat)"
proof
  assume "t < n" "n < t + 16" "t mod 16 = n mod 16"
  then have "16 dvd n - t" by (metis mod_eq_dvd_iff_nat less_imp_le)
  then show False using \<open>t < n\<close> \<open>n < t + 16\<close> by (auto dest: dvd_imp_le)
qed

lemma mod16_back: "k \<le> i \<Longrightarrow> k \<le> 16 \<Longrightarrow> (i + (16 - k)) mod 16 = (i - k) mod (16 :: nat)"
proof -
  assume "k \<le> i" "k \<le> 16"
  then have "i + (16 - k) = (i - k) + 16" by simp
  then show ?thesis by simp
qed

lemma blk0_rep:
  assumes "block_rep raw W i block" "i < 16" "W i = u32_mem (rev (mem_u32 (raw ! i)))"
  shows "block_rep raw W (Suc i) (blk0 i block)" "blk0 i block ! i = W i"
proof -
  have len: "length block = 16" and old: "\<And>t. t < i \<Longrightarrow> block ! t = W t"
    and rest: "\<And>t. i \<le> t \<Longrightarrow> t < 16 \<Longrightarrow> block ! t = raw ! t"
    using assms(1,2) by (auto simp: block_rep_def)
  show W: "blk0 i block ! i = W i"
    using assms(2,3) len rest [of i] by (simp add: blk0_def blk0_swap)
  have "blk0 i block ! t = W t" if "t < Suc i" for t
    using that W old [of t] by (cases "t = i") (auto simp: blk0_def)
  moreover have "blk0 i block ! t = raw ! t" if "Suc i \<le> t" "t < 16" for t
    using that rest [of t] by (simp add: blk0_def)
  ultimately show "block_rep raw W (Suc i) (blk0 i block)"
    using assms(2) len by (auto simp: block_rep_def blk0_def)
qed

lemma blk_rep:
  assumes "block_rep raw W i block" "16 \<le> i"
    and "W i = rol (W (i - 3) XOR W (i - 8) XOR W (i - 14) XOR W (i - 16)) 1"
  shows "block_rep raw W (Suc i) (blk i block)" "blk i block ! (i mod 16) = W i"
proof -
  have len: "length block = 16"
    and old: "\<And>t. t < i \<Longrightarrow> i \<le> t + 16 \<Longrightarrow> block ! (t mod 16) = W t"
    using assms(1) by (auto simp: block_rep_def)
  have m: "(i + 13) mod 16 = (i - 3) mod 16" "(i + 8) mod 16 = (i - 8) mod 16"
    "(i + 2) mod 16 = (i - 14) mod 16" "i mod 16 = (i - 16) mod 16"
    using assms(2) mod16_back [of 3 i] mod16_back [of 8 i] mod16_back [of 14 i] mod16_back [of 16 i]
    by simp_all
  have "block ! ((i + 13) mod 16) = W (i - 3)" "block ! ((i + 8) mod 16) = W (i - 8)"
    "block ! ((i + 2) mod 16) = W (i - 14)" "block ! (i mod 16) = W (i - 16)"
    unfolding m using assms(2) by (simp_all add: old)
  then show W: "blk i block ! (i mod 16) = W i"
    using assms(3) len by (simp add: blk_def)
  have "blk i block ! (t mod 16) = W t" if "t < Suc i" "Suc i \<le> t + 16" for t
  proof (cases "t = i")
    case True
    then show ?thesis using W by simp
  next
    case False
    then have "t mod 16 \<noteq> i mod 16" using that by (intro mod16_neq) auto
    then show ?thesis using that False old [of t] by (simp add: blk_def)
  qed
  then show "block_rep raw W (Suc i) (blk i block)"
    using assms(2) len by (auto simp: block_rep_def blk_def)
qed


lemma regs_step:
  assumes "regs_rep i r (a, b, c, d, e)"
    and "v = (5 - i mod 5) mod 5" "w = (v + 1) mod 5" "x = (v + 2) mod 5"
      "y = (v + 3) mod 5" "z = (v + 4) mod 5"
  shows "regs_rep (Suc i)
      (let r' = r[z := r ! z + (f (r ! w) (r ! x) (r ! y) + u + k + rol (r ! v) 5)]
       in r'[w := rol (r' ! w) 30])
      (rol a 5 + f b c d + e + u + k, a, rol b 30, c, d)"
proof -
  obtain r0 r1 r2 r3 r4 where r: "r = [r0, r1, r2, r3, r4]"
    using assms(1) by (auto simp: regs_rep_def Let_def elim: list5E)
  have "i mod 5 < 5" by simp
  then consider "i mod 5 = 0" | "i mod 5 = 1" | "i mod 5 = 2" | "i mod 5 = 3" | "i mod 5 = 4"
    by linarith
  then show ?thesis
    using assms by cases (auto simp: r regs_rep_def Let_def mod_Suc)
qed

lemma sched_step:
  "16 \<le> t \<Longrightarrow> sched M t =
     rol (sched M (t - 3) XOR sched M (t - 8) XOR sched M (t - 14) XOR sched M (t - 16)) 1"
  by (subst sched.simps) simp

lemma sha1_call_rep:
  assumes "regs_rep i r q" "block_rep raw (sched M) i block" "i < 80"
    and raw: "\<And>t. t < 16 \<Longrightarrow> M ! t = u32_mem (rev (mem_u32 (raw ! t)))"
  shows "regs_rep (Suc i) (fst (sha1_call i (r, block))) (spec_round (sched M) i q)"
    and "block_rep raw (sched M) (Suc i) (snd (sha1_call i (r, block)))"
proof -
  obtain a b c d e where q: "q = (a, b, c, d, e)" by (cases q)
  define v where "v = (5 - i mod 5) mod 5"
  define w x y z where "w = (v + 1) mod 5" and "x = (v + 2) mod 5"
    and "y = (v + 3) mod 5" and "z = (v + 4) mod 5"
  note step = regs_step [OF assms(1) [unfolded q] v_def w_def x_def y_def z_def]
  have call: "sha1_call i = (if i < 16 then R0 v w x y z i else if i < 20 then R1 v w x y z i
      else if i < 40 then R2 v w x y z i else if i < 60 then R3 v w x y z i else R4 v w x y z i)"
    by (simp add: sha1_call_def Let_def v_def w_def x_def y_def z_def)
  show "block_rep raw (sched M) (Suc i) (snd (sha1_call i (r, block)))"
  proof (cases "i < 16")
    case True
    then show ?thesis
      using blk0_rep(1) [OF assms(2)] raw [of i]
      by (simp add: call R0_def Let_def sched.simps [of M i])
  next
    case False
    then show ?thesis
      using blk_rep(1) [OF assms(2)] sched_step [of i M]
      by (simp add: call R1_def R2_def R3_def R4_def Let_def)
  qed
  have blk0: "blk0 i block ! i = sched M i" if "i < 16"
    using that blk0_rep(2) [OF assms(2)] raw [of i] by (simp add: sched.simps [of M i])
  have blk: "blk i block ! (i mod 16) = sched M i" if "\<not> i < 16"
    using that blk_rep(2) [OF assms(2)] sched_step [of i M] by simp
  consider "i < 16" | "16 \<le> i" "i < 20" | "20 \<le> i" "i < 40" | "40 \<le> i" "i < 60" | "60 \<le> i"
    by linarith
  then show "regs_rep (Suc i) (fst (sha1_call i (r, block))) (spec_round (sched M) i q)"
  proof cases
    case 1
    then show ?thesis
      using step [of "\<lambda>b c d. (b AND (c XOR d)) XOR d" "sched M i" "0x5A827999"] blk0
      by (simp add: call R0_def q spec_round_def ft_def Kt_def ft_choose Let_def)
  next
    case 2
    then show ?thesis
      using step [of "\<lambda>b c d. (b AND (c XOR d)) XOR d" "sched M i" "0x5A827999"] blk
      by (simp add: call R1_def q spec_round_def ft_def Kt_def ft_choose Let_def)
  next
    case 3
    then show ?thesis
      using step [of "\<lambda>b c d. b XOR c XOR d" "sched M i" "0x6ED9EBA1"] blk
      by (simp add: call R2_def q spec_round_def ft_def Kt_def Let_def)
  next
    case 4
    then show ?thesis
      using step [of "\<lambda>b c d. ((b OR c) AND d) OR (b AND c)" "sched M i" "0x8F1BBCDC"] blk
      by (simp add: call R3_def q spec_round_def ft_def Kt_def ft_major Let_def)
  next
    case 5
    then show ?thesis
      using step [of "\<lambda>b c d. b XOR c XOR d" "sched M i" "0xCA62C1D6"] blk
      by (simp add: call R4_def q spec_round_def ft_def Kt_def Let_def)
  qed
qed

lemma calls_rep:
  assumes "length st = 5" "length raw = 16"
    and raw: "\<And>t. t < 16 \<Longrightarrow> M ! t = u32_mem (rev (mem_u32 (raw ! t)))"
    and "n \<le> 80"
  shows "regs_rep n (fst (fold sha1_call [0..<n] (st, raw)))
      (fold (spec_round (sched M)) [0..<n] (st ! 0, st ! 1, st ! 2, st ! 3, st ! 4))
    \<and> block_rep raw (sched M) n (snd (fold sha1_call [0..<n] (st, raw)))"
  using assms(4)
proof (induction n)
  case 0
  then show ?case using assms(1,2) by (simp add: regs_rep_def block_rep_def numeral_2_eq_2)
next
  case (Suc n)
  obtain r block where rb: "fold sha1_call [0..<n] (st, raw) = (r, block)" by fastforce
  show ?case
    using Suc sha1_call_rep [where i = n and r = r and raw = raw and M = M and block = block, OF _ _ _ raw]
    by (simp add: rb) blast
qed

lemma SHA1Transform_compress:
  assumes "length st = 5" "length buffer = 64"
  shows "SHA1Transform st buffer = spec_compress st buffer"
proof -
  let ?raw = "map (\<lambda>i. u32_mem (mread buffer (4 * i) 4)) [0..<16]"
  have raw: "block_words buffer ! t = u32_mem (rev (mem_u32 (?raw ! t)))" if "t < 16" for t
    using that assms(2) by (simp add: block_words_def be_word_def)
  obtain r block where rb: "fold sha1_call [0..<80] (st, ?raw) = (r, block)" by fastforce
  obtain a b c d e where q: "fold (spec_round (sched (block_words buffer))) [0..<80]
      (st ! 0, st ! 1, st ! 2, st ! 3, st ! 4) = (a, b, c, d, e)"
    by (metis prod_cases5)
  have "regs_rep 80 r (a, b, c, d, e)"
    using calls_rep [where M = "block_words buffer" and raw = ?raw and n = 80, OF assms(1) _ raw]
    by (simp only: rb q fst_conv length_map length_upt)
  then have "r = [a, b, c, d, e]"
    by (auto simp: regs_rep_def Let_def elim!: list5E)
  moreover obtain s0 s1 s2 s3 s4 where "st = [s0, s1, s2, s3, s4]"
    using assms(1) by (rule list5E)
  ultimately show ?thesis
    using rb q by (simp add: SHA1Transform_def spec_compress_def)
qed

lemma length_spec_compress [simp]: "length (spec_compress H m) = 5"
  by (simp add: spec_compress_def split: prod.splits)


section \<open>The context represents the message fed so far\<close>

lemma hash_blocks_short [simp]: "length m < 64 \<Longrightarrow> hash_blocks H m = H"
  by (subst hash_blocks.simps) simp

lemma hash_blocks_block: "length b = 64 \<Longrightarrow> hash_blocks H (b @ m) = hash_blocks (spec_compress H b) m"
  by (subst hash_blocks.simps) simp

lemma hash_blocks_append:
  "length a = 64 * n \<Longrightarrow> hash_blocks H (a @ b) = hash_blocks (hash_blocks H a) b"
proof (induction n arbitrary: H a)
  case 0
  then show ?case by simp
next
  case (Suc n)
  define a1 a2 where "a1 = take 64 a" and "a2 = drop 64 a"
  with Suc.prems have "a = a1 @ a2" "length a1 = 64" "length a2 = 64 * n" by simp_all
  then show ?case by (simp add: hash_blocks_block Suc.IH)
qed

lemma length_hash_blocks [simp]: "length H = 5 \<Longrightarrow> length (hash_blocks H m) = 5"
  by (induction H m rule: hash_blocks.induct) (subst hash_blocks.simps, simp)

lemma update_blocks_eq:
  assumes "length st = 5" "i \<le> length data"
  shows "update_blocks st data i
    = (hash_blocks st (drop i data), i + 64 * ((length data - i) div 64))"
  using assms
proof (induction st data i rule: update_blocks.induct)
  case (1 st data i)
  show ?case
  proof (cases "i + 63 < length data")
    case True
    let ?st = "SHA1Transform st (mread data i 64)"
    have st: "?st = spec_compress st (mread data i 64)"
      using 1(2) True by (intro SHA1Transform_compress) auto
    have "drop i data = mread data i 64 @ drop (i + 64) data"
      by (metis append_take_drop_id drop_drop add.commute mread_def)
    then have "hash_blocks st (drop i data) = hash_blocks ?st (drop (i + 64) data)"
      using True by (simp add: hash_blocks_block st)
    moreover have "(length data - i) div 64 = Suc ((length data - (i + 64)) div 64)"
      using True by (simp add: le_div_geq)
    ultimately show ?thesis
      using 1(1) [OF True] True by (subst update_blocks.simps) (simp add: st)
  next
    case False
    then show ?thesis using 1(3) by (subst update_blocks.simps) simp
  qed
qed

text \<open>
  The context represents the message fed so far: the whole blocks are hashed into the state, the
  rest is the beginning of the buffer, and the counter is the length in bits.
\<close>

definition ctx_rep :: "SHA1_CTX \<Rightarrow> bytes \<Rightarrow> bool" where
  "ctx_rep c m \<longleftrightarrow> length (cbuffer c) = 64 \<and> ccount c = of_nat (8 * length m)
     \<and> (\<exists>a b q. m = a @ b \<and> length a = 64 * q \<and> length b < 64
          \<and> cstate c = hash_blocks spec_IV a \<and> take (length b) (cbuffer c) = b)"

lemma ctx_repE:
  assumes "ctx_rep c m"
  obtains a b q where "m = a @ b" "length a = 64 * q" "length b < 64"
    "cstate c = hash_blocks spec_IV a" "take (length b) (cbuffer c) = b"
    "length (cbuffer c) = 64" "ccount c = of_nat (8 * length m)"
  using assms unfolding ctx_rep_def by blast

lemma length_spec_IV [simp]: "length spec_IV = 5"
  by (simp add: spec_IV_def)

lemma ctx_rep_init: "length (cbuffer c) = 64 \<Longrightarrow> ctx_rep (SHA1Init c) []"
  by (auto simp: ctx_rep_def SHA1Init_def spec_IV_def)

lemma ctx_rep_pos: "ctx_rep c m \<Longrightarrow> cpos (ccount c) = length m mod 64"
  using cpos_add [of 0 "length m"] by (simp add: ctx_rep_def push_bit_eq_mult cpos_def mult.commute)

lemma Update_short:
  assumes "length b + length d \<le> 63" "take (length b) (cbuffer c) = b"
    and "length (cbuffer c) = 64" "unat (drop_bit 3 (ccount c) AND 63) = length b"
  shows "cstate (SHA1Update c d) = cstate c"
    and "take (length (b @ d)) (cbuffer (SHA1Update c d)) = b @ d"
    and "length (cbuffer (SHA1Update c d)) = 64"
  using assms by (simp_all add: SHA1Update_def Let_def mwrite_def)

lemma Update_long:
  assumes "63 < length b + length d" "length b < 64" "take (length b) (cbuffer c) = b"
    and "length (cbuffer c) = 64" "unat (drop_bit 3 (ccount c) AND 63) = length b"
    and "length (cstate c) = 5"
  obtains x y n where "d = x @ y" "length (b @ x) = 64 * n" "length y < 64"
    "cstate (SHA1Update c d) = hash_blocks (cstate c) (b @ x)"
    "take (length y) (cbuffer (SHA1Update c d)) = y" "length (cbuffer (SHA1Update c d)) = 64"
proof -
  define i where "i = 64 - length b"
  define n where "n = (length d - i) div 64"
  define f where "f = b @ take i d"
  define x' where "x' = take (64 * n) (drop i d)"
  define y where "y = drop (64 * n) (drop i d)"
  have i: "i \<le> length d" "length b + i = 64" using assms(1,2) by (simp_all add: i_def)
  have f: "length f = 64" using i by (simp add: f_def)
  have fill: "mwrite (cbuffer c) (length b) (mread d 0 i) = f"
    using assms(3,4) i by (simp add: f_def mwrite_def mread_def)
  have tr: "SHA1Transform (cstate c) f = spec_compress (cstate c) f"
    by (rule SHA1Transform_compress [OF assms(6) f])
  have x': "length x' = 64 * n" using i by (simp add: x'_def n_def)
  have y: "length y = (length d - i) mod 64"
    by (simp only: y_def length_drop n_def minus_mult_div_eq_mod)
  have ly: "length y < 64" by (simp add: y)
  have xy: "drop i d = x' @ y" by (simp only: x'_def y_def append_take_drop_id)
  have "hash_blocks (cstate c) (f @ x') = hash_blocks (spec_compress (cstate c) f) (x' @ y)"
    using hash_blocks_append [OF x', of _ y] ly by (simp add: hash_blocks_block [OF f])
  then have ub: "update_blocks (SHA1Transform (cstate c) f) d i
      = (hash_blocks (cstate c) (f @ x'), i + 64 * n)"
    using update_blocks_eq [of "spec_compress (cstate c) f" i d] i by (simp add: tr xy n_def)
  have sl: "mread d (i + 64 * n) (length d - (i + 64 * n)) = y"
    by (simp add: mread_def y_def add.commute)
  have upd: "cstate (SHA1Update c d) = hash_blocks (cstate c) (f @ x')"
    "cbuffer (SHA1Update c d) = mwrite f 0 y"
    using assms(1) by (simp_all add: SHA1Update_def Let_def assms(5) i_def [symmetric] fill ub sl)
  show thesis
  proof (rule that [of "take i d @ x'" y "Suc n"])
    show "d = (take i d @ x') @ y" using xy by (simp flip: xy)
    show "length (b @ take i d @ x') = 64 * Suc n" using f x' by (simp add: f_def)
  qed (use ly f upd in \<open>simp_all add: f_def mwrite_def\<close>)
qed

lemma SHA1Update_rep:
  assumes "ctx_rep c m"
  shows "ctx_rep (SHA1Update c d) (m @ d)"
proof -
  obtain a b q where m: "m = a @ b" "length a = 64 * q" "length b < 64"
    and st: "cstate c = hash_blocks spec_IV a"
    and buf: "take (length b) (cbuffer c) = b" "length (cbuffer c) = 64"
    and cnt: "ccount c = of_nat (8 * length m)"
    using assms by (rule ctx_repE)
  have pos: "unat (drop_bit 3 (ccount c) AND 63) = length b"
    using ctx_rep_pos [OF assms] m by (simp add: cpos_code)
  have cnt': "ccount (SHA1Update c d) = of_nat (8 * length (m @ d))"
    by (simp add: cnt push_bit_eq_mult algebra_simps)
  show ?thesis
  proof (cases "63 < length b + length d")
    case False
    then have short: "length b + length d \<le> 63" by simp
    have "m @ d = a @ (b @ d)" "length (b @ d) < 64" using m False by simp_all
    with m(2) show ?thesis
      unfolding ctx_rep_def cnt'
      using Update_short [OF short buf pos] st by metis
  next
    case True
    have lst: "length (cstate c) = 5" by (simp add: st)
    obtain x y n where d: "d = x @ y" "length (b @ x) = 64 * n" "length y < 64"
      and upd: "cstate (SHA1Update c d) = hash_blocks (cstate c) (b @ x)"
        "take (length y) (cbuffer (SHA1Update c d)) = y" "length (cbuffer (SHA1Update c d)) = 64"
      by (rule Update_long [OF True m(3) buf pos lst])
    have "cstate (SHA1Update c d) = hash_blocks spec_IV (a @ b @ x)"
      using hash_blocks_append [OF m(2), of spec_IV "b @ x"] by (simp add: upd st)
    moreover have "m @ d = (a @ b @ x) @ y" "length (a @ b @ x) = 64 * (q + n)"
      using m d by (simp_all add: algebra_simps)
    ultimately show ?thesis
      unfolding ctx_rep_def cnt' using upd d(3) by metis
  qed
qed

section \<open>Padding and digest\<close>

lemma pad_zeros_rep:
  "ctx_rep c m \<Longrightarrow> ctx_rep (pad_zeros c) (m @ replicate (pad_left (length m mod 64)) 0)"
proof (induction c arbitrary: m rule: pad_zeros.induct)
  case (1 c)
  have pos: "cpos (ccount c) = length m mod 64" using 1(2) by (rule ctx_rep_pos)
  show ?case
  proof (cases "ccount c AND 504 = 448")
    case True
    then have "length m mod 64 = 56" using pos by (simp add: pad_stop)
    then show ?thesis using True 1(2) by (subst pad_zeros.simps) (simp add: pad_left_def)
  next
    case False
    then have "length m mod 64 \<noteq> 56" using pos by (simp add: pad_stop)
    then have "pad_left (length m mod 64) = Suc (pad_left (length (m @ [0]) mod 64))"
      using pad_left_step [of "length m mod 64"] by (simp add: mod_Suc_eq)
    moreover have "ctx_rep (pad_zeros (SHA1Update c [0]))
        ((m @ [0]) @ replicate (pad_left (length (m @ [0]) mod 64)) 0)"
      by (rule 1(1) [OF False]) (rule SHA1Update_rep [OF 1(2)])
    ultimately show ?thesis using False by (subst pad_zeros.simps) simp
  qed
qed

lemma pad_left_spec: "pad_left (Suc n mod 64) = (119 - n mod 64) mod 64"
proof -
  have "n mod 64 < 64" by simp
  then show ?thesis
    by (cases "n mod 64 \<le> 55"; cases "n mod 64 = 63")
       (auto simp: pad_left_def mod_Suc le_mod_geq)
qed

lemma ucast_and_255: "(ucast (x AND 255) :: byte) = ucast (x :: 'a :: len word)"
proof -
  have "(ucast (x AND mask 8) :: byte) = ucast x"
    by (rule bit_word_eqI) (auto simp: bit_simps simp del: mask_numeral dest: bit_imp_le_length)
  then show ?thesis by (simp add: mask_eq_exp_minus_1)
qed

lemma finalcount_be64:
  assumes "n < 2 ^ 64"
  shows "map (\<lambda>i. ucast (drop_bit ((7 - i) * 8) (of_nat n :: u64) AND 255)) [0..<8] = be64 n"
proof -
  have "(ucast (drop_bit k (of_nat n :: u64)) :: byte) = of_nat (n div 2 ^ k)" for k
  proof (rule unsigned_word_eqI)
    have "unat (drop_bit k (of_nat n :: u64)) = n div 2 ^ k"
      using assms by (simp add: unat_drop_bit_eq unat_of_nat drop_bit_eq_div [where 'a = nat])
    then show "unat (ucast (drop_bit k (of_nat n :: u64)) :: byte) = unat (of_nat (n div 2 ^ k) :: byte)"
      by (simp add: unat_of_nat unsigned_ucast_eq take_bit_eq_mod)
  qed
  moreover have "(256 :: nat) ^ (7 - i) = 2 ^ ((7 - i) * 8)" for i
    by (simp add: power_mult mult.commute)
  ultimately show ?thesis by (simp add: be64_def ucast_and_255)
qed

lemma SHA1Pad_rep:
  assumes "ctx_rep c m" "8 * length m < 2 ^ 64"
  shows "ctx_rep (SHA1Pad c) (spec_pad m)"
proof -
  have "ccount c = of_nat (8 * length m)" using assms(1) by (simp add: ctx_rep_def)
  then have fc: "map (\<lambda>i. ucast (drop_bit ((7 - i) * 8) (ccount c) AND 255)) [0..<8]
      = be64 (8 * length m)"
    using finalcount_be64 [OF assms(2)] by simp
  have "ctx_rep (pad_zeros (SHA1Update c [0x80]))
      ((m @ [0x80]) @ replicate (pad_left (length (m @ [0x80]) mod 64)) 0)"
    by (rule pad_zeros_rep) (rule SHA1Update_rep [OF assms(1)])
  then have "ctx_rep (pad_zeros (SHA1Update c [0x80]))
      (m @ [0x80] @ replicate ((119 - length m mod 64) mod 64) 0)"
    by (simp add: pad_left_spec)
  from SHA1Update_rep [OF this, of "be64 (8 * length m)"] show ?thesis
    by (simp only: SHA1Pad_def Let_def fc spec_pad_def append_assoc)
qed

lemma digest_bytes:
  assumes "length st = 5"
  shows "map (\<lambda>i. ucast (drop_bit ((3 - i mod 4) * 8) (st ! (i div 4)) AND 255)) [0..<20]
    = concat (map (\<lambda>w. rev (mem_u32 w)) st)"
proof -
  obtain s0 s1 s2 s3 s4 where "st = [s0, s1, s2, s3, s4]"
    using assms by (rule list5E)
  then show ?thesis by (simp add: ucast_and_255 mem_u32_def upt_rec)
qed

lemma SHA1Final_spec:
  assumes "ctx_rep c m" "8 * length m < 2 ^ 64"
  shows "fst (SHA1Final c) = sha1_spec m"
proof -
  have "cstate (SHA1Pad c) = hash_blocks spec_IV (spec_pad m)"
    using SHA1Pad_rep [OF assms] by (elim ctx_repE) (simp add: hash_blocks_append)
  then show ?thesis
    using digest_bytes [of "cstate (SHA1Pad c)"]
    by (simp add: SHA1Final_def Let_def sha1_spec_def)
qed

lemma updates_rep: "ctx_rep c m \<Longrightarrow> ctx_rep (fold (\<lambda>d c. SHA1Update c d) ds c) (m @ concat ds)"
proof (induction ds arbitrary: c m)
  case Nil
  then show ?case by simp
next
  case (Cons d ds)
  then show ?case using Cons.IH [OF SHA1Update_rep [OF Cons.prems]] by simp
qed

lemma length_sha1_spec [simp]: "length (sha1_spec m) = 20"
proof -
  obtain s0 s1 s2 s3 s4 where "hash_blocks spec_IV (spec_pad m) = [s0, s1, s2, s3, s4]"
    by (rule list5E [OF length_hash_blocks [OF length_spec_IV, of "spec_pad m"]])
  then show ?thesis by (simp add: sha1_spec_def)
qed

lemma sha1_whole:
  assumes "length (cbuffer c) = 64" "8 * length d < 2 ^ 64"
  shows "fst (SHA1Final (SHA1Update (SHA1Init c) d)) = sha1_spec d"
  using SHA1Final_spec [OF SHA1Update_rep [OF ctx_rep_init [OF assms(1)], of d]] assms(2)
  by simp

section \<open>Properties\<close>

text \<open>
  (C33) The streaming hash computes SHA-1: from any context with a 64-byte buffer, \<^verbatim>\<open>SHA1Init\<close>, then
  \<^verbatim>\<open>SHA1Update\<close> on any sequence of chunks, then \<^verbatim>\<open>SHA1Final\<close> gives the digest that the standard
  assigns to the concatenation of the chunks, for every message whose bit length fits the counter.
\<close>

theorem sha1_stream_correct:
  assumes "length (cbuffer c) = 64" "8 * length (concat ds) < 2 ^ 64"
  shows "fst (SHA1Final (fold (\<lambda>d c. SHA1Update c d) ds (SHA1Init c))) = sha1_spec (concat ds)"
proof -
  have "ctx_rep (fold (\<lambda>d c. SHA1Update c d) ds (SHA1Init c)) (concat ds)"
    using updates_rep [OF ctx_rep_init [OF assms(1)], of ds] by simp
  then show ?thesis using assms(2) by (rule SHA1Final_spec)
qed

definition fresh_ctx :: SHA1_CTX where
  "fresh_ctx = \<lparr>cstate = [], ccount = 0, cbuffer = replicate 64 0\<rparr>"

theorem sha1_stream_correct_witness:
  "fst (SHA1Final (fold (\<lambda>d c. SHA1Update c d) [str ''pieces'', str ''abc''] (SHA1Init fresh_ctx)))
   = sha1_spec (str ''piecesabc'')"
  using sha1_stream_correct [of fresh_ctx "[str ''pieces'', str ''abc'']"] by (simp add: fresh_ctx_def)

text \<open>
  The unrolled transform, which keeps the message schedule in a circular block of sixteen words
  and rotates the roles of the registers instead of their contents, is the compression function of
  the standard with its eighty-word schedule.
\<close>

theorem sha1_transform_equiv:
  assumes "length state = 5" "length buffer = 64"
  shows "SHA1Transform state buffer = spec_compress state buffer"
  using assms by (rule SHA1Transform_compress)

theorem sha1_transform_equiv_witness:
  "SHA1Transform spec_IV (replicate 64 7) = spec_compress spec_IV (replicate 64 7)"
  using sha1_transform_equiv [of spec_IV "replicate 64 7"] by simp

end
