(* ===== verification/Torrent_Check.thy ===== *)
theory Torrent_Check
  imports Torrent_Map Sha1_Spec
begin

text \<open>
  The hash check of a piece, the local bit field and the fast-resume file: \<^verbatim>\<open>torrent_piece_checkhash\<close>,
  \<^verbatim>\<open>torrent_bitfield_get\<close>, \<^verbatim>\<open>torrent_empty\<close>, \<^verbatim>\<open>torrent_fastresume_dump\<close> and \<^verbatim>\<open>torrent_fastresume_load\<close>.
\<close>

section \<open>The hash check\<close>

lemma memcmp_eq_0: "length xs = length ys \<Longrightarrow> memcmp xs ys = 0 \<longleftrightarrow> xs = ys"
  by (induction xs ys rule: memcmp.induct) (auto simp: word_uint_eq_iff)

lemma block_bytes_Some [simp]: "block_bytes (map Some bs) = Ok bs"
  by (simp add: block_bytes_def comp_def)

lemma checkhash_run:
  assumes "piece_ok tpp dk" "tpp_flags tpp AND TORRENT_PIECE_MAPPED \<noteq> 0"
    and "length (piece_bytes tpp dk) = unat (tpp_len tpp)"
    and "20 * unat (tpp_index tpp) + 20 \<le> length (pieces tp)" "20 * unat (tpp_index tpp) < 2 ^ 32"
  shows "\<exists>res. torrent_piece_checkhash tp tpp dk = Ok (res,
      if res = 0 then tpp\<lparr>tpp_flags := tpp_flags tpp OR TORRENT_PIECE_CKSUMOK\<rparr> else tpp)
    \<and> (res = 0 \<longleftrightarrow> sha1_spec (piece_bytes tpp dk) = mread (pieces tp) (20 * unat (tpp_index tpp)) 20)"
proof -
  have "\<exists>h. torrent_block_read tpp 0 (tpp_len tpp) dk = Ok (Some (map Some (piece_bytes tpp dk), h))"
    using pc.read_in [OF assms(1), of 0 "tpp_len tpp"] assms(3) by (metis (no_types, lifting) add_0 eq_refl
      mread_0_length nat_zero_as_int of_nat_unat order_refl)
  then obtain h where rd: "torrent_block_read tpp 0 (tpp_len tpp) dk = Ok (Some (map Some (piece_bytes tpp dk), h))"
    by blast
  have "unat (tpp_len tpp) < 2 ^ 32" using unsigned_less [of "tpp_len tpp", where 'a = nat] by simp
  then have sha: "fst (SHA1Final (SHA1Update (SHA1Init fresh_sha) (piece_bytes tpp dk))) = sha1_spec (piece_bytes tpp dk)"
    using assms(3) by (intro sha1_whole) (simp_all add: fresh_sha_def)
  have idx: "unat (20 * tpp_index tpp) = 20 * unat (tpp_index tpp)"
    using assms(5) by (simp add: unat_word_ariths)
  show ?thesis
    using assms(2,4) rd sha memcmp_eq_0 [of "sha1_spec (piece_bytes tpp dk)" "mread (pieces tp) (20 * unat (tpp_index tpp)) 20"]
    by (simp add: torrent_piece_checkhash_def Let_def idx del: SHA1Final_spec)
qed

section \<open>The pieces of a torrent\<close>

text \<open>One descriptor per piece, and a bit-field length that does not wrap.\<close>

definition pieces_ok :: "torrent \<Rightarrow> bool" where
  "pieces_ok tp \<longleftrightarrow> length (piece_array tp) = unat (num_pieces tp) \<and> unat (num_pieces tp) + 7 < 2 ^ 32"

definition have_piece :: "torrent \<Rightarrow> u32 \<Rightarrow> bool" where
  "have_piece tp i \<longleftrightarrow> tpp_flags (piece_array tp ! unat i) AND TORRENT_PIECE_CKSUMOK \<noteq> 0"

lemma piece_find_in:
  assumes "pieces_ok tp" "unat i < unat (num_pieces tp)"
  shows "torrent_piece_find tp i = Ok (piece_array tp ! unat i)"
proof -
  have "(1 :: u32) \<le> num_pieces tp" using assms(2) by (simp add: word_le_nat_alt)
  then have "unat (num_pieces tp - 1) = unat (num_pieces tp) - 1" by (simp add: unat_sub)
  then have "\<not> i > num_pieces tp - 1" using assms(2) by (simp add: word_less_nat_alt)
  then show ?thesis using assms by (simp add: torrent_piece_find_def pieces_ok_def)
qed

lemma piece_indexes_in: "i \<in> set (piece_indexes tp) \<longleftrightarrow> unat i < unat (num_pieces tp)"
proof
  assume "i \<in> set (piece_indexes tp)"
  then obtain k where "i = of_nat k" "k < unat (num_pieces tp)" by (auto simp: piece_indexes_def)
  then show "unat i < unat (num_pieces tp)"
    using unsigned_less [of "num_pieces tp", where 'a = nat] by (simp add: unat_of_nat)
next
  assume "unat i < unat (num_pieces tp)"
  then have "i \<in> of_nat ` set [0..<unat (num_pieces tp)]" by (intro image_eqI [of _ _ "unat i"]) simp_all
  then show "i \<in> set (piece_indexes tp)" by (simp add: piece_indexes_def)
qed

lemma piece_indexes_distinct: "distinct (piece_indexes tp)"
proof -
  have "inj_on (of_nat :: nat \<Rightarrow> u32) {0..<unat (num_pieces tp)}"
  proof (rule inj_onI)
    fix x y
    assume "x \<in> {0..<unat (num_pieces tp)}" "y \<in> {0..<unat (num_pieces tp)}" and eq: "(of_nat x :: u32) = of_nat y"
    then have lt: "x < 2 ^ 32" "y < 2 ^ 32" using unsigned_less [of "num_pieces tp", where 'a = nat] by simp_all
    from lt have "unat (of_nat x :: u32) = x" by (simp add: unat_of_nat)
    moreover from lt have "unat (of_nat y :: u32) = y" by (simp add: unat_of_nat)
    ultimately show "x = y" using eq by metis
  qed
  then show ?thesis by (simp add: piece_indexes_def distinct_map)
qed

lemma bitfield_len_unat: "pieces_ok tp \<Longrightarrow> unat (bitfield_len tp) = (unat (num_pieces tp) + 7) div 8"
  by (simp add: bitfield_len_def pieces_ok_def unat_div_distrib unat_word_ariths)

lemma bitfield_covers: "pieces_ok tp \<Longrightarrow> unat i < unat (num_pieces tp) \<Longrightarrow> unat i < 8 * unat (bitfield_len tp)"
  by (simp add: bitfield_len_unat)

section \<open>The local bit field\<close>

lemma bitfield_loop:
  assumes "\<forall>i \<in> set is. torrent_piece_find tp i = Ok (piece_array tp ! unat i)"
  shows "rfold (\<lambda>bf i. rbind (torrent_piece_find tp i) (\<lambda>tpp.
        if tpp_flags tpp AND TORRENT_PIECE_CKSUMOK \<noteq> 0 then util_setbit bf i else Ok bf)) bf is
    = rfold util_setbit bf (filter (have_piece tp) is)"
  using assms by (induction "is" arbitrary: bf) (simp_all add: have_piece_def)

lemma bitfield_get_run:
  assumes "pieces_ok tp"
  shows "\<exists>bf. torrent_bitfield_get tp = Ok bf \<and> length bf = unat (bitfield_len tp)
    \<and> (\<forall>i. unat i < unat (num_pieces tp) \<longrightarrow> util_getbit bf i = Ok (have_piece tp i))"
proof -
  let ?is = "filter (have_piece tp) (piece_indexes tp)" and ?n = "unat (bitfield_len tp)"
  have loop: "torrent_bitfield_get tp = rfold util_setbit (replicate ?n 0) ?is"
    unfolding torrent_bitfield_get_def
    using piece_find_in [OF assms] by (intro bitfield_loop) (simp add: piece_indexes_in)
  have "\<forall>i \<in> set ?is. unat i < 8 * length (replicate ?n (0 :: byte))"
    using bitfield_covers [OF assms] by (auto simp: piece_indexes_in)
  then obtain bf where bf: "rfold util_setbit (replicate ?n 0) ?is = Ok bf" "8 * length bf = 8 * length (replicate ?n (0 :: byte))"
    using bf.set_list_ok by blast
  have "util_getbit bf i = Ok (have_piece tp i)" if "unat i < unat (num_pieces tp)" for i
    using bf.get_set_list [OF bf(1), of i] that bitfield_covers [OF assms that]
    by (simp add: piece_indexes_in getbit_zero)
  then show ?thesis using loop bf by auto
qed

lemma empty_loop_run:
  assumes "\<forall>i \<in> set is. torrent_piece_find tp i = Ok (piece_array tp ! unat i)"
  shows "empty_loop tp is = Ok (\<forall>i \<in> set is. \<not> have_piece tp i)"
  using assms by (induction "is") (simp_all add: have_piece_def)

section \<open>The fast-resume file\<close>

text \<open>What loading changes: the flag of each piece in \<open>I\<close>, and the two counters.\<close>

definition marked :: "torrent \<Rightarrow> u32 set \<Rightarrow> torrent \<Rightarrow> bool" where
  "marked tp I tp' \<longleftrightarrow> num_pieces tp' = num_pieces tp \<and> length (piece_array tp') = length (piece_array tp)
    \<and> (\<forall>i. unat i < unat (num_pieces tp) \<longrightarrow> piece_array tp' ! unat i = (piece_array tp ! unat i)
        \<lparr>tpp_flags := (if i \<in> I then tpp_flags (piece_array tp ! unat i) OR TORRENT_PIECE_CKSUMOK
                     else tpp_flags (piece_array tp ! unat i))\<rparr>)
    \<and> good_pieces tp' = good_pieces tp + of_nat (card I)
    \<and> downloaded tp' = downloaded tp + (\<Sum>i \<in> I. uint (tpp_len (piece_array tp ! unat i)))"

lemma marked_refl: "marked tp {} tp"
  by (simp add: marked_def)

lemma load_piece_run:
  assumes "pieces_ok tp" "marked tp I tp'" "finite I" "i \<notin> I" "unat i < unat (num_pieces tp)"
    and "util_getbit bitfield i = Ok b"
  shows "\<exists>t. load_piece bitfield tp' i = Ok t \<and> marked tp (if b then insert i I else I) t"
proof -
  have ok: "pieces_ok tp'" "num_pieces tp' = num_pieces tp" using assms(1,2) by (auto simp: pieces_ok_def marked_def)
  have fd: "torrent_piece_find tp' i = Ok (piece_array tp' ! unat i)" using piece_find_in ok assms(5) by simp
  have ne: "i = j" if "unat i = unat j" for j :: u32 using that by (simp add: word_unat_eq_iff)
  show ?thesis
  proof (cases b)
    case True
    have at: "piece_array tp' ! unat i = piece_array tp ! unat i" using assms(2,4,5) by (simp add: marked_def)
    have "unat i < length (piece_array tp)" using assms(1,5) by (simp add: pieces_ok_def)
    then show ?thesis
      using True fd assms(2-6)
      by (auto simp: load_piece_def marked_def update_piece_def at nth_list_update dest: ne)
  next
    case False
    then show ?thesis using fd assms(2,6) by (simp add: load_piece_def)
  qed
qed

lemma load_loop_run:
  assumes "pieces_ok tp" "marked tp I tp'" "finite I" "distinct is" "set is \<inter> I = {}"
    and "\<forall>i \<in> set is. unat i < unat (num_pieces tp) \<and> util_getbit bitfield i = Ok (f i)"
  shows "\<exists>t. rfold (load_piece bitfield) tp' is = Ok t \<and> marked tp (I \<union> {i \<in> set is. f i}) t"
  using assms(2-6)
proof (induction "is" arbitrary: I tp')
  case Nil
  then show ?case by simp
next
  case (Cons i "is")
  let ?J = "if f i then insert i I else I"
  obtain t where t: "load_piece bitfield tp' i = Ok t" "marked tp ?J t"
    using load_piece_run [OF assms(1) Cons.prems(1,2), of i] Cons.prems by fastforce
  have "\<exists>u. rfold (load_piece bitfield) t is = Ok u \<and> marked tp (?J \<union> {i \<in> set is. f i}) u"
    using Cons.prems t by (intro Cons.IH) auto
  moreover have "?J \<union> {j \<in> set is. f j} = I \<union> {j \<in> set (i # is). f j}" by auto
  ultimately show ?case using t by simp
qed

lemma load_run:
  assumes "pieces_ok tp" "resume_name tp msg = Ok ()" "length contents = unat (bitfield_len tp)"
    and "\<forall>i. unat i < unat (num_pieces tp) \<longrightarrow> util_getbit contents i = Ok (f i)"
  shows "\<exists>t. torrent_fastresume_load tp (Some contents) = Ok (0, t)
    \<and> marked tp {i. unat i < unat (num_pieces tp) \<and> f i} t"
proof -
  obtain t where "rfold (load_piece contents) tp (piece_indexes tp) = Ok t"
    "marked tp ({} \<union> {i \<in> set (piece_indexes tp). f i}) t"
    using load_loop_run [OF assms(1) marked_refl _ piece_indexes_distinct, of tp contents f] assms(4)
    by (auto simp: piece_indexes_in)
  moreover have "resume_name tp ''torrent_fastresume_load: snprintf truncation'' = Ok ()"
    using assms(2) by (auto simp: resume_name_def rbind_eq_Ok split: if_splits)
  ultimately show ?thesis
    using assms(3) by (simp add: torrent_fastresume_load_def Let_def mwrite_all piece_indexes_in)
qed

lemma resume_dump_run:
  assumes "pieces_ok tp" "resume_name tp msg = Ok ()"
  shows "\<exists>c. torrent_fastresume_dump tp = Ok c \<and> length c = unat (bitfield_len tp)
    \<and> (\<forall>i. unat i < unat (num_pieces tp) \<longrightarrow> util_getbit c i = Ok (have_piece tp i))"
proof -
  have "resume_name tp ''torrent_fastresume_dump: snprintf truncation'' = Ok ()"
    using assms(2) by (auto simp: resume_name_def rbind_eq_Ok split: if_splits)
  then show ?thesis using bitfield_get_run [OF assms(1)] by (auto simp: torrent_fastresume_dump_def)
qed

lemma flag_set [simp]: "(w OR TORRENT_PIECE_CKSUMOK) AND TORRENT_PIECE_CKSUMOK \<noteq> 0"
proof
  assume "(w OR TORRENT_PIECE_CKSUMOK) AND TORRENT_PIECE_CKSUMOK = 0"
  then have "bit ((w OR TORRENT_PIECE_CKSUMOK) AND TORRENT_PIECE_CKSUMOK) 0 = bit (0 :: u32) 0" by simp
  then show False by (simp add: TORRENT_PIECE_CKSUMOK_def bit_simps)
qed

lemma marked_have:
  "marked tp I t \<Longrightarrow> unat i < unat (num_pieces tp) \<Longrightarrow> have_piece t i \<longleftrightarrow> have_piece tp i \<or> i \<in> I"
  using flag_set [of "tpp_flags (piece_array tp ! unat i)"] by (simp add: marked_def have_piece_def)

section \<open>Properties\<close>

text \<open>
  (C6) \<^verbatim>\<open>torrent_piece_checkhash\<close> on a mapped piece whose mappings cover it returns 0 exactly when the
  SHA-1 of the piece's bytes is the entry of the piece in the metainfo's \<^verbatim>\<open>pieces\<close> string, and sets
  \<^verbatim>\<open>TORRENT_PIECE_CKSUMOK\<close> exactly then.
\<close>

theorem checkhash_correct:
  assumes "piece_ok tpp dk" "tpp_flags tpp AND TORRENT_PIECE_MAPPED \<noteq> 0"
    and "length (piece_bytes tpp dk) = unat (tpp_len tpp)"
    and "20 * unat (tpp_index tpp) + 20 \<le> length (pieces tp)" "20 * unat (tpp_index tpp) < 2 ^ 32"
  shows "\<exists>res. torrent_piece_checkhash tp tpp dk = Ok (res,
      if sha1_spec (piece_bytes tpp dk) = mread (pieces tp) (20 * unat (tpp_index tpp)) 20
      then tpp\<lparr>tpp_flags := tpp_flags tpp OR TORRENT_PIECE_CKSUMOK\<rparr> else tpp)
    \<and> (res = 0 \<longleftrightarrow> sha1_spec (piece_bytes tpp dk) = mread (pieces tp) (20 * unat (tpp_index tpp)) 20)"
  using checkhash_run [OF assms] by auto

theorem checkhash_correct_witness:
  "torrent_piece_checkhash ((example_torrent 0)\<lparr>pieces := sha1_spec [2, 3, 4, 5, 6]\<rparr>) (two_maps\<lparr>tpp_flags := 2\<rparr>)
     [[1, 2, 3], [4, 5, 6, 7]] = Ok (0, two_maps\<lparr>tpp_flags := 3\<rparr>)"
proof -
  let ?tpp = "two_maps\<lparr>tpp_flags := 2\<rparr>" and ?dk = "[[1, 2, 3], [4, 5, 6, 7]] :: disk"
  have b: "piece_bytes ?tpp ?dk = [2, 3, 4, 5, 6]" "piece_ok ?tpp ?dk"
    using two_maps_ok by (simp_all add: piece_bytes_def piece_ok_def)
  have l: "length (sha1_spec [2, 3, 4, 5, 6]) = 20" by (rule length_sha1_spec)
  show ?thesis
    using checkhash_correct [OF b(2), of "(example_torrent 0)\<lparr>pieces := sha1_spec [2, 3, 4, 5, 6]\<rparr>"] b(1) l
    by (auto simp: TORRENT_PIECE_MAPPED_def TORRENT_PIECE_CKSUMOK_def two_maps_def mread_def)
qed

text \<open>
  \<^verbatim>\<open>torrent_bitfield_get\<close> returns a bit field of the length the protocol fixes with one bit per
  checked piece, and \<^verbatim>\<open>torrent_empty\<close> tells whether all of those bits are clear.
\<close>

theorem bitfield_get_correct:
  assumes "pieces_ok tp"
  shows "(\<exists>bf. torrent_bitfield_get tp = Ok bf \<and> length bf = (unat (num_pieces tp) + 7) div 8
      \<and> (\<forall>i. unat i < unat (num_pieces tp) \<longrightarrow> util_getbit bf i = Ok (have_piece tp i)))
    \<and> torrent_empty tp = Ok (\<forall>i. unat i < unat (num_pieces tp) \<longrightarrow> \<not> have_piece tp i)"
  using bitfield_get_run [OF assms] piece_find_in [OF assms] bitfield_len_unat [OF assms]
    empty_loop_run [of "piece_indexes tp" tp]
  by (simp add: torrent_empty_def Ball_def piece_indexes_in)

definition small_torrent :: "bool list \<Rightarrow> torrent" where
  "small_torrent fs = (example_torrent 0)\<lparr>num_pieces := of_nat (length fs), piece_array :=
     map (\<lambda>(i, f). \<lparr>tpp_flags = (if f then 1 else 0), tpp_blocks = 0, tpp_len = 8, tpp_index = of_nat i, tpp_mmaps = []\<rparr>)
       (enumerate 0 fs)\<rparr>"

lemma small_torrent_ok: "length fs < 2 ^ 31 \<Longrightarrow> pieces_ok (small_torrent fs)"
  by (simp add: small_torrent_def pieces_ok_def unat_of_nat)

lemma small_torrent_have: "\<not> have_piece (small_torrent [False, True, True]) 0"
  "have_piece (small_torrent [False, True, True]) 1" "have_piece (small_torrent [False, True, True]) 2"
  by (simp_all add: small_torrent_def have_piece_def TORRENT_PIECE_CKSUMOK_def)

theorem bitfield_get_correct_witness:
  "(\<exists>bf. torrent_bitfield_get (small_torrent [False, True, True]) = Ok bf \<and> length bf = 1
      \<and> util_getbit bf 0 = Ok False \<and> util_getbit bf 1 = Ok True \<and> util_getbit bf 2 = Ok True)
    \<and> torrent_empty (small_torrent [False, True, True]) = Ok False"
proof -
  let ?tp = "small_torrent [False, True, True]"
  have n: "unat (num_pieces ?tp) = 3" by (simp add: small_torrent_def)
  obtain bf where bf: "torrent_bitfield_get ?tp = Ok bf" "length bf = 1"
    "\<forall>i. unat i < 3 \<longrightarrow> util_getbit bf i = Ok (have_piece ?tp i)"
    and e: "torrent_empty ?tp = Ok (\<forall>i. unat i < 3 \<longrightarrow> \<not> have_piece ?tp i)"
    using bitfield_get_correct [OF small_torrent_ok, of "[False, True, True]"] unfolding n by auto
  have "util_getbit bf 0 = Ok (have_piece ?tp 0)" "util_getbit bf 1 = Ok (have_piece ?tp 1)"
    "util_getbit bf 2 = Ok (have_piece ?tp 2)"
    using bf(3) [rule_format, of 0] bf(3) [rule_format, of 1] bf(3) [rule_format, of 2] by simp_all
  moreover have "\<not> (\<forall>i. unat i < 3 \<longrightarrow> \<not> have_piece ?tp i)" using small_torrent_have(2) by (intro notI) (drule spec [of _ 1], simp)
  ultimately show ?thesis using bf(1,2) e small_torrent_have by simp
qed

text \<open>
  (C8) The fast-resume file: what \<^verbatim>\<open>torrent_fastresume_dump\<close> writes for one run of the program,
  \<^verbatim>\<open>torrent_fastresume_load\<close> of the next run reads back: the pieces that were checked, and no other,
  are marked as checked, and the counters of good pieces and downloaded bytes grow by them.
\<close>

theorem fastresume_roundtrip:
  assumes "pieces_ok tp" "resume_name tp msg = Ok ()" "pieces_ok tp0" "num_pieces tp0 = num_pieces tp" "tname tp0 = tname tp"
    and "\<forall>i. unat i < unat (num_pieces tp) \<longrightarrow> \<not> have_piece tp0 i"
  shows "\<exists>c t. torrent_fastresume_dump tp = Ok c \<and> torrent_fastresume_load tp0 (Some c) = Ok (0, t)
    \<and> (\<forall>i. unat i < unat (num_pieces tp) \<longrightarrow> have_piece t i = have_piece tp i)
    \<and> good_pieces t = good_pieces tp0 + of_nat (card {i. unat i < unat (num_pieces tp) \<and> have_piece tp i})
    \<and> downloaded t = downloaded tp0
        + (\<Sum>i | unat i < unat (num_pieces tp) \<and> have_piece tp i. uint (tpp_len (piece_array tp0 ! unat i)))"
proof -
  let ?I = "{i. unat i < unat (num_pieces tp) \<and> have_piece tp i}"
  obtain c where c: "torrent_fastresume_dump tp = Ok c" "length c = unat (bitfield_len tp)"
    "\<forall>i. unat i < unat (num_pieces tp) \<longrightarrow> util_getbit c i = Ok (have_piece tp i)"
    using resume_dump_run [OF assms(1,2)] by auto
  have "resume_name tp0 msg = Ok ()" "length c = unat (bitfield_len tp0)"
    using assms(2,4,5) c(2) by (simp_all add: resume_name_def bitfield_len_def)
  then obtain t where t: "torrent_fastresume_load tp0 (Some c) = Ok (0, t)" "marked tp0 ?I t"
    using load_run [OF assms(3), of msg c "have_piece tp"] c(3) assms(4) by auto
  have "\<forall>i. unat i < unat (num_pieces tp) \<longrightarrow> have_piece t i = have_piece tp i"
    using marked_have [OF t(2)] assms(4,6) by simp
  moreover have "good_pieces t = good_pieces tp0 + of_nat (card ?I)
    \<and> downloaded t = downloaded tp0 + (\<Sum>i \<in> ?I. uint (tpp_len (piece_array tp0 ! unat i)))"
    using t(2) by (simp add: marked_def)
  ultimately show ?thesis using c(1) t(1) by blast
qed

theorem fastresume_roundtrip_witness:
  "\<exists>c t. torrent_fastresume_dump (small_torrent [False, True, True]) = Ok c
    \<and> torrent_fastresume_load (small_torrent [False, False, False]) (Some c) = Ok (0, t)
    \<and> \<not> have_piece t 0 \<and> have_piece t 1 \<and> have_piece t 2"
proof -
  let ?tp = "small_torrent [False, True, True]" and ?new = "small_torrent [False, False, False]"
  have n: "unat (num_pieces ?tp) = 3" "num_pieces ?new = num_pieces ?tp" "tname ?new = tname ?tp"
    by (simp_all add: small_torrent_def)
  have r: "resume_name ?tp [] = Ok ()"
    by (simp add: resume_name_def small_torrent_def example_torrent_def cstr_def MAXPATHLEN_def)
  have c: "\<forall>i. unat i < unat (num_pieces ?tp) \<longrightarrow> \<not> have_piece ?new i"
  proof (intro allI impI)
    fix i :: u32
    assume "unat i < unat (num_pieces ?tp)"
    then have "unat i = 0 \<or> unat i = 1 \<or> unat i = 2" unfolding n(1) by linarith
    then show "\<not> have_piece ?new i" by (auto simp: have_piece_def small_torrent_def)
  qed
  have ok: "pieces_ok ?tp" "pieces_ok ?new" by (simp_all add: small_torrent_ok)
  from fastresume_roundtrip [OF ok(1) r ok(2) n(2,3) c]
  obtain c t where ct: "torrent_fastresume_dump ?tp = Ok c" "torrent_fastresume_load ?new (Some c) = Ok (0, t)"
    and f: "\<forall>i. unat i < 3 \<longrightarrow> have_piece t i = have_piece ?tp i"
    unfolding n(1) by blast
  have "\<not> have_piece t 0" "have_piece t 1" "have_piece t 2"
    using f [rule_format, of 0] f [rule_format, of 1] f [rule_format, of 2] small_torrent_have by simp_all
  then show ?thesis using ct by blast
qed

end
