(* ===== verification/Metainfo.thy ===== *)
theory Metainfo
  imports Parse_Roundtrip Torrent Sha1_Spec "HOL-Library.Sublist"
begin

text \<open>
  Reading a metainfo file: \<^verbatim>\<open>torrent_parse_infohash\<close>, \<^verbatim>\<open>torrent_parse_file\<close> and \<^verbatim>\<open>torrent_print\<close> of
  \<^verbatim>\<open>torrent.c\<close>, over the buffers of \<open>Buf\<close>, the parser of \<open>Parse\<close> and the search of \<open>Bencode\<close>.

  A file is what the system answers when it is opened and read; the program opens the metainfo file
  twice, for the parse and for the hash. The result is \<open>None\<close> when the answers given do not decide it.
\<close>

section \<open>The info hash\<close>

type_synonym file_io = "nat option \<times> read_answer list"

definition load_file :: "file_io \<Rightarrow> u32 \<Rightarrow> buf option res option" where
  "load_file io flags = buf_load (fst io) flags (snd io)"

text \<open>
  \<^verbatim>\<open>strstr\<close> of the C library: the offset of the first occurrence in the string at the start of the
  object; an object without a NUL is left when there is no occurrence.
\<close>

fun strstr :: "bytes \<Rightarrow> bytes \<Rightarrow> nat \<Rightarrow> nat option res" where
  "strstr [] pat k = Fault (Undef ''strstr'')"
| "strstr (c # s) pat k =
     (if prefix pat (c # s) then Ok (Some k) else if c = 0 then Ok None else strstr s pat (k + 1))"

definition INFO_STR :: bytes where "INFO_STR = str ''4:info''"

definition SHA1_DIGEST_LENGTH :: nat where "SHA1_DIGEST_LENGTH = 20"

text \<open>The length passed to \<^verbatim>\<open>SHA1Update\<close> wraps to a huge one when the end offset lies before \<^verbatim>\<open>p\<close>.\<close>

definition infohash_of :: "bytes \<Rightarrow> nat \<Rightarrow> bytes res" where
  "infohash_of buf infoend = rbind (strstr buf INFO_STR 0) (\<lambda>r. case r of
       None \<Rightarrow> Fault (Exit ''torrent_parse_infohash: no info key found'')
     | Some k \<Rightarrow> let p = k + length INFO_STR in
         if p \<le> infoend \<and> infoend \<le> length buf
         then Ok (fst (SHA1Final (SHA1Update (SHA1Init fresh_sha) (mread buf p (infoend - p)))))
         else Fault (Undef ''SHA1Update''))"

definition torrent_parse_infohash :: "file_io \<Rightarrow> nat \<Rightarrow> bytes res option" where
  "torrent_parse_infohash file infoend =
     (if infoend = 0
      then Some (Fault (Exit ''torrent_parse_infohash: infoend is zero - error parsing torrent file''))
      else map_option (\<lambda>r. rbind r (\<lambda>b. case b of
          None \<Rightarrow> Fault (Exit ''exit'')
        | Some b \<Rightarrow> infohash_of (buf_release b) infoend)) (load_file file BUF_AUTOEXT))"

section \<open>Fields of the tree\<close>

text \<open>
  \<^verbatim>\<open>benc_node_find\<close> with the test for NULL, the test of the flag and the access to the union that follow
  each call. \<open>need\<close> exits when there is no such node, \<open>opt_string\<close> and \<open>opt_number\<close> skip a node of
  another type.
\<close>

definition find_key :: "benc_node \<Rightarrow> string \<Rightarrow> benc_node option res" where
  "find_key n key = benc_node_find n (cstr (str key))"

definition need :: "benc_node \<Rightarrow> string \<Rightarrow> string \<Rightarrow> benc_node res" where
  "need n key msg = rbind (find_key n key) (\<lambda>r. case r of None \<Rightarrow> Fault (Exit msg) | Some v \<Rightarrow> Ok v)"

fun body_string :: "benc_body \<Rightarrow> (bytes \<times> nat) res" where
  "body_string (Bytestring v l) = Ok (v, l)"
| "body_string _ = Fault (Undef ''body.string'')"

fun body_number :: "benc_body \<Rightarrow> int res" where
  "body_number (Number i) = Ok i"
| "body_number _ = Fault (Undef ''body.number'')"

definition string_of :: "string \<Rightarrow> benc_node \<Rightarrow> (bytes \<times> nat) res" where
  "string_of msg n = (if nflags n AND BSTRING = 0 then Fault (Exit msg) else body_string (nbody n))"

definition number_of :: "string \<Rightarrow> benc_node \<Rightarrow> int res" where
  "number_of msg n = (if nflags n AND BINT = 0 then Fault (Exit msg) else body_number (nbody n))"

definition need_string :: "benc_node \<Rightarrow> string \<Rightarrow> string \<Rightarrow> string \<Rightarrow> (bytes \<times> nat) res" where
  "need_string n key msg msg' = rbind (need n key msg) (string_of msg')"

definition need_number :: "benc_node \<Rightarrow> string \<Rightarrow> string \<Rightarrow> string \<Rightarrow> int res" where
  "need_number n key msg msg' = rbind (need n key msg) (number_of msg')"

definition opt_string :: "benc_node \<Rightarrow> string \<Rightarrow> bytes option res" where
  "opt_string n key = rbind (find_key n key) (\<lambda>r. case r of
       Some v \<Rightarrow> if nflags v AND BSTRING \<noteq> 0 then rmap (\<lambda>(s, l). Some s) (body_string (nbody v)) else Ok None
     | None \<Rightarrow> Ok None)"

definition opt_number :: "benc_node \<Rightarrow> string \<Rightarrow> int option res" where
  "opt_number n key = rbind (find_key n key) (\<lambda>r. case r of
       Some v \<Rightarrow> if nflags v AND BINT \<noteq> 0 then rmap Some (body_number (nbody v)) else Ok None
     | None \<Rightarrow> Ok None)"

section \<open>The path of a file\<close>

text \<open>
  \<^verbatim>\<open>snprintf (path, MAXPATHLEN, "%s/%s", path, value)\<close>. The destination is also an argument, which the C
  standard leaves undefined; the model is the left-to-right output of the implementation of OpenBSD, the home of the
  program, which rewrites the bytes that are there. Others may differ: that of GNU stores a terminator at the
  destination first, and the path so far is lost.
\<close>

definition path_append :: "bytes \<Rightarrow> bytes \<Rightarrow> bytes res" where
  "path_append path v = rbind (print_s path) (\<lambda>a. rbind (print_s v) (\<lambda>b.
     let out = a @ str ''/'' @ b in
     if length out \<ge> MAXPATHLEN then Fault (Exit ''path too large'') else Ok (mwrite path 0 (cstr out))))"

definition path_element :: "bytes \<Rightarrow> benc_node \<Rightarrow> bytes res" where
  "path_element path lnode = rbind (string_of ''path element is not a string'' lnode) (\<lambda>(v, l).
     if path ! 0 = 0
     then rbind (strlcpy path v MAXPATHLEN) (\<lambda>(ret, path).
            if ret \<ge> MAXPATHLEN then Fault (Exit ''path too large'') else Ok path)
     else path_append path v)"

section \<open>The torrent\<close>

definition torrent_new :: "bytes \<Rightarrow> torrent" where
  "torrent_new name = \<lparr>ttype = MULTIFILE, files = [], base_name = [], pieces = [], total_length = 0,
     announce_url = [], creation_date = 0, comment = None, created_by = None, info_hash = [], num_pieces = 0,
     piece_length = 0, good_pieces = 0, uploaded = 0, downloaded = 0, left = 0, interval = 0, trackerid = None, tname = name,
     isnew = False, complete = 0, incomplete = 0, piece_array = []\<rparr>"

definition parse_single :: "benc_node \<Rightarrow> torrent \<Rightarrow> torrent res" where
  "parse_single troot t =
     rbind (need_number troot ''length'' ''no length field'' ''length is not a number'') (\<lambda>n.
     rbind (need_string troot ''name'' ''no name field'' ''name is not a string'') (\<lambda>(path, _).
     rbind (need_number troot ''piece length'' ''no piece length field'' ''piece length is not a number'') (\<lambda>pl.
     rbind (need_string troot ''pieces'' ''no pieces field'' ''pieces is not a string'') (\<lambda>(ps, len).
     rbind (rbind (find_key troot ''md5sum'') (\<lambda>r. case r of
         None \<Rightarrow> Ok None | Some v \<Rightarrow> rmap (\<lambda>(s, l). Some s) (string_of ''md5sum is not a string'' v))) (\<lambda>md5.
       Ok (t\<lparr>ttype := SINGLEFILE,
             files := [\<lparr>file_length = n, md5sum = md5, tf_path = path, tf_open = False, refs = 0\<rparr>],
             left := n, piece_length := word_of_int pl, pieces := ps,
             num_pieces := of_nat (len div SHA1_DIGEST_LENGTH)\<rparr>))))))"

text \<open>One file of the list; a sum of lengths beyond 64 bits is a signed overflow.\<close>

definition parse_multi_file :: "torrent \<Rightarrow> benc_node \<Rightarrow> torrent res" where
  "parse_multi_file t childnode =
     rbind (need_number childnode ''length'' ''no length field'' ''length is not a number'') (\<lambda>n.
     let total = total_length t + n in
     if total < LLONG_MIN \<or> total > LLONG_MAX then Fault (Undef ''total_length'')
     else
     rbind (opt_string childnode ''md5sum'') (\<lambda>md5.
     rbind (need childnode ''path'' ''no path field'') (\<lambda>tnode.
     if nflags tnode AND BLIST = 0 then Fault (Exit ''path is not a list'')
     else rbind (rfold path_element (replicate MAXPATHLEN 0) (nchildren tnode)) (\<lambda>path.
       Ok (t\<lparr>total_length := total, left := total,
             files := files t @ [\<lparr>file_length = n, md5sum = md5, tf_path = path, tf_open = False, refs = 0\<rparr>]\<rparr>)))))"

definition parse_multi :: "benc_node \<Rightarrow> benc_node \<Rightarrow> torrent \<Rightarrow> torrent res" where
  "parse_multi troot filenode t =
     rbind (need_string troot ''name'' ''no name field'' ''name is not a string'') (\<lambda>(name, _).
     rbind (need_number troot ''piece length'' ''no piece length field'' ''piece length is not a number'') (\<lambda>pl.
     rbind (need_string troot ''pieces'' ''no pieces field'' ''pieces is not a string'') (\<lambda>(ps, len).
       rfold parse_multi_file
         (t\<lparr>ttype := MULTIFILE, base_name := name, piece_length := word_of_int pl, pieces := ps,
            num_pieces := of_nat (len div SHA1_DIGEST_LENGTH), files := []\<rparr>)
         (nchildren filenode))))"

text \<open>The part of \<^verbatim>\<open>torrent_parse_file\<close> after the info hash.\<close>

definition parse_fields :: "benc_node \<Rightarrow> torrent \<Rightarrow> torrent res" where
  "parse_fields troot t =
     rbind (need_string troot ''announce'' ''no announce data found in torrent'' ''announce value is not a string'') (\<lambda>(url, _).
     rbind (opt_string troot ''comment'') (\<lambda>cm.
     let t = t\<lparr>announce_url := url, comment := cm\<rparr> in
     rbind (rbind (find_key troot ''files'') (\<lambda>r. case r of
         None \<Rightarrow> parse_single troot t | Some filenode \<Rightarrow> parse_multi troot filenode t)) (\<lambda>t.
     rbind (opt_string troot ''created by'') (\<lambda>by.
     rbind (opt_number troot ''creation date'') (\<lambda>d.
       Ok (t\<lparr>created_by := by, creation_date := (case d of None \<Rightarrow> 0 | Some i \<Rightarrow> i)\<rparr>))))))"

definition torrent_parse_file :: "bytes \<Rightarrow> file_io \<Rightarrow> file_io \<Rightarrow> torrent res option" where
  "torrent_parse_file file io1 io2 = (case (xstrdup file, load_file io1 0) of
      (Fault e, _) \<Rightarrow> Some (Fault e)
    | (_, None) \<Rightarrow> None
    | (_, Some (Fault e)) \<Rightarrow> Some (Fault e)
    | (_, Some (Ok None)) \<Rightarrow> Some (Fault (Exit ''torrent_parse_file: buf_load''))
    | (Ok name, Some (Ok (Some b))) \<Rightarrow> (case benc_parse_buf b benc_root_create of
          None \<Rightarrow> None
        | Some (Fault e) \<Rightarrow> Some (Fault e)
        | Some (Ok None) \<Rightarrow> Some (Fault (Exit ''torrent_parse_file: yyparse''))
        | Some (Ok (Some troot)) \<Rightarrow> (case need troot ''info'' ''no info data found in torrent'' of
              Fault e \<Rightarrow> Some (Fault e)
            | Ok node \<Rightarrow> map_option (\<lambda>r. rbind r (\<lambda>h. parse_fields troot ((torrent_new name)\<lparr>info_hash := h\<rparr>)))
                (torrent_parse_infohash io2 (nend node)))))"

section \<open>Printing\<close>

definition print_opt :: "bytes option \<Rightarrow> bytes res" where
  "print_opt s = (case s of None \<Rightarrow> Ok (str ''NONE'' @ [10]) | Some m \<Rightarrow> rmap (\<lambda>s. s @ [10]) (print_s m))"

definition hex_nibble :: "nat \<Rightarrow> byte" where
  "hex_nibble n = (if n < 10 then of_nat (48 + n) else of_nat (87 + n))"

definition hex_byte :: "byte \<Rightarrow> bytes" where
  "hex_byte b = [hex_nibble (unat b div 16), hex_nibble (unat b mod 16)]"

definition print_file :: "torrent_file \<Rightarrow> bytes res" where
  "print_file tfile = rbind (print_s (tf_path tfile)) (\<lambda>p. rbind (print_opt (md5sum tfile)) (\<lambda>m.
     Ok (str ''file name:'' @ 9 # p @ 10 # str ''length:'' @ 9 # 9 # dec_int (file_length tfile) @ str '' bytes'' @ 10 #
         str ''md5sum:'' @ 9 # 9 # m)))"

text \<open>\<open>ctime\<close> of the C library depends on the time zone and is a parameter.\<close>

definition torrent_print :: "(int \<Rightarrow> bytes) \<Rightarrow> torrent \<Rightarrow> bytes res" where
  "torrent_print ctime t =
     rbind (print_s (announce_url t)) (\<lambda>url.
     rbind (print_opt (created_by t)) (\<lambda>by.
     rbind (print_opt (comment t)) (\<lambda>cm.
     rbind (if length (info_hash t) < SHA1_DIGEST_LENGTH then Fault (Undef ''info_hash'')
            else Ok (concat (map hex_byte (take SHA1_DIGEST_LENGTH (info_hash t))))) (\<lambda>h.
     let pl = str ''piece length:'' @ 9 # dec_nat (unat (piece_length t)) @ str '' bytes'' @ [10] in
     rbind (case ttype t of
         SINGLEFILE \<Rightarrow> (case files t of
             [] \<Rightarrow> Fault (Undef ''singlefile'')
           | f # _ \<Rightarrow> rbind (print_s (tf_path f)) (\<lambda>p. rbind (print_opt (md5sum f)) (\<lambda>m.
               Ok (str ''single file'' @ 10 # str ''length:'' @ 9 # 9 # dec_int (file_length f) @ str '' bytes'' @ 10 #
                   str ''file name:'' @ 9 # p @ 10 # pl @ str ''md5sum:'' @ 9 # 9 # m))))
       | MULTIFILE \<Rightarrow> rbind (print_s (base_name t)) (\<lambda>n.
           rmap (\<lambda>fs. str ''multi file'' @ 10 # str ''base path:'' @ 9 # n @ 10 # pl @ str ''--files--'' @ 10 # fs)
             (rfold (\<lambda>out f. rmap (\<lambda>s. out @ s) (print_file f)) [] (files t)))) (\<lambda>body.
       Ok (str ''announce url:'' @ 9 # url @ 10 # str ''created by:'' @ 9 # by @
           str ''creation date:'' @ 9 # (if creation_date t = 0 then str ''NONE'' @ [10] else ctime (creation_date t)) @
           str ''comment:'' @ 9 # cm @ str ''info hash:'' @ 9 # str ''0x'' @ h @ 10 #
           str ''pieces:'' @ 9 # 9 # dec_nat (unat (num_pieces t)) @ 10 # str ''type:'' @ 9 # 9 # body))))))"

section \<open>Loading a file\<close>

text \<open>The system delivers the contents \<open>c\<close> in pieces of any size, after reporting their length.\<close>

definition file_holds :: "file_io \<Rightarrow> bytes \<Rightarrow> bool" where
  "file_holds io c \<longleftrightarrow> (\<exists>ds as. io = (Some (length c), map Bytes ds @ Bytes [] # as)
     \<and> concat ds = c \<and> (\<forall>d \<in> set ds. d \<noteq> []))"

lemma load_holds:
  assumes "file_holds io c" "length c < 2 ^ 64"
  shows "\<exists>b. load_file io fl = Some (Ok (Some b)) \<and> buf_ok b \<and> cb_buf b = c \<and> buf_rest b = c \<and> cb_pos b = 0"
proof -
  obtain ds as where io: "io = (Some (length c), map Bytes ds @ Bytes [] # as)" "concat ds = c" "\<forall>d \<in> set ds. d \<noteq> []"
    using assms(1) by (auto simp: file_holds_def)
  then obtain b where b: "buf_load (Some (length c)) fl (map Bytes ds @ Bytes [] # as) = Some (Ok (Some b))"
    "buf_ok b" "buf_data b = c" "buf_pos b = 0" "cb_size b = length c"
    using buf_load_run [of "length c" ds fl as] assms(2) by auto
  have l: "cb_len b = length c" using length_buf_data [OF b(2)] b(3) by simp
  then have "cb_cur b = 0" "length (cb_buf b) = length c" using b(2,5) by (simp_all add: buf_ok_def)
  then have "cb_buf b = c" using b(3) l by (simp add: buf_data_def mread_def)
  then show ?thesis using b io(1) by (auto simp: load_file_def buf_rest_def buf_pos_def)
qed

lemma strstr_first:
  assumes "nonul pre" "pat \<noteq> []" "\<forall>i < length pre. \<not> prefix pat (drop i (pre @ pat @ r))"
  shows "strstr (pre @ pat @ r) pat k = Ok (Some (k + length pre))"
  using assms(1,3)
proof (induction pre arbitrary: k)
  case Nil
  then show ?case using assms(2) by (cases pat) simp_all
next
  case (Cons c pre)
  have "\<not> prefix pat (drop 0 (c # pre @ pat @ r))" using Cons.prems(2) by (metis append_Cons length_greater_0_conv list.discI)
  moreover have "\<forall>i < length pre. \<not> prefix pat (drop i (pre @ pat @ r))"
    using Cons.prems(2) by (metis append_Cons drop_Suc_Cons length_Cons not_less_eq)
  ultimately show ?case using Cons.IH [of "k + 1"] Cons.prems(1) by (simp add: nonul_def)
qed

lemma length_INFO_STR [simp]: "length INFO_STR = 6"
  by (simp add: INFO_STR_def)

lemma infohash_run:
  assumes "file_holds io (pre @ INFO_STR @ v @ post)" "length (pre @ INFO_STR @ v @ post) < 2 ^ 60"
    and "nonul pre" "\<forall>i < length pre. \<not> prefix INFO_STR (drop i (pre @ INFO_STR @ v @ post))"
  shows "torrent_parse_infohash io (length pre + 6 + length v) = Some (Ok (sha1_spec v))"
proof -
  obtain b where b: "load_file io BUF_AUTOEXT = Some (Ok (Some b))" "cb_buf b = pre @ INFO_STR @ v @ post"
    using load_holds [OF assms(1)] assms(2) by fastforce
  have "strstr (pre @ INFO_STR @ v @ post) INFO_STR 0 = Ok (Some (length pre))"
    using strstr_first [OF assms(3) _ assms(4), of 0] by (simp add: INFO_STR_def)
  moreover have "mread (pre @ INFO_STR @ v @ post) (length pre + 6) (length v) = v"
    by (simp add: mread_def)
  moreover have "fst (SHA1Final (SHA1Update (SHA1Init fresh_sha) v)) = sha1_spec v"
    using assms(2) by (intro sha1_whole) (simp_all add: fresh_sha_def)
  ultimately show ?thesis
    using b by (simp add: torrent_parse_infohash_def infohash_of_def buf_release_def Let_def)
qed

section \<open>The fields of a parsed file\<close>

lemma lexbuf_len_gt: "n < 128 \<Longrightarrow> n < lexbuf_len n"
  by (simp add: lexbuf_len_def)

lemma short_key [simp]:
  assumes "nonul s" "length s < 128"
  shows "terminated (lexbuf s)" "strof (lexbuf s) = s"
proof -
  obtain m where m: "lexbuf s = s @ 0 # m"
    using lexbuf_len_gt [OF assms(2)] by (cases "lexbuf_len (length s) - length s") (auto simp: lexbuf_def)
  show "terminated (lexbuf s)" by (simp add: m terminated_def)
  have "takeWhile (\<lambda>c. c \<noteq> 0) s = s" using assms(1) by (auto simp: nonul_def)
  then show "strof (lexbuf s) = s"
    using assms(1) by (auto simp: m strof_def takeWhile_append nonul_def)
qed

lemma find_key_first:
  assumes "wf_node t" "keys_ok t" "nonul (str key)"
  shows "find_key t key = Ok (lookup_first (entries t) (str key))"
  using find_first_node [of "cstr (str key)" t] assms by (simp add: find_key_def)

text \<open>A metainfo file of one file, as the common tools write it, and the tree the parser makes of it.\<close>

definition info_dict :: "int \<Rightarrow> bytes \<Rightarrow> int \<Rightarrow> bytes \<Rightarrow> bval" where
  "info_dict n nm pl ps = BDict [(str ''length'', BInt n), (str ''name'', BStr nm),
     (str ''piece length'', BInt pl), (str ''pieces'', BStr ps)]"

definition metainfo :: "bytes \<Rightarrow> bytes \<Rightarrow> int \<Rightarrow> bval \<Rightarrow> bval" where
  "metainfo url cm date info = BDict [(str ''announce'', BStr url), (str ''comment'', BStr cm),
     (str ''creation date'', BInt date), (str ''info'', info)]"

definition before_info :: "bytes \<Rightarrow> bytes \<Rightarrow> int \<Rightarrow> bytes" where
  "before_info url cm date = 100 # enc_str (str ''announce'') @ enc_str url @ enc_str (str ''comment'') @ enc_str cm
     @ enc_str (str ''creation date'') @ enc (BInt date)"

lemma enc_metainfo: "enc (metainfo url cm date info) = before_info url cm date @ INFO_STR @ enc info @ [101]"
proof -
  have "enc_str (str ''info'') = INFO_STR" by (simp add: enc_str_def INFO_STR_def dec_nat.simps)
  then show ?thesis by (simp add: metainfo_def before_info_def)
qed

definition parsed :: "bytes \<Rightarrow> bytes \<Rightarrow> int \<Rightarrow> bval \<Rightarrow> benc_node" where
  "parsed url cm date info = Benc_node BLIST Zero (nodes_at 0 [metainfo url cm date info]) 0"

lemma plain_wf [simp]: "wf_node (bstring_node n v)" "wf_node (bint_node n)" "\<not> is_entry (bstring_node n v)" "\<not> is_entry (bint_node n)"
  "entries (bstring_node n v) = []" "entries (bint_node n) = []"
  "nflags (bstring_node n v) = BSTRING" "nflags (bint_node n) = BINT"
  by (simp_all add: bstring_node_def bint_node_def set_flags_def set_body_def benc_node_create_def is_entry_def)

lemma entry_wf [simp]: "wf_node (entry_node k v) \<longleftrightarrow> wf_node v \<and> \<not> is_entry v" "is_entry (entry_node k v)"
  "entries (entry_node k v) = (k, v) # entries v"
  by (simp_all add: entry_node_def set_flags_def set_body_def benc_node_create_def is_entry_def)

lemma container_not_entry [simp]: "\<not> is_entry (Benc_node f Zero cs e)"
  by (simp add: is_entry_def)

lemma parsed_wf:
  "wf_node (parsed url cm date (info_dict n nm pl ps))" "keys_ok (parsed url cm date (info_dict n nm pl ps))"
  by (simp_all add: parsed_def metainfo_def info_dict_def keys_ok_def nonul_def)

lemma parsed_entries:
  "\<exists>e. entries (parsed url cm date (info_dict n nm pl ps)) =
    [(lexbuf (str ''announce''), bstring_node (int (length url)) (lexbuf url)),
     (lexbuf (str ''comment''), bstring_node (int (length cm)) (lexbuf cm)),
     (lexbuf (str ''creation date''), bint_node date),
     (lexbuf (str ''info''), e),
     (lexbuf (str ''length''), bint_node n), (lexbuf (str ''name''), bstring_node (int (length nm)) (lexbuf nm)),
     (lexbuf (str ''piece length''), bint_node pl), (lexbuf (str ''pieces''), bstring_node (int (length ps)) (lexbuf ps))]
    \<and> nend e = length (before_info url cm date) + 6 + length (enc (info_dict n nm pl ps))"
  by (simp add: parsed_def metainfo_def info_dict_def before_info_def enc_str_def dec_nat.simps)

lemma string_of_node [simp]:
  "int l < 2 ^ 64 \<Longrightarrow> string_of msg (bstring_node (int l) v) = Ok (v, l)" "number_of msg (bint_node i) = Ok i"
  by (simp_all add: string_of_def number_of_def bstring_node_def bint_node_def set_flags_def set_body_def
      benc_node_create_def bflag_defs)

lemma body_of_node [simp]: "nbody (bint_node i) = Number i"
  "int l < 2 ^ 64 \<Longrightarrow> nbody (bstring_node (int l) v) = Bytestring v l"
  by (simp_all add: bstring_node_def bint_node_def set_flags_def set_body_def benc_node_create_def)

lemma nonul_key [simp]: "nonul (str key)" if "list_all (\<lambda>c. (of_char c :: byte) \<noteq> 0) key"
  using that by (induction key) (auto simp: nonul_def)

text \<open>What the search finds in the tree of such a file.\<close>

lemma parsed_find:
  fixes url cm nm ps :: bytes and date n pl :: int
  defines "t \<equiv> parsed url cm date (info_dict n nm pl ps)"
  shows "find_key t ''announce'' = Ok (Some (bstring_node (int (length url)) (lexbuf url)))"
    and "find_key t ''comment'' = Ok (Some (bstring_node (int (length cm)) (lexbuf cm)))"
    and "find_key t ''creation date'' = Ok (Some (bint_node date))"
    and "find_key t ''created by'' = Ok None" "find_key t ''files'' = Ok None" "find_key t ''md5sum'' = Ok None"
    and "find_key t ''length'' = Ok (Some (bint_node n))"
    and "find_key t ''name'' = Ok (Some (bstring_node (int (length nm)) (lexbuf nm)))"
    and "find_key t ''piece length'' = Ok (Some (bint_node pl))"
    and "find_key t ''pieces'' = Ok (Some (bstring_node (int (length ps)) (lexbuf ps)))"
    and "\<exists>e. find_key t ''info'' = Ok (Some e) \<and> nend e = length (before_info url cm date) + 6 + length (enc (info_dict n nm pl ps))"
  using parsed_entries [of url cm date n nm pl ps] parsed_wf [of url cm date n nm pl ps]
  by (auto simp: t_def find_key_first nonul_def)

lemma parse_fields_single:
  assumes "length (enc (metainfo url cm date (info_dict n nm pl ps))) < 2 ^ 60"
  shows "parse_fields (parsed url cm date (info_dict n nm pl ps)) t = Ok (t\<lparr>announce_url := lexbuf url,
    comment := Some (lexbuf cm), ttype := SINGLEFILE,
    files := [\<lparr>file_length = n, md5sum = None, tf_path = lexbuf nm, tf_open = False, refs = 0\<rparr>], left := n,
    piece_length := word_of_int pl, pieces := lexbuf ps, num_pieces := of_nat (length ps div 20),
    created_by := None, creation_date := date\<rparr>)"
proof -
  have "length url < 2 ^ 60" "length cm < 2 ^ 60" "length nm < 2 ^ 60" "length ps < 2 ^ 60"
    using assms by (simp_all add: metainfo_def info_dict_def enc_str_def)
  then show ?thesis
    by (simp add: parse_fields_def parse_single_def need_string_def need_number_def need_def opt_string_def opt_number_def
        parsed_find SHA1_DIGEST_LENGTH_def Let_def bflag_defs)
qed

section \<open>The path of a file of several components\<close>

fun join_path :: "bytes list \<Rightarrow> bytes" where
  "join_path [] = []"
| "join_path [x] = x"
| "join_path (x # xs) = x @ str ''/'' @ join_path xs"

text \<open>The object of a path that holds the string \<open>s\<close>.\<close>

definition path_holds :: "bytes \<Rightarrow> bytes \<Rightarrow> bool" where
  "path_holds m s \<longleftrightarrow> length m = MAXPATHLEN \<and> nonul s \<and> (\<exists>r. m = s @ 0 # r)"

lemma path_holds_write: "length m = MAXPATHLEN \<Longrightarrow> nonul s \<Longrightarrow> length s < MAXPATHLEN \<Longrightarrow> path_holds (mwrite m 0 (cstr s)) s"
  by (simp add: path_holds_def mwrite_def cstr_def)

lemma print_s_nul: "nonul s \<Longrightarrow> print_s (s @ 0 # r) = Ok s"
  by (simp add: print_s_def strlen_nul)

lemma path_first:
  assumes "path_holds m []" "nonul x" "nbody l = Bytestring (x @ 0 # r) k" "nflags l AND BSTRING \<noteq> 0"
  shows "if length x < MAXPATHLEN then \<exists>m'. path_element m l = Ok m' \<and> path_holds m' x
    else path_element m l = Fault (Exit ''path too large'')"
proof -
  have "strlcpy m (x @ 0 # r) MAXPATHLEN = Ok (length x, mwrite m 0 (take (MAXPATHLEN - 1) x @ [0]))"
    using strlcpy_spec [OF assms(2), of MAXPATHLEN m r] assms(1) by (simp add: path_holds_def MAXPATHLEN_def)
  then show ?thesis
    using assms path_holds_write [of m x] by (auto simp: path_element_def string_of_def path_holds_def cstr_def)
qed

lemma path_next:
  assumes "path_holds m s" "s \<noteq> []" "nonul x" "nbody l = Bytestring (x @ 0 # r) k" "nflags l AND BSTRING \<noteq> 0"
  shows "if length (s @ str ''/'' @ x) < MAXPATHLEN then \<exists>m'. path_element m l = Ok m' \<and> path_holds m' (s @ str ''/'' @ x)
    else path_element m l = Fault (Exit ''path too large'')"
proof -
  obtain r' where m: "m = s @ 0 # r'" "length m = MAXPATHLEN" "nonul s" using assms(1) by (auto simp: path_holds_def)
  have "m ! 0 \<noteq> 0" using m(1,3) assms(2) by (cases s) (auto simp: nonul_def)
  moreover have "nonul (s @ str ''/'' @ x)" using m(3) assms(3) by (simp add: nonul_def)
  then have "length (s @ str ''/'' @ x) < MAXPATHLEN \<Longrightarrow> path_holds (mwrite m 0 (cstr (s @ str ''/'' @ x))) (s @ str ''/'' @ x)"
    using path_holds_write [OF m(2)] by blast
  ultimately show ?thesis
    using assms(3-5) print_s_nul [OF m(3), of r'] m(1)
    by (simp add: path_element_def string_of_def path_append_def print_s_nul Let_def)
qed

text \<open>The elements of the list \<open>ls\<close> hold the components \<open>xs\<close>.\<close>

definition components :: "benc_node list \<Rightarrow> bytes list \<Rightarrow> bool" where
  "components ls xs \<longleftrightarrow> list_all2 (\<lambda>l x. nflags l AND BSTRING \<noteq> 0 \<and> x \<noteq> [] \<and> nonul x
     \<and> (\<exists>r k. nbody l = Bytestring (x @ 0 # r) k)) ls xs"

definition extend :: "bytes \<Rightarrow> bytes list \<Rightarrow> bytes" where
  "extend s xs = s @ concat (map (\<lambda>x. str ''/'' @ x) xs)"

lemma extend_Nil [simp]: "extend s [] = s" by (simp add: extend_def)
lemma extend_Cons: "extend s (x # xs) = extend (s @ str ''/'' @ x) xs" by (simp add: extend_def)
lemma join_extend: "join_path (x # xs) = extend x xs"
  by (induction xs arbitrary: x) (simp_all add: extend_def)
lemma extend_length: "length s \<le> length (extend s xs)" by (simp add: extend_def)

lemma path_rest:
  assumes "path_holds m s" "s \<noteq> []" "components ls xs"
  shows "if length (extend s xs) < MAXPATHLEN
    then \<exists>m'. rfold path_element m ls = Ok m' \<and> path_holds m' (extend s xs)
    else rfold path_element m ls = Fault (Exit ''path too large'')"
  using assms
proof (induction ls arbitrary: m s xs)
  case Nil
  then show ?case by (auto simp: components_def path_holds_def)
next
  case (Cons l ls)
  then obtain x ys r k where xs: "xs = x # ys" "components ls ys" "nonul x" "x \<noteq> []" "nflags l AND BSTRING \<noteq> 0"
    "nbody l = Bytestring (x @ 0 # r) k"
    by (auto simp: components_def list_all2_Cons1)
  let ?s = "s @ str ''/'' @ x"
  note p = path_next [OF Cons.prems(1,2) xs(3,6,5)]
  show ?case
  proof (cases "length ?s < MAXPATHLEN")
    case True
    then obtain m' where "path_element m l = Ok m'" "path_holds m' ?s" using p by auto
    then show ?thesis using Cons.IH [of m' ?s ys] xs by (simp add: extend_Cons del: str_Cons split: if_splits)
  next
    case False
    then have "\<not> length (extend s xs) < MAXPATHLEN"
      using extend_length [of ?s ys] xs(1) by (simp add: extend_Cons)
    then show ?thesis using False p by simp
  qed
qed

lemma path_whole:
  assumes "components ls xs" "xs \<noteq> []"
  shows "if length (join_path xs) < MAXPATHLEN
    then \<exists>m. rfold path_element (replicate MAXPATHLEN 0) ls = Ok m \<and> path_holds m (join_path xs)
    else rfold path_element (replicate MAXPATHLEN 0) ls = Fault (Exit ''path too large'')"
proof -
  obtain l ls' x ys r k where xs: "ls = l # ls'" "xs = x # ys" "components ls' ys" "nonul x" "x \<noteq> []"
    "nflags l AND BSTRING \<noteq> 0" "nbody l = Bytestring (x @ 0 # r) k"
    using assms by (cases ls; cases xs) (auto simp: components_def)
  have "path_holds (replicate MAXPATHLEN 0) []" by (auto simp: path_holds_def nonul_def MAXPATHLEN_def numeral_eq_Suc)
  note p = path_first [OF this xs(4,7,6)]
  show ?thesis
  proof (cases "length x < MAXPATHLEN")
    case True
    then obtain m where "path_element (replicate MAXPATHLEN 0) l = Ok m" "path_holds m x" using p by auto
    then show ?thesis using path_rest [of m x ls' ys] xs by (simp add: join_extend)
  next
    case False
    then show ?thesis using p xs(1,2) extend_length [of x ys] by (simp add: join_extend)
  qed
qed

section \<open>Properties\<close>

text \<open>
  (C9) The info hash is the SHA-1 of the value of the info key: on a file in which the first occurrence
  of the text \<open>4:info\<close> is that key and no NUL comes before it, \<^verbatim>\<open>torrent_parse_infohash\<close>, given the end
  offset that the parser stored in the value's node, hashes exactly the bytes of the value.
\<close>

theorem infohash_correct:
  assumes "file_holds io (pre @ INFO_STR @ v @ post)" "length (pre @ INFO_STR @ v @ post) < 2 ^ 60"
    and "nonul pre" "\<forall>i < length pre. \<not> prefix INFO_STR (drop i (pre @ INFO_STR @ v @ post))"
  shows "torrent_parse_infohash io (length pre + length INFO_STR + length v) = Some (Ok (sha1_spec v))"
  using infohash_run [OF assms] by simp

theorem infohash_correct_witness:
  "torrent_parse_infohash (Some 10, [Bytes [100, 52, 58], Bytes [105, 110, 102, 111, 49, 50, 101], Bytes []]) 9
    = Some (Ok (sha1_spec [49, 50]))"
proof -
  have "file_holds (Some 10, [Bytes [100, 52, 58], Bytes [105, 110, 102, 111, 49, 50, 101], Bytes []])
      ([100] @ INFO_STR @ [49, 50] @ [101])"
    unfolding file_holds_def
    by (intro exI [of _ "[[100, 52, 58], [105, 110, 102, 111, 49, 50, 101]]"] exI [of _ "[]"]) (simp add: INFO_STR_def)
  from infohash_correct [OF this] show ?thesis by (simp add: nonul_def) (simp add: INFO_STR_def)
qed

text \<open>
  (C10) Reading a metainfo file gives back what was written: from the file of a single-file torrent,
  delivered in reads of any size, \<^verbatim>\<open>torrent_parse_file\<close> makes the torrent with exactly the fields of the
  file (strings as NUL-filled objects) and the SHA-1 of the encoded info dictionary as its info hash,
  when the text \<open>4:info\<close> and NULs do not occur before the info key.
\<close>

theorem metainfo_single_roundtrip:
  assumes "file_holds io1 (enc (metainfo url cm date (info_dict n nm pl ps)))"
    and "file_holds io2 (enc (metainfo url cm date (info_dict n nm pl ps)))"
    and "length (enc (metainfo url cm date (info_dict n nm pl ps))) < 2 ^ 60"
    and "valid 15 (metainfo url cm date (info_dict n nm pl ps))" "nonul file"
    and "nonul (before_info url cm date)"
    and "\<forall>i < length (before_info url cm date). \<not> prefix INFO_STR (drop i (enc (metainfo url cm date (info_dict n nm pl ps))))"
  shows "torrent_parse_file (cstr file) io1 io2 = Some (Ok ((torrent_new (cstr file))
    \<lparr>info_hash := sha1_spec (enc (info_dict n nm pl ps)), announce_url := lexbuf url, comment := Some (lexbuf cm),
     ttype := SINGLEFILE,
     files := [\<lparr>file_length = n, md5sum = None, tf_path = lexbuf nm, tf_open = False, refs = 0\<rparr>], left := n,
     piece_length := word_of_int pl, pieces := lexbuf ps, num_pieces := of_nat (length ps div 20),
     created_by := None, creation_date := date\<rparr>))"
proof -
  let ?m = "metainfo url cm date (info_dict n nm pl ps)"
  obtain b where b: "load_file io1 0 = Some (Ok (Some b))" "buf_ok b" "buf_rest b = enc ?m" "cb_pos b = 0"
    using load_holds [OF assms(1), of 0] assms(3) by auto
  have "fits (concat (map enc [?m]))" using assms(3) by (simp add: fits_def LLONG_MAX_def)
  then have t: "benc_parse_buf b benc_root_create = Some (Ok (Some (parsed url cm date (info_dict n nm pl ps))))"
    using parse_enc [of b "[?m]"] b assms(4) by (simp add: parsed_def)
  obtain e where e: "find_key (parsed url cm date (info_dict n nm pl ps)) ''info'' = Ok (Some e)"
    "nend e = length (before_info url cm date) + 6 + length (enc (info_dict n nm pl ps))"
    using parsed_find(11) [of url cm date n nm pl ps] by blast
  have "torrent_parse_infohash io2 (nend e) = Some (Ok (sha1_spec (enc (info_dict n nm pl ps))))"
    unfolding e(2) using assms(2,3,6,7) unfolding enc_metainfo by (rule infohash_run)
  moreover have "xstrdup (cstr file) = Ok (cstr file)" using xstrdup_spec [OF assms(5), of "[]"] by (simp add: cstr_def)
  ultimately show ?thesis
    using b(1) t e(1) parse_fields_single [OF assms(3)]
    by (simp add: torrent_parse_file_def need_def)
qed

definition tiny_file :: bytes where
  "tiny_file = enc (metainfo [117] [99] 0 (info_dict 5 [102] 4 (replicate 40 1)))"

theorem metainfo_single_roundtrip_witness:
  "torrent_parse_file (cstr [116]) (Some (length tiny_file), [Bytes tiny_file, Bytes []]) (Some (length tiny_file), [Bytes tiny_file, Bytes []])
   = Some (Ok ((torrent_new (cstr [116]))
    \<lparr>info_hash := sha1_spec (enc (info_dict 5 [102] 4 (replicate 40 1))), announce_url := lexbuf [117], comment := Some (lexbuf [99]),
     ttype := SINGLEFILE,
     files := [\<lparr>file_length = 5, md5sum = None, tf_path = lexbuf [102], tf_open = False, refs = 0\<rparr>], left := 5,
     piece_length := 4, pieces := lexbuf (replicate 40 1), num_pieces := 2,
     created_by := None, creation_date := 0\<rparr>))"
proof -
  let ?m = "metainfo [117] [99] 0 (info_dict 5 [102] 4 (replicate 40 1))"
  have h: "file_holds (Some (length tiny_file), [Bytes tiny_file, Bytes []]) (enc ?m)"
    unfolding file_holds_def tiny_file_def
    by (intro exI [of _ "[enc ?m]"] exI [of _ "[]"]) (simp add: metainfo_def)
  have "length (enc ?m) < 2 ^ 60"
    by (simp add: metainfo_def info_dict_def enc_str_def dec_nat.simps dec_int_def)
  moreover have "valid 15 ?m" by (simp add: metainfo_def info_dict_def LLONG_MIN_def LLONG_MAX_def)
  moreover have "nonul (before_info [117] [99] 0)"
    by (simp add: before_info_def enc_str_def dec_nat.simps dec_int_def nonul_def)
  moreover have "list_all (\<lambda>i. \<not> prefix INFO_STR (drop i (enc ?m))) [0..<length (before_info [117] [99] 0)]" by code_simp
  then have "\<forall>i < length (before_info [117] [99] 0). \<not> prefix INFO_STR (drop i (enc ?m))"
    by (simp add: list_all_iff)
  ultimately show ?thesis
    using metainfo_single_roundtrip [OF h h, of "[116]"] by (simp add: nonul_def)
qed

text \<open>
  The path of a file in a multi-file torrent: the components are joined by slashes in a terminated
  object of \<^verbatim>\<open>MAXPATHLEN\<close> bytes, and the program exits, writing nothing outside the object, when the
  joined path does not fit.
\<close>

theorem path_joined:
  assumes "components ls xs" "xs \<noteq> []"
  shows "if length (join_path xs) < MAXPATHLEN
    then \<exists>m. rfold path_element (replicate MAXPATHLEN 0) ls = Ok m \<and> path_holds m (join_path xs)
    else rfold path_element (replicate MAXPATHLEN 0) ls = Fault (Exit ''path too large'')"
  using assms by (rule path_whole)

theorem path_joined_witness:
  "\<exists>m. rfold path_element (replicate MAXPATHLEN 0) [bstring_node 3 (cstr (str ''dir'')), bstring_node 1 (cstr (str ''f''))] = Ok m
    \<and> path_holds m (str ''dir/f'')"
proof -
  have "components [bstring_node 3 (cstr (str ''dir'')), bstring_node 1 (cstr (str ''f''))] [str ''dir'', str ''f'']"
    by (simp add: components_def cstr_def nonul_def bstring_node_def set_flags_def set_body_def benc_node_create_def bflag_defs)
  from path_joined [OF this] show ?thesis by (simp add: MAXPATHLEN_def)
qed

end
