(* ===== verification/Session.thy ===== *)
theory Session
  imports Torrent
begin

text \<open>
  The session of \<^verbatim>\<open>includes.h\<close> and the bookkeeping of \<^verbatim>\<open>network.c\<close>: peers, block downloads and uploads,
  the queue of downloads of each peer, and the index of downloads by piece and offset.

  Peers and downloads are shared objects, reached from several queues, and are freed. They live in
  tables; a pointer is a number, \<open>None\<close> in a table is memory that was never allocated or is freed, and
  using such a pointer is undefined. A \<^verbatim>\<open>TAILQ\<close> is the list of its elements, and removing an element that
  is not in the queue is undefined. The red-black tree is the list of its nodes in order.

  The buffered socket of a peer is the list of messages handed over for sending, here \<open>outbox\<close> for all peers,
  and the bytes that have arrived, an argument of the functions that read them; \<^verbatim>\<open>bufferevent_write\<close> fails only when memory is exhausted, which is not modelled.
  \<^verbatim>\<open>time (NULL)\<close> is an argument.
\<close>

section \<open>Constants\<close>

definition PEER_STATE_HANDSHAKE1 :: u32 where "PEER_STATE_HANDSHAKE1 = push_bit 0 1"
definition PEER_STATE_BITFIELD :: u32 where "PEER_STATE_BITFIELD = push_bit 1 1"
definition PEER_STATE_ESTABLISHED :: u32 where "PEER_STATE_ESTABLISHED = push_bit 2 1"
definition PEER_STATE_AMCHOKING :: u32 where "PEER_STATE_AMCHOKING = push_bit 3 1"
definition PEER_STATE_CHOKED :: u32 where "PEER_STATE_CHOKED = push_bit 4 1"
definition PEER_STATE_AMINTERESTED :: u32 where "PEER_STATE_AMINTERESTED = push_bit 5 1"
definition PEER_STATE_INTERESTED :: u32 where "PEER_STATE_INTERESTED = push_bit 6 1"
definition PEER_STATE_DEAD :: u32 where "PEER_STATE_DEAD = push_bit 7 1"
definition PEER_STATE_GOTLEN :: u32 where "PEER_STATE_GOTLEN = push_bit 8 1"
definition PEER_STATE_HANDSHAKE2 :: u32 where "PEER_STATE_HANDSHAKE2 = push_bit 10 1"
definition PEER_STATE_SENDBITFIELD :: u32 where "PEER_STATE_SENDBITFIELD = push_bit 11 1"
definition PEER_STATE_FAST :: u32 where "PEER_STATE_FAST = push_bit 12 1"

lemmas peer_state_defs = PEER_STATE_HANDSHAKE1_def PEER_STATE_BITFIELD_def PEER_STATE_ESTABLISHED_def
  PEER_STATE_AMCHOKING_def PEER_STATE_CHOKED_def PEER_STATE_AMINTERESTED_def PEER_STATE_INTERESTED_def
  PEER_STATE_DEAD_def PEER_STATE_GOTLEN_def PEER_STATE_HANDSHAKE2_def PEER_STATE_SENDBITFIELD_def PEER_STATE_FAST_def

definition BLOCK_SIZE :: u32 where "BLOCK_SIZE = 16384"
definition PEER_ID_LEN :: nat where "PEER_ID_LEN = 20"

section \<open>Structures\<close>

record piece_dl =
  pc :: "nat option"
  pd_idx :: u32
  pd_off :: u32
  pd_len :: u32
  pd_bytes :: u32

record piece_ul =
  pu_idx :: u32
  pu_off :: u32
  pu_len :: u32
  pu_bytes :: u32

record piece_dl_idxnode =
  in_idx :: u32
  in_off :: u32
  in_dls :: "nat list"

record peer =
  peer_piece_dls :: "nat list"
  peer_piece_uls :: "piece_ul list"
  sin_addr :: bytes
  sin_port :: bytes
  connfd :: int
  state :: u32
  rxpending :: u32
  rxmsglen :: u32
  rxmsg :: "bytes option"
  bitfield :: "bytes option"
  pstrlen :: u8
  peer_id :: bytes
  peer_hash :: bytes
  lastrecv :: int
  connected :: int
  lastsend :: int
  totalrx :: u64
  totaltx :: u64
  dl_queue_len :: u32

record piececounter =
  pcount :: u32
  pcidx :: u32

text \<open>The control connections, by number, each with the messages written to it.\<close>

record ctl_server =
  started :: int
  conns :: "nat list"
  fresh_conn :: nat
  conn_out :: "(nat \<times> bytes) list"

text \<open>The HTTP response of the tracker: \<open>rxbuf\<close> is the part read so far, of \<open>rxsize\<close> bytes allocated.\<close>

record http_response =
  rxbuf :: bytes
  rxsize :: nat

text \<open>
  The session, with what the program leaves outside it: \<open>dsk\<close> are the files of the torrent, \<open>tracker_out\<close> the
  requests sent to the tracker, \<open>resume_file\<close> the last fast-resume file written.
\<close>

record session =
  peers :: "nat list"
  peer_at :: "nat \<Rightarrow> peer option"
  dl_at :: "nat \<Rightarrow> piece_dl option"
  piece_dl_by_idxoff :: "piece_dl_idxnode list"
  fresh_peer :: nat
  fresh_dl :: nat
  servfd :: int
  key :: "bytes option"
  ip :: "bytes option"
  numwant :: "bytes option"
  peerid :: bytes
  port :: bytes
  s_trackerid :: "bytes option"
  tp :: torrent
  dsk :: disk
  http_res :: "http_response option"
  maxfds :: u64
  announce_underway :: bool
  num_peers :: u32
  last_announce :: int
  rarity_array :: "piececounter list option"
  last_rarity :: int
  ctl_server :: "ctl_server option"
  outbox :: "(nat \<times> bytes) list"
  tracker_out :: "bytes list"
  resume_file :: "bytes option"

section \<open>Pointers and queues\<close>

definition get_peer :: "session \<Rightarrow> nat \<Rightarrow> peer res" where
  "get_peer sc p = (case peer_at sc p of None \<Rightarrow> Fault (Undef ''peer'') | Some x \<Rightarrow> Ok x)"

definition set_peer :: "session \<Rightarrow> nat \<Rightarrow> peer \<Rightarrow> session" where
  "set_peer sc p x = sc\<lparr>peer_at := (peer_at sc)(p \<mapsto> x)\<rparr>"

definition get_dl :: "session \<Rightarrow> nat \<Rightarrow> piece_dl res" where
  "get_dl sc d = (case dl_at sc d of None \<Rightarrow> Fault (Undef ''piece_dl'') | Some x \<Rightarrow> Ok x)"

definition set_dl :: "session \<Rightarrow> nat \<Rightarrow> piece_dl \<Rightarrow> session" where
  "set_dl sc d x = sc\<lparr>dl_at := (dl_at sc)(d \<mapsto> x)\<rparr>"

definition tailq_remove :: "'a \<Rightarrow> 'a list \<Rightarrow> 'a list res" where
  "tailq_remove x xs = (if x \<in> set xs then Ok (remove1 x xs) else Fault (Undef ''TAILQ_REMOVE''))"

section \<open>The index of downloads\<close>

text \<open>
  The comparison subtracts in 32 bits without sign, widens to 64 and returns an \<^verbatim>\<open>int\<close>: the difference
  modulo \<open>2 ^ 32\<close>, read as a signed number.
\<close>

definition piece_dl_idxnode_cmp :: "u32 \<times> u32 \<Rightarrow> u32 \<times> u32 \<Rightarrow> int" where
  "piece_dl_idxnode_cmp k1 k2 =
     (let idxdiff = uint (fst k1 - fst k2) in
      if idxdiff = 0 then sint (snd k1 - snd k2) else sint (word_of_int idxdiff :: u32))"

definition node_key :: "piece_dl_idxnode \<Rightarrow> u32 \<times> u32" where
  "node_key n = (in_idx n, in_off n)"

text \<open>
  The list has the nodes in the order of the walk of the tree. Its search and insertion are those of the tree as long as
  the comparison orders the keys that are in it, which it does for keys below \<open>2 ^ 31\<close> (\<open>Rbtree_Index\<close>, \<open>Bookkeeping\<close>);
  with keys that are \<open>2 ^ 31\<close> or more apart the tree of the code may miss a node that the list finds.
\<close>

definition RB_FIND :: "piece_dl_idxnode list \<Rightarrow> u32 \<times> u32 \<Rightarrow> piece_dl_idxnode option" where
  "RB_FIND ns k = find (\<lambda>n. piece_dl_idxnode_cmp k (node_key n) = 0) ns"

fun RB_INSERT :: "piece_dl_idxnode list \<Rightarrow> piece_dl_idxnode \<Rightarrow> piece_dl_idxnode list" where
  "RB_INSERT [] n = [n]"
| "RB_INSERT (m # ns) n =
     (let c = piece_dl_idxnode_cmp (node_key n) (node_key m) in
      if c < 0 then n # m # ns else if c > 0 then m # RB_INSERT ns n else m # ns)"

definition RB_REMOVE :: "piece_dl_idxnode list \<Rightarrow> u32 \<times> u32 \<Rightarrow> piece_dl_idxnode list" where
  "RB_REMOVE ns k = filter (\<lambda>n. node_key n \<noteq> k) ns"

text \<open>The queue of the node with the given key changes in place.\<close>

definition set_dls :: "piece_dl_idxnode list \<Rightarrow> u32 \<times> u32 \<Rightarrow> nat list \<Rightarrow> piece_dl_idxnode list" where
  "set_dls ns k ds = map (\<lambda>n. if node_key n = k then n\<lparr>in_dls := ds\<rparr> else n) ns"

section \<open>Downloads\<close>

definition network_piece_dl_create :: "nat \<Rightarrow> u32 \<Rightarrow> u32 \<Rightarrow> u32 \<Rightarrow> session \<Rightarrow> (nat \<times> session) res" where
  "network_piece_dl_create p idx off len sc = rbind (get_peer sc p) (\<lambda>x.
     let pd = fresh_dl sc;
         sc = (set_dl sc pd \<lparr>pc = Some p, pd_idx = idx, pd_off = off, pd_len = len, pd_bytes = 0\<rparr>)\<lparr>fresh_dl := pd + 1\<rparr>;
         ns = piece_dl_by_idxoff sc;
         ns = (case RB_FIND ns (idx, off) of
                 None \<Rightarrow> RB_INSERT ns \<lparr>in_idx = idx, in_off = off, in_dls = [pd]\<rparr>
               | Some res \<Rightarrow> set_dls ns (idx, off) (in_dls res @ [pd]))
     in Ok (pd, set_peer (sc\<lparr>piece_dl_by_idxoff := ns\<rparr>) p (x\<lparr>peer_piece_dls := peer_piece_dls x @ [pd]\<rparr>)))"

definition network_piece_dl_free :: "nat \<Rightarrow> session \<Rightarrow> session res" where
  "network_piece_dl_free pd sc = rbind (get_dl sc pd) (\<lambda>d.
     let k = (pd_idx d, pd_off d); ns = piece_dl_by_idxoff sc in
     rbind (case RB_FIND ns k of
         None \<Rightarrow> Ok ns
       | Some res \<Rightarrow> rmap (set_dls ns k) (tailq_remove pd (in_dls res))) (\<lambda>ns.
     rbind (case pc d of
         None \<Rightarrow> Ok sc
       | Some p \<Rightarrow> rbind (get_peer sc p) (\<lambda>x.
           rmap (\<lambda>ds. set_peer sc p (x\<lparr>peer_piece_dls := ds\<rparr>)) (tailq_remove pd (peer_piece_dls x)))) (\<lambda>sc.
     let ns = (case RB_FIND ns k of
                 Some res \<Rightarrow> if in_dls res = [] then RB_REMOVE ns k else ns
               | None \<Rightarrow> ns)
     in Ok (sc\<lparr>piece_dl_by_idxoff := ns, dl_at := (dl_at sc)(pd := None)\<rparr>))))"

fun find_dl :: "session \<Rightarrow> nat list \<Rightarrow> u32 \<Rightarrow> u32 \<Rightarrow> nat option res" where
  "find_dl sc [] idx off = Ok None"
| "find_dl sc (d # ds) idx off = rbind (get_dl sc d) (\<lambda>pd.
     if pd_off pd = off \<and> pd_idx pd = idx then Ok (Some d) else find_dl sc ds idx off)"

text \<open>The peer's own queue first, when a peer is given; then the first download of the index node.\<close>

definition network_piece_dl_find :: "session \<Rightarrow> nat option \<Rightarrow> u32 \<Rightarrow> u32 \<Rightarrow> nat option res" where
  "network_piece_dl_find sc p idx off =
     rbind (case p of
         None \<Rightarrow> Ok None
       | Some p \<Rightarrow> rbind (get_peer sc p) (\<lambda>x. find_dl sc (peer_piece_dls x) idx off)) (\<lambda>own. case own of
         Some d \<Rightarrow> Ok (Some d)
       | None \<Rightarrow> (case RB_FIND (piece_dl_by_idxoff sc) (idx, off) of
           None \<Rightarrow> Ok None
         | Some res \<Rightarrow> Ok (case in_dls res of [] \<Rightarrow> None | d # ds \<Rightarrow> Some d)))"

section \<open>Peers\<close>

definition new_peer :: peer where
  "new_peer = \<lparr>peer_piece_dls = [], peer_piece_uls = [], sin_addr = replicate 4 0, sin_port = replicate 2 0,
     connfd = 0, state = (0 OR PEER_STATE_CHOKED) OR PEER_STATE_AMCHOKING, rxpending = 0, rxmsglen = 0, rxmsg = None,
     bitfield = None, pstrlen = 0, peer_id = replicate 20 0, peer_hash = replicate 20 0, lastrecv = 0,
     connected = 0, lastsend = 0, totalrx = 0, totaltx = 0, dl_queue_len = 0\<rparr>"

definition network_peer_create :: "session \<Rightarrow> nat \<times> session" where
  "network_peer_create sc = (fresh_peer sc, (set_peer sc (fresh_peer sc) new_peer)\<lparr>fresh_peer := fresh_peer sc + 1\<rparr>)"

text \<open>
  One turn of the loop over the downloads of a peer that is freed: the download loses its peer, and is
  freed unless it is complete.
\<close>

definition orphan_dl :: "nat \<Rightarrow> session \<Rightarrow> nat \<Rightarrow> session res" where
  "orphan_dl p sc d = rbind (get_dl sc d) (\<lambda>pd.
     let sc = set_dl sc d (pd\<lparr>pc := None\<rparr>) in
     rbind (get_peer sc p) (\<lambda>x.
     rbind (tailq_remove d (peer_piece_dls x)) (\<lambda>ds.
     let sc = set_peer sc p (x\<lparr>peer_piece_dls := ds\<rparr>) in
     if pd_len pd \<noteq> pd_bytes pd then network_piece_dl_free d sc else Ok sc)))"

definition network_peer_free :: "nat \<Rightarrow> session \<Rightarrow> session res" where
  "network_peer_free p sc = rbind (get_peer sc p) (\<lambda>x.
     rbind (rfold (orphan_dl p) sc (peer_piece_dls x)) (\<lambda>sc.
       Ok (sc\<lparr>peer_at := (peer_at sc)(p := None)\<rparr>)))"

text \<open>A peer with the same address and port is already in the list.\<close>

fun peer_known :: "session \<Rightarrow> peer \<Rightarrow> nat list \<Rightarrow> bool res" where
  "peer_known sc x [] = Ok False"
| "peer_known sc x (ep # eps) = rbind (get_peer sc ep) (\<lambda>e.
     if sin_addr e = sin_addr x \<and> sin_port e = sin_port x then Ok True else peer_known sc x eps)"

definition network_peerlist_add_peer :: "nat \<Rightarrow> session \<Rightarrow> session res" where
  "network_peerlist_add_peer p sc = rbind (get_peer sc p) (\<lambda>x.
     rbind (peer_known sc x (peers sc)) (\<lambda>found.
       if found then network_peer_free p sc
       else Ok (sc\<lparr>peers := peers sc @ [p], num_peers := num_peers sc + 1\<rparr>)))"

section \<open>The queue of uploads, and rates\<close>

definition network_piece_ul_enqueue :: "nat \<Rightarrow> u32 \<Rightarrow> u32 \<Rightarrow> u32 \<Rightarrow> session \<Rightarrow> session res" where
  "network_piece_ul_enqueue p idx off len sc = rbind (get_peer sc p) (\<lambda>x.
     Ok (set_peer sc p (x\<lparr>peer_piece_uls := peer_piece_uls x
       @ [\<lparr>pu_idx = idx, pu_off = off, pu_len = len, pu_bytes = 0\<rparr>]\<rparr>)))"

definition network_piece_ul_dequeue :: "nat \<Rightarrow> session \<Rightarrow> (piece_ul option \<times> session) res" where
  "network_piece_ul_dequeue p sc = rbind (get_peer sc p) (\<lambda>x. case peer_piece_uls x of
       [] \<Rightarrow> Ok (None, sc)
     | pu # uls \<Rightarrow> Ok (Some pu, set_peer sc p (x\<lparr>peer_piece_uls := uls\<rparr>)))"

definition network_peer_lastcomms :: "int \<Rightarrow> peer \<Rightarrow> int" where
  "network_peer_lastcomms now x = now - lastrecv x"

definition network_peer_rxrate :: "int \<Rightarrow> peer \<Rightarrow> u64" where
  "network_peer_rxrate now x = (let rate = word_of_int (now - connected x) :: u64 in
     if rate = 0 then 0 else totalrx x div rate)"

definition network_peer_txrate :: "int \<Rightarrow> peer \<Rightarrow> u64" where
  "network_peer_txrate now x = (let rate = word_of_int (now - connected x) :: u64 in
     if rate = 0 then 0 else totaltx x div rate)"

section \<open>Sending\<close>

definition network_peer_write :: "int \<Rightarrow> nat \<Rightarrow> bytes \<Rightarrow> session \<Rightarrow> session res" where
  "network_peer_write now p msg sc = rbind (get_peer sc p) (\<lambda>x.
     Ok ((set_peer sc p (x\<lparr>lastsend := now\<rparr>))\<lparr>outbox := outbox sc @ [(p, msg)]\<rparr>))"

end
