(* ===== verification/Session_Inv.thy ===== *)
theory Session_Inv
  imports Session
begin

text \<open>
  The invariant of the session: every download is in the index node of its piece and offset, and in
  the queue of exactly the peer it points to; the index has one node per key and no empty node; the
  peer list and the counter of peers agree. The operations of \<open>Session\<close> keep it and never use a
  freed object. The locale \<open>queue_index\<close> is the contract of the index.
\<close>

section \<open>Objects that are linked into queues\<close>

text \<open>
  \<open>linked T L a\<close>: the queue \<open>L k\<close> holds exactly the objects of the table \<open>T\<close> whose attribute \<open>a\<close> is
  \<open>Some k\<close>, each once.
\<close>

definition linked :: "(nat \<Rightarrow> 'o option) \<Rightarrow> ('k \<Rightarrow> nat list) \<Rightarrow> ('o \<Rightarrow> 'k option) \<Rightarrow> bool" where
  "linked T L a \<longleftrightarrow> (\<forall>k. distinct (L k)) \<and> (\<forall>k d. d \<in> set (L k) \<longleftrightarrow> (\<exists>x. T d = Some x \<and> a x = Some k))"

lemma linkedD: "linked T L a \<Longrightarrow> d \<in> set (L k) \<Longrightarrow> \<exists>x. T d = Some x \<and> a x = Some k"
  and linked_in: "linked T L a \<Longrightarrow> T d = Some x \<Longrightarrow> a x = Some k \<Longrightarrow> d \<in> set (L k)"
  and linked_distinct: "linked T L a \<Longrightarrow> distinct (L k)"
  by (auto simp: linked_def)

lemma linked_add:
  assumes "linked T L a" "T d = None" "a x = Some k" "\<And>k'. L' k' = (if k' = k then L k @ [d] else L k')"
  shows "linked (T(d \<mapsto> x)) L' a"
  using assms by (auto simp: linked_def)

lemma linked_remove:
  assumes "linked T L a" "T d = Some x" "a x = Some k" "\<And>k'. L' k' = (if k' = k then remove1 d (L k) else L k')"
  shows "linked (T(d := None)) L' a"
  using assms by (auto simp: linked_def)

lemma linked_remove_free:
  assumes "linked T L a" "T d = Some x" "a x = None"
  shows "linked (T(d := None)) L a"
  using assms by (auto simp: linked_def)

lemma linked_unlink:
  assumes "linked T L a" "T d = Some x" "a x = Some k" "a y = None" "\<And>k'. L' k' = (if k' = k then remove1 d (L k) else L k')"
  shows "linked (T(d \<mapsto> y)) L' a"
  using assms by (auto simp: linked_def)

lemma linked_link:
  assumes "linked T L a" "T d = Some x" "a x = None" "a y = Some k" "\<And>k'. L' k' = (if k' = k then L k @ [d] else L k')"
  shows "linked (T(d \<mapsto> y)) L' a"
  using assms by (auto simp: linked_def)

lemma linked_same:
  assumes "linked T L a" "T d = Some x" "a y = a x"
  shows "linked (T(d \<mapsto> y)) L a"
  using assms by (auto simp: linked_def)

section \<open>The contract of the index\<close>

locale queue_index =
  fixes look :: "'t \<Rightarrow> 'k \<Rightarrow> 'n option"
    and ins :: "'t \<Rightarrow> 'n \<Rightarrow> 't"
    and del :: "'t \<Rightarrow> 'k \<Rightarrow> 't"
    and put :: "'t \<Rightarrow> 'k \<Rightarrow> nat list \<Rightarrow> 't"
    and node :: "'k \<Rightarrow> nat list \<Rightarrow> 'n"
    and dls :: "'n \<Rightarrow> nat list"
    and invar :: "'t \<Rightarrow> bool"
  assumes look_ins: "invar t \<Longrightarrow> look t k = None \<Longrightarrow> look (ins t (node k ds)) k' = (if k' = k then Some (node k ds) else look t k')"
    and look_put: "invar t \<Longrightarrow> look t k = Some n \<Longrightarrow> look (put t k ds) k' = (if k' = k then Some (node k ds) else look t k')"
    and look_del: "invar t \<Longrightarrow> look (del t k) k' = (if k' = k then None else look t k')"
    and invar_ins: "invar t \<Longrightarrow> look t k = None \<Longrightarrow> invar (ins t (node k ds))"
    and invar_put: "invar t \<Longrightarrow> invar (put t k ds)"
    and invar_del: "invar t \<Longrightarrow> invar (del t k)"
    and dls_node [simp]: "dls (node k ds) = ds"
begin

definition queue :: "'t \<Rightarrow> 'k \<Rightarrow> nat list" where
  "queue t k = (case look t k of None \<Rightarrow> [] | Some n \<Rightarrow> dls n)"

definition no_empty :: "'t \<Rightarrow> bool" where
  "no_empty t \<longleftrightarrow> (\<forall>k n. look t k = Some n \<longrightarrow> dls n \<noteq> [])"

definition enqueue :: "'t \<Rightarrow> 'k \<Rightarrow> nat \<Rightarrow> 't" where
  "enqueue t k d = (case look t k of None \<Rightarrow> ins t (node k [d]) | Some n \<Rightarrow> put t k (dls n @ [d]))"

definition shrink :: "'t \<Rightarrow> 'k \<Rightarrow> nat list \<Rightarrow> 't" where
  "shrink t k ds = (let t = put t k ds in
     case look t k of Some n \<Rightarrow> if dls n = [] then del t k else t | None \<Rightarrow> t)"

lemma enqueue_spec:
  assumes "invar t" "no_empty t"
  shows "invar (enqueue t k d)" "no_empty (enqueue t k d)"
    "queue (enqueue t k d) k' = (if k' = k then queue t k @ [d] else queue t k')"
  using assms
  by (auto simp: enqueue_def queue_def no_empty_def look_ins look_put invar_ins invar_put split: option.splits if_splits)

lemma shrink_spec:
  assumes "invar t" "no_empty t" "look t k = Some n"
  shows "invar (shrink t k ds)" "no_empty (shrink t k ds)"
    "queue (shrink t k ds) k' = (if k' = k then ds else queue t k')"
  using assms
  by (auto simp: shrink_def Let_def queue_def no_empty_def look_put look_del invar_put invar_del split: option.splits if_splits)

end

lemma sint_0_iff: "sint (w :: u32) = 0 \<longleftrightarrow> w = 0"
  by (simp add: signed_eq_0_iff)

lemma cmp_0 [simp]: "piece_dl_idxnode_cmp k1 k2 = 0 \<longleftrightarrow> k1 = k2"
  by (auto simp: piece_dl_idxnode_cmp_def Let_def sint_0_iff prod_eq_iff unsigned_eq_0_iff)

lemma RB_FIND_simps [simp]: "RB_FIND [] k = None" "RB_FIND (m # ns) k = (if k = node_key m then Some m else RB_FIND ns k)"
  by (simp_all add: RB_FIND_def)

lemma RB_INSERT_find:
  "RB_FIND ns (node_key n) = None \<Longrightarrow> RB_FIND (RB_INSERT ns n) k = (if k = node_key n then Some n else RB_FIND ns k)"
  by (induction ns) (auto simp: Let_def not_less order_le_less split: if_splits)

lemma RB_INSERT_keys:
  "RB_FIND ns (node_key n) = None \<Longrightarrow> set (map node_key (RB_INSERT ns n)) = insert (node_key n) (set (map node_key ns))"
  by (induction ns) (auto simp: Let_def not_less order_le_less split: if_splits)

lemma RB_FIND_None: "RB_FIND ns k = None \<longleftrightarrow> k \<notin> set (map node_key ns)"
  by (induction ns) auto

lemma RB_INSERT_distinct:
  "RB_FIND ns (node_key n) = None \<Longrightarrow> distinct (map node_key ns) \<Longrightarrow> distinct (map node_key (RB_INSERT ns n))"
proof (induction ns)
  case (Cons m ns)
  then have f: "RB_FIND ns (node_key n) = None" "node_key n \<noteq> node_key m" by (auto split: if_splits)
  then show ?case
    using Cons RB_INSERT_keys [OF f(1)] by (auto simp: Let_def RB_FIND_None split: if_splits)
qed simp

lemma set_dls_keys [simp]: "map node_key (set_dls ns k ds) = map node_key ns"
  by (simp add: set_dls_def node_key_def comp_def cong: if_cong)

lemma set_dls_other: "k' \<noteq> k \<Longrightarrow> RB_FIND (set_dls ns k ds) k' = RB_FIND ns k'"
  by (induction ns) (auto simp: set_dls_def node_key_def)

lemma set_dls_same: "RB_FIND ns k = Some n \<Longrightarrow> RB_FIND (set_dls ns k ds) k = Some \<lparr>in_idx = fst k, in_off = snd k, in_dls = ds\<rparr>"
  by (induction ns) (auto simp: set_dls_def node_key_def split: if_splits)

lemma set_dls_find: "RB_FIND ns k = Some n \<Longrightarrow>
  RB_FIND (set_dls ns k ds) k' = (if k' = k then Some \<lparr>in_idx = fst k, in_off = snd k, in_dls = ds\<rparr> else RB_FIND ns k')"
  by (simp add: set_dls_other set_dls_same)

lemma RB_REMOVE_find: "RB_FIND (RB_REMOVE ns k) k' = (if k' = k then None else RB_FIND ns k')"
  by (induction ns) (auto simp: RB_REMOVE_def)

lemma RB_REMOVE_distinct: "distinct (map node_key ns) \<Longrightarrow> distinct (map node_key (RB_REMOVE ns k))"
  by (simp add: RB_REMOVE_def distinct_map_filter)

definition new_node :: "u32 \<times> u32 \<Rightarrow> nat list \<Rightarrow> piece_dl_idxnode" where
  "new_node k ds = \<lparr>in_idx = fst k, in_off = snd k, in_dls = ds\<rparr>"

interpretation ix: queue_index RB_FIND RB_INSERT RB_REMOVE set_dls new_node in_dls "\<lambda>ns. distinct (map node_key ns)"
proof
  fix t k ds k'
  assume "RB_FIND t k = None"
  moreover have "node_key (new_node k ds) = k" by (simp add: new_node_def node_key_def)
  ultimately show "RB_FIND (RB_INSERT t (new_node k ds)) k' = (if k' = k then Some (new_node k ds) else RB_FIND t k')"
    and "distinct (map node_key t) \<Longrightarrow> distinct (map node_key (RB_INSERT t (new_node k ds)))"
    using RB_INSERT_find [of t "new_node k ds" k'] RB_INSERT_distinct [of t "new_node k ds"] by auto
qed (simp_all add: set_dls_find new_node_def RB_REMOVE_find RB_REMOVE_distinct)

section \<open>The invariant\<close>

definition dls_of :: "session \<Rightarrow> nat \<Rightarrow> nat list" where
  "dls_of sc p = (case peer_at sc p of None \<Rightarrow> [] | Some x \<Rightarrow> peer_piece_dls x)"

definition dl_key :: "piece_dl \<Rightarrow> (u32 \<times> u32) option" where
  "dl_key pd = Some (pd_idx pd, pd_off pd)"

definition links_ok :: "session \<Rightarrow> bool" where
  "links_ok sc \<longleftrightarrow> linked (dl_at sc) (dls_of sc) pc \<and> linked (dl_at sc) (ix.queue (piece_dl_by_idxoff sc)) dl_key
     \<and> distinct (map node_key (piece_dl_by_idxoff sc)) \<and> ix.no_empty (piece_dl_by_idxoff sc)
     \<and> (\<forall>d \<ge> fresh_dl sc. dl_at sc d = None) \<and> (\<forall>p \<ge> fresh_peer sc. peer_at sc p = None)"

text \<open>Allocated are the listed peers, and \<open>extra\<close>, those an operation is working on.\<close>

definition session_ok :: "nat set \<Rightarrow> session \<Rightarrow> bool" where
  "session_ok extra sc \<longleftrightarrow> links_ok sc \<and> distinct (peers sc) \<and> dom (peer_at sc) = set (peers sc) \<union> extra
     \<and> set (peers sc) \<inter> extra = {} \<and> num_peers sc = of_nat (length (peers sc))"

lemma links_okD:
  assumes "links_ok sc"
  shows "linked (dl_at sc) (dls_of sc) pc" "linked (dl_at sc) (ix.queue (piece_dl_by_idxoff sc)) dl_key"
    "distinct (map node_key (piece_dl_by_idxoff sc))" "ix.no_empty (piece_dl_by_idxoff sc)"
    "dl_at sc (fresh_dl sc) = None" "peer_at sc (fresh_peer sc) = None"
  using assms by (auto simp: links_ok_def)

lemma links_ok_cong:
  assumes "peer_at sc' = peer_at sc" "dl_at sc' = dl_at sc" "piece_dl_by_idxoff sc' = piece_dl_by_idxoff sc"
    "fresh_dl sc' = fresh_dl sc" "fresh_peer sc' = fresh_peer sc"
  shows "links_ok sc' = links_ok sc"
proof -
  have "dls_of sc' = dls_of sc" using assms(1) by (auto simp: dls_of_def)
  then show ?thesis using assms by (simp add: links_ok_def)
qed

text \<open>A change of a peer that leaves its queue of downloads alone.\<close>

lemma dls_of_set_peer [simp]: "dls_of (set_peer sc p x) q = (if q = p then peer_piece_dls x else dls_of sc q)"
  by (simp add: dls_of_def set_peer_def)

lemma set_peer_simps [simp]:
  "dl_at (set_peer sc p x) = dl_at sc" "piece_dl_by_idxoff (set_peer sc p x) = piece_dl_by_idxoff sc"
  "fresh_dl (set_peer sc p x) = fresh_dl sc" "fresh_peer (set_peer sc p x) = fresh_peer sc"
  "peers (set_peer sc p x) = peers sc" "num_peers (set_peer sc p x) = num_peers sc"
  "peer_at (set_peer sc p x) = (peer_at sc)(p \<mapsto> x)"
  by (simp_all add: set_peer_def)

lemma get_peer_Ok [simp]: "get_peer sc p = Ok x \<longleftrightarrow> peer_at sc p = Some x"
  by (simp add: get_peer_def split: option.splits)

lemma get_dl_Ok [simp]: "get_dl sc d = Ok x \<longleftrightarrow> dl_at sc d = Some x"
  by (simp add: get_dl_def split: option.splits)

lemma set_peer_links:
  assumes "links_ok sc" "peer_at sc p = Some x" "peer_piece_dls y = peer_piece_dls x"
  shows "links_ok (set_peer sc p y)"
proof -
  have "dls_of (set_peer sc p y) = dls_of sc" using assms(2,3) by (auto simp: dls_of_def)
  then show ?thesis using assms(1,2) by (auto simp: links_ok_def)
qed

lemma set_peer_ok:
  assumes "session_ok E sc" "peer_at sc p = Some x" "peer_piece_dls y = peer_piece_dls x"
  shows "session_ok E (set_peer sc p y)"
  using assms(1,2) set_peer_links [OF _ assms(2,3)] domI [of "peer_at sc" p x] by (auto simp: session_ok_def)

section \<open>Operations on downloads\<close>

text \<open>What the operations on downloads leave alone: everything but the queues, the table and the index.\<close>

definition erase :: "session \<Rightarrow> session" where
  "erase sc = sc\<lparr>peer_at := \<lambda>p. None, dl_at := \<lambda>d. None, piece_dl_by_idxoff := [], fresh_dl := 0\<rparr>"

definition peer_rest :: "session \<Rightarrow> nat \<Rightarrow> peer option" where
  "peer_rest sc p = map_option (peer_piece_dls_update (\<lambda>ds. [])) (peer_at sc p)"

definition frame :: "session \<Rightarrow> session \<Rightarrow> bool" where
  "frame sc sc' \<longleftrightarrow> erase sc' = erase sc \<and> peer_rest sc' = peer_rest sc"

lemma frame_rest: "frame sc sc' \<Longrightarrow> map_option (peer_piece_dls_update (\<lambda>ds. [])) (peer_at sc' p)
    = map_option (peer_piece_dls_update (\<lambda>ds. [])) (peer_at sc p)"
  unfolding frame_def by (metis peer_rest_def)

lemma frame_refl [simp]: "frame sc sc"
  and frame_trans: "frame a b \<Longrightarrow> frame b c \<Longrightarrow> frame a c"
  by (simp_all add: frame_def)

lemma frame_fields:
  assumes "frame sc sc'"
  shows "tp sc' = tp sc" "dsk sc' = dsk sc" "peers sc' = peers sc" "num_peers sc' = num_peers sc"
    "outbox sc' = outbox sc" "fresh_peer sc' = fresh_peer sc" "rarity_array sc' = rarity_array sc" "last_rarity sc' = last_rarity sc"
  using assms by (auto simp: frame_def erase_def dest: arg_cong [of _ _ tp] arg_cong [of _ _ dsk] arg_cong [of _ _ peers]
      arg_cong [of _ _ num_peers] arg_cong [of _ _ outbox] arg_cong [of _ _ fresh_peer]
      arg_cong [of _ _ rarity_array] arg_cong [of _ _ last_rarity])

lemma frame_peer:
  assumes "frame sc sc'" "peer_at sc p = Some x"
  shows "\<exists>ds. peer_at sc' p = Some (x\<lparr>peer_piece_dls := ds\<rparr>)"
proof -
  obtain y where y: "peer_at sc' p = Some y" "y\<lparr>peer_piece_dls := []\<rparr> = x\<lparr>peer_piece_dls := []\<rparr>"
    using frame_rest [OF assms(1), of p] assms(2) by auto
  have "y = (y\<lparr>peer_piece_dls := []\<rparr>)\<lparr>peer_piece_dls := peer_piece_dls y\<rparr>" by simp
  then have "y = x\<lparr>peer_piece_dls := peer_piece_dls y\<rparr>" unfolding y(2) by simp
  with y(1) have "peer_at sc' p = Some (x\<lparr>peer_piece_dls := peer_piece_dls y\<rparr>)" by simp
  then show ?thesis by (rule exI)
qed

lemma frame_None: "frame sc sc' \<Longrightarrow> peer_at sc' p = None \<longleftrightarrow> peer_at sc p = None"
  by (drule frame_rest [of _ _ p]) auto

lemma frame_dom: "frame sc sc' \<Longrightarrow> dom (peer_at sc') = dom (peer_at sc)"
  using frame_None by (auto simp: dom_def)

lemma frame_session_ok: "session_ok E sc \<Longrightarrow> frame sc sc' \<Longrightarrow> links_ok sc' \<Longrightarrow> session_ok E sc'"
  by (simp add: session_ok_def frame_fields frame_dom)

lemma dl_create_ok:
  assumes "links_ok sc" "peer_at sc p = Some x"
  shows "\<exists>sc'. network_piece_dl_create p idx off len sc = Ok (fresh_dl sc, sc') \<and> links_ok sc' \<and> frame sc sc'
    \<and> dl_at sc' = (dl_at sc)(fresh_dl sc \<mapsto> \<lparr>pc = Some p, pd_idx = idx, pd_off = off, pd_len = len, pd_bytes = 0\<rparr>)
    \<and> dls_of sc' = (dls_of sc)(p := dls_of sc p @ [fresh_dl sc])"
proof -
  let ?d = "fresh_dl sc" and ?ns = "piece_dl_by_idxoff sc" and ?pd = "\<lparr>pc = Some p, pd_idx = idx, pd_off = off, pd_len = len, pd_bytes = 0\<rparr>"
  let ?y = "x\<lparr>peer_piece_dls := peer_piece_dls x @ [?d]\<rparr>"
  let ?sc = "set_peer (sc\<lparr>dl_at := (dl_at sc)(?d \<mapsto> ?pd), fresh_dl := ?d + 1, piece_dl_by_idxoff := ix.enqueue ?ns (idx, off) ?d\<rparr>) p ?y"
  note l = links_okD [OF assms(1)]
  have e: "network_piece_dl_create p idx off len sc = Ok (?d, ?sc)"
    using assms(2) by (simp add: network_piece_dl_create_def get_peer_def set_dl_def Let_def ix.enqueue_def new_node_def
        cong: option.case_cong)
  note q = ix.enqueue_spec [OF l(3,4), of "(idx, off)" ?d]
  have d: "dls_of ?sc = (dls_of sc)(p := dls_of sc p @ [?d])"
    using assms(2) by (auto simp: dls_of_def set_peer_def)
  have "linked (dl_at ?sc) (dls_of ?sc) pc"
    unfolding d set_peer_simps by simp (rule linked_add [OF l(1,5)], simp_all)
  moreover have "linked (dl_at ?sc) (ix.queue (piece_dl_by_idxoff ?sc)) dl_key"
    by simp (rule linked_add [OF l(2,5), of ?pd "(idx, off)"], simp_all add: dl_key_def q(3))
  moreover have "peer_at sc (fresh_peer sc) = None" "p \<noteq> fresh_peer sc" using l(6) assms(2) by auto
  ultimately have "links_ok ?sc" using assms q(1,2) by (auto simp: links_ok_def)
  moreover have "frame sc ?sc" using assms(2) by (auto simp: frame_def erase_def peer_rest_def set_peer_def)
  ultimately show ?thesis using e d by (intro exI [of _ ?sc]) simp
qed

text \<open>Freeing a download that belongs to no peer, and one that does.\<close>

lemma index_remove:
  assumes "links_ok sc" "dl_at sc d = Some pd"
  shows "\<exists>n. RB_FIND (piece_dl_by_idxoff sc) (pd_idx pd, pd_off pd) = Some n \<and> d \<in> set (in_dls n)
    \<and> in_dls n = ix.queue (piece_dl_by_idxoff sc) (pd_idx pd, pd_off pd)"
proof -
  have "d \<in> set (ix.queue (piece_dl_by_idxoff sc) (pd_idx pd, pd_off pd))"
    using linked_in [OF links_okD(2) [OF assms(1)] assms(2), of "(pd_idx pd, pd_off pd)"] by (simp add: dl_key_def)
  then show ?thesis by (cases "RB_FIND (piece_dl_by_idxoff sc) (pd_idx pd, pd_off pd)") (simp_all add: ix.queue_def)
qed

lemma dl_free_ok:
  assumes "links_ok sc" "dl_at sc d = Some pd"
  shows "\<exists>sc'. network_piece_dl_free d sc = Ok sc' \<and> links_ok sc' \<and> frame sc sc' \<and> dl_at sc' = (dl_at sc)(d := None)
    \<and> dls_of sc' = (\<lambda>p. remove1 d (dls_of sc p))"
proof -
  let ?k = "(pd_idx pd, pd_off pd)" and ?ns = "piece_dl_by_idxoff sc"
  note l = links_okD [OF assms(1)]
  obtain n where n: "RB_FIND ?ns ?k = Some n" "d \<in> set (in_dls n)" "in_dls n = ix.queue ?ns ?k"
    using index_remove [OF assms] by blast
  let ?ns' = "ix.shrink ?ns ?k (remove1 d (in_dls n))"
  let ?sc1 = "case pc pd of None \<Rightarrow> sc | Some p \<Rightarrow> set_peer sc p ((the (peer_at sc p))\<lparr>peer_piece_dls := remove1 d (dls_of sc p)\<rparr>)"
  let ?sc = "?sc1\<lparr>piece_dl_by_idxoff := ?ns', dl_at := (dl_at sc)(d := None)\<rparr>"
  have own: "d \<in> set (dls_of sc p) \<longleftrightarrow> pc pd = Some p" for p using l(1) assms(2) by (auto simp: linked_def)
  have at: "\<exists>x. peer_at sc p = Some x \<and> d \<in> set (peer_piece_dls x) \<and> dls_of sc p = peer_piece_dls x" if "pc pd = Some p" for p
    using own [of p] that by (cases "peer_at sc p") (simp_all add: dls_of_def)
  have e: "network_piece_dl_free d sc = Ok ?sc"
    using assms(2) n(1,2) at
    by (cases "pc pd") (fastforce simp: network_piece_dl_free_def get_dl_def get_peer_def tailq_remove_def Let_def ix.shrink_def)+
  note q = ix.shrink_spec [OF l(3,4) n(1), of "remove1 d (in_dls n)"]
  have d: "dls_of ?sc = (\<lambda>p. remove1 d (dls_of sc p))"
  proof
    fix p
    show "dls_of ?sc p = remove1 d (dls_of sc p)"
      using own [of p] by (cases "pc pd") (auto simp: dls_of_def set_peer_def remove1_idem)
  qed
  have "linked (dl_at ?sc) (dls_of ?sc) pc"
  proof (cases "pc pd")
    case None
    then have "(\<lambda>p. remove1 d (dls_of sc p)) = dls_of sc" using own by (auto simp: remove1_idem)
    then show ?thesis unfolding d using linked_remove_free [OF l(1) assms(2) None] by simp
  next
    case (Some p)
    have "linked ((dl_at sc)(d := None)) (\<lambda>q. remove1 d (dls_of sc q)) pc"
      by (rule linked_remove [OF l(1) assms(2) Some]) (use own Some in \<open>auto simp: remove1_idem\<close>)
    then show ?thesis unfolding d by simp
  qed
  moreover have "linked (dl_at ?sc) (ix.queue (piece_dl_by_idxoff ?sc)) dl_key"
    by simp (rule linked_remove [OF l(2) assms(2), of ?k], simp_all add: dl_key_def q(3) flip: n(3))
  moreover have "fresh_dl ?sc = fresh_dl sc" "fresh_peer ?sc = fresh_peer sc" "piece_dl_by_idxoff ?sc = ?ns'"
    by (cases "pc pd"; simp)+
  moreover have "peer_at ?sc p = None \<longleftrightarrow> peer_at sc p = None" for p using at by (cases "pc pd") auto
  ultimately have "links_ok ?sc" using assms(1) q(1,2) by (simp add: links_ok_def)
  moreover have "frame sc ?sc" using at by (cases "pc pd") (auto simp: frame_def erase_def peer_rest_def set_peer_def)
  ultimately show ?thesis using e d by (intro exI [of _ ?sc]) simp
qed

lemma find_dl_ok:
  assumes "\<forall>d \<in> set ds. dl_at sc d \<noteq> None"
  shows "find_dl sc ds idx off = Ok (find (\<lambda>d. \<exists>pd. dl_at sc d = Some pd \<and> pd_idx pd = idx \<and> pd_off pd = off) ds)"
  using assms by (induction ds) (auto simp: get_dl_def split: option.splits)

lemma dl_find_ok:
  assumes "links_ok sc" "\<And>q. p = Some q \<Longrightarrow> peer_at sc q \<noteq> None"
  shows "\<exists>r. network_piece_dl_find sc p idx off = Ok r
    \<and> (case r of None \<Rightarrow> \<forall>d pd. dl_at sc d = Some pd \<longrightarrow> (pd_idx pd, pd_off pd) \<noteq> (idx, off)
       | Some d \<Rightarrow> \<exists>pd. dl_at sc d = Some pd \<and> pd_idx pd = idx \<and> pd_off pd = off)"
proof -
  note l = links_okD [OF assms(1)]
  let ?q = "ix.queue (piece_dl_by_idxoff sc) (idx, off)"
  let ?own = "case p of None \<Rightarrow> [] | Some q \<Rightarrow> dls_of sc q"
  have al: "\<forall>d \<in> set ?own. dl_at sc d \<noteq> None" by (cases p) (auto dest: linkedD [OF l(1)])
  have "network_piece_dl_find sc p idx off = rbind (find_dl sc ?own idx off) (\<lambda>own. case own of
      Some d \<Rightarrow> Ok (Some d) | None \<Rightarrow> Ok (case ?q of [] \<Rightarrow> None | d # ds \<Rightarrow> Some d))"
    using assms(2) by (cases p) (auto simp: network_piece_dl_find_def get_peer_def dls_of_def ix.queue_def
        split: option.splits intro!: rbind_cong)
  moreover have "(d \<in> set ?q) = (\<exists>pd. dl_at sc d = Some pd \<and> pd_idx pd = idx \<and> pd_off pd = off)" for d
    using l(2) by (simp add: linked_def dl_key_def)
  note run = calculation this
  let ?P = "\<lambda>d. \<exists>pd. dl_at sc d = Some pd \<and> pd_idx pd = idx \<and> pd_off pd = off"
  show ?thesis
  proof (cases "find ?P ?own")
    case (Some d)
    then have "?P d" by (auto simp: find_Some_iff)
    then show ?thesis using run(1) Some by (auto simp: find_dl_ok [OF al])
  next
    case None
    then show ?thesis using run by (cases ?q) (auto simp: find_dl_ok [OF al])
  qed
qed

section \<open>Peers\<close>

text \<open>A download leaves the queue of its peer and becomes an orphan.\<close>

definition unlink_dl :: "nat \<Rightarrow> session \<Rightarrow> nat \<Rightarrow> session" where
  "unlink_dl p sc d = set_peer (set_dl sc d ((the (dl_at sc d))\<lparr>pc := None\<rparr>)) p
     ((the (peer_at sc p))\<lparr>peer_piece_dls := remove1 d (dls_of sc p)\<rparr>)"

lemma unlink_ok:
  assumes "links_ok sc" "d \<in> set (dls_of sc p)"
  shows "links_ok (unlink_dl p sc d)" "frame sc (unlink_dl p sc d)"
    "dls_of (unlink_dl p sc d) = (dls_of sc)(p := remove1 d (dls_of sc p))"
    "dl_at (unlink_dl p sc d) = (dl_at sc)(d \<mapsto> (the (dl_at sc d))\<lparr>pc := None\<rparr>)"
proof -
  note l = links_okD [OF assms(1)]
  obtain pd where pd: "dl_at sc d = Some pd" "pc pd = Some p" using linkedD [OF l(1) assms(2)] by blast
  obtain x where x: "peer_at sc p = Some x" using assms(2) by (cases "peer_at sc p") (simp_all add: dls_of_def)
  show d: "dls_of (unlink_dl p sc d) = (dls_of sc)(p := remove1 d (dls_of sc p))"
    by (auto simp: unlink_dl_def dls_of_def set_peer_def set_dl_def)
  show t: "dl_at (unlink_dl p sc d) = (dl_at sc)(d \<mapsto> (the (dl_at sc d))\<lparr>pc := None\<rparr>)"
    by (simp add: unlink_dl_def set_dl_def)
  show "frame sc (unlink_dl p sc d)"
    using x by (auto simp: frame_def erase_def peer_rest_def unlink_dl_def set_peer_def set_dl_def)
  have "linked (dl_at (unlink_dl p sc d)) (dls_of (unlink_dl p sc d)) pc"
    unfolding d t by (rule linked_unlink [OF l(1) pd]) simp_all
  moreover have "linked (dl_at (unlink_dl p sc d)) (ix.queue (piece_dl_by_idxoff sc)) dl_key"
    unfolding t by (rule linked_same [OF l(2) pd(1)]) (simp add: dl_key_def pd)
  moreover have "piece_dl_by_idxoff (unlink_dl p sc d) = piece_dl_by_idxoff sc" "fresh_dl (unlink_dl p sc d) = fresh_dl sc"
    "fresh_peer (unlink_dl p sc d) = fresh_peer sc" "peer_at (unlink_dl p sc d) q = None \<longleftrightarrow> peer_at sc q = None" for q
    using x by (auto simp: unlink_dl_def set_dl_def)
  ultimately show "links_ok (unlink_dl p sc d)"
    using assms(1) pd(1) by (auto simp: links_ok_def t)
qed

lemma orphan_ok:
  assumes "links_ok sc" "d \<in> set (dls_of sc p)"
  shows "\<exists>sc'. orphan_dl p sc d = Ok sc' \<and> links_ok sc' \<and> frame sc sc'
    \<and> dls_of sc' = (dls_of sc)(p := remove1 d (dls_of sc p))"
proof -
  note u = unlink_ok [OF assms] and l = links_okD [OF assms(1)]
  obtain pd where pd: "dl_at sc d = Some pd" "pc pd = Some p" using linkedD [OF l(1) assms(2)] by blast
  obtain x where x: "peer_at sc p = Some x" using assms(2) by (cases "peer_at sc p") (simp_all add: dls_of_def)
  have run: "orphan_dl p sc d = (if pd_len pd \<noteq> pd_bytes pd then network_piece_dl_free d (unlink_dl p sc d) else Ok (unlink_dl p sc d))"
    using pd x assms(2) by (simp add: orphan_dl_def get_dl_def get_peer_def set_dl_def tailq_remove_def unlink_dl_def dls_of_def Let_def)
  show ?thesis
  proof (cases "pd_len pd = pd_bytes pd")
    case True
    then show ?thesis using run u by simp
  next
    case False
    obtain sc' where sc': "network_piece_dl_free d (unlink_dl p sc d) = Ok sc'" "links_ok sc'" "frame (unlink_dl p sc d) sc'"
      "dls_of sc' = (\<lambda>q. remove1 d (dls_of (unlink_dl p sc d) q))"
      using dl_free_ok [OF u(1), of d "pd\<lparr>pc := None\<rparr>"] u(4) pd by auto
    have "d \<notin> set (dls_of (unlink_dl p sc d) q)" for q
      using linkedD [OF links_okD(1) [OF u(1)], of d q] u(4) pd by auto
    then have "dls_of sc' = dls_of (unlink_dl p sc d)" using sc'(4) by (auto simp: remove1_idem)
    then show ?thesis using False run sc' u frame_trans by auto
  qed
qed

lemma orphans_ok:
  assumes "links_ok sc" "distinct ds" "set ds \<subseteq> set (dls_of sc p)"
  shows "\<exists>sc'. rfold (orphan_dl p) sc ds = Ok sc' \<and> links_ok sc' \<and> frame sc sc'
    \<and> set (dls_of sc' p) = set (dls_of sc p) - set ds \<and> (\<forall>q. q \<noteq> p \<longrightarrow> dls_of sc' q = dls_of sc q)"
  using assms
proof (induction ds arbitrary: sc)
  case (Cons d ds)
  obtain s1 where s1: "orphan_dl p sc d = Ok s1" "links_ok s1" "frame sc s1" "dls_of s1 = (dls_of sc)(p := remove1 d (dls_of sc p))"
    using orphan_ok [OF Cons.prems(1), of d p] Cons.prems(3) by auto
  have dist: "distinct (dls_of sc p)" using links_okD(1) [OF Cons.prems(1)] by (simp add: linked_def)
  have "set ds \<subseteq> set (dls_of s1 p)" using Cons.prems(2,3) dist s1(4) by auto
  then obtain s2 where s2: "rfold (orphan_dl p) s1 ds = Ok s2" "links_ok s2" "frame s1 s2"
    "set (dls_of s2 p) = set (dls_of s1 p) - set ds" "\<forall>q. q \<noteq> p \<longrightarrow> dls_of s2 q = dls_of s1 q"
    using Cons.IH [OF s1(2)] Cons.prems(2) by auto
  then have "set (dls_of s2 p) = set (dls_of sc p) - set (d # ds)" using s1(4) dist by auto
  then show ?case using s1 s2 frame_trans by auto
qed simp

lemma peer_free_ok:
  assumes "links_ok sc" "peer_at sc p = Some x"
  shows "\<exists>sc1. network_peer_free p sc = Ok (sc1\<lparr>peer_at := (peer_at sc1)(p := None)\<rparr>) \<and> frame sc sc1
    \<and> links_ok (sc1\<lparr>peer_at := (peer_at sc1)(p := None)\<rparr>) \<and> (\<forall>q. q \<noteq> p \<longrightarrow> dls_of sc1 q = dls_of sc q)"
proof -
  have "peer_piece_dls x = dls_of sc p" "distinct (dls_of sc p)"
    using assms(2) linked_distinct [OF links_okD(1) [OF assms(1)], of p] by (simp_all add: dls_of_def)
  then obtain sc1 where sc1: "rfold (orphan_dl p) sc (peer_piece_dls x) = Ok sc1" "links_ok sc1" "frame sc sc1"
    "dls_of sc1 p = []" "\<forall>q. q \<noteq> p \<longrightarrow> dls_of sc1 q = dls_of sc q"
    using orphans_ok [OF assms(1), of "peer_piece_dls x" p] by auto
  have "dls_of (sc1\<lparr>peer_at := (peer_at sc1)(p := None)\<rparr>) = dls_of sc1" using sc1(4) by (auto simp: dls_of_def)
  then have "links_ok (sc1\<lparr>peer_at := (peer_at sc1)(p := None)\<rparr>)" using sc1(2) by (simp add: links_ok_def)
  then show ?thesis using sc1 assms(2) by (auto simp: network_peer_free_def get_peer_def)
qed

lemma peer_create_ok:
  assumes "session_ok E sc"
  shows "case network_peer_create sc of (p, sc') \<Rightarrow> p = fresh_peer sc \<and> session_ok (insert p E) sc'
    \<and> peer_at sc' = (peer_at sc)(p \<mapsto> new_peer) \<and> tp sc' = tp sc \<and> p \<notin> E"
proof -
  have l: "links_ok sc" and n: "peer_at sc (fresh_peer sc) = None" using assms links_okD(6) by (auto simp: session_ok_def)
  let ?sc = "(set_peer sc (fresh_peer sc) new_peer)\<lparr>fresh_peer := fresh_peer sc + 1\<rparr>"
  have "dls_of ?sc = dls_of sc" using n by (auto simp: dls_of_def set_peer_def new_peer_def)
  then have "links_ok ?sc" using l by (auto simp: links_ok_def)
  moreover have "fresh_peer sc \<notin> set (peers sc) \<union> E" using assms n by (auto simp: session_ok_def)
  ultimately have "session_ok (insert (fresh_peer sc) E) ?sc" using assms by (auto simp: session_ok_def)
  then show ?thesis using \<open>fresh_peer sc \<notin> set (peers sc) \<union> E\<close> by (simp add: network_peer_create_def) (simp add: set_peer_def)
qed

lemma peer_known_ok:
  assumes "\<forall>q \<in> set ps. peer_at sc q \<noteq> None"
  shows "peer_known sc x ps = Ok (\<exists>q \<in> set ps. \<exists>e. peer_at sc q = Some e \<and> sin_addr e = sin_addr x \<and> sin_port e = sin_port x)"
  using assms by (induction ps) (auto simp: get_peer_def split: option.splits)

lemma add_peer_ok:
  assumes "session_ok (insert p E) sc" "p \<notin> E" "peer_at sc p = Some x"
  shows "\<exists>sc'. network_peerlist_add_peer p sc = Ok sc' \<and> session_ok E sc' \<and> tp sc' = tp sc \<and> dsk sc' = dsk sc"
proof -
  have l: "links_ok sc" and al: "\<forall>q \<in> set (peers sc). peer_at sc q \<noteq> None" using assms(1) by (auto simp: session_ok_def)
  let ?f = "\<exists>q \<in> set (peers sc). \<exists>e. peer_at sc q = Some e \<and> sin_addr e = sin_addr x \<and> sin_port e = sin_port x"
  show ?thesis
  proof (cases ?f)
    case True
    obtain sc1 where f: "network_peer_free p sc = Ok (sc1\<lparr>peer_at := (peer_at sc1)(p := None)\<rparr>)" "frame sc sc1"
      "links_ok (sc1\<lparr>peer_at := (peer_at sc1)(p := None)\<rparr>)"
      using peer_free_ok [OF l assms(3)] by blast
    have "session_ok E (sc1\<lparr>peer_at := (peer_at sc1)(p := None)\<rparr>)"
      using assms(1,2) f(2,3) frame_dom [OF f(2)] by (auto simp: session_ok_def frame_fields)
    then show ?thesis
      using True f assms(3) by (auto simp: network_peerlist_add_peer_def get_peer_def peer_known_ok [OF al] frame_fields)
  next
    case False
    let ?sc = "sc\<lparr>peers := peers sc @ [p], num_peers := num_peers sc + 1\<rparr>"
    have "links_ok ?sc" using l by (simp add: links_ok_cong [of ?sc sc])
    then have "session_ok E ?sc" using assms(1,2) by (auto simp: session_ok_def)
    then show ?thesis
      using False assms(3) by (auto simp: network_peerlist_add_peer_def get_peer_def peer_known_ok [OF al])
  qed
qed

section \<open>Steps that leave the bookkeeping alone\<close>

definition quiet :: "session \<Rightarrow> session \<Rightarrow> bool" where
  "quiet sc sc' \<longleftrightarrow> dl_at sc' = dl_at sc \<and> piece_dl_by_idxoff sc' = piece_dl_by_idxoff sc \<and> fresh_dl sc' = fresh_dl sc
     \<and> fresh_peer sc' = fresh_peer sc \<and> peers sc' = peers sc \<and> num_peers sc' = num_peers sc
     \<and> (\<forall>p. map_option peer_piece_dls (peer_at sc' p) = map_option peer_piece_dls (peer_at sc p))"

lemma quiet_refl [simp, intro]: "quiet sc sc"
  and quiet_trans [trans]: "quiet a b \<Longrightarrow> quiet b c \<Longrightarrow> quiet a c"
  by (simp_all add: quiet_def)

lemma quiet_dls: "quiet sc sc' \<Longrightarrow> dls_of sc' = dls_of sc"
proof
  fix p
  assume "quiet sc sc'"
  then have "map_option peer_piece_dls (peer_at sc' p) = map_option peer_piece_dls (peer_at sc p)" by (simp add: quiet_def)
  then show "dls_of sc' p = dls_of sc p" by (auto simp: dls_of_def split: option.splits)
qed

lemma quiet_None: "quiet sc sc' \<Longrightarrow> peer_at sc' p = None \<longleftrightarrow> peer_at sc p = None"
  unfolding quiet_def by (metis option.map_disc_iff)

lemma quiet_links: "quiet sc sc' \<Longrightarrow> links_ok sc \<Longrightarrow> links_ok sc'"
  using quiet_dls quiet_None by (auto simp: links_ok_def) (simp_all add: quiet_def)

lemma quiet_ok: "quiet sc sc' \<Longrightarrow> session_ok E sc \<Longrightarrow> session_ok E sc'"
proof -
  assume q: "quiet sc sc'" and ok: "session_ok E sc"
  have "dom (peer_at sc') = dom (peer_at sc)" using quiet_None [OF q] by (auto simp: dom_def)
  moreover have "peers sc' = peers sc" "num_peers sc' = num_peers sc" using q by (simp_all add: quiet_def)
  ultimately show ?thesis using quiet_links [OF q] ok by (simp add: session_ok_def)
qed

lemma quiet_set_peer: "peer_at sc p = Some x \<Longrightarrow> peer_piece_dls y = peer_piece_dls x \<Longrightarrow> quiet sc (set_peer sc p y)"
  by (simp add: quiet_def)

lemma quiet_fields [simp]: "quiet sc (sc\<lparr>outbox := o'\<rparr>)" "quiet sc (sc\<lparr>tp := t\<rparr>)" "quiet sc (sc\<lparr>dsk := dk\<rparr>)"
  "quiet sc (sc\<lparr>ctl_server := c\<rparr>)" "quiet sc (sc\<lparr>rarity_array := r\<rparr>)" "quiet sc (sc\<lparr>last_rarity := i\<rparr>)"
  "quiet sc (sc\<lparr>announce_underway := b\<rparr>)" "quiet sc (sc\<lparr>last_announce := i\<rparr>)" "quiet sc (sc\<lparr>http_res := h\<rparr>)"
  "quiet sc (sc\<lparr>tracker_out := t'\<rparr>)" "quiet sc (sc\<lparr>servfd := i\<rparr>)" "quiet sc (sc\<lparr>resume_file := rf\<rparr>)"
  by (simp_all add: quiet_def)

lemma peer_write_ok:
  assumes "peer_at sc p = Some x"
  shows "\<exists>sc'. network_peer_write now p msg sc = Ok sc' \<and> quiet sc sc' \<and> tp sc' = tp sc \<and> dsk sc' = dsk sc
    \<and> outbox sc' = outbox sc @ [(p, msg)] \<and> peer_at sc' = (peer_at sc)(p \<mapsto> x\<lparr>lastsend := now\<rparr>)"
  using assms by (simp add: network_peer_write_def get_peer_def quiet_def) (simp add: set_peer_def)

end
