(* ===== verification/Wire.thy ===== *)
theory Wire
  imports Session_Inv
begin

text \<open>
  The messages of the peer protocol as \<^verbatim>\<open>network.c\<close> builds them byte by byte, the functions that send them,
  and the fields the receiving side takes out of a message. A message is its length field in network
  byte order, its id and its fields.
\<close>

section \<open>Ids\<close>

definition PEER_MSG_ID_CHOKE :: u8 where "PEER_MSG_ID_CHOKE = 0"
definition PEER_MSG_ID_UNCHOKE :: u8 where "PEER_MSG_ID_UNCHOKE = 1"
definition PEER_MSG_ID_INTERESTED :: u8 where "PEER_MSG_ID_INTERESTED = 2"
definition PEER_MSG_ID_NOTINTERESTED :: u8 where "PEER_MSG_ID_NOTINTERESTED = 3"
definition PEER_MSG_ID_HAVE :: u8 where "PEER_MSG_ID_HAVE = 4"
definition PEER_MSG_ID_BITFIELD :: u8 where "PEER_MSG_ID_BITFIELD = 5"
definition PEER_MSG_ID_REQUEST :: u8 where "PEER_MSG_ID_REQUEST = 6"
definition PEER_MSG_ID_PIECE :: u8 where "PEER_MSG_ID_PIECE = 7"
definition PEER_MSG_ID_CANCEL :: u8 where "PEER_MSG_ID_CANCEL = 8"
definition PEER_MSG_ID_REJECT :: u8 where "PEER_MSG_ID_REJECT = 0x10"
definition PEER_MSG_ID_ALLOWEDFAST :: u8 where "PEER_MSG_ID_ALLOWEDFAST = 0x11"
definition PEER_MSG_ID_SUGGEST :: u8 where "PEER_MSG_ID_SUGGEST = 0x0D"
definition PEER_MSG_ID_HAVEALL :: u8 where "PEER_MSG_ID_HAVEALL = 0x0E"
definition PEER_MSG_ID_HAVENONE :: u8 where "PEER_MSG_ID_HAVENONE = 0x0F"

lemmas msg_id_defs = PEER_MSG_ID_CHOKE_def PEER_MSG_ID_UNCHOKE_def PEER_MSG_ID_INTERESTED_def
  PEER_MSG_ID_NOTINTERESTED_def PEER_MSG_ID_HAVE_def PEER_MSG_ID_BITFIELD_def PEER_MSG_ID_REQUEST_def
  PEER_MSG_ID_PIECE_def PEER_MSG_ID_CANCEL_def PEER_MSG_ID_REJECT_def PEER_MSG_ID_ALLOWEDFAST_def
  PEER_MSG_ID_SUGGEST_def PEER_MSG_ID_HAVEALL_def PEER_MSG_ID_HAVENONE_def

section \<open>Sending\<close>

text \<open>\<open>size4\<close> and \<open>size1\<close> are the sizes of the \<^verbatim>\<open>u_int32_t\<close> and \<^verbatim>\<open>u_int8_t\<close> variables that are copied.\<close>

abbreviation (input) size4 :: u32 where "size4 \<equiv> 4"
abbreviation (input) size1 :: u32 where "size1 \<equiv> 1"

definition network_peer_write_have :: "int \<Rightarrow> nat \<Rightarrow> u32 \<Rightarrow> session \<Rightarrow> session res" where
  "network_peer_write_have now p idx sc =
     (let msglen = size4 + size1 + size4; msglen2 = htonl (msglen - size4); idx = htonl idx in
      network_peer_write now p (mem_u32 msglen2 @ [PEER_MSG_ID_HAVE] @ mem_u32 idx) sc)"

text \<open>The messages with a piece index, an offset and a length.\<close>

definition block_msg :: "u8 \<Rightarrow> u32 \<Rightarrow> u32 \<Rightarrow> u32 \<Rightarrow> bytes" where
  "block_msg mid idx off len =
     (let msglen = size4 + size1 + size4 + size4 + size4; msglen2 = htonl (msglen - size4);
          idx = htonl idx; off = htonl off; blocklen = htonl len in
      mem_u32 msglen2 @ [mid] @ mem_u32 idx @ mem_u32 off @ mem_u32 blocklen)"

definition network_peer_request_block :: "int \<Rightarrow> nat \<Rightarrow> u32 \<Rightarrow> u32 \<Rightarrow> u32 \<Rightarrow> session \<Rightarrow> session res" where
  "network_peer_request_block now p idx off len sc = network_peer_write now p (block_msg PEER_MSG_ID_REQUEST idx off len) sc"

definition network_peer_cancel_piece :: "int \<Rightarrow> nat \<Rightarrow> session \<Rightarrow> session res" where
  "network_peer_cancel_piece now pd sc = rbind (get_dl sc pd) (\<lambda>d. case pc d of
       None \<Rightarrow> Fault (Undef ''pd->pc'')
     | Some p \<Rightarrow> network_peer_write now p (block_msg PEER_MSG_ID_CANCEL (pd_idx d) (pd_off d) (pd_len d)) sc)"

definition network_peer_reject_block :: "int \<Rightarrow> nat \<Rightarrow> u32 \<Rightarrow> u32 \<Rightarrow> u32 \<Rightarrow> session \<Rightarrow> session res" where
  "network_peer_reject_block now p idx off len sc = network_peer_write now p (block_msg PEER_MSG_ID_REJECT idx off len) sc"

text \<open>The messages that are only an id; some change a flag of the peer first.\<close>

definition id_msg :: "u8 \<Rightarrow> bytes" where
  "id_msg mid = (let len = htonl size1 in mem_u32 len @ [mid])"

definition write_flag :: "int \<Rightarrow> nat \<Rightarrow> u8 \<Rightarrow> (u32 \<Rightarrow> u32) \<Rightarrow> session \<Rightarrow> session res" where
  "write_flag now p mid f sc = rbind (get_peer sc p) (\<lambda>x.
     network_peer_write now p (id_msg mid) (set_peer sc p (x\<lparr>state := f (state x)\<rparr>)))"

definition network_peer_write_interested :: "int \<Rightarrow> nat \<Rightarrow> session \<Rightarrow> session res" where
  "network_peer_write_interested now p sc =
     write_flag now p PEER_MSG_ID_INTERESTED (\<lambda>s. s OR PEER_STATE_AMINTERESTED) sc"

definition network_peer_write_unchoke :: "int \<Rightarrow> nat \<Rightarrow> session \<Rightarrow> session res" where
  "network_peer_write_unchoke now p sc =
     write_flag now p PEER_MSG_ID_UNCHOKE (\<lambda>s. s AND NOT PEER_STATE_AMCHOKING) sc"

definition network_peer_write_choke :: "int \<Rightarrow> nat \<Rightarrow> session \<Rightarrow> session res" where
  "network_peer_write_choke now p sc =
     write_flag now p PEER_MSG_ID_CHOKE (\<lambda>s. s OR PEER_STATE_AMCHOKING) sc"

definition network_peer_write_haveall :: "int \<Rightarrow> nat \<Rightarrow> session \<Rightarrow> session res" where
  "network_peer_write_haveall now p sc = network_peer_write now p (id_msg PEER_MSG_ID_HAVEALL) sc"

definition network_peer_write_havenone :: "int \<Rightarrow> nat \<Rightarrow> session \<Rightarrow> session res" where
  "network_peer_write_havenone now p sc = network_peer_write now p (id_msg PEER_MSG_ID_HAVENONE) sc"

definition network_peer_write_keepalive :: "int \<Rightarrow> nat \<Rightarrow> session \<Rightarrow> session res" where
  "network_peer_write_keepalive now p sc = network_peer_write now p (replicate 4 0) sc"

definition network_peer_write_bitfield :: "int \<Rightarrow> nat \<Rightarrow> session \<Rightarrow> session res" where
  "network_peer_write_bitfield now p sc =
     (let bitfieldlen = (num_pieces (tp sc) + 7) div 8 in
      rbind (torrent_bitfield_get (tp sc)) (\<lambda>bitfield.
      let msglen = size4 + size1 + bitfieldlen; msglen2 = htonl (msglen - size4) in
      network_peer_write now p (mem_u32 msglen2 @ [PEER_MSG_ID_BITFIELD] @ take (unat bitfieldlen) bitfield) sc))"

definition HANDSHAKELEN :: nat where "HANDSHAKELEN = 1 + 19 + 8 + 20 + 20"

definition network_peer_handshake :: "int \<Rightarrow> nat \<Rightarrow> session \<Rightarrow> session res" where
  "network_peer_handshake now p sc = rbind (get_peer sc p) (\<lambda>x.
     let sc = set_peer sc p (x\<lparr>connected := now\<rparr>);
         msg = replicate HANDSHAKELEN 0;
         msg = msg[0 := 19];
         msg = mwrite msg 1 (str ''BitTorrent protocol'');
         msg = msg[27 := msg ! 27 OR 4]
     in if length (info_hash (tp sc)) < 20 \<or> length (peerid sc) < 20 then Fault (Undef ''memcpy'')
        else network_peer_write now p
          (mwrite (mwrite msg 28 (take 20 (info_hash (tp sc)))) 48 (take 20 (peerid sc))) sc)"

text \<open>
  \<^verbatim>\<open>network_peer_write_piece\<close>: the piece is mapped when it is not, the block is read and sent. Bytes of the
  block beyond the piece have no value; sending them is undefined. \<open>pg\<close> is the page size. A length
  near \<open>2 ^ 32\<close> makes the size of the message wrap, and the copy then leaves the message.
\<close>

definition network_peer_write_piece :: "int \<Rightarrow> int \<Rightarrow> nat \<Rightarrow> u32 \<Rightarrow> u32 \<Rightarrow> u32 \<Rightarrow> session \<Rightarrow> session res" where
  "network_peer_write_piece pg now p idx offset len sc =
     rbind (torrent_piece_find (tp sc) idx) (\<lambda>tpp.
     rbind (if tpp_flags tpp AND TORRENT_PIECE_MAPPED = 0
            then rmap (\<lambda>(tpp, t, dk). (tpp, sc\<lparr>tp := update_piece t idx tpp, dsk := dk\<rparr>)) (torrent_piece_map pg tpp (tp sc, dsk sc))
            else Ok (tpp, sc)) (\<lambda>(tpp, sc).
     rbind (torrent_block_read tpp (uint offset) len (dsk sc)) (\<lambda>r. case r of
         None \<Rightarrow> Ok sc
       | Some (block, hint) \<Rightarrow> rbind (block_bytes block) (\<lambda>data.
           let msglen = size4 + size1 + size4 + size4 + len; msglen2 = htonl (msglen - size4) in
           if uint msglen < 13 + uint len then Fault (Undef ''memcpy'')
           else rbind (network_peer_write now p
               (mem_u32 msglen2 @ [PEER_MSG_ID_PIECE] @ mem_u32 (htonl idx) @ mem_u32 (htonl offset) @ data) sc) (\<lambda>sc.
             rbind (get_peer sc p) (\<lambda>x.
               Ok (set_peer sc p (x\<lparr>totaltx := totaltx x + ucast msglen\<rparr>))))))))"

section \<open>The fields of a received message\<close>

text \<open>
  \<^verbatim>\<open>memcpy (&idx, p->rxmsg + k, sizeof (idx)); idx = ntohl (idx)\<close>: a field beyond the end of the message
  is read outside its memory.
\<close>

definition msg_u32 :: "bytes \<Rightarrow> nat \<Rightarrow> u32 res" where
  "msg_u32 m k = (if k + 4 \<le> length m then Ok (ntohl (u32_mem (mread m k 4))) else Fault (Undef ''rxmsg''))"

lemma msg_u32_append [simp]: "msg_u32 (mem_u32 (htonl w) @ r) 0 = Ok w"
  by (simp add: msg_u32_def mread_def)

lemma msg_u32_skip: "length a \<le> k \<Longrightarrow> msg_u32 (a @ r) k = msg_u32 r (k - length a)"
  by (auto simp: msg_u32_def mread_append_right)

text \<open>The length field of a message, and what follows it.\<close>

definition frame_len :: "bytes \<Rightarrow> u32" where
  "frame_len m = ntohl (u32_mem (take 4 m))"

end
