(* ===== verification/Ctl_Server.thy ===== *)
theory Ctl_Server
  imports Wire Bencode Torrent_Check
begin

text \<open>
  The control server of \<^verbatim>\<open>ctl_server.c\<close>, which reports progress to the graphical front end: its
  connections and the text messages it builds in buffers of a computed size.
\<close>

section \<open>Text buffers\<close>

text \<open>
  \<^verbatim>\<open>snprintf (dst, size, ...)\<close> with the text \<open>s\<close>: at most \<open>size - 1\<close> characters and a NUL are written. The
  value is the length of the text; a destination smaller than what is written is left.
\<close>

definition snprintf :: "bytes \<Rightarrow> nat \<Rightarrow> bytes \<Rightarrow> (nat \<times> bytes) res" where
  "snprintf dst siz s =
     (let out = (if siz = 0 then [] else take (siz - 1) s @ [0]) in
      if length out > length dst then Fault (Undef ''snprintf'') else Ok (length s, mwrite dst 0 out))"

lemma snprintf_fits:
  "length s < siz \<Longrightarrow> siz \<le> length dst \<Longrightarrow> snprintf dst siz s = Ok (length s, mwrite dst 0 (s @ [0]))"
  by (simp add: snprintf_def)

definition CTL_MESSAGE_LEN :: u32 where "CTL_MESSAGE_LEN = 64"

definition crlf :: bytes where "crlf = [13, 10]"

section \<open>Messages\<close>

text \<open>One turn of the loop over the pieces: the message, and the number of good pieces so far.\<close>

definition pieces_turn :: "torrent \<Rightarrow> u32 \<Rightarrow> bytes \<times> u32 \<Rightarrow> u32 \<Rightarrow> (bytes \<times> u32) res" where
  "pieces_turn t msglen st i = (case st of (msg, cnt) \<Rightarrow>
     rbind (torrent_piece_find t i) (\<lambda>tpp.
       if tpp_flags tpp AND TORRENT_PIECE_CKSUMOK \<noteq> 0
       then let cnt = cnt + 1 in
         rbind (snprintf (replicate 8 0) 8
           (dec_nat (unat i) @ (if cnt = good_pieces t then crlf else str '',''))) (\<lambda>(_, piece).
         rbind (strlcat msg piece (unat msglen)) (\<lambda>(n, msg).
           if n \<ge> unat msglen then Fault (Exit ''ctl_server_pieces() string truncation'') else Ok (msg, cnt)))
       else Ok (msg, cnt)))"

definition ctl_server_pieces :: "session \<Rightarrow> bytes res" where
  "ctl_server_pieces sc =
     (let t = tp sc; msglen = CTL_MESSAGE_LEN + (5 * good_pieces t) in
      rbind (snprintf (replicate (unat msglen) 0) (unat msglen) (str ''pieces:'')) (\<lambda>(_, msg).
        rmap fst (rfold (pieces_turn t msglen) (msg, 0) (piece_indexes t))))"

text \<open>\<^verbatim>\<open>inet_ntoa\<close> of an address, and \<^verbatim>\<open>ntohs\<close> of a port, from their bytes in network order.\<close>

definition inet_ntoa :: "bytes \<Rightarrow> bytes" where
  "inet_ntoa a = dec_nat (unat (a ! 0)) @ str ''.'' @ dec_nat (unat (a ! 1)) @ str ''.''
     @ dec_nat (unat (a ! 2)) @ str ''.'' @ dec_nat (unat (a ! 3))"

definition ntohs_mem :: "bytes \<Rightarrow> nat" where
  "ntohs_mem b = 256 * unat (b ! 0) + unat (b ! 1)"

definition peer_text :: "peer \<Rightarrow> bytes" where
  "peer_text x = inet_ntoa (sin_addr x) @ str '':'' @ dec_nat (ntohs_mem (sin_port x))"

definition peers_turn :: "session \<Rightarrow> u32 \<Rightarrow> bytes \<times> u32 \<Rightarrow> nat \<Rightarrow> (bytes \<times> u32) res" where
  "peers_turn sc msglen st p = (case st of (msg, cnt) \<Rightarrow>
     rbind (get_peer sc p) (\<lambda>x. let cnt = cnt + 1 in
       rbind (snprintf (replicate 32 0) 32
         (peer_text x @ (if cnt = num_peers sc then crlf else str '',''))) (\<lambda>(_, s).
       rbind (strlcat msg s (unat msglen)) (\<lambda>(n, msg).
         if n \<ge> unat msglen then Fault (Exit ''ctl_server_peers() string truncation'') else Ok (msg, cnt)))))"

definition ctl_server_peers :: "session \<Rightarrow> bytes res" where
  "ctl_server_peers sc =
     (let msglen = CTL_MESSAGE_LEN + (32 * num_peers sc) in
      rbind (snprintf (replicate (unat msglen) 0) (unat msglen) (str ''peers:'')) (\<lambda>(_, msg).
        rmap fst (rfold (peers_turn sc msglen) (msg, 0) (peers sc))))"

section \<open>Connections\<close>

definition ctl_server_write_message :: "nat \<Rightarrow> bytes \<Rightarrow> ctl_server \<Rightarrow> ctl_server res" where
  "ctl_server_write_message csc msg cs = rmap (\<lambda>s. cs\<lparr>conn_out := conn_out cs @ [(csc, s)]\<rparr>) (print_s msg)"

definition ctl_server_broadcast_message :: "bytes \<Rightarrow> ctl_server \<Rightarrow> ctl_server res" where
  "ctl_server_broadcast_message msg cs = rfold (\<lambda>cs csc. ctl_server_write_message csc msg cs) cs (conns cs)"

definition broadcast :: "bytes res \<Rightarrow> session \<Rightarrow> session res" where
  "broadcast m sc = (case ctl_server sc of
       None \<Rightarrow> Ok sc
     | Some cs \<Rightarrow> rbind m (\<lambda>msg. rmap (\<lambda>cs. sc\<lparr>ctl_server := Some cs\<rparr>) (ctl_server_broadcast_message msg cs)))"

definition ctl_server_notify_bytes :: "int \<Rightarrow> session \<Rightarrow> session res" where
  "ctl_server_notify_bytes n sc =
     broadcast (rbind (snprintf (replicate (unat CTL_MESSAGE_LEN) 0) (unat CTL_MESSAGE_LEN) (str ''bytes:'' @ dec_int n @ crlf)) (\<lambda>(l, msg).
       if l \<ge> unat CTL_MESSAGE_LEN then Fault (Exit ''ctl_server_notify_bytes() string truncation'') else Ok msg)) sc"

definition ctl_server_notify_pieces :: "session \<Rightarrow> session res" where
  "ctl_server_notify_pieces sc = broadcast (ctl_server_pieces sc) sc"

definition ctl_server_notify_peers :: "session \<Rightarrow> session res" where
  "ctl_server_notify_peers sc = broadcast (ctl_server_peers sc) sc"

definition ctl_server_start :: "int \<Rightarrow> session \<Rightarrow> session" where
  "ctl_server_start st sc = sc\<lparr>ctl_server := Some \<lparr>started = st, conns = [], fresh_conn = 0, conn_out = []\<rparr>\<rparr>"

definition BOOTSTRAP_LEN :: nat where "BOOTSTRAP_LEN = 1024"

definition torrent_size :: "torrent \<Rightarrow> int" where
  "torrent_size t = (case ttype t of SINGLEFILE \<Rightarrow> file_length (hd (files t)) | MULTIFILE \<Rightarrow> total_length t)"

definition ctl_server_conn_bootstrap :: "nat \<Rightarrow> ctl_server \<Rightarrow> session \<Rightarrow> ctl_server res" where
  "ctl_server_conn_bootstrap csc cs sc =
     rbind (snprintf (replicate BOOTSTRAP_LEN 0) BOOTSTRAP_LEN
       (str ''num_peers:'' @ dec_nat (unat (num_peers sc)) @ crlf @ str ''num_pieces:'' @ dec_nat (unat (num_pieces (tp sc))) @ crlf
        @ str ''torrent_size:'' @ dec_int (torrent_size (tp sc)) @ crlf @ str ''torrent_bytes:'' @ dec_int (started cs) @ crlf)) (\<lambda>(l, msg).
     if l \<ge> BOOTSTRAP_LEN then Fault (Exit ''ctl_server_conn_bootstrap() string truncation'')
     else rbind (ctl_server_write_message csc msg cs) (\<lambda>cs.
       rbind (ctl_server_pieces sc) (\<lambda>msg. rbind (ctl_server_write_message csc msg cs) (\<lambda>cs.
       rbind (ctl_server_peers sc) (\<lambda>msg. ctl_server_write_message csc msg cs)))))"

text \<open>\<open>error\<close> has the bits the event library reports, \<open>fd\<close> is the answer of \<^verbatim>\<open>accept\<close>.\<close>

datatype ev_error = EV_TIMEOUT | EV_EOF | EV_OTHER

definition ctl_server_handle_connect :: "ev_error list \<Rightarrow> int \<Rightarrow> session \<Rightarrow> session res" where
  "ctl_server_handle_connect err fd sc =
     (if EV_TIMEOUT \<in> set err then Fault (Exit ''timeout'')
      else if EV_EOF \<in> set err then Fault (Exit ''eof'')
      else case ctl_server sc of
        None \<Rightarrow> Fault (Undef ''cs'')
      | Some cs \<Rightarrow> let csc = fresh_conn cs; cs = cs\<lparr>fresh_conn := csc + 1\<rparr> in
          if fd = -1 then Ok (sc\<lparr>ctl_server := Some cs\<rparr>)
          else rmap (\<lambda>cs. sc\<lparr>ctl_server := Some cs\<rparr>)
            (ctl_server_conn_bootstrap csc (cs\<lparr>conns := conns cs @ [csc]\<rparr>) sc))"

definition ctl_server_handle_conn_error :: "nat \<Rightarrow> session \<Rightarrow> session res" where
  "ctl_server_handle_conn_error csc sc = (case ctl_server sc of
       None \<Rightarrow> Fault (Undef ''cs'')
     | Some cs \<Rightarrow> rmap (\<lambda>cn. sc\<lparr>ctl_server := Some (cs\<lparr>conns := cn\<rparr>)\<rparr>) (tailq_remove csc (conns cs)))"

section \<open>The messages the buffers can hold\<close>

lemma quiet_broadcast: "broadcast m sc = Ok sc' \<Longrightarrow> quiet sc sc'"
  by (auto simp: broadcast_def rbind_eq_Ok rmap_eq_Ok split: option.splits)

lemma broadcast_tp: "broadcast m sc = Ok sc' \<Longrightarrow> tp sc' = tp sc \<and> dsk sc' = dsk sc \<and> peer_at sc' = peer_at sc \<and> outbox sc' = outbox sc"
  by (auto simp: broadcast_def rbind_eq_Ok rmap_eq_Ok split: option.splits)

lemma dec_nat_nonul: "nonul (dec_nat n)"
  unfolding nonul_def using dec_nat_digits [of 0 n] digit_props(3) by metis

lemma dec_nat_length: "n < 10 ^ k \<Longrightarrow> 0 < k \<Longrightarrow> length (dec_nat n) \<le> k"
proof (induction n arbitrary: k rule: dec_nat.induct)
  case (1 n)
  show ?case
  proof (cases "n < 10")
    case True
    then show ?thesis using 1(3) by (subst dec_nat.simps) simp
  next
    case False
    then have "k \<noteq> 1" using 1(2) by auto
    then obtain j where k: "k = Suc j" "0 < j" using 1(3) by (cases k) auto
    then have "n div 10 < 10 ^ j" using 1(2) by (simp add: less_mult_imp_div_less mult.commute)
    then show ?thesis using 1(1) [OF False, of j] False k by (subst dec_nat.simps) simp
  qed
qed

text \<open>The text of a list of piece indexes, the last one followed by the end of the line.\<close>

fun pieces_text :: "u32 list \<Rightarrow> bytes" where
  "pieces_text [] = []"
| "pieces_text (i # is) = dec_nat (unat i) @ (if is = [] then crlf else str '','') @ pieces_text is"

lemma sep_text: "nonul crlf" "length crlf = 2" "nonul (str '','')"
  by (simp_all add: crlf_def nonul_def)

text \<open>One entry goes into a buffer of eight bytes and from there to the end of the message.\<close>

lemma pieces_turn_good:
  fixes c :: u32
  assumes "torrent_piece_find t i = Ok tpp" "tpp_flags tpp AND TORRENT_PIECE_CKSUMOK \<noteq> 0" "unat i < 100000"
    and "nonul s" "length (s @ 0 # r) = unat msglen"
  defines "e \<equiv> dec_nat (unat i) @ (if c + 1 = good_pieces t then crlf else str '','')"
  shows "if length (s @ e) < unat msglen
    then \<exists>r'. pieces_turn t msglen (s @ 0 # r, c) i = Ok (s @ e @ 0 # r', c + 1) \<and> length (s @ e @ 0 # r') = unat msglen
    else pieces_turn t msglen (s @ 0 # r, c) i = Fault (Exit ''ctl_server_pieces() string truncation'')"
proof -
  have e: "nonul e" "length e < 8"
    using dec_nat_length [of "unat i" 5] assms(3) dec_nat_nonul sep_text by (auto simp: e_def nonul_def)
  have "snprintf (replicate 8 0) 8 e = Ok (length e, mwrite (replicate 8 0) 0 (e @ [0]))"
    using e(2) by (intro snprintf_fits) simp_all
  moreover have "mwrite (replicate 8 0) 0 (e @ [0]) = e @ 0 # replicate (7 - length e) 0"
    using e(2) by (simp add: mwrite_def)
  moreover have "strlcat (s @ 0 # r) (e @ 0 # replicate (7 - length e) 0) (unat msglen)
    = Ok (length s + length e, mwrite (s @ 0 # r) (length s) (take (unat msglen - length s - 1) e @ [0]))"
    using assms(4,5) e(1) by (intro strlcat_spec) auto
  ultimately have run: "pieces_turn t msglen (s @ 0 # r, c) i
    = (if length s + length e \<ge> unat msglen then Fault (Exit ''ctl_server_pieces() string truncation'')
       else Ok (mwrite (s @ 0 # r) (length s) (take (unat msglen - length s - 1) e @ [0]), c + 1))"
    using assms(1,2) by (simp add: pieces_turn_def Let_def flip: e_def)
  show ?thesis
  proof (cases "length (s @ e) < unat msglen")
    case True
    then have "mwrite (s @ 0 # r) (length s) (take (unat msglen - length s - 1) e @ [0]) = s @ e @ 0 # drop (length e) r"
      using assms(5) by (simp add: mwrite_def)
    then show ?thesis using True run assms(5) by (auto simp: not_le)
  next
    case False
    then show ?thesis using run by simp
  qed
qed

lemma of_nat_inj_iff_u32: "a < 2 ^ 32 \<Longrightarrow> b < 2 ^ 32 \<Longrightarrow> (of_nat a :: u32) = of_nat b \<longleftrightarrow> a = b"
  by (auto simp: word_unat_eq_iff unat_of_nat)

lemma pieces_loop:
  assumes "\<forall>i \<in> set is. torrent_piece_find t i = Ok (piece_array t ! unat i) \<and> unat i < 100000"
    and "good_pieces t = of_nat (c + length (filter (have_piece t) is))" "c + length (filter (have_piece t) is) < 2 ^ 32"
    and "nonul s" "length (s @ 0 # r) = unat msglen"
  shows "if length (s @ pieces_text (filter (have_piece t) is)) < unat msglen
    then \<exists>r' c'. rfold (pieces_turn t msglen) (s @ 0 # r, of_nat c) is
      = Ok (s @ pieces_text (filter (have_piece t) is) @ 0 # r', c')
    else rfold (pieces_turn t msglen) (s @ 0 # r, of_nat c) is = Fault (Exit ''ctl_server_pieces() string truncation'')"
  using assms
proof (induction "is" arbitrary: s r c)
  case Nil
  then show ?case by auto
next
  case (Cons i "is")
  let ?gs = "filter (have_piece t) is"
  show ?case
  proof (cases "have_piece t i")
    case False
    then have "pieces_turn t msglen (s @ 0 # r, of_nat c) i = Ok (s @ 0 # r, of_nat c)"
      using Cons.prems(1) by (simp add: pieces_turn_def have_piece_def)
    then show ?thesis using Cons.IH [of c s r] Cons.prems False by simp
  next
    case True
    note g = True
    have last: "(of_nat c + 1 = good_pieces t) = (?gs = [])"
    proof -
      have "of_nat c + 1 = (of_nat (c + 1) :: u32)" by simp
      then have "(of_nat c + 1 = good_pieces t) \<longleftrightarrow> (of_nat (c + 1) :: u32) = of_nat (c + 1 + length ?gs)"
        using Cons.prems(2) True by simp
      also have "\<dots> \<longleftrightarrow> c + 1 = c + 1 + length ?gs"
        using Cons.prems(3) True by (subst of_nat_inj_iff_u32) simp_all
      finally show ?thesis by simp
    qed
    define e where "e = dec_nat (unat i) @ (if ?gs = [] then crlf else str '','')"
    note turn = pieces_turn_good [of t i "piece_array t ! unat i" s r msglen "of_nat c", unfolded last, folded e_def]
    have txt_eq: "pieces_text (filter (have_piece t) (i # is)) = e @ pieces_text ?gs" using True by (simp add: e_def)
    have ne: "nonul (s @ e)" using Cons.prems(4) dec_nat_nonul sep_text by (auto simp: nonul_def e_def)
    show ?thesis
    proof (cases "length (s @ e) < unat msglen")
      case True
      then obtain r' where t1: "pieces_turn t msglen (s @ 0 # r, of_nat c) i = Ok (s @ e @ 0 # r', of_nat c + 1)"
        "length (s @ e @ 0 # r') = unat msglen"
        using turn g Cons.prems by (auto simp: have_piece_def)
      have "(of_nat c :: u32) + 1 = of_nat (Suc c)" by simp
      then show ?thesis
        using Cons.IH [of "Suc c" "s @ e" r'] Cons.prems g ne t1 unfolding txt_eq by (simp del: of_nat_Suc split: if_splits)
    next
      case False
      then show ?thesis
        using turn g Cons.prems unfolding txt_eq by (simp add: have_piece_def)
    qed
  qed
qed

section \<open>Properties\<close>

text \<open>
  (C35) The message about the pieces: for a torrent of at most 100000 pieces whose counter of good pieces is
  right, \<^verbatim>\<open>ctl_server_pieces\<close> builds the list of exactly the good pieces when the text fits in the buffer,
  whose size allows five characters per piece, and otherwise ends the process; it writes nothing outside
  the buffers.
\<close>

theorem ctl_pieces_message:
  assumes "pieces_ok (tp sc)" "unat (num_pieces (tp sc)) \<le> 100000"
    and "good_pieces (tp sc) = of_nat (length (filter (have_piece (tp sc)) (piece_indexes (tp sc))))"
  defines "txt \<equiv> str ''pieces:'' @ pieces_text (filter (have_piece (tp sc)) (piece_indexes (tp sc)))"
  shows "if length txt < 64 + 5 * unat (good_pieces (tp sc))
    then \<exists>r. ctl_server_pieces sc = Ok (txt @ 0 # r)
    else ctl_server_pieces sc = Fault (Exit ''ctl_server_pieces() string truncation'')"
proof -
  let ?t = "tp sc" and ?gs = "filter (have_piece (tp sc)) (piece_indexes (tp sc))"
  let ?n = "CTL_MESSAGE_LEN + 5 * good_pieces ?t"
  have lt: "length ?gs \<le> 100000"
    using length_filter_le [of "have_piece ?t" "piece_indexes ?t"] assms(2) by (simp add: piece_indexes_def)
  then have g: "unat (good_pieces ?t) = length ?gs" unfolding assms(3) by (simp add: unat_of_nat)
  have n: "unat ?n = 64 + 5 * unat (good_pieces ?t)"
    using g lt by (simp add: CTL_MESSAGE_LEN_def unat_word_ariths)
  have first: "snprintf (replicate (unat ?n) 0) (unat ?n) (str ''pieces:'')
      = Ok (7, str ''pieces:'' @ 0 # replicate (unat ?n - 8) 0)"
    using n by (simp add: snprintf_def mwrite_def)
  have al: "\<forall>i \<in> set (piece_indexes ?t). torrent_piece_find ?t i = Ok (piece_array ?t ! unat i) \<and> unat i < 100000"
    using piece_find_in [OF assms(1)] assms(2) piece_indexes_in [of _ ?t] by fastforce
  have "nonul (str ''pieces:'')" "length (str ''pieces:'' @ 0 # replicate (unat ?n - 8) 0) = unat ?n"
    using n by (simp_all add: nonul_def)
  from pieces_loop [OF al, of 0, OF _ _ this] lt assms(3)
  have "if length txt < unat ?n
    then \<exists>r' c'. rfold (pieces_turn ?t ?n) (str ''pieces:'' @ 0 # replicate (unat ?n - 8) 0, 0) (piece_indexes ?t) = Ok (txt @ 0 # r', c')
    else rfold (pieces_turn ?t ?n) (str ''pieces:'' @ 0 # replicate (unat ?n - 8) 0, 0) (piece_indexes ?t)
      = Fault (Exit ''ctl_server_pieces() string truncation'')"
    unfolding txt_def by (simp del: str_Cons split: if_splits)
  then show ?thesis using first by (auto simp: ctl_server_pieces_def Let_def n split: if_splits)
qed

definition example_session :: "torrent \<Rightarrow> session" where
  "example_session t = \<lparr>peers = [], peer_at = \<lambda>p. None, dl_at = \<lambda>d. None, piece_dl_by_idxoff = [], fresh_peer = 0,
     fresh_dl = 0, servfd = 0, key = None, ip = None, numwant = None, peerid = replicate 20 65, port = cstr (str ''6668''),
     s_trackerid = None, tp = t, dsk = [], http_res = None, maxfds = 64, announce_underway = False, num_peers = 0,
     last_announce = 0, rarity_array = None, last_rarity = 0, ctl_server = None, outbox = [], tracker_out = [], resume_file = None\<rparr>"

theorem ctl_pieces_message_witness:
  "\<exists>r. ctl_server_pieces (example_session ((small_torrent [False, True, True])\<lparr>good_pieces := 2\<rparr>)) = Ok (str ''pieces:1,2'' @ crlf @ 0 # r)"
proof -
  let ?t = "(small_torrent [False, True, True])\<lparr>good_pieces := 2\<rparr>"
  have ok: "pieces_ok ?t" using small_torrent_ok [of "[False, True, True]"] by (simp add: pieces_ok_def)
  have "piece_indexes ?t = [0, 1, 2]" by (simp add: piece_indexes_def small_torrent_def upt_rec)
  moreover have "\<not> have_piece ?t 0" "have_piece ?t 1" "have_piece ?t 2" using small_torrent_have by (simp_all add: have_piece_def)
  ultimately have gs: "filter (have_piece ?t) (piece_indexes ?t) = [1, 2]" by simp
  have te: "pieces_text [1, 2] = str ''1,2'' @ crlf" by (simp add: dec_nat.simps)
  have tp: "tp (example_session ?t) = ?t" by (simp add: example_session_def)
  have n: "unat (num_pieces ?t) = 3" by (simp add: small_torrent_def)
  show ?thesis
    using ctl_pieces_message [of "example_session ?t", unfolded tp gs te n, OF ok] by (simp add: crlf_def)
qed

end
