(* ===== verification/Session_Safe.thy ===== *)
theory Session_Safe
  imports Ctl_Server
begin

text \<open>
  What the invariant of the session gives: freeing a peer is safe and keeps the blocks it completed,
  and the messages of the peer protocol can be read back.
\<close>

section \<open>Freeing a peer\<close>

text \<open>The table of downloads after the peer \<open>p\<close> is gone: its complete downloads stay, without a peer.\<close>

definition after_free :: "nat \<Rightarrow> piece_dl \<Rightarrow> piece_dl option" where
  "after_free p pd = (if pc pd \<noteq> Some p then Some pd
     else if pd_len pd = pd_bytes pd then Some (pd\<lparr>pc := None\<rparr>) else None)"

lemma orphan_table:
  assumes "links_ok sc" "d \<in> set (dls_of sc p)" "orphan_dl p sc d = Ok sc'"
  shows "dl_at sc' = (dl_at sc)(d := Option.bind (dl_at sc d) (after_free p))"
proof -
  note u = unlink_ok [OF assms(1,2)] and l = links_okD [OF assms(1)]
  obtain pd where pd: "dl_at sc d = Some pd" "pc pd = Some p" using linkedD [OF l(1) assms(2)] by blast
  obtain x where x: "peer_at sc p = Some x" using assms(2) by (cases "peer_at sc p") (simp_all add: dls_of_def)
  have run: "orphan_dl p sc d = (if pd_len pd \<noteq> pd_bytes pd then network_piece_dl_free d (unlink_dl p sc d) else Ok (unlink_dl p sc d))"
    using pd x assms(2) by (simp add: orphan_dl_def get_dl_def get_peer_def set_dl_def tailq_remove_def unlink_dl_def dls_of_def Let_def)
  then show ?thesis
    using dl_free_ok [OF u(1), of d "pd\<lparr>pc := None\<rparr>"] u(4) pd assms(3) by (auto simp: after_free_def split: if_splits)
qed

lemma orphans_table:
  assumes "links_ok sc" "distinct ds" "set ds \<subseteq> set (dls_of sc p)" "rfold (orphan_dl p) sc ds = Ok sc'"
  shows "dl_at sc' = (\<lambda>d. if d \<in> set ds then Option.bind (dl_at sc d) (after_free p) else dl_at sc d)"
  using assms
proof (induction ds arbitrary: sc)
  case (Cons d ds)
  obtain s1 where s1: "orphan_dl p sc d = Ok s1" "links_ok s1" "dls_of s1 = (dls_of sc)(p := remove1 d (dls_of sc p))"
    using orphan_ok [OF Cons.prems(1), of d p] Cons.prems(3) by auto
  have t: "dl_at s1 = (dl_at sc)(d := Option.bind (dl_at sc d) (after_free p))"
    using orphan_table [OF Cons.prems(1) _ s1(1)] Cons.prems(3) by simp
  have "distinct (dls_of sc p)" using links_okD(1) [OF Cons.prems(1)] by (simp add: linked_def)
  then have "set ds \<subseteq> set (dls_of s1 p)" using Cons.prems(2,3) s1(3) by auto
  then show ?case using Cons.IH [OF s1(2)] Cons.prems(2,4) s1(1) t by auto
qed simp

lemma peer_free_table:
  assumes "links_ok sc" "network_peer_free p sc = Ok sc'"
  shows "dl_at sc' d = Option.bind (dl_at sc d) (after_free p)"
proof -
  obtain x sc1 where x: "peer_at sc p = Some x" "rfold (orphan_dl p) sc (peer_piece_dls x) = Ok sc1" "dl_at sc' = dl_at sc1"
    using assms(2) by (auto simp: network_peer_free_def rbind_eq_Ok)
  have q: "peer_piece_dls x = dls_of sc p" "distinct (dls_of sc p)"
    using x(1) linked_distinct [OF links_okD(1) [OF assms(1)], of p] by (simp_all add: dls_of_def)
  have "d \<notin> set (dls_of sc p) \<Longrightarrow> Option.bind (dl_at sc d) (after_free p) = dl_at sc d"
    using linked_in [OF links_okD(1) [OF assms(1)], of d _ p] by (cases "dl_at sc d") (auto simp: after_free_def)
  then show ?thesis using orphans_table [OF assms(1) _ _ x(2)] q x(3) by simp
qed

lemma peer_free_session:
  assumes "session_ok (insert p E) sc" "p \<notin> E"
  shows "\<exists>sc'. network_peer_free p sc = Ok sc' \<and> session_ok E sc' \<and> peers sc' = peers sc \<and> tp sc' = tp sc \<and> dsk sc' = dsk sc
    \<and> num_peers sc' = num_peers sc \<and> outbox sc' = outbox sc \<and> (\<forall>q. q \<noteq> p \<longrightarrow> peer_at sc' q = peer_at sc q)"
proof -
  have l: "links_ok sc" and "p \<in> dom (peer_at sc)" using assms(1) by (auto simp: session_ok_def)
  then obtain x where x: "peer_at sc p = Some x" by auto
  obtain sc1 where f: "network_peer_free p sc = Ok (sc1\<lparr>peer_at := (peer_at sc1)(p := None)\<rparr>)" "frame sc sc1"
    "links_ok (sc1\<lparr>peer_at := (peer_at sc1)(p := None)\<rparr>)" "\<forall>q. q \<noteq> p \<longrightarrow> dls_of sc1 q = dls_of sc q"
    using peer_free_ok [OF l x] by blast
  have "session_ok E (sc1\<lparr>peer_at := (peer_at sc1)(p := None)\<rparr>)"
    using assms f(2,3) frame_dom [OF f(2)] by (auto simp: session_ok_def frame_fields)
  moreover have "peer_at sc1 q = peer_at sc q" if "q \<noteq> p" for q
  proof (cases "peer_at sc q")
    case None
    then show ?thesis using frame_None [OF f(2), of q] by simp
  next
    case (Some y)
    then obtain ds where "peer_at sc1 q = Some (y\<lparr>peer_piece_dls := ds\<rparr>)" using frame_peer [OF f(2)] by blast
    moreover have "dls_of sc1 q = dls_of sc q" using f(4) that by blast
    ultimately show ?thesis using Some by (simp add: dls_of_def)
  qed
  ultimately show ?thesis using f(1,2) by (simp add: frame_fields)
qed

section \<open>Properties\<close>

text \<open>
  (C12) Freeing a peer: with the session in order, \<^verbatim>\<open>network_peer_free\<close> never uses a freed object and the
  session is in order without the peer; the other peers keep their downloads, the blocks the peer had
  completed stay in the index without a peer, and its incomplete downloads are freed.
\<close>

theorem peer_free_safe:
  assumes "session_ok (insert p E) sc" "p \<notin> E"
  shows "\<exists>sc'. network_peer_free p sc = Ok sc' \<and> session_ok E sc' \<and> (\<forall>q. q \<noteq> p \<longrightarrow> peer_at sc' q = peer_at sc q)
    \<and> (\<forall>d pd. dl_at sc d = Some pd \<longrightarrow> dl_at sc' d =
        (if pc pd \<noteq> Some p then Some pd else if pd_len pd = pd_bytes pd then Some (pd\<lparr>pc := None\<rparr>) else None))"
  using peer_free_session [OF assms] peer_free_table [of sc p] assms(1)
  by (fastforce simp: session_ok_def after_free_def)

lemma example_session_ok: "session_ok {} (example_session t)"
  by (auto simp: session_ok_def links_ok_def linked_def example_session_def dls_of_def ix.queue_def ix.no_empty_def)

theorem peer_free_safe_witness:
  "case network_peer_create (example_session (example_torrent 0)) of (p, sc) \<Rightarrow>
     \<exists>sc'. network_peer_free p sc = Ok sc' \<and> session_ok {} sc'"
  using peer_create_ok [OF example_session_ok [of "example_torrent 0"]]
    peer_free_safe [of "fst (network_peer_create (example_session (example_torrent 0)))" "{}"
      "snd (network_peer_create (example_session (example_torrent 0)))"]
  by (auto split: prod.splits)

text \<open>
  A request, cancel or reject message read back the way \<^verbatim>\<open>network_peer_process_message\<close> reads it: the length
  field is the number of bytes that follow, the first of them is the id, and the three fields are the
  piece index, the offset and the length the message was made of.
\<close>

theorem block_msg_roundtrip:
  "frame_len (block_msg mid idx off len) = of_nat (length (block_msg mid idx off len) - 4)
   \<and> (case drop 4 (block_msg mid idx off len) of body \<Rightarrow> body ! 0 = mid
       \<and> msg_u32 body 1 = Ok idx \<and> msg_u32 body 5 = Ok off \<and> msg_u32 body 9 = Ok len)"
proof -
  have c: "msg_u32 (b # r) (Suc k) = msg_u32 r k" for b r k using msg_u32_skip [of "[b]" "Suc k" r] by simp
  have s: "msg_u32 (mem_u32 w @ r) k = msg_u32 r (k - 4)" if "4 \<le> k" for w r k
    using msg_u32_skip [of "mem_u32 w" k r] that by simp
  have l: "length (mem_u32 w) = 4" for w by simp
  have c': "msg_u32 (b # r) k = msg_u32 r (k - 1)" if "1 \<le> k" for b r k using c [of b r "k - 1"] that by simp
  have e: "msg_u32 (mem_u32 (htonl w)) 0 = Ok w" for w using msg_u32_append [of w "[]"] by simp
  show ?thesis
    unfolding block_msg_def Let_def frame_len_def by (simp add: c' s e l)
qed

end
