(* ===== verification/Sched_Select.thy ===== *)
theory Sched_Select
  imports Ctl_Server
begin

text \<open>
  The choice of the next block to download, from \<^verbatim>\<open>scheduler.c\<close>: which pieces are assigned, the rarity
  array, the rarest piece of a peer and \<^verbatim>\<open>scheduler_piece_gimme\<close>. \<open>rnd\<close> is the answer of \<^verbatim>\<open>random ()\<close>.

  The loops over the blocks of a piece advance a 32-bit offset by the block size. For a piece of more
  than \<open>2 ^ 32 - BLOCK_SIZE\<close> bytes the offset would wrap and the loop not end; the model gives a fault
  for such pieces.
\<close>

section \<open>Blocks of a piece\<close>

definition block_offs :: "u32 \<Rightarrow> u32 list res" where
  "block_offs len =
     (if unat len > 2 ^ 32 - 16384 then Fault (Undef ''off wraps'')
      else Ok (map (\<lambda>k. of_nat k * BLOCK_SIZE) [0..<(unat len + 16383) div 16384]))"

text \<open>The length of the block at an offset: the last one may be shorter.\<close>

definition block_len :: "u32 \<Rightarrow> u32 \<Rightarrow> u32" where
  "block_len len off = (if BLOCK_SIZE > len - off then len - off else BLOCK_SIZE)"

fun assigned_loop :: "session \<Rightarrow> u32 \<Rightarrow> u32 list \<Rightarrow> bool res" where
  "assigned_loop sc idx [] = Ok True"
| "assigned_loop sc idx (off # offs) = rbind (network_piece_dl_find sc None idx off) (\<lambda>r. case r of
       None \<Rightarrow> Ok False
     | Some d \<Rightarrow> rbind (get_dl sc d) (\<lambda>pd.
         if pd_bytes pd \<noteq> pd_len pd \<and> pc pd = None then Ok False else assigned_loop sc idx offs))"

definition scheduler_piece_assigned :: "session \<Rightarrow> torrent_piece \<Rightarrow> bool res" where
  "scheduler_piece_assigned sc tpp = rbind (block_offs (tpp_len tpp)) (assigned_loop sc (tpp_index tpp))"

fun endgame_loop :: "session \<Rightarrow> u32 list \<Rightarrow> bool res" where
  "endgame_loop sc [] = Ok True"
| "endgame_loop sc (i # is) = rbind (torrent_piece_find (tp sc) i) (\<lambda>tpp.
     if tpp_flags tpp AND TORRENT_PIECE_CKSUMOK = 0
     then rbind (scheduler_piece_assigned sc tpp) (\<lambda>a. if a then endgame_loop sc is else Ok False)
     else endgame_loop sc is)"

definition scheduler_is_endgame :: "session \<Rightarrow> bool res" where
  "scheduler_is_endgame sc = endgame_loop sc (piece_indexes (tp sc))"

section \<open>Sorting\<close>

text \<open>The comparisons return an \<^verbatim>\<open>int\<close>, so the differences are cut to 32 bits.\<close>

definition scheduler_piece_cmp :: "piececounter \<Rightarrow> piececounter \<Rightarrow> int" where
  "scheduler_piece_cmp x y = sint (pcount x - pcount y)"

record peercounter =
  prate :: u64
  ppeer :: nat

definition scheduler_peer_cmp :: "peercounter \<Rightarrow> peercounter \<Rightarrow> int" where
  "scheduler_peer_cmp x y = sint (ucast (prate y - prate x) :: u32)"

text \<open>
  \<^verbatim>\<open>qsort\<close> of the C library; the order of elements that compare equal is not specified, the model keeps
  it.
\<close>

fun qsort_insert :: "('a \<Rightarrow> 'a \<Rightarrow> int) \<Rightarrow> 'a \<Rightarrow> 'a list \<Rightarrow> 'a list" where
  "qsort_insert cmp x [] = [x]"
| "qsort_insert cmp x (y # ys) = (if cmp x y \<le> 0 then x # y # ys else y # qsort_insert cmp x ys)"

definition qsort :: "('a \<Rightarrow> 'a \<Rightarrow> int) \<Rightarrow> 'a list \<Rightarrow> 'a list" where
  "qsort cmp xs = foldr (qsort_insert cmp) xs []"

text \<open>The peers by download rate; a peer that is not interested has rate 0, an interested one at least 1.\<close>

definition speed_entry :: "int \<Rightarrow> session \<Rightarrow> nat \<Rightarrow> peercounter res" where
  "speed_entry now sc p = rbind (get_peer sc p) (\<lambda>x.
     Ok \<lparr>prate = (if state x AND PEER_STATE_INTERESTED \<noteq> 0
                   then let r = network_peer_rxrate now x in if r = 0 then 1 else r else 0), ppeer = p\<rparr>)"

definition scheduler_peer_speedrank :: "int \<Rightarrow> session \<Rightarrow> peercounter list res" where
  "scheduler_peer_speedrank now sc =
     rbind (rfold (\<lambda>ps p. if length ps \<ge> unat (num_peers sc) then Fault (Undef ''peers[i]'')
                          else rmap (\<lambda>e. ps @ [e]) (speed_entry now sc p)) [] (peers sc)) (\<lambda>ps.
       if length ps \<noteq> unat (num_peers sc) then Fault (Exit ''scheduler_peer_speedrank: peer number mismatch'')
       else Ok (qsort scheduler_peer_cmp ps))"

section \<open>Rarity\<close>

definition count_peer :: "session \<Rightarrow> u32 \<Rightarrow> u32 \<Rightarrow> nat \<Rightarrow> u32 res" where
  "count_peer sc i cnt p = rbind (get_peer sc p) (\<lambda>x.
     if state x AND PEER_STATE_ESTABLISHED = 0 then Ok cnt
     else case bitfield x of
         None \<Rightarrow> Ok cnt
       | Some bf \<Rightarrow> rmap (\<lambda>b. if b then cnt + 1 else cnt) (util_getbit bf i))"

definition scheduler_piece_rarityarray :: "int \<Rightarrow> session \<Rightarrow> session res" where
  "scheduler_piece_rarityarray now sc =
     rbind (rfold (\<lambda>ps i. rmap (\<lambda>c. ps @ [\<lparr>pcount = c, pcidx = i\<rparr>]) (rfold (count_peer sc i) 0 (peers sc))) []
        (piece_indexes (tp sc))) (\<lambda>ps.
       Ok (sc\<lparr>last_rarity := now, rarity_array := Some (qsort scheduler_piece_cmp ps)\<rparr>))"

definition RARITY_AGE :: int where "RARITY_AGE = 5"

text \<open>
  The loop of \<^verbatim>\<open>scheduler_piece_find_rarest\<close>: \<open>seen\<close> is \<^verbatim>\<open>tpp\<close>, the last piece looked at, and the flag of the
  result says whether the loop found one. \<open>ignore\<close> is \<^verbatim>\<open>flag == FIND_RAREST_IGNORE_ASSIGNED\<close>.
\<close>

fun rarest_loop :: "session \<Rightarrow> peer \<Rightarrow> piececounter list \<Rightarrow> bool \<Rightarrow> u32 list \<Rightarrow> torrent_piece option \<Rightarrow> (torrent_piece option \<times> bool) res" where
  "rarest_loop sc x ps ignore [] seen = Ok (seen, False)"
| "rarest_loop sc x ps ignore (i # is) seen =
     rbind (case bitfield x of None \<Rightarrow> Ok True | Some bf \<Rightarrow> util_getbit bf i) (\<lambda>has.
     if \<not> has then rarest_loop sc x ps ignore is seen
     else if unat i \<ge> length ps then Fault (Undef ''pieces[i]'')
     else rbind (torrent_piece_find (tp sc) (pcidx (ps ! unat i))) (\<lambda>tpp.
       if tpp_flags tpp AND TORRENT_PIECE_CKSUMOK \<noteq> 0 then rarest_loop sc x ps ignore is (Some tpp)
       else if ignore
       then rbind (scheduler_piece_assigned sc tpp) (\<lambda>a.
              if a then rarest_loop sc x ps ignore is (Some tpp) else Ok (Some tpp, True))
       else Ok (Some tpp, True)))"

definition scheduler_piece_find_rarest :: "int \<Rightarrow> nat \<Rightarrow> bool \<Rightarrow> session \<Rightarrow> (u32 \<times> bool \<times> session) res" where
  "scheduler_piece_find_rarest now p ignore sc =
     rbind (if now - last_rarity sc > RARITY_AGE then scheduler_piece_rarityarray now sc else Ok sc) (\<lambda>sc.
     rbind (get_peer sc p) (\<lambda>x.
     rbind (rarest_loop sc x (case rarity_array sc of None \<Rightarrow> [] | Some ps \<Rightarrow> ps) ignore (piece_indexes (tp sc)) None) (\<lambda>(tpp, found).
       Ok (case tpp of None \<Rightarrow> 0 | Some t \<Rightarrow> tpp_index t, found, sc))))"

section \<open>The next block\<close>

text \<open>The peer has the piece, by its bit field.\<close>

definition peer_has :: "peer \<Rightarrow> u32 \<Rightarrow> bool res" where
  "peer_has x i = (case bitfield x of None \<Rightarrow> Ok False | Some bf \<Rightarrow> util_getbit bf i)"

text \<open>The first loop: a piece that has blocks in the index and blocks that are not assigned.\<close>

fun partial_loop :: "session \<Rightarrow> peer \<Rightarrow> piece_dl_idxnode list \<Rightarrow> u32 option res" where
  "partial_loop sc x [] = Ok None"
| "partial_loop sc x (n # ns) = rbind (torrent_piece_find (tp sc) (in_idx n)) (\<lambda>tpp.
     if tpp_flags tpp AND TORRENT_PIECE_CKSUMOK = 0
     then rbind (scheduler_piece_assigned sc tpp) (\<lambda>a.
            rbind (if a then Ok False else peer_has x (in_idx n)) (\<lambda>take.
              if take then Ok (Some (in_idx n)) else partial_loop sc x ns))
     else partial_loop sc x ns)"

text \<open>The second: the pieces of the peer that we do not have and that are not assigned.\<close>

definition useful :: "session \<Rightarrow> peer \<Rightarrow> u32 list \<Rightarrow> u32 \<Rightarrow> u32 list res" where
  "useful sc x is i = rbind (peer_has x i) (\<lambda>has.
     if \<not> has then Ok is
     else rbind (torrent_piece_find (tp sc) i) (\<lambda>tpp.
       if tpp_flags tpp AND TORRENT_PIECE_CKSUMOK \<noteq> 0 then Ok is
       else rbind (scheduler_piece_assigned sc tpp) (\<lambda>a. Ok (if a then is else is @ [i]))))"

definition choose_piece :: "int \<Rightarrow> nat \<Rightarrow> nat \<Rightarrow> session \<Rightarrow> (u32 option \<times> session) res" where
  "choose_piece now rnd p sc = rbind (get_peer sc p) (\<lambda>x.
     rbind (partial_loop sc x (piece_dl_by_idxoff sc)) (\<lambda>r. case r of
         Some idx \<Rightarrow> Ok (Some idx, sc)
       | None \<Rightarrow>
           if good_pieces (tp sc) < 4 \<and> num_pieces (tp sc) > 4
           then rbind (rfold (useful sc x) [] (piece_indexes (tp sc))) (\<lambda>ps.
                  if ps = [] then Ok (None, sc) else Ok (Some (ps ! (rnd mod length ps)), sc))
           else rbind (scheduler_piece_find_rarest now p True sc) (\<lambda>(idx, res, sc).
                  if res then Ok (Some idx, sc) else Ok (None, sc))))"

datatype next_block = New u32 | Recycle nat

fun next_loop :: "session \<Rightarrow> u32 \<Rightarrow> u32 list \<Rightarrow> next_block res" where
  "next_loop sc idx [] = Fault (Exit ''gone to a bad offset'')"
| "next_loop sc idx (off # offs) = rbind (network_piece_dl_find sc None idx off) (\<lambda>r. case r of
       None \<Rightarrow> Ok (New off)
     | Some d \<Rightarrow> rbind (get_dl sc d) (\<lambda>pd.
         if pc pd = None \<and> pd_bytes pd \<noteq> pd_len pd then Ok (Recycle d) else next_loop sc idx offs))"

definition take_block :: "nat \<Rightarrow> u32 \<Rightarrow> torrent_piece \<Rightarrow> session \<Rightarrow> (nat \<times> session) res" where
  "take_block p idx tpp sc =
     rbind (block_offs (tpp_len tpp)) (\<lambda>offs.
     rbind (next_loop sc idx offs) (\<lambda>b. case b of
         New off \<Rightarrow> network_piece_dl_create p idx off (block_len (tpp_len tpp) off) sc
       | Recycle d \<Rightarrow> rbind (get_dl sc d) (\<lambda>pd. rbind (get_peer sc p) (\<lambda>x.
           Ok (d, set_peer (set_dl sc d (pd\<lparr>pc := Some p\<rparr>)) p (x\<lparr>peer_piece_dls := peer_piece_dls x @ [d]\<rparr>))))))"

text \<open>
  \<^verbatim>\<open>scheduler_piece_gimme\<close>: the download, whether \<^verbatim>\<open>*hint\<close> was set, and the session. \<open>nocreate\<close> is the flag
  \<^verbatim>\<open>PIECE_GIMME_NOCREATE\<close>.
\<close>

definition scheduler_piece_gimme :: "int \<Rightarrow> nat \<Rightarrow> nat \<Rightarrow> bool \<Rightarrow> session \<Rightarrow> (nat option \<times> bool \<times> session) res" where
  "scheduler_piece_gimme now rnd p nocreate sc = rbind (choose_piece now rnd p sc) (\<lambda>(r, sc). case r of
       None \<Rightarrow> Ok (None, False, sc)
     | Some idx \<Rightarrow> rbind (torrent_piece_find (tp sc) idx) (\<lambda>tpp.
         if nocreate then Ok (None, True, sc)
         else rmap (\<lambda>(d, sc). (Some d, False, sc)) (take_block p idx tpp sc)))"

end
