(* ===== verification/Sched_Sound.thy ===== *)
theory Sched_Sound
  imports Sched_Select
begin

text \<open>
  What \<^verbatim>\<open>scheduler_piece_gimme\<close> hands out: a block of a piece that is not yet good, which no other peer
  is working on, linked into the queues; the function never leaves the bookkeeping inconsistent and
  never runs past the end of a piece.
\<close>

section \<open>Assigned blocks\<close>

text \<open>The block at an offset is downloaded, or being downloaded from some peer.\<close>

definition busy :: "session \<Rightarrow> u32 \<Rightarrow> u32 \<Rightarrow> bool" where
  "busy sc idx off \<longleftrightarrow> (\<exists>d pd. network_piece_dl_find sc None idx off = Ok (Some d) \<and> dl_at sc d = Some pd
     \<and> (pd_bytes pd = pd_len pd \<or> pc pd \<noteq> None))"

lemma dl_find_index:
  assumes "links_ok sc"
  obtains "network_piece_dl_find sc None idx off = Ok None" "\<forall>d pd. dl_at sc d = Some pd \<longrightarrow> (pd_idx pd, pd_off pd) \<noteq> (idx, off)"
  | d pd where "network_piece_dl_find sc None idx off = Ok (Some d)" "dl_at sc d = Some pd" "pd_idx pd = idx" "pd_off pd = off"
proof -
  obtain r where "network_piece_dl_find sc None idx off = Ok r" "case r of
      None \<Rightarrow> \<forall>d pd. dl_at sc d = Some pd \<longrightarrow> (pd_idx pd, pd_off pd) \<noteq> (idx, off)
    | Some d \<Rightarrow> \<exists>pd. dl_at sc d = Some pd \<and> pd_idx pd = idx \<and> pd_off pd = off"
    using dl_find_ok [OF assms, of None idx off] by auto
  then show thesis using that by (cases r) auto
qed

lemma assigned_loop_ok:
  assumes "links_ok sc"
  shows "assigned_loop sc idx offs = Ok (\<forall>off \<in> set offs. busy sc idx off)"
proof (induction offs)
  case (Cons off offs)
  then show ?case
    by (cases rule: dl_find_index [OF assms, of idx off]) (auto simp: get_dl_def busy_def)
qed simp

text \<open>The next block is the first one that is not busy.\<close>

lemma next_loop_ok:
  assumes "links_ok sc" "\<exists>off \<in> set offs. \<not> busy sc idx off"
  shows "\<exists>b off. next_loop sc idx offs = Ok b \<and> find (\<lambda>off. \<not> busy sc idx off) offs = Some off \<and> (case b of
      New off' \<Rightarrow> off' = off \<and> (\<forall>d pd. dl_at sc d = Some pd \<longrightarrow> (pd_idx pd, pd_off pd) \<noteq> (idx, off))
    | Recycle d \<Rightarrow> \<exists>pd. dl_at sc d = Some pd \<and> pd_idx pd = idx \<and> pd_off pd = off \<and> pc pd = None \<and> pd_bytes pd \<noteq> pd_len pd)"
  using assms(2)
proof (induction offs)
  case (Cons off offs)
  show ?case
  proof (cases rule: dl_find_index [OF assms(1), of idx off])
    case 1
    then have "\<not> busy sc idx off" by (auto simp: busy_def)
    then show ?thesis using 1 by (intro exI [of _ "New off"]) simp
  next
    case (2 d pd)
    show ?thesis
    proof (cases "pc pd = None \<and> pd_bytes pd \<noteq> pd_len pd")
      case True
      then have "\<not> busy sc idx off" using 2 by (auto simp: busy_def)
      then show ?thesis using 2 True by (intro exI [of _ "Recycle d"]) (simp add: get_dl_def)
    next
      case False
      then have b: "busy sc idx off" using 2 by (auto simp: busy_def)
      then have "next_loop sc idx (off # offs) = next_loop sc idx offs" using 2 False by (auto simp: get_dl_def)
      then show ?thesis using Cons b by simp
    qed
  qed
qed simp

section \<open>Taking a block\<close>

lemma recycle_ok:
  assumes "links_ok sc" "dl_at sc d = Some pd" "pc pd = None" "peer_at sc p = Some x"
  defines "sc' \<equiv> set_peer (set_dl sc d (pd\<lparr>pc := Some p\<rparr>)) p (x\<lparr>peer_piece_dls := peer_piece_dls x @ [d]\<rparr>)"
  shows "links_ok sc'" "frame sc sc'"
proof -
  note l = links_okD [OF assms(1)]
  have t: "dl_at sc' = (dl_at sc)(d \<mapsto> pd\<lparr>pc := Some p\<rparr>)" by (simp add: sc'_def set_dl_def)
  have d: "dls_of sc' = (dls_of sc)(p := dls_of sc p @ [d])"
    using assms(4) by (auto simp: sc'_def dls_of_def set_dl_def)
  have "linked (dl_at sc') (dls_of sc') pc"
    unfolding t d by (rule linked_link [OF l(1) assms(2,3)]) simp_all
  moreover have "linked (dl_at sc') (ix.queue (piece_dl_by_idxoff sc)) dl_key"
    unfolding t by (rule linked_same [OF l(2) assms(2)]) (simp add: dl_key_def)
  ultimately show "links_ok sc'"
    using assms(1,2,4) t by (auto simp: links_ok_def sc'_def set_dl_def)
  show "frame sc sc'" using assms(4) by (auto simp: frame_def erase_def peer_rest_def sc'_def set_peer_def set_dl_def)
qed

text \<open>The download \<open>d\<close> in \<open>sc'\<close> assigns to \<open>p\<close> the first block of piece \<open>idx\<close> that is not busy: a block without any
  download, or an incomplete download that has lost its peer.\<close>

definition handed :: "session \<Rightarrow> nat \<Rightarrow> u32 \<Rightarrow> nat \<Rightarrow> u32 list \<Rightarrow> nat \<Rightarrow> session \<Rightarrow> bool" where
  "handed sc p idx len offs d sc' \<longleftrightarrow> (\<exists>pd. dl_at sc' d = Some pd \<and> pc pd = Some p \<and> pd_idx pd = idx
     \<and> find (\<lambda>off. \<not> busy sc idx off) offs = Some (pd_off pd)
     \<and> (dl_at sc d = None \<and> (\<forall>d' pd'. dl_at sc d' = Some pd' \<longrightarrow> (pd_idx pd', pd_off pd') \<noteq> (idx, pd_off pd))
          \<and> unat (pd_len pd) = min 16384 (len - unat (pd_off pd)) \<and> pd_bytes pd = 0
        \<or> (\<exists>pd0. dl_at sc d = Some pd0 \<and> pc pd0 = None \<and> pd_bytes pd0 \<noteq> pd_len pd0 \<and> pd = pd0\<lparr>pc := Some p\<rparr>)) \<and> (\<forall>e. e \<noteq> d \<longrightarrow> dl_at sc' e = dl_at sc e))"

lemma block_offs_in:
  assumes "block_offs len = Ok offs" "off \<in> set offs"
  shows "unat off < unat len" "unat (block_len len off) = min 16384 (unat len - unat off)"
proof -
  obtain k where k: "off = of_nat k * BLOCK_SIZE" "k < (unat len + 16383) div 16384" and l: "unat len \<le> 2 ^ 32 - 16384"
    using assms by (auto simp: block_offs_def split: if_splits)
  then have "k * 16384 < unat len" by linarith
  moreover have "off = of_nat (k * 16384)" by (simp add: k(1) BLOCK_SIZE_def)
  moreover have "k * 16384 < 2 ^ 32" using \<open>k * 16384 < unat len\<close> unsigned_less [of len, where 'a = nat] by simp
  ultimately have u: "unat off = k * 16384" by (simp add: unat_of_nat del: of_nat_mult)
  then show "unat off < unat len" using \<open>k * 16384 < unat len\<close> by simp
  then have "unat (len - off) = unat len - unat off" by (simp add: unat_sub word_le_nat_alt)
  then show "unat (block_len len off) = min 16384 (unat len - unat off)"
    by (auto simp: block_len_def BLOCK_SIZE_def word_less_nat_alt)
qed

lemma take_block_ok:
  assumes "links_ok sc" "peer_at sc p = Some x" "block_offs (tpp_len tpp) = Ok offs" "\<exists>off \<in> set offs. \<not> busy sc idx off"
  shows "\<exists>d sc'. take_block p idx tpp sc = Ok (d, sc') \<and> links_ok sc' \<and> frame sc sc' \<and> handed sc p idx (unat (tpp_len tpp)) offs d sc'"
proof -
  obtain b off where b: "next_loop sc idx offs = Ok b" "find (\<lambda>off. \<not> busy sc idx off) offs = Some off" "case b of
      New off' \<Rightarrow> off' = off \<and> (\<forall>d pd. dl_at sc d = Some pd \<longrightarrow> (pd_idx pd, pd_off pd) \<noteq> (idx, off))
    | Recycle d \<Rightarrow> \<exists>pd. dl_at sc d = Some pd \<and> pd_idx pd = idx \<and> pd_off pd = off \<and> pc pd = None \<and> pd_bytes pd \<noteq> pd_len pd"
    using next_loop_ok [OF assms(1,4)] by blast
  have off: "off \<in> set offs" using b(2) by (auto simp: find_Some_iff)
  show ?thesis
  proof (cases b)
    case (New off')
    obtain sc' where "network_piece_dl_create p idx off (block_len (tpp_len tpp) off) sc = Ok (fresh_dl sc, sc')" "links_ok sc'"
      "frame sc sc'" "dl_at sc' = (dl_at sc)(fresh_dl sc \<mapsto> \<lparr>pc = Some p, pd_idx = idx, pd_off = off,
         pd_len = block_len (tpp_len tpp) off, pd_bytes = 0\<rparr>)"
      using dl_create_ok [OF assms(1,2)] by metis
    then show ?thesis
      using New b assms(3) links_okD(5) [OF assms(1)] block_offs_in(2) [OF assms(3) off] by (auto simp: take_block_def handed_def)
  next
    case (Recycle d)
    then obtain pd where pd: "dl_at sc d = Some pd" "pd_idx pd = idx" "pd_off pd = off" "pc pd = None" "pd_bytes pd \<noteq> pd_len pd"
      using b(3) by auto
    then show ?thesis
      using Recycle b(1,2) assms(2,3) recycle_ok [OF assms(1) pd(1,4) assms(2)]
      by (simp add: take_block_def get_dl_def get_peer_def handed_def) (simp add: set_dl_def)
  qed
qed

section \<open>Choosing a piece\<close>

definition torrent_ok :: "torrent \<Rightarrow> bool" where
  "torrent_ok t \<longleftrightarrow> pieces_ok t \<and> (\<forall>i. unat i < unat (num_pieces t) \<longrightarrow>
     tpp_index (piece_array t ! unat i) = i \<and> unat (tpp_len (piece_array t ! unat i)) \<le> 2 ^ 32 - 16384)"

definition rarity_ok :: "torrent \<Rightarrow> piececounter list \<Rightarrow> bool" where
  "rarity_ok t ps \<longleftrightarrow> length ps = unat (num_pieces t) \<and> (\<forall>c \<in> set ps. unat (pcidx c) < unat (num_pieces t))"

definition bits_ok :: "torrent \<Rightarrow> peer \<Rightarrow> bool" where
  "bits_ok t x \<longleftrightarrow> (\<forall>bf. bitfield x = Some bf \<longrightarrow> length bf = unat (bitfield_len t))"

text \<open>What the scheduler relies on beside the links: bit fields of the right size, piece indexes in range.\<close>

definition sched_ok :: "session \<Rightarrow> bool" where
  "sched_ok sc \<longleftrightarrow> torrent_ok (tp sc) \<and> (\<forall>p x. peer_at sc p = Some x \<longrightarrow> bits_ok (tp sc) x)
     \<and> (\<forall>d pd. dl_at sc d = Some pd \<longrightarrow> unat (pd_idx pd) < unat (num_pieces (tp sc)))
     \<and> (\<forall>ps. rarity_array sc = Some ps \<longrightarrow> rarity_ok (tp sc) ps)"

definition offs_of :: "torrent \<Rightarrow> u32 \<Rightarrow> u32 list" where
  "offs_of t i = map (\<lambda>k. of_nat k * BLOCK_SIZE) [0..<(unat (tpp_len (piece_array t ! unat i)) + 16383) div 16384]"

abbreviation piece_len :: "torrent \<Rightarrow> u32 \<Rightarrow> nat" where
  "piece_len t i \<equiv> unat (tpp_len (piece_array t ! unat i))"

definition wanted :: "session \<Rightarrow> u32 \<Rightarrow> bool" where
  "wanted sc i \<longleftrightarrow> unat i < unat (num_pieces (tp sc)) \<and> \<not> have_piece (tp sc) i \<and> (\<exists>off \<in> set (offs_of (tp sc) i). \<not> busy sc i off)"

lemma torrent_ok_piece:
  assumes "torrent_ok t" "unat i < unat (num_pieces t)"
  shows "torrent_piece_find t i = Ok (piece_array t ! unat i)" "tpp_index (piece_array t ! unat i) = i"
    "block_offs (tpp_len (piece_array t ! unat i)) = Ok (offs_of t i)"
  using assms piece_find_in [of t i] by (auto simp: torrent_ok_def block_offs_def offs_of_def)

lemma assigned_ok:
  assumes "links_ok sc" "torrent_ok (tp sc)" "unat i < unat (num_pieces (tp sc))"
  shows "scheduler_piece_assigned sc (piece_array (tp sc) ! unat i) = Ok (\<forall>off \<in> set (offs_of (tp sc) i). busy sc i off)"
  using torrent_ok_piece [OF assms(2,3)] assigned_loop_ok [OF assms(1)] by (simp add: scheduler_piece_assigned_def)

lemma getbit_in:
  assumes "torrent_ok t" "length bf = unat (bitfield_len t)" "unat i < unat (num_pieces t)"
  shows "\<exists>b. util_getbit bf i = Ok b"
proof -
  have "pieces_ok t" using assms(1) by (simp add: torrent_ok_def)
  then show ?thesis using bf.get_in [of i bf] bitfield_covers [of t i] assms(2,3) by (simp add: is_Ok_iff)
qed

lemma peer_has_ok:
  assumes "torrent_ok t" "bits_ok t x" "unat i < unat (num_pieces t)"
  shows "\<exists>b. peer_has x i = Ok b"
  using getbit_in [OF assms(1) _ assms(3)] assms(2) by (auto simp: peer_has_def bits_ok_def split: option.splits)

text \<open>The peer has a piece that is wanted.\<close>

definition offers :: "session \<Rightarrow> peer \<Rightarrow> u32 \<Rightarrow> bool" where
  "offers sc x i \<longleftrightarrow> wanted sc i \<and> peer_has x i = Ok True"

lemma partial_loop_ok:
  assumes "links_ok sc" "torrent_ok (tp sc)" "bits_ok (tp sc) x" "\<forall>n \<in> set ns. unat (in_idx n) < unat (num_pieces (tp sc))"
  shows "partial_loop sc x ns = Ok (map_option in_idx (find (\<lambda>n. offers sc x (in_idx n)) ns))"
  using assms(4)
proof (induction ns)
  case (Cons n ns)
  let ?i = "in_idx n"
  have i: "unat ?i < unat (num_pieces (tp sc))" using Cons.prems by simp
  note t = torrent_ok_piece [OF assms(2) i] and a = assigned_ok [OF assms(1,2) i]
  obtain b where b: "peer_has x ?i = Ok b" using peer_has_ok [OF assms(2,3) i] by blast
  have h: "(tpp_flags (piece_array (tp sc) ! unat ?i) AND TORRENT_PIECE_CKSUMOK = 0) = (\<not> have_piece (tp sc) ?i)"
    by (simp add: have_piece_def)
  show ?case using Cons t(1) a b h i by (auto simp: offers_def wanted_def)
qed simp

lemma useful_ok:
  assumes "links_ok sc" "torrent_ok (tp sc)" "bits_ok (tp sc) x" "unat i < unat (num_pieces (tp sc))"
  shows "useful sc x is i = Ok (is @ filter (offers sc x) [i])"
proof -
  note t = torrent_ok_piece [OF assms(2,4)] and a = assigned_ok [OF assms(1,2,4)]
  obtain b where "peer_has x i = Ok b" using peer_has_ok [OF assms(2-4)] by blast
  then show ?thesis using t(1) a assms(4) by (auto simp: useful_def offers_def wanted_def have_piece_def)
qed

lemma useful_all:
  assumes "links_ok sc" "torrent_ok (tp sc)" "bits_ok (tp sc) x" "\<forall>i \<in> set is. unat i < unat (num_pieces (tp sc))"
  shows "rfold (useful sc x) acc is = Ok (acc @ filter (offers sc x) is)"
  using assms(4) by (induction "is" arbitrary: acc) (simp_all add: useful_ok [OF assms(1-3)])

text \<open>The positions of the rarity array at which \<^verbatim>\<open>scheduler_piece_find_rarest\<close> stops.\<close>

definition stops_at :: "session \<Rightarrow> peer \<Rightarrow> piececounter list \<Rightarrow> u32 \<Rightarrow> bool" where
  "stops_at sc x ps j \<longleftrightarrow> (case bitfield x of None \<Rightarrow> True | Some bf \<Rightarrow> util_getbit bf j = Ok True) \<and> wanted sc (pcidx (ps ! unat j))"

lemma rarest_loop_ok:
  assumes "links_ok sc" "torrent_ok (tp sc)" "bits_ok (tp sc) x" "rarity_ok (tp sc) ps"
    and "\<forall>i \<in> set is. unat i < unat (num_pieces (tp sc))"
  shows "\<exists>r. rarest_loop sc x ps True is seen = Ok r \<and> (case find (stops_at sc x ps) is of
      None \<Rightarrow> \<not> snd r | Some j \<Rightarrow> r = (Some (piece_array (tp sc) ! unat (pcidx (ps ! unat j))), True))"
  using assms(5)
proof (induction "is" arbitrary: seen)
  case (Cons i "is")
  have i: "unat i < unat (num_pieces (tp sc))" using Cons.prems by simp
  let ?j = "pcidx (ps ! unat i)"
  have j: "unat i < length ps" "unat ?j < unat (num_pieces (tp sc))" using i assms(4) by (simp_all add: rarity_ok_def)
  note t = torrent_ok_piece [OF assms(2) j(2)] and a = assigned_ok [OF assms(1,2) j(2)]
  obtain b where b: "(case bitfield x of None \<Rightarrow> Ok True | Some bf \<Rightarrow> util_getbit bf i) = Ok b"
    using getbit_in [OF assms(2) _ i] assms(3) by (cases "bitfield x") (auto simp: bits_ok_def)
  have h: "(tpp_flags (piece_array (tp sc) ! unat ?j) AND TORRENT_PIECE_CKSUMOK \<noteq> 0) = have_piece (tp sc) ?j"
    by (simp add: have_piece_def)
  let ?w = "\<not> have_piece (tp sc) ?j \<and> \<not> (\<forall>off \<in> set (offs_of (tp sc) ?j). busy sc ?j off)"
  have run: "rarest_loop sc x ps True (i # is) seen = (if \<not> b then rarest_loop sc x ps True is seen
      else if ?w then Ok (Some (piece_array (tp sc) ! unat ?j), True)
      else rarest_loop sc x ps True is (Some (piece_array (tp sc) ! unat ?j)))"
    using t(1) a b h j(1) by simp
  have st: "stops_at sc x ps i \<longleftrightarrow> b \<and> ?w" using b j(2) by (auto simp: stops_at_def wanted_def split: option.splits)
  show ?case
  proof (cases "b \<and> ?w")
    case True
    then show ?thesis using st unfolding run by simp
  next
    case False
    then show ?thesis using Cons st unfolding run by auto
  qed
qed simp

section \<open>Sorting\<close>

lemma qsort_insert_mset: "mset (qsort_insert cmp x ys) = add_mset x (mset ys)"
  by (induction ys) auto

lemma qsort_mset: "mset (qsort cmp xs) = mset xs"
  by (induction xs) (simp_all add: qsort_def qsort_insert_mset)

lemma qsort_set [simp]: "set (qsort cmp xs) = set xs" "length (qsort cmp xs) = length xs"
  using mset_eq_setD [OF qsort_mset] mset_eq_length [OF qsort_mset] by metis+

text \<open>The result is in order wherever the comparison has the sign of the order of the keys.\<close>

lemma qsort_insert_sorted:
  fixes k :: "'a \<Rightarrow> 'b :: linorder"
  assumes "\<forall>y \<in> set ys. cmp x y \<le> 0 \<longleftrightarrow> k x \<le> k y" "sorted (map k ys)"
  shows "sorted (map k (qsort_insert cmp x ys))"
  using assms
proof (induction ys)
  case (Cons y ys)
  have "set (qsort_insert cmp x ys) = insert x (set ys)" using arg_cong [OF qsort_insert_mset, of set_mset] by simp
  then show ?case using Cons by (auto simp: not_le)
qed simp

lemma qsort_sorted:
  fixes k :: "'a \<Rightarrow> 'b :: linorder"
  assumes "\<forall>x \<in> set xs. \<forall>y \<in> set xs. cmp x y \<le> 0 \<longleftrightarrow> k x \<le> k y"
  shows "sorted (map k (qsort cmp xs))"
  using assms
proof (induction xs)
  case (Cons x xs)
  then have "sorted (map k (qsort_insert cmp x (qsort cmp xs)))" by (intro qsort_insert_sorted) simp_all
  then show ?case by (simp add: qsort_def)
qed (simp add: qsort_def)

section \<open>The rarity array\<close>

text \<open>The peers that count for a piece.\<close>

definition holds_piece :: "session \<Rightarrow> u32 \<Rightarrow> nat \<Rightarrow> bool" where
  "holds_piece sc i q \<longleftrightarrow> (\<exists>x. peer_at sc q = Some x \<and> state x AND PEER_STATE_ESTABLISHED \<noteq> 0 \<and> peer_has x i = Ok True)"

definition availability :: "session \<Rightarrow> u32 \<Rightarrow> nat" where
  "availability sc i = length (filter (holds_piece sc i) (peers sc))"

lemma count_peer_ok:
  assumes "torrent_ok (tp sc)" "peer_at sc p = Some x" "bits_ok (tp sc) x" "unat i < unat (num_pieces (tp sc))"
  shows "count_peer sc i c p = Ok (if holds_piece sc i p then c + 1 else c)"
  using getbit_in [OF assms(1) _ assms(4)] assms(2,3)
  by (cases "bitfield x") (fastforce simp: count_peer_def get_peer_def bits_ok_def holds_piece_def peer_has_def)+

lemma count_ok:
  assumes "torrent_ok (tp sc)" "\<forall>p \<in> set ps. \<exists>x. peer_at sc p = Some x \<and> bits_ok (tp sc) x" "unat i < unat (num_pieces (tp sc))"
  shows "rfold (count_peer sc i) c ps = Ok (c + of_nat (length (filter (holds_piece sc i) ps)))"
  using assms(2)
proof (induction ps arbitrary: c)
  case (Cons p ps)
  then have "count_peer sc i c p = Ok (if holds_piece sc i p then c + 1 else c)" using count_peer_ok [OF assms(1) _ _ assms(3)] by force
  then show ?case using Cons by simp
qed simp

lemma counts_ok:
  assumes "torrent_ok (tp sc)" "\<forall>p \<in> set (peers sc). \<exists>x. peer_at sc p = Some x \<and> bits_ok (tp sc) x"
    and "\<forall>i \<in> set is. unat i < unat (num_pieces (tp sc))"
  shows "rfold (\<lambda>ps i. rmap (\<lambda>c. ps @ [\<lparr>pcount = c, pcidx = i\<rparr>]) (rfold (count_peer sc i) 0 (peers sc))) acc is
    = Ok (acc @ map (\<lambda>i. \<lparr>pcount = of_nat (availability sc i), pcidx = i\<rparr>) is)"
  using assms(3) by (induction "is" arbitrary: acc) (simp_all add: count_ok [OF assms(1,2)] availability_def)

text \<open>All pieces, the rarest first, with the numbers of peers that have them.\<close>

definition ranks_pieces :: "session \<Rightarrow> piececounter list \<Rightarrow> bool" where
  "ranks_pieces sc ps \<longleftrightarrow> mset (map pcidx ps) = mset (piece_indexes (tp sc)) \<and> sorted (map (\<lambda>c. unat (pcount c)) ps)
     \<and> (\<forall>c \<in> set ps. unat (pcount c) = availability sc (pcidx c))"

lemma piece_cmp_order:
  assumes "unat (pcount x) < 2 ^ 31" "unat (pcount y) < 2 ^ 31"
  shows "scheduler_piece_cmp x y \<le> 0 \<longleftrightarrow> unat (pcount x) \<le> unat (pcount y)"
proof -
  have "pcount x < 2 ^ 31" "pcount y < 2 ^ 31" using assms by (simp_all add: word_less_nat_alt)
  from sint_diff [OF this] have "scheduler_piece_cmp x y = int (unat (pcount x)) - int (unat (pcount y))" by (simp add: scheduler_piece_cmp_def)
  then show ?thesis by linarith
qed

lemma rarityarray_ok:
  assumes "torrent_ok (tp sc)" "\<forall>p \<in> set (peers sc). \<exists>x. peer_at sc p = Some x \<and> bits_ok (tp sc) x"
  shows "\<exists>ps. scheduler_piece_rarityarray now sc = Ok (sc\<lparr>last_rarity := now, rarity_array := Some ps\<rparr>) \<and> rarity_ok (tp sc) ps
    \<and> (length (peers sc) < 2 ^ 31 \<longrightarrow> ranks_pieces sc ps)"
proof -
  define cs where "cs = map (\<lambda>i. \<lparr>pcount = of_nat (availability sc i), pcidx = i\<rparr> :: piececounter) (piece_indexes (tp sc))"
  have cs: "rfold (\<lambda>ps i. rmap (\<lambda>c. ps @ [\<lparr>pcount = c, pcidx = i\<rparr>]) (rfold (count_peer sc i) 0 (peers sc))) []
      (piece_indexes (tp sc)) = Ok cs"
    using counts_ok [OF assms, of "piece_indexes (tp sc)" "[]"] by (simp add: piece_indexes_in cs_def)
  have run: "scheduler_piece_rarityarray now sc = Ok (sc\<lparr>last_rarity := now, rarity_array := Some (qsort scheduler_piece_cmp cs)\<rparr>)"
    using cs by (simp add: scheduler_piece_rarityarray_def)
  have "length cs = unat (num_pieces (tp sc))" "\<forall>c \<in> set cs. unat (pcidx c) < unat (num_pieces (tp sc))"
    by (simp_all add: cs_def piece_indexes_in) (simp add: piece_indexes_def)
  then have ok: "rarity_ok (tp sc) (qsort scheduler_piece_cmp cs)" by (simp add: rarity_ok_def)
  have "ranks_pieces sc (qsort scheduler_piece_cmp cs)" if "length (peers sc) < 2 ^ 31"
  proof -
    have a: "availability sc i < 2 ^ 31" for i
      using le_less_trans [OF length_filter_le that] by (simp only: availability_def)
    have "unat (of_nat (availability sc i) :: u32) = availability sc i" for i
      using a [of i] by (simp add: unat_of_nat)
    then have c: "\<forall>c \<in> set cs. unat (pcount c) = availability sc (pcidx c) \<and> unat (pcount c) < 2 ^ 31"
      using a by (simp add: cs_def)
    then have "sorted (map (\<lambda>c. unat (pcount c)) (qsort scheduler_piece_cmp cs))"
      by (intro qsort_sorted) (meson piece_cmp_order)
    moreover have "mset (map pcidx (qsort scheduler_piece_cmp cs)) = mset (map pcidx cs)" by (simp add: qsort_mset)
    moreover have "map pcidx cs = piece_indexes (tp sc)" by (simp add: cs_def comp_def)
    ultimately show ?thesis using c by (simp add: ranks_pieces_def)
  qed
  then show ?thesis using run ok by blast
qed

section \<open>The function as a whole\<close>

lemma sched_okD:
  assumes "sched_ok sc"
  shows "torrent_ok (tp sc)" "peer_at sc p = Some x \<Longrightarrow> bits_ok (tp sc) x"
    "dl_at sc d = Some pd \<Longrightarrow> unat (pd_idx pd) < unat (num_pieces (tp sc))"
    "rarity_array sc = Some ps \<Longrightarrow> rarity_ok (tp sc) ps"
  using assms by (auto simp: sched_ok_def)

lemma RB_FIND_mem: "distinct (map node_key ns) \<Longrightarrow> n \<in> set ns \<Longrightarrow> RB_FIND ns (node_key n) = Some n"
  by (induction ns) (auto simp: image_iff)

lemma index_in_range:
  assumes "links_ok sc" "sched_ok sc" "n \<in> set (piece_dl_by_idxoff sc)"
  shows "unat (in_idx n) < unat (num_pieces (tp sc))"
proof -
  note l = links_okD [OF assms(1)]
  have n: "RB_FIND (piece_dl_by_idxoff sc) (node_key n) = Some n"
    using l(3) assms(3) by (rule RB_FIND_mem)
  then have "in_dls n \<noteq> []" using l(4) unfolding ix.no_empty_def by blast
  then obtain d where "d \<in> set (ix.queue (piece_dl_by_idxoff sc) (node_key n))" using n by (cases "in_dls n") (auto simp: ix.queue_def)
  then obtain pd where pd: "dl_at sc d = Some pd" "dl_key pd = Some (node_key n)" using linkedD [OF l(2)] by blast
  then show ?thesis using sched_okD(3) [OF assms(2) pd(1)] by (auto simp: dl_key_def node_key_def)
qed

text \<open>Nothing but the rarity array changes.\<close>

definition only_rarity :: "session \<Rightarrow> session \<Rightarrow> bool" where
  "only_rarity sc sc' \<longleftrightarrow> (\<exists>i r. sc' = sc\<lparr>last_rarity := i, rarity_array := r\<rparr>)"

lemma only_rarityI: "only_rarity sc (sc\<lparr>last_rarity := i, rarity_array := r\<rparr>)"
  unfolding only_rarity_def by blast

lemma only_rarity_refl: "only_rarity sc sc"
proof -
  have "sc = sc\<lparr>last_rarity := last_rarity sc, rarity_array := rarity_array sc\<rparr>" by simp
  then show ?thesis unfolding only_rarity_def by blast
qed

lemma only_rarity_same:
  assumes "only_rarity sc sc'"
  shows "links_ok sc' = links_ok sc" "wanted sc' i = wanted sc i" "tp sc' = tp sc" "peer_at sc' = peer_at sc" "quiet sc sc'"
    "dl_at sc' = dl_at sc" "outbox sc' = outbox sc" "peers sc' = peers sc" "dsk sc' = dsk sc"
    "busy sc' i off = busy sc i off"
proof -
  obtain j r where sc': "sc' = sc\<lparr>last_rarity := j, rarity_array := r\<rparr>" using assms by (auto simp: only_rarity_def)
  show "links_ok sc' = links_ok sc" by (rule links_ok_cong) (simp_all add: sc')
  have "network_piece_dl_find sc' None k off = network_piece_dl_find sc None k off" for k off
    by (simp add: network_piece_dl_find_def sc')
  then show "busy sc' i off = busy sc i off" for i off by (simp add: busy_def sc')
  then show "wanted sc' i = wanted sc i" by (simp add: wanted_def sc')
  show "tp sc' = tp sc" "peer_at sc' = peer_at sc" "quiet sc sc'" "dl_at sc' = dl_at sc" "outbox sc' = outbox sc"
    "peers sc' = peers sc" "dsk sc' = dsk sc"
    by (simp_all add: sc' quiet_def)
qed

lemma rarest_run:
  assumes "links_ok sc" "sched_ok sc" "peer_at sc p = Some x" "\<forall>q \<in> set (peers sc). peer_at sc q \<noteq> None"
    and "now - last_rarity sc > RARITY_AGE \<or> rarity_array sc \<noteq> None"
  shows "\<exists>i found sc' ps. scheduler_piece_find_rarest now p True sc = Ok (i, found, sc') \<and> only_rarity sc sc' \<and> sched_ok sc'
    \<and> rarity_array sc' = Some ps \<and> (now - last_rarity sc > RARITY_AGE \<and> length (peers sc) < 2 ^ 31 \<longrightarrow> ranks_pieces sc ps)
    \<and> (case find (stops_at sc x ps) (piece_indexes (tp sc)) of
        None \<Rightarrow> \<not> found | Some j \<Rightarrow> found \<and> i = pcidx (ps ! unat j) \<and> wanted sc i)"
proof -
  note s = sched_okD [OF assms(2)]
  have bits: "\<forall>q \<in> set (peers sc). \<exists>y. peer_at sc q = Some y \<and> bits_ok (tp sc) y" using assms(4) s(2) by auto
  obtain sc' ps where sc': "(if now - last_rarity sc > RARITY_AGE then scheduler_piece_rarityarray now sc else Ok sc) = Ok sc'"
    "rarity_array sc' = Some ps" "rarity_ok (tp sc) ps" "only_rarity sc sc'"
    "now - last_rarity sc > RARITY_AGE \<and> length (peers sc) < 2 ^ 31 \<longrightarrow> ranks_pieces sc ps"
  proof (cases "now - last_rarity sc > RARITY_AGE")
    case True
    obtain ps where "scheduler_piece_rarityarray now sc = Ok (sc\<lparr>last_rarity := now, rarity_array := Some ps\<rparr>)" "rarity_ok (tp sc) ps"
      "length (peers sc) < 2 ^ 31 \<longrightarrow> ranks_pieces sc ps"
      using rarityarray_ok [OF s(1) bits] by blast
    then show ?thesis using True that [of "sc\<lparr>last_rarity := now, rarity_array := Some ps\<rparr>" ps] only_rarityI by simp
  next
    case False
    then obtain ps where "rarity_array sc = Some ps" using assms(5) by auto
    then show ?thesis using False that [of sc ps] s(4) only_rarity_refl by simp
  qed
  note o = only_rarity_same [OF sc'(4)]
  have ok: "sched_ok sc'" using assms(2) sc'(2,3) by (simp add: sched_ok_def o)
  have st: "stops_at sc' x ps = stops_at sc x ps" by (simp add: fun_eq_iff stops_at_def o)
  obtain r where r: "rarest_loop sc' x ps True (piece_indexes (tp sc)) None = Ok r" "case find (stops_at sc x ps) (piece_indexes (tp sc)) of
      None \<Rightarrow> \<not> snd r | Some j \<Rightarrow> r = (Some (piece_array (tp sc) ! unat (pcidx (ps ! unat j))), True)"
    using rarest_loop_ok [of sc' x ps "piece_indexes (tp sc)" None] assms(1) s(1) s(2) [OF assms(3)] sc'(3)
    unfolding o st piece_indexes_in Ball_def by blast
  obtain tpp found where rr: "r = (tpp, found)" by (cases r)
  have run: "scheduler_piece_find_rarest now p True sc = Ok (case tpp of None \<Rightarrow> 0 | Some t \<Rightarrow> tpp_index t, found, sc')"
    using sc'(1,2) assms(3) r(1) rr by (simp add: scheduler_piece_find_rarest_def get_peer_def o)
  have "case find (stops_at sc x ps) (piece_indexes (tp sc)) of None \<Rightarrow> \<not> found
    | Some j \<Rightarrow> found \<and> (case tpp of None \<Rightarrow> 0 | Some t \<Rightarrow> tpp_index t) = pcidx (ps ! unat j) \<and> wanted sc (pcidx (ps ! unat j))"
  proof (cases "find (stops_at sc x ps) (piece_indexes (tp sc))")
    case (Some j)
    then have "stops_at sc x ps j" by (auto simp: find_Some_iff)
    then have w: "wanted sc (pcidx (ps ! unat j))" by (simp add: stops_at_def)
    then have "tpp_index (piece_array (tp sc) ! unat (pcidx (ps ! unat j))) = pcidx (ps ! unat j)"
      using torrent_ok_piece(2) [OF s(1)] by (simp add: wanted_def)
    then show ?thesis using r(2) rr Some w by simp
  qed (use r(2) rr in simp)
  then show ?thesis using run sc'(2,4,5) ok by (auto split: option.splits)
qed

lemma rarest_ok:
  assumes "links_ok sc" "sched_ok sc" "peer_at sc p = Some x" "\<forall>q \<in> set (peers sc). peer_at sc q \<noteq> None"
    and "now - last_rarity sc > RARITY_AGE \<or> rarity_array sc \<noteq> None"
  shows "\<exists>i found sc'. scheduler_piece_find_rarest now p True sc = Ok (i, found, sc') \<and> only_rarity sc sc' \<and> sched_ok sc'
    \<and> rarity_array sc' \<noteq> None \<and> (found \<longrightarrow> wanted sc i)"
  using rarest_run [OF assms] by (fastforce split: option.splits)

text \<open>Whether there is no candidate for the peer: no started piece, and no other one either, at
  the beginning by its bit field and later by the rarity array.\<close>

abbreviation early :: "session \<Rightarrow> bool" where
  "early sc \<equiv> good_pieces (tp sc) < 4 \<and> num_pieces (tp sc) > 4"

definition nothing_for :: "int \<Rightarrow> nat \<Rightarrow> peer \<Rightarrow> session \<Rightarrow> bool" where
  "nothing_for now p x sc \<longleftrightarrow> (\<forall>n \<in> set (piece_dl_by_idxoff sc). \<not> offers sc x (in_idx n))
     \<and> (if early sc then \<forall>i. \<not> offers sc x i else \<exists>i sc'. scheduler_piece_find_rarest now p True sc = Ok (i, False, sc'))"

text \<open>A chosen piece is one of the peer, or the one that the rarity array leads to.\<close>

definition chosen :: "int \<Rightarrow> nat \<Rightarrow> peer \<Rightarrow> session \<Rightarrow> u32 \<Rightarrow> bool" where
  "chosen now p x sc i \<longleftrightarrow> offers sc x i \<or> \<not> early sc \<and> (\<exists>sc'. scheduler_piece_find_rarest now p True sc = Ok (i, True, sc'))"

lemma choose_piece_ok:
  assumes "links_ok sc" "sched_ok sc" "peer_at sc p = Some x" "\<forall>q \<in> set (peers sc). peer_at sc q \<noteq> None"
    and "now - last_rarity sc > RARITY_AGE \<or> rarity_array sc \<noteq> None"
  shows "\<exists>r sc'. choose_piece now rnd p sc = Ok (r, sc') \<and> only_rarity sc sc' \<and> sched_ok sc'
    \<and> (now - last_rarity sc' > RARITY_AGE \<or> rarity_array sc' \<noteq> None)
    \<and> (\<forall>i. r = Some i \<longrightarrow> wanted sc i \<and> chosen now p x sc i) \<and> (r = None \<longrightarrow> nothing_for now p x sc)"
proof -
  note s = sched_okD [OF assms(2)] and same = only_rarity_refl [of sc]
  have r: "partial_loop sc x (piece_dl_by_idxoff sc) = Ok (map_option in_idx (find (\<lambda>n. offers sc x (in_idx n)) (piece_dl_by_idxoff sc)))"
    (is "_ = Ok (map_option in_idx ?r)")
    using partial_loop_ok [OF assms(1) s(1) s(2) [OF assms(3)]] index_in_range [OF assms(1,2)] by blast
  define js where "js = filter (offers sc x) (piece_indexes (tp sc))"
  have js: "rfold (useful sc x) [] (piece_indexes (tp sc)) = Ok js" "set js = {i. offers sc x i}"
    using useful_all [OF assms(1) s(1) s(2) [OF assms(3)], of "piece_indexes (tp sc)" "[]"]
    by (auto simp: js_def piece_indexes_in offers_def wanted_def)
  have pick: "js \<noteq> [] \<Longrightarrow> offers sc x (js ! (rnd mod length js))" using js(2) nth_mem [of "rnd mod length js" js] by fastforce
  obtain i found sc' where rare: "scheduler_piece_find_rarest now p True sc = Ok (i, found, sc')" "only_rarity sc sc'"
    "sched_ok sc'" "rarity_array sc' \<noteq> None" "found \<longrightarrow> wanted sc i"
    using rarest_ok [OF assms] by blast
  show ?thesis
  proof (cases ?r)
    case (Some n)
    then have "offers sc x (in_idx n)" by (auto simp: find_Some_iff)
    then show ?thesis using Some r assms(2,3,5) same by (simp add: choose_piece_def get_peer_def chosen_def) (simp add: offers_def)
  next
    case None
    then have none: "\<forall>n \<in> set (piece_dl_by_idxoff sc). \<not> offers sc x (in_idx n)" by (auto simp: find_None_iff)
    show ?thesis
    proof (cases "early sc")
      case True
      then have "choose_piece now rnd p sc = Ok (if js = [] then None else Some (js ! (rnd mod length js)), sc)"
        using None r js(1) assms(3) by (simp add: choose_piece_def get_peer_def)
      moreover have "js = [] \<longrightarrow> (\<forall>i. \<not> offers sc x i)" using js(2) by auto
      ultimately show ?thesis using pick none assms(2,5) same True by (auto simp: nothing_for_def chosen_def) (auto simp: offers_def)
    next
      case False
      then have "choose_piece now rnd p sc = Ok (if found then Some i else None, sc')"
        using None r rare(1) assms(3) by (auto simp: choose_piece_def get_peer_def)
      then show ?thesis using rare none False by (cases found) (auto simp: nothing_for_def chosen_def)
    qed
  qed
qed

lemma gimme_ok:
  assumes "links_ok sc" "sched_ok sc" "peer_at sc p = Some x" "\<forall>q \<in> set (peers sc). peer_at sc q \<noteq> None"
    and "now - last_rarity sc > RARITY_AGE \<or> rarity_array sc \<noteq> None"
  shows "\<exists>r hint sc1 sc'. scheduler_piece_gimme now rnd p nocreate sc = Ok (r, hint, sc') \<and> links_ok sc' \<and> only_rarity sc sc1 \<and> frame sc1 sc'
    \<and> sched_ok sc' \<and> (now - last_rarity sc' > RARITY_AGE \<or> rarity_array sc' \<noteq> None) \<and> (nocreate \<longrightarrow> r = None \<and> sc' = sc1)
    \<and> (\<forall>d. r = Some d \<longrightarrow> (\<exists>idx. wanted sc idx \<and> handed sc p idx (piece_len (tp sc) idx) (offs_of (tp sc) idx) d sc'
         \<and> chosen now p x sc idx))
    \<and> (\<not> nocreate \<longrightarrow> \<not> hint) \<and> (r = None \<and> \<not> hint \<longrightarrow> nothing_for now p x sc)"
proof -
  obtain r sc1 where c: "choose_piece now rnd p sc = Ok (r, sc1)" "only_rarity sc sc1" "sched_ok sc1"
    "now - last_rarity sc1 > RARITY_AGE \<or> rarity_array sc1 \<noteq> None" "\<forall>i. r = Some i \<longrightarrow> wanted sc i \<and> chosen now p x sc i" "r = None \<longrightarrow> nothing_for now p x sc"
    using choose_piece_ok [OF assms] by blast
  note o = only_rarity_same [OF c(2)]
  show ?thesis
  proof (cases r)
    case None
    then have "scheduler_piece_gimme now rnd p nocreate sc = Ok (None, False, sc1)" using c(1) by (simp add: scheduler_piece_gimme_def)
    moreover have "frame sc1 sc1" by (rule frame_refl)
    ultimately show ?thesis using None c assms(1) o(1) by blast
  next
    case (Some idx)
    then have w: "wanted sc idx" "wanted sc1 idx" "chosen now p x sc idx" using c(5) o(2) by auto
    have t: "torrent_ok (tp sc)" "unat idx < unat (num_pieces (tp sc))" using w(1) sched_okD(1) [OF assms(2)] by (simp_all add: wanted_def)
    note f = torrent_ok_piece [OF t]
    have "\<exists>off \<in> set (offs_of (tp sc) idx). \<not> busy sc1 idx off" using w(2) by (simp add: wanted_def o)
    then obtain d sc' where d: "take_block p idx (piece_array (tp sc) ! unat idx) sc1 = Ok (d, sc')" "links_ok sc'" "frame sc1 sc'"
      "handed sc1 p idx (piece_len (tp sc) idx) (offs_of (tp sc) idx) d sc'"
      using take_block_ok [OF _ _ f(3), of sc1 p x idx] assms(1,3) o by auto
    note fr = frame_fields [OF d(3)]
    have "bits_ok (tp sc') y" if "peer_at sc' q = Some y" for q y
    proof -
      have "peer_at sc1 q \<noteq> None" using frame_None [OF d(3), of q] that by simp
      then obtain z where "peer_at sc1 q = Some z" by blast
      then show ?thesis using frame_peer [OF d(3), of q z] that sched_okD(2) [OF c(3), of q z] by (auto simp: bits_ok_def fr)
    qed
    moreover have "unat (pd_idx pd) < unat (num_pieces (tp sc'))" if "dl_at sc' e = Some pd" for e pd
      using that d(4) t(2) sched_okD(3) [OF c(3), of e pd] by (cases "e = d") (auto simp: handed_def fr o)
    ultimately have "sched_ok sc'" using c(3) by (simp add: sched_ok_def fr)
    then show ?thesis
    proof (cases nocreate)
      case True
      then have "scheduler_piece_gimme now rnd p nocreate sc = Ok (None, True, sc1)"
        using Some c(1) f(1) o(3) by (simp add: scheduler_piece_gimme_def)
      moreover have "frame sc1 sc1" by (rule frame_refl)
      ultimately show ?thesis using True c(2-4) assms(1) o(1) by blast
    next
      case False
      have "handed sc p idx (piece_len (tp sc) idx) (offs_of (tp sc) idx) d sc'" using d(4) by (simp add: handed_def o)
      moreover have "scheduler_piece_gimme now rnd p nocreate sc = Ok (Some d, False, sc')"
        using Some c(1) d(1) f(1) False by (simp add: scheduler_piece_gimme_def o)
      ultimately show ?thesis using False d(2,3) c(2,4) w(1,3) \<open>sched_ok sc'\<close> by (auto simp: fr)
    qed
  qed
qed

text \<open>The download that is handed out, seen from its own fields.\<close>

lemma handed_block:
  assumes "wanted sc idx" "handed sc p idx (piece_len (tp sc) idx) (offs_of (tp sc) idx) d sc'" "chosen now p x sc idx"
  shows "\<exists>pd. dl_at sc' d = Some pd \<and> pc pd = Some p \<and> \<not> have_piece (tp sc) (pd_idx pd)
    \<and> pd_off pd \<in> set (offs_of (tp sc) (pd_idx pd))
    \<and> find (\<lambda>off. \<not> busy sc (pd_idx pd) off) (offs_of (tp sc) (pd_idx pd)) = Some (pd_off pd)
    \<and> (dl_at sc d = None \<and> (\<forall>d' pd'. dl_at sc d' = Some pd' \<longrightarrow> (pd_idx pd', pd_off pd') \<noteq> (pd_idx pd, pd_off pd))
         \<and> unat (pd_len pd) = min 16384 (piece_len (tp sc) (pd_idx pd) - unat (pd_off pd)) \<and> pd_bytes pd = 0
       \<or> (\<exists>pd0. dl_at sc d = Some pd0 \<and> pc pd0 = None \<and> pd_bytes pd0 \<noteq> pd_len pd0 \<and> pd = pd0\<lparr>pc := Some p\<rparr>))
    \<and> (\<forall>e. e \<noteq> d \<longrightarrow> dl_at sc' e = dl_at sc e)
    \<and> (peer_has x (pd_idx pd) = Ok True \<or> \<not> early sc \<and> (\<exists>sc''. scheduler_piece_find_rarest now p True sc = Ok (pd_idx pd, True, sc'')))"
proof -
  obtain pd where pd: "dl_at sc' d = Some pd" "pc pd = Some p" "pd_idx pd = idx"
    "find (\<lambda>off. \<not> busy sc idx off) (offs_of (tp sc) idx) = Some (pd_off pd)"
    "dl_at sc d = None \<and> (\<forall>d' pd'. dl_at sc d' = Some pd' \<longrightarrow> (pd_idx pd', pd_off pd') \<noteq> (idx, pd_off pd))
        \<and> unat (pd_len pd) = min 16384 (piece_len (tp sc) idx - unat (pd_off pd)) \<and> pd_bytes pd = 0
      \<or> (\<exists>pd0. dl_at sc d = Some pd0 \<and> pc pd0 = None \<and> pd_bytes pd0 \<noteq> pd_len pd0 \<and> pd = pd0\<lparr>pc := Some p\<rparr>)"
    "\<forall>e. e \<noteq> d \<longrightarrow> dl_at sc' e = dl_at sc e"
    using assms(2) unfolding handed_def by blast
  have "pd_off pd \<in> set (offs_of (tp sc) idx)" using pd(4) by (auto simp: find_Some_iff)
  moreover have "\<not> have_piece (tp sc) idx" using assms(1) by (simp add: wanted_def)
  moreover have "peer_has x idx = Ok True \<or> \<not> early sc \<and> (\<exists>sc''. scheduler_piece_find_rarest now p True sc = Ok (idx, True, sc''))"
    using assms(3) unfolding chosen_def offers_def by blast
  ultimately show ?thesis using pd by (intro exI [of _ pd]) (simp only: pd(3) simp_thms)
qed

section \<open>Properties\<close>


text \<open>A session with two peers: the first has piece 0 only, the second has both pieces.\<close>

definition bits_peer :: "byte \<Rightarrow> peer" where
  "bits_peer b = new_peer\<lparr>state := PEER_STATE_ESTABLISHED, bitfield := Some [b]\<rparr>"

definition two_peers :: session where
  "two_peers = (example_session (small_torrent [False, False]))\<lparr>peers := [0, 1],
     peer_at := [0 \<mapsto> bits_peer 128, 1 \<mapsto> bits_peer 192], fresh_peer := 2, num_peers := 2\<rparr>"

lemma two_peers_ok: "session_ok {} two_peers" "sched_ok two_peers"
proof -
  have "dls_of two_peers = (\<lambda>p. [])"
    by (auto simp: two_peers_def dls_of_def bits_peer_def new_peer_def)
  then have "links_ok two_peers"
    by (auto simp: links_ok_def linked_def two_peers_def example_session_def ix.queue_def ix.no_empty_def)
  then show "session_ok {} two_peers" by (auto simp: session_ok_def two_peers_def)
  have "unat i = 0 \<or> unat i = 1" if "unat i < 2" for i :: u32 using that by linarith
  moreover have "i = 0 \<or> i = 1" if "unat i < 2" for i :: u32 using calculation [OF that] by (auto simp: word_unat_eq_iff)
  ultimately have "torrent_ok (tp two_peers)"
    using small_torrent_ok [of "[False, False]"] by (fastforce simp: torrent_ok_def two_peers_def example_session_def small_torrent_def pieces_ok_def)
  then show "sched_ok two_peers"
    by (auto simp: sched_ok_def two_peers_def example_session_def bits_ok_def bits_peer_def bitfield_len_def small_torrent_def
        split: if_splits)
qed


text \<open>When every position counts, the first one where the walk stops holds a piece of least availability.\<close>

lemma first_is_rarest:
  assumes "torrent_ok (tp sc)" "ranks_pieces sc ps" "\<forall>j \<in> set (piece_indexes (tp sc)). stops_at sc x ps j = wanted sc (pcidx (ps ! unat j))"
  shows "case find (stops_at sc x ps) (piece_indexes (tp sc)) of None \<Rightarrow> \<forall>k. \<not> wanted sc k
    | Some j \<Rightarrow> \<forall>k. wanted sc k \<longrightarrow> availability sc (pcidx (ps ! unat j)) \<le> availability sc k"
proof -
  have ps: "mset (map pcidx ps) = mset (piece_indexes (tp sc))" "sorted (map (\<lambda>c. unat (pcount c)) ps)"
    "\<forall>c \<in> set ps. unat (pcount c) = availability sc (pcidx c)" using assms(2) by (simp_all add: ranks_pieces_def)
  have len: "length ps = length (piece_indexes (tp sc))" using arg_cong [OF ps(1), of size] by simp
  have ix: "piece_indexes (tp sc) ! n = of_nat n" "unat (of_nat n :: u32) = n" if "n < length ps" for n
    using that len unsigned_less [of "num_pieces (tp sc)", where 'a = nat] by (simp_all add: piece_indexes_def unat_of_nat)
  have pos: "\<exists>n < length ps. pcidx (ps ! n) = k" if "wanted sc k" for k
  proof -
    have "k \<in> set (map pcidx ps)" using that mset_eq_setD [OF ps(1)] by (simp add: piece_indexes_in wanted_def)
    then show ?thesis by (auto simp: in_set_conv_nth)
  qed
  show ?thesis
  proof (cases "find (stops_at sc x ps) (piece_indexes (tp sc))")
    case None
    have "\<not> wanted sc k" for k
    proof
      assume k: "wanted sc k"
      then obtain n where n: "n < length ps" "pcidx (ps ! n) = k" using pos by blast
      then have "of_nat n \<in> set (piece_indexes (tp sc))" using ix [of n] len by (metis nth_mem)
      then show False using None assms(3) n ix(2) [OF n(1)] k by (auto simp: find_None_iff)
    qed
    then show ?thesis using None by simp
  next
    case (Some j)
    then obtain m where m: "m < length ps" "j = of_nat m" "\<forall>n < m. \<not> stops_at sc x ps (of_nat n)"
      using ix(1) len by (auto simp: find_Some_iff)
    have "availability sc (pcidx (ps ! m)) \<le> availability sc k" if k: "wanted sc k" for k
    proof -
      obtain n where n: "n < length ps" "pcidx (ps ! n) = k" using pos [OF k] by blast
      have "of_nat n \<in> set (piece_indexes (tp sc))" using ix(1) [OF n(1)] len n(1) by (metis nth_mem)
      then have "stops_at sc x ps (of_nat n)" using assms(3) k n(2) ix(2) [OF n(1)] by simp
      then have "m \<le> n" using m(3) by (meson not_le)
      then have "unat (pcount (ps ! m)) \<le> unat (pcount (ps ! n))" using sorted_nth_mono [OF ps(2), of m n] n(1) m(1) by simp
      then show ?thesis using ps(3) m(1) n by auto
    qed
    then show ?thesis using Some m(1,2) ix(2) by simp
  qed
qed

text \<open>
  (C36) \<^verbatim>\<open>scheduler_piece_find_rarest\<close> in every consistent session with fewer than \<open>2 ^ 31\<close> peers. A rarity array older than
  five seconds is made again: it then holds every piece once, with the number of connected peers that have it, the
  rarest first. The function walks the array and stops at the first position that holds a piece with a free
  block and whose own number, not that of the piece it holds, is set in the bit field of the peer; it finds
  nothing exactly when there is no such position. For a peer that has all pieces the piece found is
  thus a rarest one of those that have a free block; for another peer it may be one that the peer does not have.
\<close>

theorem rarest_by_position:
  assumes "session_ok E sc" "sched_ok sc" "peer_at sc p = Some x" "bitfield x = Some bf" "length (peers sc) < 2 ^ 31"
    and "now - last_rarity sc > RARITY_AGE \<or> rarity_array sc \<noteq> None"
  shows "\<exists>i found sc' ps. scheduler_piece_find_rarest now p True sc = Ok (i, found, sc') \<and> rarity_array sc' = Some ps
    \<and> (now - last_rarity sc > RARITY_AGE \<longrightarrow> mset (map pcidx ps) = mset (piece_indexes (tp sc))
         \<and> sorted (map (\<lambda>c. unat (pcount c)) ps) \<and> (\<forall>c \<in> set ps. unat (pcount c) = availability sc (pcidx c)))
    \<and> (case find (\<lambda>j. util_getbit bf j = Ok True \<and> wanted sc (pcidx (ps ! unat j))) (piece_indexes (tp sc)) of
         None \<Rightarrow> \<not> found | Some j \<Rightarrow> found \<and> i = pcidx (ps ! unat j) \<and> wanted sc i)
    \<and> (now - last_rarity sc > RARITY_AGE \<and> (\<forall>j \<in> set (piece_indexes (tp sc)). util_getbit bf j = Ok True) \<longrightarrow>
         (found \<longleftrightarrow> (\<exists>k. wanted sc k)) \<and> (found \<longrightarrow> (\<forall>k. wanted sc k \<longrightarrow> availability sc i \<le> availability sc k)))"
proof -
  have l: "links_ok sc" and al: "\<forall>q \<in> set (peers sc). peer_at sc q \<noteq> None" using assms(1) by (auto simp: session_ok_def)
  obtain i found sc' ps where r: "scheduler_piece_find_rarest now p True sc = Ok (i, found, sc')" "rarity_array sc' = Some ps"
    "now - last_rarity sc > RARITY_AGE \<longrightarrow> ranks_pieces sc ps" "case find (stops_at sc x ps) (piece_indexes (tp sc)) of
        None \<Rightarrow> \<not> found | Some j \<Rightarrow> found \<and> i = pcidx (ps ! unat j) \<and> wanted sc i"
    using rarest_run [OF l assms(2,3) al assms(6)] assms(5) by blast
  have st: "stops_at sc x ps = (\<lambda>j. util_getbit bf j = Ok True \<and> wanted sc (pcidx (ps ! unat j)))"
    using assms(4) by (simp add: stops_at_def fun_eq_iff)
  have "(found \<longleftrightarrow> (\<exists>k. wanted sc k)) \<and> (found \<longrightarrow> (\<forall>k. wanted sc k \<longrightarrow> availability sc i \<le> availability sc k))"
    if "now - last_rarity sc > RARITY_AGE" "\<forall>j \<in> set (piece_indexes (tp sc)). util_getbit bf j = Ok True"
  proof -
    have "\<forall>j \<in> set (piece_indexes (tp sc)). stops_at sc x ps j = wanted sc (pcidx (ps ! unat j))" using that(2) by (simp add: st)
    from first_is_rarest [OF sched_okD(1) [OF assms(2)] _ this] r(3,4) that(1) show ?thesis by (auto split: option.splits)
  qed
  then show ?thesis using r unfolding st ranks_pieces_def by blast
qed

text \<open>The first peer has piece 0 only; the rarer piece 1 stands at position 0 and is chosen for it.\<close>

lemma two_peers_facts:
  "peer_at two_peers 0 = Some (bits_peer 128)" "bitfield (bits_peer b) = Some [b]" "peers two_peers = [0, 1]" "last_rarity two_peers = 0"
  "piece_indexes (tp two_peers) = [0, 1]" "availability two_peers 0 = 2" "availability two_peers 1 = 1"
  by (simp_all add: two_peers_def example_session_def small_torrent_def piece_indexes_def upt_rec availability_def holds_piece_def
      util_getbit_def Let_def bits_peer_def PEER_STATE_ESTABLISHED_def peer_has_def)

lemma two_peers_wanted: "wanted two_peers 0" "wanted two_peers 1"
  by (auto simp: wanted_def busy_def offs_of_def upt_rec network_piece_dl_find_def two_peers_def example_session_def small_torrent_def have_piece_def)

theorem rarest_by_position_witness:
  "\<exists>sc'. scheduler_piece_find_rarest 100 0 True two_peers = Ok (1, True, sc') \<and> peer_has (bits_peer 128) 1 = Ok False"
proof -
  have a: "length (peers two_peers) < 2 ^ 31" "100 - last_rarity two_peers > RARITY_AGE" by (simp_all add: two_peers_facts RARITY_AGE_def)
  obtain i found sc' ps where r: "scheduler_piece_find_rarest 100 0 True two_peers = Ok (i, found, sc')" "rarity_array sc' = Some ps"
    "100 - last_rarity two_peers > RARITY_AGE \<longrightarrow> mset (map pcidx ps) = mset [0, 1]
       \<and> sorted (map (\<lambda>c. unat (pcount c)) ps) \<and> (\<forall>c \<in> set ps. unat (pcount c) = availability two_peers (pcidx c))"
    "case find (\<lambda>j. util_getbit [128] j = Ok True \<and> wanted two_peers (pcidx (ps ! unat j))) [0, 1] of
         None \<Rightarrow> \<not> found | Some j \<Rightarrow> found \<and> i = pcidx (ps ! unat j) \<and> wanted two_peers i"
    using rarest_by_position [OF two_peers_ok two_peers_facts(1,2) a(1) disjI1 [OF a(2)]]
    unfolding two_peers_facts(5) by (elim exE conjE) (rule that)
  then have ix: "mset (map pcidx ps) = mset [0, 1]" and ord: "sorted (map (\<lambda>c. unat (pcount c)) ps)"
    "\<forall>c \<in> set ps. unat (pcount c) = availability two_peers (pcidx c)" using a(2) by blast+
  have "length ps = 2" using arg_cong [OF ix, of size] by simp
  then obtain c d where ps: "ps = [c, d]" by (auto simp: numeral_2_eq_2 length_Suc_conv)
  then have "{pcidx c, pcidx d} = {0, 1}" using mset_eq_setD [OF ix] by simp
  then have "pcidx c = 1 \<and> pcidx d = 0" using ord ps two_peers_facts(6,7) by (auto simp: doubleton_eq_iff)
  moreover have "util_getbit [128] 0 = Ok True" "util_getbit [128] 1 = Ok False" by (simp_all add: util_getbit_def Let_def)
  ultimately show ?thesis using r(1,4) ps two_peers_wanted(2) by (simp add: peer_has_def two_peers_facts(2))
qed

end
