(* ===== verification/Announce.thy ===== *)
theory Announce
  imports Sched_Sound Metainfo
begin

text \<open>
  The request to the tracker, \<^verbatim>\<open>announce\<close> of \<^verbatim>\<open>announce.c\<close>: splitting the announce URL into host, port and
  path, the parameters, and the state of the session while an announce is under way. Connecting to the
  host is outside the program; its answer, a descriptor or \<open>-1\<close>, is an argument.
\<close>

section \<open>Text\<close>

definition GETSTRINGLEN :: nat where "GETSTRINGLEN = 2048"
definition HTTPLEN :: nat where "HTTPLEN = 7"
definition RESBUFLEN :: nat where "RESBUFLEN = 1024"
definition MAXHOSTNAMELEN :: nat where "MAXHOSTNAMELEN = 64"
definition UNWORKABLE_VERSION :: bytes where "UNWORKABLE_VERSION = str ''0.5''"

text \<open>
  The loops that encode a hash or a peer id: each byte writes a percent sign, its digits and a NUL at three
  times its position, into a buffer of \<open>61\<close> bytes. A byte of the peer id is a signed \<^verbatim>\<open>char\<close>, so one above
  127 would print as eight digits.
\<close>

definition url_hash_byte :: "byte \<Rightarrow> bytes" where
  "url_hash_byte b = str ''%'' @ hex_byte b"

definition url_id_byte :: "byte \<Rightarrow> bytes" where
  "url_id_byte b = str ''%'' @ (if b \<ge> 128 then str ''ffffff'' else []) @ hex_byte b"

definition url_loop :: "(byte \<Rightarrow> bytes) \<Rightarrow> bytes \<Rightarrow> bytes res" where
  "url_loop f bs =
     rbind (rfold (\<lambda>buf (i, b). let s = f b @ [0] in
         if 3 * i + length s > length buf then Fault (Undef ''snprintf'') else Ok (mwrite buf (3 * i) s))
       (replicate 61 0) (enumerate 0 bs)) print_s"

text \<open>\<^verbatim>\<open>strcspn\<close>: how many characters come before the first that is in the set, or before the NUL.\<close>

fun strcspn :: "bytes \<Rightarrow> bytes \<Rightarrow> nat res" where
  "strcspn [] reject = Fault (Undef ''strcspn'')"
| "strcspn (c # s) reject = (if c = 0 \<or> c \<in> set reject then Ok 0 else rmap Suc (strcspn s reject))"

section \<open>The announce URL\<close>

text \<open>The host, the port and the path, from the object that holds the URL.\<close>

definition url_host :: "bytes \<Rightarrow> (bytes \<times> bytes) res" where
  "url_host url = rbind (strstr url (str ''http://'') 0) (\<lambda>r. case r of
       None \<Rightarrow> Fault (Exit ''unsupported announce protocol'')
     | Some k \<Rightarrow> let c = drop (k + HTTPLEN) url in
         rbind (strcspn c (str '':/'')) (\<lambda>n.
           if n > MAXHOSTNAMELEN - 1 then Fault (Exit ''n is greater than sizeof(host) - 1'')
           else Ok (take n c, drop n c)))"

definition url_port :: "bytes \<Rightarrow> (bytes \<times> bytes) res" where
  "url_port c = (case c of
       [] \<Rightarrow> Fault (Undef ''c'')
     | x # c' \<Rightarrow>
         if x = 58
         then rbind (strcspn c' (str ''/'')) (\<lambda>n.
                if n > 6 then Fault (Exit ''n is greater than sizeof(port)'')
                else if n = 6 then Fault (Undef ''port'')
                else Ok (take n c', drop n c'))
         else Ok (str ''80'', c))"

definition url_path :: "bytes \<Rightarrow> bytes res" where
  "url_path c = rbind (strlcpy (replicate MAXPATHLEN 0) c MAXPATHLEN) (\<lambda>(n, path).
     if n \<ge> MAXPATHLEN then Fault (Exit ''string truncation'')
     else rbind (print_s path) (\<lambda>s.
       if s = [] then Fault (Undef ''path'')
       else Ok (if last s = 47 then butlast s else s)))"

section \<open>The request\<close>

text \<open>
  \<open>None\<close> is the jump to \<^verbatim>\<open>trunc\<close>, when a text does not fit in its buffer. The parameters \<^verbatim>\<open>numwant\<close>, \<^verbatim>\<open>key\<close> and
  \<^verbatim>\<open>trackerid\<close> are appended by an \<^verbatim>\<open>snprintf\<close> whose destination is also its argument, which the C standard
  leaves undefined; the model is the left-to-right output of the implementation of OpenBSD. Others may lose what
  is already there; the theorems below are about requests without these parameters.
\<close>

definition fit :: "bytes \<Rightarrow> bytes option" where
  "fit s = (if length s \<ge> GETSTRINGLEN then None else Some s)"

definition add_param :: "string \<Rightarrow> bytes option \<Rightarrow> bytes option res \<Rightarrow> bytes option res" where
  "add_param name v ps = rbind ps (\<lambda>p. case (p, v) of
       (Some s, Some m) \<Rightarrow> rmap (\<lambda>t. fit (s @ str name @ t)) (print_s m)
     | _ \<Rightarrow> Ok p)"

definition announce_params :: "session \<Rightarrow> bytes option \<Rightarrow> bytes option res" where
  "announce_params sc event =
     (let t = tp sc in
      if length (info_hash t) < SHA1_DIGEST_LENGTH \<or> length (peerid sc) < PEER_ID_LEN then Fault (Undef ''info_hash'')
      else
      rbind (url_loop url_hash_byte (take SHA1_DIGEST_LENGTH (info_hash t))) (\<lambda>tbuf.
      rbind (url_loop url_id_byte (take PEER_ID_LEN (peerid sc))) (\<lambda>pbuf.
      rbind (print_s (port sc)) (\<lambda>prt.
        add_param ''&trackerid='' (s_trackerid sc) (add_param ''&key='' (key sc) (add_param ''&numwant='' (numwant sc)
        (add_param ''&ip='' (ip sc) (add_param ''&event='' event
          (Ok (fit (str ''?info_hash='' @ tbuf @ str ''&peer_id='' @ pbuf @ str ''&port='' @ prt
             @ str ''&uploaded='' @ dec_int (uploaded t) @ str ''&downloaded='' @ dec_int (downloaded t)
             @ str ''&left='' @ dec_int (left t) @ str ''&compact=1'')))))))))))"

definition announce_request :: "bytes \<Rightarrow> bytes \<Rightarrow> bytes \<Rightarrow> bytes option" where
  "announce_request path params host =
     fit (str ''GET '' @ path @ params @ str '' HTTP/1.0'' @ crlf @ str ''Host: '' @ host @ crlf
       @ str ''User-agent: Unworkable/'' @ UNWORKABLE_VERSION @ crlf @ crlf)"

text \<open>\<open>fd\<close> is the answer of \<^verbatim>\<open>network_connect_tracker\<close>; the request is sent with its terminating NUL.\<close>

definition announce :: "int \<Rightarrow> int \<Rightarrow> bytes option \<Rightarrow> session \<Rightarrow> (int \<times> session) res" where
  "announce now fd event sc =
     (let sc = sc\<lparr>last_announce := now\<rparr> in
      if length (info_hash (tp sc)) < SHA1_DIGEST_LENGTH \<or> length (peerid sc) < PEER_ID_LEN then Fault (Undef ''info_hash'')
      else
      rbind (url_host (announce_url (tp sc))) (\<lambda>(host, c).
      rbind (url_port c) (\<lambda>(prt, c).
      rbind (url_path c) (\<lambda>path.
      rbind (announce_params sc event) (\<lambda>ps. case ps of
          None \<Rightarrow> Ok (-1, sc)
        | Some params \<Rightarrow> (case announce_request path params host of
              None \<Rightarrow> Ok (-1, sc)
            | Some request \<Rightarrow>
                if fd = -1 then Fault (Exit ''tracker announce'')
                else Ok (0, sc\<lparr>http_res := Some \<lparr>rxbuf = [], rxsize = RESBUFLEN\<rparr>, announce_underway := True,
                       tracker_out := tracker_out sc @ [cstr request]\<rparr>)))))))"

section \<open>What is sent\<close>

lemma url_loop_run:
  assumes "\<forall>b \<in> set bs. length (f b) = 3 \<and> nonul (f b)" "n + length bs \<le> 20" "length (s @ 0 # r) = 61" "length s = 3 * n"
  shows "\<exists>r'. rfold (\<lambda>buf (i, b). let s = f b @ [0] in
         if 3 * i + length s > length buf then Fault (Undef ''snprintf'') else Ok (mwrite buf (3 * i) s))
       (s @ 0 # r) (enumerate n bs) = Ok (s @ concat (map f bs) @ 0 # r')"
  using assms
proof (induction bs arbitrary: n s r)
  case Nil
  then show ?case by simp
next
  case (Cons b bs)
  let ?s = "s @ f b" and ?r = "drop (length (f b)) r"
  have m: "mwrite (s @ 0 # r) (3 * n) (f b @ [0]) = ?s @ 0 # ?r" using Cons.prems by (simp add: mwrite_def)
  have "length (?s @ 0 # ?r) = 61" "length ?s = 3 * Suc n" using Cons.prems by simp_all
  then obtain r' where "rfold (\<lambda>buf (i, b). let s = f b @ [0] in
         if 3 * i + length s > length buf then Fault (Undef ''snprintf'') else Ok (mwrite buf (3 * i) s))
       (?s @ 0 # ?r) (enumerate (Suc n) bs) = Ok (?s @ concat (map f bs) @ 0 # r')"
    using Cons.IH [of "Suc n" ?s ?r] Cons.prems by auto
  then show ?case using m Cons.prems by (simp add: Let_def)
qed

lemma url_loop_ok:
  assumes "\<forall>b \<in> set bs. length (f b) = 3 \<and> nonul (f b)" "length bs \<le> 20"
  shows "url_loop f bs = Ok (concat (map f bs))"
proof -
  have b: "[] @ 0 # replicate 60 0 = replicate 61 (0 :: byte)" by (simp add: numeral_eq_Suc)
  have n: "nonul (concat (map f bs))" using assms(1) by (auto simp: nonul_def)
  show ?thesis
    using url_loop_run [of bs f 0 "[]" "replicate 60 0", unfolded b] assms print_s_nul [OF n]
    by (auto simp: url_loop_def)
qed

lemma strcspn_run:
  assumes "nonul s" "set s \<inter> set reject = {}" "c = 0 \<or> c \<in> set reject"
  shows "strcspn (s @ c # r) reject = Ok (length s)"
  using assms(1,2) by (induction s) (use assms(3) in \<open>auto simp: nonul_def\<close>)

lemma nonul_app [simp]: "nonul (a @ b) \<longleftrightarrow> nonul a \<and> nonul b" "nonul []" "nonul (c # s) \<longleftrightarrow> c \<noteq> 0 \<and> nonul s"
  by (auto simp: nonul_def)

text \<open>An announce URL with a port.\<close>

lemma url_split:
  assumes "nonul host" "set host \<inter> {58, 47} = {}" "length host < MAXHOSTNAMELEN"
    and "nonul prt" "47 \<notin> set prt" "length prt < 6" "nonul path" "length path < MAXPATHLEN - 1"
  shows "url_host (str ''http://'' @ host @ 58 # prt @ 47 # path @ 0 # r) = Ok (host, 58 # prt @ 47 # path @ 0 # r)"
    "url_port (58 # prt @ 47 # path @ 0 # r) = Ok (prt, 47 # path @ 0 # r)"
    "url_path (47 # path @ 0 # r) = Ok (if last (47 # path) = 47 then butlast (47 # path) else 47 # path)"
proof -
  have "strcspn (host @ 58 # prt @ 47 # path @ 0 # r) (str '':/'') = Ok (length host)"
    using assms(1,2) by (intro strcspn_run) auto
  moreover have "prefix (str ''http://'') (str ''http://'' @ t)" for t by simp
  ultimately show "url_host (str ''http://'' @ host @ 58 # prt @ 47 # path @ 0 # r) = Ok (host, 58 # prt @ 47 # path @ 0 # r)"
    using assms(3) by (simp add: url_host_def HTTPLEN_def Let_def)
  have "strcspn (prt @ 47 # path @ 0 # r) (str ''/'') = Ok (length prt)"
    using assms(4,5) by (intro strcspn_run) auto
  then show "url_port (58 # prt @ 47 # path @ 0 # r) = Ok (prt, 47 # path @ 0 # r)"
    using assms(6) by (simp add: url_port_def)
  let ?p = "47 # path"
  have "strlcpy (replicate MAXPATHLEN 0) (?p @ 0 # r) MAXPATHLEN
      = Ok (length ?p, mwrite (replicate MAXPATHLEN 0) 0 (take (MAXPATHLEN - 1) ?p @ [0]))"
    using strlcpy_spec [of ?p MAXPATHLEN "replicate MAXPATHLEN 0" r] assms(7) by (simp add: MAXPATHLEN_def)
  moreover have "mwrite (replicate MAXPATHLEN 0) 0 (take (MAXPATHLEN - 1) ?p @ [0]) = ?p @ 0 # replicate (MAXPATHLEN - length ?p - 1) 0"
    using assms(8) by (simp add: mwrite_def)
  moreover have "print_s (?p @ 0 # replicate (MAXPATHLEN - length ?p - 1) 0) = Ok ?p"
    using assms(7) by (intro print_s_nul) simp
  ultimately show "url_path (47 # path @ 0 # r) = Ok (if last ?p = 47 then butlast ?p else ?p)"
    using assms(8) by (simp add: url_path_def)
qed

lemma hex_byte_props: "length (url_hash_byte b) = 3" "nonul (url_hash_byte b)" "b < 128 \<Longrightarrow> url_id_byte b = url_hash_byte b"
proof -
  have n: "hex_nibble k \<noteq> 0" if "k < 16" for k
  proof -
    have "unat (hex_nibble k) \<noteq> 0" using that by (auto simp: hex_nibble_def unat_of_nat simp del: of_nat_add)
    then show ?thesis by auto
  qed
  have "unat b div 16 < 16" "unat b mod 16 < 16" using unsigned_less [of b, where 'a = nat] by auto
  then show "length (url_hash_byte b) = 3" "nonul (url_hash_byte b)" "b < 128 \<Longrightarrow> url_id_byte b = url_hash_byte b"
    using n by (simp_all add: url_hash_byte_def url_id_byte_def hex_byte_def not_le)
qed

section \<open>Properties\<close>

text \<open>
  (C14) The request to the tracker: for an announce URL with host, port and path, a 20-byte info hash and an
  ASCII peer id, \<^verbatim>\<open>announce\<close> sends one HTTP request for the path (without a trailing slash) that carries the
  percent-encoded hash and peer id, the port, the three byte counters and the event, marks the announce as
  under way and records its time; when the request does not fit in its buffer it sends nothing and returns \<open>-1\<close>.
\<close>

theorem announce_sends:
  assumes "announce_url (tp sc) = str ''http://'' @ host @ 58 # prt @ 47 # path @ 0 # r"
    and "nonul host" "set host \<inter> {58, 47} = {}" "length host < MAXHOSTNAMELEN"
    and "nonul prt" "47 \<notin> set prt" "length prt < 6" "nonul path" "length path < MAXPATHLEN - 1"
    and "length (info_hash (tp sc)) = 20" "peerid sc = pid @ 0 # r'" "length pid = 20" "\<forall>b \<in> set pid. b < 128"
    and "port sc = lport @ 0 # r''" "nonul lport" "nonul ev" "fd \<noteq> -1"
    and "key sc = None" "ip sc = None" "numwant sc = None" "s_trackerid sc = None"
  defines "params \<equiv> str ''?info_hash='' @ concat (map url_hash_byte (info_hash (tp sc))) @ str ''&peer_id='' @ concat (map url_hash_byte pid)
      @ str ''&port='' @ lport @ str ''&uploaded='' @ dec_int (uploaded (tp sc)) @ str ''&downloaded='' @ dec_int (downloaded (tp sc))
      @ str ''&left='' @ dec_int (left (tp sc)) @ str ''&compact=1'' @ str ''&event='' @ ev"
    and "target \<equiv> if last (47 # path) = 47 then butlast (47 # path) else 47 # path"
  defines "request \<equiv> str ''GET '' @ target @ params @ str '' HTTP/1.0'' @ crlf @ str ''Host: '' @ host @ crlf
      @ str ''User-agent: Unworkable/'' @ UNWORKABLE_VERSION @ crlf @ crlf"
  shows "announce now fd (Some (cstr ev)) sc =
    (if length request < GETSTRINGLEN
     then Ok (0, sc\<lparr>last_announce := now, http_res := Some \<lparr>rxbuf = [], rxsize = RESBUFLEN\<rparr>, announce_underway := True,
            tracker_out := tracker_out sc @ [cstr request]\<rparr>)
     else Ok (-1, sc\<lparr>last_announce := now\<rparr>))"
proof -
  let ?base = "str ''?info_hash='' @ concat (map url_hash_byte (info_hash (tp sc))) @ str ''&peer_id='' @ concat (map url_hash_byte pid)
      @ str ''&port='' @ lport @ str ''&uploaded='' @ dec_int (uploaded (tp sc)) @ str ''&downloaded='' @ dec_int (downloaded (tp sc))
      @ str ''&left='' @ dec_int (left (tp sc)) @ str ''&compact=1''"
  have h: "url_loop url_hash_byte (info_hash (tp sc)) = Ok (concat (map url_hash_byte (info_hash (tp sc))))"
    using assms(10) hex_byte_props by (intro url_loop_ok) simp_all
  have id: "map url_id_byte pid = map url_hash_byte pid" using assms(13) hex_byte_props(3) by simp
  have p: "url_loop url_id_byte pid = Ok (concat (map url_hash_byte pid))"
    using url_loop_ok [of pid url_id_byte] assms(12,13) hex_byte_props unfolding id by simp
  have prt: "print_s (port sc) = Ok lport" "print_s (cstr ev) = Ok ev"
    using print_s_nul assms(14-16) by (simp_all add: cstr_def)
  have "announce_params (sc\<lparr>last_announce := now\<rparr>) (Some (cstr ev)) = Ok (if length ?base < GETSTRINGLEN then fit params else None)"
    using h p prt assms(10-12,18-21)
    by (simp add: announce_params_def SHA1_DIGEST_LENGTH_def PEER_ID_LEN_def Let_def add_param_def fit_def params_def del: str_Cons)
  moreover have "announce_request target params host = fit request" by (simp add: announce_request_def request_def)
  moreover have "length ?base \<le> length request" "length params \<le> length request" by (simp_all add: request_def params_def)
  ultimately show ?thesis
    using url_split [OF assms(2-9), of r] assms(1,10-12,17)
    by (auto simp: announce_def Let_def SHA1_DIGEST_LENGTH_def PEER_ID_LEN_def fit_def target_def simp del: str_Cons)
qed

definition tracked :: session where
  "tracked = (example_session ((example_torrent 0)\<lparr>announce_url := str ''http://'' @ str ''t'' @ 58 # str ''80'' @ 47 # str ''ann'' @ 0 # []\<rparr>))
     \<lparr>peerid := replicate 20 65 @ 0 # [], port := str ''6668'' @ 0 # []\<rparr>"

theorem announce_sends_witness:
  "\<exists>request. announce 9 3 (Some (cstr (str ''started''))) tracked = Ok (0, tracked\<lparr>last_announce := 9,
       http_res := Some \<lparr>rxbuf = [], rxsize = RESBUFLEN\<rparr>, announce_underway := True, tracker_out := [cstr request]\<rparr>)
    \<and> prefix (str ''GET /ann?info_hash='') request"
proof -
  have d: "length (dec_int 0) = 1" "length (dec_int 12) = 2" by (simp_all add: dec_int_def dec_nat.simps)
  have l: "length (concat (replicate 20 (url_hash_byte b))) = 60" for b
    by (simp add: length_concat hex_byte_props sum_list_replicate)
  have f: "info_hash (tp tracked) = replicate 20 0" "uploaded (tp tracked) = 0" "downloaded (tp tracked) = 0" "left (tp tracked) = 12"
    "tracker_out tracked = []"
    by (simp_all add: tracked_def example_session_def example_torrent_def)
  note s = announce_sends [of tracked "str ''t''" "str ''80''" "str ''ann''" "[]" "replicate 20 65" "[]" "str ''6668''" "[]" "str ''started''" 3 9]
  show ?thesis
    by (subst s)
      (simp_all add: f d l crlf_def UNWORKABLE_VERSION_def GETSTRINGLEN_def MAXHOSTNAMELEN_def MAXPATHLEN_def,
       simp_all add: tracked_def example_session_def, intro exI conjI, rule refl, simp)
qed

end
