(* ===== verification/Network.thy ===== *)
theory Network
  imports Session_Safe Announce
begin

text \<open>
  The handlers of \<^verbatim>\<open>network.c\<close>: the peer list, the handshake and the framing of messages on a socket that
  delivers any number of bytes at a time, and the processing of a complete message.

  The record \<open>sysenv\<close> holds what the operating system and the command line answer while one handler runs:
  the time, \<^verbatim>\<open>random ()\<close> (a function of a number that differs from call to call, here the bytes the peer has
  sent so far), the page size, the flag \<^verbatim>\<open>seed\<close>, the descriptor of the tracker, those of the peers to connect
  to, \<^verbatim>\<open>getaddrinfo\<close>, which resolves a host and a port to an address and a port in network order, and the
  listening descriptor.
\<close>

record sysenv =
  e_now :: int
  e_rnd :: "nat \<Rightarrow> nat"
  e_page :: int
  e_seed :: bool
  e_tracker :: int
  e_connect :: "nat \<Rightarrow> int"
  e_gai :: "bytes \<Rightarrow> bytes \<Rightarrow> (bytes \<times> bytes) option"
  e_listen :: int

section \<open>Constants\<close>

definition BT_PROTOCOL :: bytes where "BT_PROTOCOL = str ''BitTorrent protocol''"
definition BT_PSTRLEN :: u8 where "BT_PSTRLEN = 19"
definition BT_INITIAL_LEN :: u32 where "BT_INITIAL_LEN = 20"
definition LENGTH_FIELD :: u32 where "LENGTH_FIELD = 4"
definition MAX_MESSAGE_LEN :: u32 where "MAX_MESSAGE_LEN = 0xffffff"
definition PEER_KEEPALIVE_SECONDS :: int where "PEER_KEEPALIVE_SECONDS = 60"

section \<open>Messages\<close>

text \<open>\<^verbatim>\<open>p->state = 0; p->state |= PEER_STATE_DEAD\<close>.\<close>

definition kill_peer :: "nat \<Rightarrow> session \<Rightarrow> session res" where
  "kill_peer p sc = rbind (get_peer sc p) (\<lambda>x. Ok (set_peer sc p (x\<lparr>state := 0 OR PEER_STATE_DEAD\<rparr>)))"

definition network_peer_read_piece :: "sysenv \<Rightarrow> nat \<Rightarrow> u32 \<Rightarrow> u32 \<Rightarrow> u32 \<Rightarrow> bytes \<Rightarrow> session \<Rightarrow> session res" where
  "network_peer_read_piece e p idx offset len data sc =
     rbind (torrent_piece_find (tp sc) idx) (\<lambda>tpp.
     rbind (network_piece_dl_find sc (Some p) idx offset) (\<lambda>r. case r of
         None \<Rightarrow> Ok sc
       | Some d \<Rightarrow>
           rbind (torrent_block_write tpp (uint offset) len data (dsk sc)) (\<lambda>dk.
           rbind (get_dl sc d) (\<lambda>pd.
           let sc = set_dl (sc\<lparr>dsk := dk\<rparr>) d (pd\<lparr>pd_bytes := pd_bytes pd + len\<rparr>);
               sc = sc\<lparr>tp := (tp sc)\<lparr>downloaded := downloaded (tp sc) + uint len\<rparr>\<rparr>
           in rbind (get_peer sc p) (\<lambda>x.
                ctl_server_notify_bytes (downloaded (tp sc)) (set_peer sc p (x\<lparr>totalrx := totalrx x + ucast len\<rparr>)))))))"

text \<open>Does this peer have anything we want?\<close>

definition ask_interest :: "sysenv \<Rightarrow> nat \<Rightarrow> session \<Rightarrow> session res" where
  "ask_interest e p sc = rbind (get_peer sc p) (\<lambda>x.
     rbind (scheduler_piece_gimme (e_now e) (e_rnd e (unat (totalrx x))) p True sc) (\<lambda>(_, res, sc).
     rbind (get_peer sc p) (\<lambda>x.
       if res \<and> state x AND PEER_STATE_AMINTERESTED = 0 then network_peer_write_interested (e_now e) p sc else Ok sc)))"

text \<open>One turn of the loop of CHOKE over the downloads of the peer.\<close>

definition choke_dl :: "nat \<Rightarrow> session \<Rightarrow> nat \<Rightarrow> session res" where
  "choke_dl p sc d = rbind (get_dl sc d) (\<lambda>pd.
     let sc = set_dl sc d (pd\<lparr>pc := None\<rparr>) in
     rbind (get_peer sc p) (\<lambda>x.
     rbind (tailq_remove d (peer_piece_dls x)) (\<lambda>ds.
       Ok (set_peer sc p (x\<lparr>peer_piece_dls := ds, dl_queue_len := dl_queue_len x - 1\<rparr>)))))"

definition process_choke :: "nat \<Rightarrow> session \<Rightarrow> session res" where
  "process_choke p sc = rbind (get_peer sc p) (\<lambda>x.
     let sc = set_peer sc p (x\<lparr>state := state x OR PEER_STATE_CHOKED\<rparr>) in
     if state x AND PEER_STATE_FAST = 0 then rfold (choke_dl p) sc (peer_piece_dls x) else Ok sc)"

definition change_state :: "nat \<Rightarrow> (u32 \<Rightarrow> u32) \<Rightarrow> session \<Rightarrow> session res" where
  "change_state p f sc = rbind (get_peer sc p) (\<lambda>x. Ok (set_peer sc p (x\<lparr>state := f (state x)\<rparr>)))"

text \<open>The flags of a peer whose bit field is known.\<close>

definition established :: "u32 \<Rightarrow> u32" where
  "established s = (s AND NOT PEER_STATE_BITFIELD) OR PEER_STATE_ESTABLISHED"

definition process_have :: "sysenv \<Rightarrow> nat \<Rightarrow> bytes \<Rightarrow> session \<Rightarrow> session res" where
  "process_have e p m sc = rbind (msg_u32 m 1) (\<lambda>idx.
     if idx > num_pieces (tp sc) - 1 then Ok sc
     else rbind (get_peer sc p) (\<lambda>x.
       let x = (case bitfield x of
                  None \<Rightarrow> x\<lparr>bitfield := Some (replicate (unat (bitfield_len (tp sc))) 0), state := established (state x)\<rparr>
                | Some bf \<Rightarrow> x)
       in rbind (util_setbit (the (bitfield x)) idx) (\<lambda>bf.
            ask_interest e p (set_peer sc p (x\<lparr>bitfield := Some bf\<rparr>)))))"

text \<open>A bit field arrives, as such or as one of the two short forms; \<open>bf\<close> is its contents.\<close>

definition take_bitfield :: "sysenv \<Rightarrow> nat \<Rightarrow> bytes \<Rightarrow> session \<Rightarrow> session res" where
  "take_bitfield e p bf sc = rbind (get_peer sc p) (\<lambda>x.
     ask_interest e p (set_peer sc p (x\<lparr>bitfield := Some bf, state := established (state x)\<rparr>)))"

definition process_bitfield :: "sysenv \<Rightarrow> nat \<Rightarrow> bytes \<Rightarrow> session \<Rightarrow> session res" where
  "process_bitfield e p m sc = rbind (get_peer sc p) (\<lambda>x.
     if state x AND PEER_STATE_BITFIELD = 0 then Ok sc
     else let bitfieldlen = rxmsglen x - 1 in
       if bitfieldlen \<noteq> bitfield_len (tp sc) then kill_peer p sc
       else if 1 + unat bitfieldlen > length m then Fault (Undef ''rxmsg'')
       else take_bitfield e p (mread m 1 (unat bitfieldlen)) sc)"

definition process_haveall :: "sysenv \<Rightarrow> nat \<Rightarrow> u8 \<Rightarrow> session \<Rightarrow> session res" where
  "process_haveall e p b sc = rbind (get_peer sc p) (\<lambda>x.
     if state x AND PEER_STATE_BITFIELD = 0 then Ok sc
     else take_bitfield e p (replicate (unat (bitfield_len (tp sc))) b) sc)"

definition process_request :: "sysenv \<Rightarrow> nat \<Rightarrow> bytes \<Rightarrow> session \<Rightarrow> session res" where
  "process_request e p m sc = rbind (msg_u32 m 1) (\<lambda>idx.
     if idx > num_pieces (tp sc) - 1 then Ok sc
     else rbind (msg_u32 m 5) (\<lambda>off.
       rbind (torrent_piece_find (tp sc) idx) (\<lambda>tpp.
       if off > tpp_len tpp then Ok sc
       else rbind (msg_u32 m 9) (\<lambda>blocklen.
         if tpp_flags tpp AND TORRENT_PIECE_CKSUMOK = 0
         then rbind (get_peer sc p) (\<lambda>x.
                if state x AND PEER_STATE_FAST \<noteq> 0 then network_peer_reject_block (e_now e) p idx off blocklen sc else Ok sc)
         else network_piece_ul_enqueue p idx off blocklen sc))))"

section \<open>A block arrives\<close>

text \<open>Every block of the piece has a download, and it is complete; the peer's own downloads come first.\<close>

fun blocks_loop :: "session \<Rightarrow> nat \<Rightarrow> u32 \<Rightarrow> u32 list \<Rightarrow> bool res" where
  "blocks_loop sc p idx [] = Ok True"
| "blocks_loop sc p idx (off # offs) = rbind (network_piece_dl_find sc (Some p) idx off) (\<lambda>r. case r of
       None \<Rightarrow> Ok False
     | Some d \<Rightarrow> rbind (get_dl sc d) (\<lambda>pd. if pd_len pd \<noteq> pd_bytes pd then Ok False else blocks_loop sc p idx offs))"

definition free_block :: "u32 \<Rightarrow> session \<Rightarrow> u32 \<Rightarrow> session res" where
  "free_block idx sc off = rbind (network_piece_dl_find sc None idx off) (\<lambda>r. case r of
       None \<Rightarrow> Ok sc
     | Some d \<Rightarrow> network_piece_dl_free d sc)"

text \<open>
  The hash check succeeded: \<open>tpp\<close> is the piece before it was unmapped. When it was the last one and the program does not seed, the
  program exits, after it has written the fast-resume file; there is no session any more.
\<close>

definition piece_done :: "sysenv \<Rightarrow> u32 \<Rightarrow> u32 \<Rightarrow> u32 list \<Rightarrow> session \<Rightarrow> session res" where
  "piece_done e idx len offs sc =
     rbind (torrent_fastresume_dump (tp sc)) (\<lambda>contents.
     let sc = sc\<lparr>resume_file := Some contents,
           tp := (tp sc)\<lparr>good_pieces := good_pieces (tp sc) + 1, left := left (tp sc) - uint len\<rparr>\<rparr> in
     rbind (if good_pieces (tp sc) = num_pieces (tp sc)
            then if \<not> e_seed e then Fault (Exit ''download complete'')
                 else if \<not> announce_underway sc then rmap snd (announce (e_now e) (e_tracker e) (Some (cstr (str ''completed''))) sc)
                 else Ok sc
            else Ok sc) (\<lambda>sc.
     rbind (rfold (\<lambda>sc q. network_peer_write_have (e_now e) q idx sc) sc (peers sc)) (\<lambda>sc.
     rbind (ctl_server_notify_pieces sc) (\<lambda>sc.
       rfold (free_block idx) sc offs))))"

definition finish_piece :: "sysenv \<Rightarrow> u32 \<Rightarrow> u32 list \<Rightarrow> session \<Rightarrow> session res" where
  "finish_piece e idx offs sc =
     rbind (torrent_piece_find (tp sc) idx) (\<lambda>tpp.
     rbind (torrent_piece_checkhash (tp sc) tpp (dsk sc)) (\<lambda>(res, tpp).
     let (tpp, t) = torrent_piece_unmap tpp (tp sc); sc = sc\<lparr>tp := update_piece t idx tpp\<rparr> in
     if res = 0 then piece_done e idx (tpp_len tpp) offs sc
     else rfold (free_block idx) sc offs))"

text \<open>A block of a piece that is not good yet: \<open>off\<close>, \<open>len\<close> and \<open>data\<close> are those of the message.\<close>

definition take_piece :: "sysenv \<Rightarrow> nat \<Rightarrow> u32 \<Rightarrow> u32 \<Rightarrow> u32 \<Rightarrow> bytes \<Rightarrow> session \<Rightarrow> session res" where
  "take_piece e p idx off len data sc = rbind (get_peer sc p) (\<lambda>x.
     let sc = set_peer sc p (x\<lparr>dl_queue_len := dl_queue_len x - 1\<rparr>) in
     rbind (torrent_piece_find (tp sc) idx) (\<lambda>tpp.
     rbind (if tpp_flags tpp AND TORRENT_PIECE_MAPPED = 0
            then rmap (\<lambda>(tpp, t, dk). sc\<lparr>tp := update_piece t idx tpp, dsk := dk\<rparr>) (torrent_piece_map (e_page e) tpp (tp sc, dsk sc))
            else Ok sc) (\<lambda>sc.
     rbind (network_peer_read_piece e p idx off len data sc) (\<lambda>sc.
     rbind (torrent_piece_find (tp sc) idx) (\<lambda>tpp.
     rbind (block_offs (tpp_len tpp)) (\<lambda>offs.
     rbind (blocks_loop sc p idx offs) (\<lambda>found.
       if found then finish_piece e idx offs sc else Ok sc)))))))"

definition process_piece :: "sysenv \<Rightarrow> nat \<Rightarrow> bytes \<Rightarrow> session \<Rightarrow> session res" where
  "process_piece e p m sc = rbind (msg_u32 m 1) (\<lambda>idx. rbind (msg_u32 m 5) (\<lambda>off.
     if idx > num_pieces (tp sc) - 1 then Ok sc
     else rbind (torrent_piece_find (tp sc) idx) (\<lambda>tpp.
       if off > tpp_len tpp then Ok sc
       else rbind (network_piece_dl_find sc (Some p) idx off) (\<lambda>r. case r of
           None \<Rightarrow> kill_peer p sc
         | Some d \<Rightarrow> rbind (get_dl sc d) (\<lambda>pd. rbind (get_peer sc p) (\<lambda>x.
             if (ucast (rxmsglen x) - 9 :: u64) \<noteq> ucast (pd_len pd) then Ok sc
             else rbind (if tpp_flags tpp AND TORRENT_PIECE_CKSUMOK = 0 then take_piece e p idx off (rxmsglen x - 9) (drop 9 m) sc else Ok sc) (\<lambda>sc.
               rbind (get_peer sc p) (\<lambda>x. Ok (set_peer sc p (x\<lparr>lastrecv := e_now e\<rparr>))))))))))"

definition process_cancel :: "nat \<Rightarrow> bytes \<Rightarrow> session \<Rightarrow> session res" where
  "process_cancel p m sc = rbind (msg_u32 m 1) (\<lambda>idx.
     if idx > num_pieces (tp sc) - 1 then Ok sc
     else rbind (msg_u32 m 5) (\<lambda>off. rbind (msg_u32 m 9) (\<lambda>blocklen. rbind (get_peer sc p) (\<lambda>x.
       Ok (set_peer sc p (x\<lparr>peer_piece_uls :=
         filter (\<lambda>pu. \<not> (pu_idx pu = idx \<and> pu_off pu = off \<and> pu_len pu = blocklen)) (peer_piece_uls x)\<rparr>))))))"

definition process_reject :: "nat \<Rightarrow> bytes \<Rightarrow> session \<Rightarrow> session res" where
  "process_reject p m sc = rbind (get_peer sc p) (\<lambda>x.
     if state x AND PEER_STATE_FAST = 0 then kill_peer p sc
     else rbind (msg_u32 m 1) (\<lambda>idx.
       if idx > num_pieces (tp sc) - 1 then Ok sc
       else rbind (msg_u32 m 5) (\<lambda>off. rbind (msg_u32 m 9) (\<lambda>blocklen.
         rbind (network_piece_dl_find sc (Some p) idx off) (\<lambda>r. case r of
             None \<Rightarrow> Ok sc
           | Some d \<Rightarrow> rbind (network_piece_dl_free d sc) (\<lambda>sc. rbind (get_peer sc p) (\<lambda>x.
               Ok (set_peer sc p (x\<lparr>dl_queue_len := dl_queue_len x - 1\<rparr>)))))))))"

text \<open>Two messages the program only traces; the first falls through to the second.\<close>

definition process_suggest :: "bytes \<Rightarrow> session \<Rightarrow> session res" where
  "process_suggest m sc = rmap (\<lambda>idx. sc) (msg_u32 m 1)"

definition network_peer_process_message :: "sysenv \<Rightarrow> u8 \<Rightarrow> nat \<Rightarrow> bytes \<Rightarrow> session \<Rightarrow> session res" where
  "network_peer_process_message e mid p m sc =
     (if mid = PEER_MSG_ID_CHOKE then process_choke p sc
      else if mid = PEER_MSG_ID_UNCHOKE then change_state p (\<lambda>s. s AND NOT PEER_STATE_CHOKED) sc
      else if mid = PEER_MSG_ID_INTERESTED then change_state p (\<lambda>s. s OR PEER_STATE_INTERESTED) sc
      else if mid = PEER_MSG_ID_NOTINTERESTED then change_state p (\<lambda>s. s AND NOT PEER_STATE_INTERESTED) sc
      else if mid = PEER_MSG_ID_HAVE then process_have e p m sc
      else if mid = PEER_MSG_ID_BITFIELD then process_bitfield e p m sc
      else if mid = PEER_MSG_ID_REQUEST then process_request e p m sc
      else if mid = PEER_MSG_ID_PIECE then process_piece e p m sc
      else if mid = PEER_MSG_ID_CANCEL then process_cancel p m sc
      else if mid = PEER_MSG_ID_REJECT then process_reject p m sc
      else if mid = PEER_MSG_ID_HAVENONE then process_haveall e p 0 sc
      else if mid = PEER_MSG_ID_HAVEALL then process_haveall e p 0xFF sc
      else if mid = PEER_MSG_ID_ALLOWEDFAST \<or> mid = PEER_MSG_ID_SUGGEST then process_suggest m sc
      else Ok sc)"

section \<open>Framing\<close>

text \<open>
  The handler of input, one call of it: \<open>rx_begin\<close> starts a new message when none is pending, \<open>rx_read\<close> is
  \<^verbatim>\<open>bufferevent_read\<close> into the message, \<open>rx_frame\<close> says what to do when the pending part is complete. Memory from
  \<^verbatim>\<open>xmalloc\<close> is zero in the model; the code reads none of it before it has been filled.
\<close>

definition rx_begin :: "int \<Rightarrow> peer \<Rightarrow> peer" where
  "rx_begin t x =
     (if rxpending x \<noteq> 0 then x
      else if state x AND PEER_STATE_HANDSHAKE1 \<noteq> 0
      then x\<lparr>lastrecv := t, rxmsg := Some (replicate (unat BT_INITIAL_LEN) 0), rxmsglen := BT_INITIAL_LEN, rxpending := BT_INITIAL_LEN\<rparr>
      else x\<lparr>state := state x AND NOT PEER_STATE_GOTLEN, rxmsg := Some (replicate (unat LENGTH_FIELD) 0),
             rxmsglen := LENGTH_FIELD, rxpending := LENGTH_FIELD\<rparr>)"

definition rx_read :: "bytes \<Rightarrow> peer \<Rightarrow> peer res" where
  "rx_read input x = (case rxmsg x of
       None \<Rightarrow> Fault (Undef ''rxmsg'')
     | Some m \<Rightarrow>
         let base = unat (rxmsglen x - rxpending x); new = take (unat (rxpending x)) input in
         if base + length new > length m then Fault (Undef ''rxmsg'')
         else Ok (x\<lparr>rxmsg := Some (mwrite m base new), totalrx := totalrx x + of_nat (length new),
                    rxpending := rxpending x - of_nat (length new)\<rparr>))"

definition msg_bytes :: "bytes \<Rightarrow> nat \<Rightarrow> nat \<Rightarrow> bytes res" where
  "msg_bytes m a n = (if a + n \<le> length m then Ok (mread m a n) else Fault (Undef ''rxmsg''))"

text \<open>The first twenty bytes, the rest of the handshake, and the length of a message.\<close>

definition rx_handshake1 :: "bytes \<Rightarrow> peer \<Rightarrow> peer res" where
  "rx_handshake1 m x =
     rbind (msg_bytes m 0 1) (\<lambda>b.
     let x = x\<lparr>pstrlen := hd b\<rparr> in
     rbind (if pstrlen x = BT_PSTRLEN then rmap (\<lambda>s. s = BT_PROTOCOL) (msg_bytes m 1 (unat BT_PSTRLEN)) else Ok False) (\<lambda>plain.
       if plain
       then Ok (x\<lparr>rxpending := 8 + 20 + 20, rxmsglen := 8 + 20 + 20, rxmsg := Some (replicate (8 + 20 + 20) 0),
              state := (state x AND NOT PEER_STATE_HANDSHAKE1) OR PEER_STATE_HANDSHAKE2\<rparr>)
       else Ok (x\<lparr>state := 0 OR PEER_STATE_DEAD\<rparr>)))"

definition rx_handshake2 :: "torrent \<Rightarrow> bytes \<Rightarrow> peer \<Rightarrow> peer res" where
  "rx_handshake2 t m x =
     rbind (msg_bytes m 8 20) (\<lambda>h. rbind (msg_bytes m (8 + 20) 20) (\<lambda>i. rbind (msg_bytes m 27 1) (\<lambda>fast.
     let x = x\<lparr>peer_hash := h, peer_id := i\<rparr>;
         x = (if hd fast AND 4 \<noteq> 0 then x\<lparr>state := state x OR PEER_STATE_FAST\<rparr> else x)
     in if length (info_hash t) < 20 then Fault (Undef ''info_hash'')
        else if h \<noteq> take 20 (info_hash t) then Ok (x\<lparr>state := 0 OR PEER_STATE_DEAD\<rparr>)
        else Ok (x\<lparr>rxmsg := None, rxpending := 0,
               state := ((state x OR PEER_STATE_BITFIELD) OR PEER_STATE_SENDBITFIELD) AND NOT PEER_STATE_HANDSHAKE2\<rparr>))))"

definition rx_length :: "bytes \<Rightarrow> peer \<Rightarrow> peer res" where
  "rx_length m x = rbind (msg_u32 m 0) (\<lambda>msglen.
     let x = x\<lparr>rxmsglen := msglen\<rparr> in
     if rxmsglen x > MAX_MESSAGE_LEN then Ok (x\<lparr>state := 0 OR PEER_STATE_DEAD\<rparr>)
     else let x = x\<lparr>rxmsg := None, state := state x OR PEER_STATE_GOTLEN\<rparr> in
       if rxmsglen x = 0 then Ok x
       else Ok (x\<lparr>rxmsg := Some (replicate (unat (rxmsglen x)) 0), rxpending := rxmsglen x\<rparr>))"

definition rx_message :: "sysenv \<Rightarrow> nat \<Rightarrow> bytes \<Rightarrow> session \<Rightarrow> session res" where
  "rx_message e p m sc = rbind (msg_bytes m 0 1) (\<lambda>b.
     rbind (network_peer_process_message e (hd b) p m sc) (\<lambda>sc.
     rbind (get_peer sc p) (\<lambda>x. Ok (set_peer sc p (x\<lparr>rxmsg := None\<rparr>)))))"

definition rx_frame :: "sysenv \<Rightarrow> nat \<Rightarrow> peer \<Rightarrow> session \<Rightarrow> session res" where
  "rx_frame e p x sc =
     (if rxpending x \<noteq> 0 then Ok (set_peer sc p x)
      else case rxmsg x of
        None \<Rightarrow> Fault (Undef ''rxmsg'')
      | Some m \<Rightarrow>
          if state x AND PEER_STATE_HANDSHAKE1 \<noteq> 0 then rmap (set_peer sc p) (rx_handshake1 m x)
          else if state x AND PEER_STATE_HANDSHAKE2 \<noteq> 0 then rmap (set_peer sc p) (rx_handshake2 (tp sc) m x)
          else if state x AND PEER_STATE_GOTLEN = 0 then rmap (set_peer sc p) (rx_length m x)
          else rx_message e p m (set_peer sc p x))"

text \<open>The label \<^verbatim>\<open>out\<close>: the bit field is sent once, after the handshake.\<close>

definition send_bitfield :: "sysenv \<Rightarrow> nat \<Rightarrow> session \<Rightarrow> session res" where
  "send_bitfield e p sc = rbind (get_peer sc p) (\<lambda>x.
     if state x AND PEER_STATE_SENDBITFIELD = 0 then Ok sc
     else rbind (torrent_empty (tp sc)) (\<lambda>empty.
       rbind (if state x AND PEER_STATE_FAST \<noteq> 0
              then if empty then network_peer_write_havenone (e_now e) p sc
                   else if good_pieces (tp sc) = num_pieces (tp sc) then network_peer_write_haveall (e_now e) p sc
                   else network_peer_write_bitfield (e_now e) p sc
              else if \<not> empty then network_peer_write_bitfield (e_now e) p sc
              else Ok sc) (change_state p (\<lambda>s. s AND NOT PEER_STATE_SENDBITFIELD))))"

definition rx_step :: "sysenv \<Rightarrow> nat \<Rightarrow> bytes \<Rightarrow> session \<Rightarrow> (bytes \<times> session) res" where
  "rx_step e p input sc = rbind (get_peer sc p) (\<lambda>x.
     let x = rx_begin (e_now e) x; rest = drop (unat (rxpending x)) input in
     rbind (rx_read input x) (\<lambda>x.
     rbind (rx_frame e p x sc) (\<lambda>sc.
       rmap (\<lambda>sc. (rest, sc)) (send_bitfield e p sc))))"

lemma rx_begin_pending: "rxpending (rx_begin t x) \<noteq> 0"
  by (simp add: rx_begin_def BT_INITIAL_LEN_def LENGTH_FIELD_def)

lemma rx_step_shorter:
  assumes "rx_step e p input sc = Ok (rest, sc')" "rest \<noteq> []"
  shows "length rest < length input"
proof -
  obtain x where "rest = drop (unat (rxpending (rx_begin (e_now e) x))) input"
    using assms(1) by (auto simp: rx_step_def rbind_eq_Ok rmap_eq_Ok Let_def)
  moreover have "unat (rxpending (rx_begin (e_now e) x)) \<noteq> 0" using rx_begin_pending [of "e_now e" x] by (simp add: unat_eq_zero)
  ultimately show ?thesis using assms(2) by auto
qed

text \<open>The handler calls itself while there is input left.\<close>

function network_handle_peer_response :: "sysenv \<Rightarrow> nat \<Rightarrow> bytes \<Rightarrow> session \<Rightarrow> session res" where
  "network_handle_peer_response e p input sc = rbind (rx_step e p input sc) (\<lambda>(rest, sc).
     if rest \<noteq> [] then network_handle_peer_response e p rest sc else Ok sc)"
  by pat_completeness auto
termination by (relation "measure (\<lambda>(e, p, input, sc). length input)") (auto dest: rx_step_shorter)

definition network_handle_peer_error :: "ev_error list \<Rightarrow> nat \<Rightarrow> session \<Rightarrow> session res" where
  "network_handle_peer_error err p sc = (if EV_EOF \<in> set err then kill_peer p sc else kill_peer p sc)"

definition network_peer_keepalive :: "sysenv \<Rightarrow> nat \<Rightarrow> session \<Rightarrow> session res" where
  "network_peer_keepalive e p sc = rbind (get_peer sc p) (\<lambda>x.
     if e_now e - lastsend x \<ge> PEER_KEEPALIVE_SECONDS then network_peer_write_keepalive (e_now e) p sc else Ok sc)"

section \<open>The peer list\<close>

definition network_connect_peer :: "sysenv \<Rightarrow> nat \<Rightarrow> session \<Rightarrow> (int \<times> session) res" where
  "network_connect_peer e p sc = rbind (get_peer sc p) (\<lambda>x.
     Ok (e_connect e p, set_peer sc p (x\<lparr>state := state x OR PEER_STATE_HANDSHAKE1\<rparr>)))"

text \<open>
  One turn of the loop of \<^verbatim>\<open>network_peerlist_connect\<close>. At the limit of descriptors the peer is freed before it
  is taken out of the list, which uses the links of the freed peer.
\<close>

definition connect_turn :: "sysenv \<Rightarrow> session \<Rightarrow> nat \<Rightarrow> session res" where
  "connect_turn e sc p = rbind (get_peer sc p) (\<lambda>x.
     if ucast (num_peers sc) \<ge> maxfds sc - 5
     then rbind (network_peer_free p sc) (\<lambda>sc. Fault (Undef ''TAILQ_REMOVE of a freed peer''))
     else if connfd x \<noteq> 0 then Ok sc
     else rbind (network_connect_peer e p sc) (\<lambda>(fd, sc).
       rbind (get_peer sc p) (\<lambda>x.
       let sc = set_peer sc p (x\<lparr>connfd := fd\<rparr>) in
       if fd = -1
       then rbind (tailq_remove p (peers sc)) (\<lambda>ps.
            rbind (network_peer_free p (sc\<lparr>peers := ps\<rparr>)) (\<lambda>sc. Ok (sc\<lparr>num_peers := num_peers sc - 1\<rparr>)))
       else network_peer_handshake (e_now e) p sc)))"

definition network_peerlist_connect :: "sysenv \<Rightarrow> session \<Rightarrow> session res" where
  "network_peerlist_connect e sc = rfold (connect_turn e) sc (peers sc)"

definition add_address :: "bytes \<Rightarrow> bytes \<Rightarrow> bytes \<Rightarrow> session \<Rightarrow> session res" where
  "add_address pid a prt sc = (case network_peer_create sc of (p, sc) \<Rightarrow>
     rbind (get_peer sc p) (\<lambda>x. network_peerlist_add_peer p (set_peer sc p (x\<lparr>peer_id := pid, sin_addr := a, sin_port := prt\<rparr>))))"

definition network_peerlist_update_string :: "sysenv \<Rightarrow> bytes \<times> nat \<Rightarrow> session \<Rightarrow> session res" where
  "network_peerlist_update_string e v sc = (case v of (peerlist, len) \<Rightarrow>
     rbind (rfold (\<lambda>sc i. if i + 6 > length peerlist then Fault (Undef ''peerlist'')
         else add_address (replicate 20 0) (mread peerlist i 4) (mread peerlist (i + 4) 2) sc)
       sc (filter (\<lambda>i. i mod 6 = 0) [0..<len])) (network_peerlist_connect e))"

text \<open>One dictionary of the list form; a key that is missing is used without a test.\<close>

definition dict_key :: "benc_node \<Rightarrow> string \<Rightarrow> benc_node res" where
  "dict_key dict k = rbind (find_key dict k) (\<lambda>r. case r of None \<Rightarrow> Fault (Undef ''n->flags'') | Some n \<Rightarrow> Ok n)"

definition dict_peer :: "sysenv \<Rightarrow> session \<Rightarrow> benc_node \<Rightarrow> session res" where
  "dict_peer e sc dict =
     rbind (dict_key dict ''ip'') (\<lambda>n. rbind (string_of ''node is not a string'' n) (\<lambda>(ipstr, _).
     rbind (dict_key dict ''port'') (\<lambda>n. rbind (number_of ''node is not an integer'' n) (\<lambda>i.
     let portstr = dec_int (sint (word_of_int i :: u32)) in
     if length portstr \<ge> 6 then Fault (Exit ''network_peerlist_update_dict() string truncations'')
     else rbind (need_string dict ''peer id'' ''couldn't find peer id field'' ''node is not a string'') (\<lambda>(pid, _).
     if length pid < 20 then Fault (Undef ''memcpy'')
     else rbind (print_s ipstr) (\<lambda>host. case e_gai e host portstr of
         None \<Rightarrow> Fault (Exit ''getaddrinfo'')
       | Some (a, prt) \<Rightarrow> add_address (take 20 pid) a prt sc))))))"

definition network_peerlist_update_dict :: "sysenv \<Rightarrow> benc_node \<Rightarrow> session \<Rightarrow> session res" where
  "network_peerlist_update_dict e n sc =
     (if nflags n AND BLIST = 0 then Fault (Exit ''peers object is not a list'')
      else rbind (rfold (dict_peer e) sc (nchildren n)) (network_peerlist_connect e))"

definition network_peerlist_update :: "sysenv \<Rightarrow> benc_node \<Rightarrow> session \<Rightarrow> session res" where
  "network_peerlist_update e n sc =
     rbind (if nflags n AND BSTRING \<noteq> 0
            then rbind (body_string (nbody n)) (\<lambda>v. network_peerlist_update_string e v sc)
            else network_peerlist_update_dict e n sc) ctl_server_notify_peers"

text \<open>An incoming connection: \<open>fd\<close>, \<open>a\<close> and \<open>prt\<close> are the answer of \<^verbatim>\<open>accept\<close>.\<close>

definition network_handle_peer_connect :: "sysenv \<Rightarrow> ev_error list \<Rightarrow> int \<Rightarrow> bytes \<Rightarrow> bytes \<Rightarrow> session \<Rightarrow> session res" where
  "network_handle_peer_connect e err fd a prt sc =
     (if EV_TIMEOUT \<in> set err then Fault (Exit ''timeout'')
      else if EV_EOF \<in> set err then Fault (Exit ''eof'')
      else case network_peer_create sc of (p, sc) \<Rightarrow>
        rbind (get_peer sc p) (\<lambda>x.
        if fd = -1 then network_peer_free p (set_peer sc p (x\<lparr>connfd := fd\<rparr>))
        else let sc = set_peer sc p (x\<lparr>connfd := fd, sin_addr := a, sin_port := prt, state := state x OR PEER_STATE_HANDSHAKE1\<rparr>)
          in network_peer_handshake (e_now e) p (sc\<lparr>peers := peers sc @ [p], num_peers := num_peers sc + 1\<rparr>)))"

end
