(* ===== verification/Scheduler.thy ===== *)
theory Scheduler
  imports Network
begin

text \<open>
  The scheduler of \<^verbatim>\<open>scheduler.c\<close>, which runs every second: it reaps dead peers, kills silent ones, serves one
  upload per peer, fills the request queues, chokes and unchokes, and asks several peers for the last
  blocks. The trace output at the end of \<^verbatim>\<open>scheduler\<close> changes nothing and is left out.
\<close>

definition PEER_COMMS_THRESHOLD :: int where "PEER_COMMS_THRESHOLD = 300"
definition MAX_REQUESTS :: u32 where "MAX_REQUESTS = 100"
definition PEERS_WANTED :: u32 where "PEERS_WANTED = 10"
definition MIN_ANNOUNCE_INTERVAL :: int where "MIN_ANNOUNCE_INTERVAL = 60"

section \<open>One peer\<close>

text \<open>The boolean results are true where the C functions return 0.\<close>

definition scheduler_threshold_kill :: "sysenv \<Rightarrow> nat \<Rightarrow> session \<Rightarrow> (bool \<times> session) res" where
  "scheduler_threshold_kill e p sc = rbind (get_peer sc p) (\<lambda>x.
     if (state x AND PEER_STATE_BITFIELD \<noteq> 0 \<or> state x AND PEER_STATE_ESTABLISHED \<noteq> 0)
       \<and> network_peer_lastcomms (e_now e) x \<ge> PEER_COMMS_THRESHOLD
     then rmap (\<lambda>sc. (True, sc)) (kill_peer p sc) else Ok (False, sc))"

definition scheduler_dequeue_uploads :: "sysenv \<Rightarrow> nat \<Rightarrow> session \<Rightarrow> session res" where
  "scheduler_dequeue_uploads e p sc = rbind (network_piece_ul_dequeue p sc) (\<lambda>(r, sc). case r of
       None \<Rightarrow> Ok sc
     | Some pu \<Rightarrow> network_peer_write_piece (e_page e) (e_now e) p (pu_idx pu) (pu_off pu) (pu_len pu) sc)"

definition scheduler_reap_dead :: "nat \<Rightarrow> session \<Rightarrow> (bool \<times> session) res" where
  "scheduler_reap_dead p sc = rbind (get_peer sc p) (\<lambda>x.
     if state x AND PEER_STATE_DEAD \<noteq> 0
     then rbind (tailq_remove p (peers sc)) (\<lambda>ps.
          rbind (network_peer_free p (sc\<lparr>peers := ps\<rparr>)) (\<lambda>sc.
            Ok (True, sc\<lparr>num_peers := num_peers sc - 1\<rparr>)))
     else Ok (False, sc))"

text \<open>How many requests to add: one for each 8192 bytes per second, at least 2 and at most 100 in all.\<close>

definition requests_wanted :: "int \<Rightarrow> peer \<Rightarrow> u32" where
  "requests_wanted t x =
     (let peer_rate = network_peer_rxrate t x;
          queue_len = drop_bit 13 (ucast peer_rate :: u32);
          queue_len = (if queue_len < 2 then 2 else if queue_len > MAX_REQUESTS then MAX_REQUESTS else queue_len)
      in if queue_len < dl_queue_len x then 0 else queue_len - dl_queue_len x)"

definition fill_turn :: "sysenv \<Rightarrow> nat \<Rightarrow> session \<Rightarrow> nat \<Rightarrow> session res" where
  "fill_turn e p sc i =
     rbind (scheduler_piece_gimme (e_now e) (e_rnd e (p * unat MAX_REQUESTS + i)) p False sc) (\<lambda>(r, _, sc). case r of
         None \<Rightarrow> Ok sc
       | Some d \<Rightarrow> rbind (get_dl sc d) (\<lambda>pd. case pc pd of
           None \<Rightarrow> Fault (Undef ''pd->pc'')
         | Some q \<Rightarrow> rbind (network_peer_request_block (e_now e) q (pd_idx pd) (pd_off pd) (pd_len pd) sc) (\<lambda>sc.
             rbind (get_peer sc p) (\<lambda>x. Ok (set_peer sc p (x\<lparr>dl_queue_len := dl_queue_len x + 1\<rparr>))))))"

definition scheduler_fill_requests :: "sysenv \<Rightarrow> nat \<Rightarrow> session \<Rightarrow> session res" where
  "scheduler_fill_requests e p sc = rbind (get_peer sc p) (\<lambda>x.
     let pieces_left = num_pieces (tp sc) - good_pieces (tp sc) in
     if state x AND PEER_STATE_CHOKED = 0 \<and> pieces_left > 0
     then rfold (fill_turn e p) sc [0..<unat (requests_wanted (e_now e) x)]
     else Ok sc)"

section \<open>Choking\<close>

definition unchoke_fast :: "sysenv \<Rightarrow> session \<Rightarrow> nat \<Rightarrow> session res" where
  "unchoke_fast e sc q = rbind (get_peer sc q) (\<lambda>x.
     if state x AND PEER_STATE_AMCHOKING = 0 then Ok sc
     else if state x AND PEER_STATE_INTERESTED = 0 then Ok sc
     else network_peer_write_unchoke (e_now e) q sc)"

definition count_interested :: "session \<Rightarrow> nat \<Rightarrow> nat \<Rightarrow> nat res" where
  "count_interested sc n q = rbind (get_peer sc q) (\<lambda>x.
     Ok (if state x AND PEER_STATE_INTERESTED \<noteq> 0 then n + 1 else n))"

text \<open>The walk to the peer to unchoke: it tests the fastest peer, not the one it stands on.\<close>

fun walk :: "session \<Rightarrow> nat \<Rightarrow> nat \<Rightarrow> nat list \<Rightarrow> nat list res" where
  "walk sc fastest 0 qs = Ok qs"
| "walk sc fastest (Suc k) [] = Fault (Exit ''NULL peer'')"
| "walk sc fastest (Suc k) (q # qs) = rbind (get_peer sc fastest) (\<lambda>x.
     walk sc fastest k (if state x AND PEER_STATE_INTERESTED = 0 then qs else q # qs))"

definition opportunistic :: "sysenv \<Rightarrow> peercounter list \<Rightarrow> session \<Rightarrow> (nat option \<times> session) res" where
  "opportunistic e pcs sc =
     (if e_now e mod 30 \<noteq> 0 then Ok (None, sc)
      else rbind (rfold (count_interested sc) 0 (peers sc)) (\<lambda>num_interested.
        if num_interested = 0 then Ok (None, sc)
        else let j = e_rnd e (fresh_peer sc * unat MAX_REQUESTS) mod num_interested in
          rbind (walk sc (ppeer (hd pcs)) j (peers sc)) (\<lambda>qs. case qs of
              [] \<Rightarrow> Fault (Undef ''p2'')
            | q # _ \<Rightarrow> rmap (\<lambda>sc. (Some q, sc)) (network_peer_write_unchoke (e_now e) q sc))))"

definition choke_rest :: "sysenv \<Rightarrow> nat list \<Rightarrow> nat option \<Rightarrow> session \<Rightarrow> nat \<Rightarrow> session res" where
  "choke_rest e fast p2 sc q =
     (if fast \<noteq> [] \<and> (q \<in> set fast \<or> p2 = Some q) then Ok sc
      else rbind (get_peer sc q) (\<lambda>x.
        if state x AND PEER_STATE_AMCHOKING = 0 then network_peer_write_choke (e_now e) q sc else Ok sc))"

definition scheduler_choke_algorithm :: "sysenv \<Rightarrow> session \<Rightarrow> session res" where
  "scheduler_choke_algorithm e sc =
     (if e_now e mod 10 \<noteq> 0 then Ok sc
      else rbind (scheduler_peer_speedrank (e_now e) sc) (\<lambda>pcs.
        let fast = map ppeer (take (unat (min 3 (num_peers sc))) pcs) in
        rbind (rfold (unchoke_fast e) sc fast) (\<lambda>sc.
        rbind (opportunistic e pcs sc) (\<lambda>(p2, sc).
          rfold (choke_rest e fast p2) sc (peers sc)))))"

section \<open>The endgame\<close>

text \<open>
  One block of a missing piece, for one peer. The test of the bit field lets the peers through that do
  \<^emph>\<open>not\<close> have the piece.
\<close>

definition endgame_block :: "sysenv \<Rightarrow> nat \<Rightarrow> u32 \<Rightarrow> u32 \<Rightarrow> session \<Rightarrow> u32 \<Rightarrow> session res" where
  "endgame_block e p i len sc off = rbind (get_peer sc p) (\<lambda>x.
     rbind (find_dl sc (peer_piece_dls x) i off) (\<lambda>found.
       if found \<noteq> None then Ok sc
       else rbind (network_piece_dl_create p i off (block_len len off) sc) (\<lambda>(d, sc).
         rbind (network_peer_request_block (e_now e) p i off (block_len len off) sc) (\<lambda>sc.
         rbind (get_peer sc p) (\<lambda>x. Ok (set_peer sc p (x\<lparr>dl_queue_len := dl_queue_len x + 1\<rparr>)))))))"

definition endgame_peer :: "sysenv \<Rightarrow> u32 \<Rightarrow> u32 \<Rightarrow> session \<Rightarrow> nat \<Rightarrow> session res" where
  "endgame_peer e i len sc p = rbind (get_peer sc p) (\<lambda>x.
     rbind (case bitfield x of None \<Rightarrow> Ok True | Some bf \<Rightarrow> util_getbit bf i) (\<lambda>skip.
       if skip \<or> state x AND PEER_STATE_CHOKED \<noteq> 0 then Ok sc
       else rbind (block_offs len) (rfold (endgame_block e p i len) sc)))"

definition endgame_piece :: "sysenv \<Rightarrow> session \<Rightarrow> u32 \<Rightarrow> session res" where
  "endgame_piece e sc i = rbind (torrent_piece_find (tp sc) i) (\<lambda>tpp.
     if tpp_flags tpp AND TORRENT_PIECE_CKSUMOK \<noteq> 0 then Ok sc
     else rfold (endgame_peer e i (tpp_len tpp)) sc (peers sc))"

definition scheduler_endgame_algorithm :: "sysenv \<Rightarrow> session \<Rightarrow> session res" where
  "scheduler_endgame_algorithm e sc = rfold (endgame_piece e) sc (piece_indexes (tp sc))"

section \<open>The scheduler\<close>

definition scheduler_peer :: "sysenv \<Rightarrow> session \<Rightarrow> nat \<Rightarrow> session res" where
  "scheduler_peer e sc p =
     rbind (scheduler_reap_dead p sc) (\<lambda>(gone, sc). if gone then Ok sc
     else rbind (scheduler_threshold_kill e p sc) (\<lambda>(killed, sc). if killed then Ok sc
     else rbind (scheduler_dequeue_uploads e p sc) (scheduler_fill_requests e p)))"

definition scheduler :: "sysenv \<Rightarrow> session \<Rightarrow> session res" where
  "scheduler e sc =
     (let pieces_left = num_pieces (tp sc) - good_pieces (tp sc) in
      rbind (rfold (scheduler_peer e) sc (peers sc)) (\<lambda>sc.
      rbind (scheduler_choke_algorithm e sc) (\<lambda>sc.
      rbind (scheduler_is_endgame sc) (\<lambda>endgame.
      rbind (if endgame then scheduler_endgame_algorithm e sc else Ok sc) (\<lambda>sc.
        if num_peers sc < PEERS_WANTED \<and> pieces_left > 0 \<and> \<not> announce_underway sc
          \<and> e_now e - last_announce sc > MIN_ANNOUNCE_INTERVAL
        then rmap snd (announce (e_now e) (e_tracker e) None sc)
        else Ok sc)))))"

end
