(* ===== verification/Rbtree.thy ===== *)
theory Rbtree
  imports Prelude
begin

text \<open>
  The red-black trees of \<^verbatim>\<open>openbsd-compat/sys/tree.h\<close>, at the level of their pointers: a table of nodes with left, right and
  parent pointers and a colour, \<open>None\<close> for an object that is not allocated. The code is written twice, for the left and
  for the right; here a \<open>side\<close> says which of the two is meant. \<^verbatim>\<open>RB_AUGMENT\<close> is empty. The loops take fuel, a bound on
  their turns; running out of it is the fault \<open>out_of_fuel\<close>, which the theorems exclude.
\<close>

section \<open>Nodes\<close>

datatype side = Lft | Rgt

fun other :: "side \<Rightarrow> side" where
  "other Lft = Rgt"
| "other Rgt = Lft"

datatype rb_color = RB_BLACK | RB_RED

record rb_entry =
  rbe_left :: "nat option"
  rbe_right :: "nat option"
  rbe_parent :: "nat option"
  rbe_color :: rb_color

record rb_tree =
  rbh_root :: "nat option"
  rbe_at :: "nat \<Rightarrow> rb_entry option"

abbreviation out_of_fuel :: fault where "out_of_fuel \<equiv> Undef ''fuel''"

definition rb_get :: "nat option \<Rightarrow> rb_tree \<Rightarrow> rb_entry res" where
  "rb_get p h = (case p of None \<Rightarrow> Fault (Undef ''NULL'') | Some a \<Rightarrow>
     (case rbe_at h a of None \<Rightarrow> Fault (Undef ''rb_entry'') | Some e \<Rightarrow> Ok e))"

definition rb_set :: "nat option \<Rightarrow> (rb_entry \<Rightarrow> rb_entry) \<Rightarrow> rb_tree \<Rightarrow> rb_tree res" where
  "rb_set p f h = rbind (rb_get p h) (\<lambda>e. Ok (h\<lparr>rbe_at := (rbe_at h)(the p \<mapsto> f e)\<rparr>))"

fun child_of :: "side \<Rightarrow> rb_entry \<Rightarrow> nat option" where
  "child_of Lft e = rbe_left e"
| "child_of Rgt e = rbe_right e"

fun with_child :: "side \<Rightarrow> nat option \<Rightarrow> rb_entry \<Rightarrow> rb_entry" where
  "with_child Lft v e = e\<lparr>rbe_left := v\<rparr>"
| "with_child Rgt v e = e\<lparr>rbe_right := v\<rparr>"

definition rb_child :: "side \<Rightarrow> nat option \<Rightarrow> rb_tree \<Rightarrow> nat option res" where
  "rb_child s p h = rmap (child_of s) (rb_get p h)"

definition rb_parent :: "nat option \<Rightarrow> rb_tree \<Rightarrow> nat option res" where
  "rb_parent p h = rmap rbe_parent (rb_get p h)"

definition rb_color_of :: "nat option \<Rightarrow> rb_tree \<Rightarrow> rb_color res" where
  "rb_color_of p h = rmap rbe_color (rb_get p h)"

definition set_child :: "side \<Rightarrow> nat option \<Rightarrow> nat option \<Rightarrow> rb_tree \<Rightarrow> rb_tree res" where
  "set_child s p v h = rb_set p (with_child s v) h"

definition set_parent :: "nat option \<Rightarrow> nat option \<Rightarrow> rb_tree \<Rightarrow> rb_tree res" where
  "set_parent p v h = rb_set p (\<lambda>e. e\<lparr>rbe_parent := v\<rparr>) h"

definition set_color :: "nat option \<Rightarrow> rb_color \<Rightarrow> rb_tree \<Rightarrow> rb_tree res" where
  "set_color p c h = rb_set p (\<lambda>e. e\<lparr>rbe_color := c\<rparr>) h"

text \<open>The tests \<^verbatim>\<open>p && RB_COLOR (p) == RB_RED\<close> and \<^verbatim>\<open>p == NULL || RB_COLOR (p) == RB_BLACK\<close>, and \<^verbatim>\<open>if (p) RB_... (p) = v\<close>.\<close>

definition is_red :: "nat option \<Rightarrow> rb_tree \<Rightarrow> bool res" where
  "is_red p h = (if p = None then Ok False else rmap (\<lambda>c. c = RB_RED) (rb_color_of p h))"

definition is_black :: "nat option \<Rightarrow> rb_tree \<Rightarrow> bool res" where
  "is_black p h = (if p = None then Ok True else rmap (\<lambda>c. c = RB_BLACK) (rb_color_of p h))"

definition set_parent_if :: "nat option \<Rightarrow> nat option \<Rightarrow> rb_tree \<Rightarrow> rb_tree res" where
  "set_parent_if p v h = (if p = None then Ok h else set_parent p v h)"

definition set_black_if :: "nat option \<Rightarrow> rb_tree \<Rightarrow> rb_tree res" where
  "set_black_if p h = (if p = None then Ok h else set_color p RB_BLACK h)"

definition RB_SET :: "nat option \<Rightarrow> nat option \<Rightarrow> rb_tree \<Rightarrow> rb_tree res" where
  "RB_SET elm parent h = rb_set elm (\<lambda>e. e\<lparr>rbe_parent := parent, rbe_left := None, rbe_right := None, rbe_color := RB_RED\<rparr>) h"

definition RB_SET_BLACKRED :: "nat option \<Rightarrow> nat option \<Rightarrow> rb_tree \<Rightarrow> rb_tree res" where
  "RB_SET_BLACKRED black red h = rbind (set_color black RB_BLACK h) (set_color red RB_RED)"

text \<open>The place that points to \<open>old\<close>, in its parent or in the head of the tree, is made to point to \<open>new\<close>.\<close>

definition rb_relink :: "nat option \<Rightarrow> nat option \<Rightarrow> nat option \<Rightarrow> rb_tree \<Rightarrow> rb_tree res" where
  "rb_relink parent old new h =
     (if parent = None then Ok (h\<lparr>rbh_root := new\<rparr>)
      else rbind (rb_child Lft parent h) (\<lambda>l.
        if l = old then set_child Lft parent new h else set_child Rgt parent new h))"

text \<open>\<open>rb_rotate Lft\<close> is \<^verbatim>\<open>RB_ROTATE_LEFT\<close>, \<open>rb_rotate Rgt\<close> is \<^verbatim>\<open>RB_ROTATE_RIGHT\<close>.\<close>

definition rb_rotate :: "side \<Rightarrow> nat option \<Rightarrow> rb_tree \<Rightarrow> rb_tree res" where
  "rb_rotate s elm h =
     rbind (rb_child (other s) elm h) (\<lambda>tmp.
     rbind (rb_child s tmp h) (\<lambda>c.
     rbind (set_child (other s) elm c h) (\<lambda>h.
     rbind (set_parent_if c elm h) (\<lambda>h.
     rbind (rb_parent elm h) (\<lambda>p.
     rbind (set_parent tmp p h) (\<lambda>h.
     rbind (rb_relink p elm tmp h) (\<lambda>h.
     rbind (set_child s tmp elm h) (set_parent elm tmp))))))))"

section \<open>Insertion\<close>

text \<open>One turn of the loop of \<^verbatim>\<open>RB_INSERT_COLOR\<close>, with the parent on the side \<open>s\<close> of its own parent; the result is the next element.\<close>

definition insert_color_turn :: "side \<Rightarrow> nat option \<Rightarrow> nat option \<Rightarrow> nat option \<Rightarrow> rb_tree \<Rightarrow> (nat option \<times> rb_tree) res" where
  "insert_color_turn s gparent parent elm h =
     rbind (rb_child (other s) gparent h) (\<lambda>tmp.
     rbind (is_red tmp h) (\<lambda>red.
     if red
     then rbind (set_color tmp RB_BLACK h) (\<lambda>h.
          rmap (\<lambda>h. (gparent, h)) (RB_SET_BLACKRED parent gparent h))
     else rbind (rb_child (other s) parent h) (\<lambda>c.
          rbind (if c = elm then rmap (\<lambda>h. (elm, parent, h)) (rb_rotate s parent h)
                 else Ok (parent, elm, h)) (\<lambda>(parent, elm, h).
          rbind (RB_SET_BLACKRED parent gparent h) (\<lambda>h.
          rmap (\<lambda>h. (elm, h)) (rb_rotate (other s) gparent h))))))"

fun rb_insert_color :: "nat \<Rightarrow> nat option \<Rightarrow> rb_tree \<Rightarrow> rb_tree res" where
  "rb_insert_color 0 elm h = Fault out_of_fuel"
| "rb_insert_color (Suc n) elm h =
     rbind (rb_parent elm h) (\<lambda>parent.
     rbind (is_red parent h) (\<lambda>red.
     if \<not> red then set_color (rbh_root h) RB_BLACK h
     else rbind (rb_parent parent h) (\<lambda>gparent.
          rbind (rb_child Lft gparent h) (\<lambda>l.
          rbind (insert_color_turn (if parent = l then Lft else Rgt) gparent parent elm h) (\<lambda>(elm, h).
            rb_insert_color n elm h)))))"

text \<open>The way down: \<open>cmp a b\<close> compares the elements at the two addresses. The result is the node with an equal key, the last node passed and its comparison.\<close>

fun rb_descend :: "(nat \<Rightarrow> nat \<Rightarrow> int) \<Rightarrow> nat \<Rightarrow> nat \<Rightarrow> nat option \<Rightarrow> nat option \<Rightarrow> int \<Rightarrow> rb_tree
    \<Rightarrow> (nat option \<times> nat option \<times> int) res" where
  "rb_descend cmp n elm None parent diff h = Ok (None, parent, diff)"
| "rb_descend cmp 0 elm (Some a) parent diff h = Fault out_of_fuel"
| "rb_descend cmp (Suc n) elm (Some a) parent diff h =
     (let diff = cmp elm a in
      if diff < 0 then rbind (rb_child Lft (Some a) h) (\<lambda>t. rb_descend cmp n elm t (Some a) diff h)
      else if diff > 0 then rbind (rb_child Rgt (Some a) h) (\<lambda>t. rb_descend cmp n elm t (Some a) diff h)
      else Ok (Some a, Some a, diff))"

definition rb_insert :: "(nat \<Rightarrow> nat \<Rightarrow> int) \<Rightarrow> nat \<Rightarrow> nat \<Rightarrow> rb_tree \<Rightarrow> (nat option \<times> rb_tree) res" where
  "rb_insert cmp n elm h =
     rbind (rb_descend cmp n elm (rbh_root h) None 0 h) (\<lambda>(tmp, parent, diff).
     if tmp \<noteq> None then Ok (tmp, h)
     else rbind (RB_SET (Some elm) parent h) (\<lambda>h.
          rbind (if parent = None then Ok (h\<lparr>rbh_root := Some elm\<rparr>)
                 else set_child (if diff < 0 then Lft else Rgt) parent (Some elm) h) (\<lambda>h.
          rmap (\<lambda>h. (None, h)) (rb_insert_color n (Some elm) h))))"

definition rb_find :: "(nat \<Rightarrow> nat \<Rightarrow> int) \<Rightarrow> nat \<Rightarrow> nat \<Rightarrow> rb_tree \<Rightarrow> nat option res" where
  "rb_find cmp n elm h = rmap fst (rb_descend cmp n elm (rbh_root h) None 0 h)"

section \<open>Removal\<close>

text \<open>
  One turn of the loop of \<^verbatim>\<open>RB_REMOVE_COLOR\<close>, with the element on the side \<open>s\<close> of its parent; \<open>tmp\<close> is its sibling. A red
  sibling is rotated up; a black one with a red child only on the near side is rotated; the last rotation ends the loop.
\<close>

definition red_sibling :: "side \<Rightarrow> nat option \<Rightarrow> rb_tree \<Rightarrow> (nat option \<times> rb_tree) res" where
  "red_sibling s parent h =
     rbind (rb_child (other s) parent h) (\<lambda>tmp.
     rbind (rb_color_of tmp h) (\<lambda>c.
     if c = RB_RED
     then rbind (RB_SET_BLACKRED tmp parent h) (\<lambda>h.
          rbind (rb_rotate s parent h) (\<lambda>h. rmap (\<lambda>tmp. (tmp, h)) (rb_child (other s) parent h)))
     else Ok (tmp, h)))"

definition near_nephew :: "side \<Rightarrow> nat option \<Rightarrow> nat option \<Rightarrow> rb_tree \<Rightarrow> (nat option \<times> rb_tree) res" where
  "near_nephew s parent tmp h =
     rbind (rb_child s tmp h) (\<lambda>near.
     rbind (set_black_if near h) (\<lambda>h.
     rbind (set_color tmp RB_RED h) (\<lambda>h.
     rbind (rb_rotate (other s) tmp h) (\<lambda>h.
     rmap (\<lambda>tmp. (tmp, h)) (rb_child (other s) parent h)))))"

definition last_rotation :: "side \<Rightarrow> nat option \<Rightarrow> nat option \<Rightarrow> rb_tree \<Rightarrow> rb_tree res" where
  "last_rotation s parent tmp h =
     rbind (rb_color_of parent h) (\<lambda>c.
     rbind (set_color tmp c h) (\<lambda>h.
     rbind (set_color parent RB_BLACK h) (\<lambda>h.
     rbind (rb_child (other s) tmp h) (\<lambda>far.
     rbind (set_black_if far h) (rb_rotate s parent)))))"

text \<open>The result of the turn is whether the loop goes on, and the next parent and element.\<close>

definition remove_color_turn :: "side \<Rightarrow> nat option \<Rightarrow> rb_tree \<Rightarrow> (bool \<times> nat option \<times> nat option \<times> rb_tree) res" where
  "remove_color_turn s parent h =
     rbind (red_sibling s parent h) (\<lambda>(tmp, h).
     rbind (rb_child s tmp h) (\<lambda>near.
     rbind (is_black near h) (\<lambda>near_black.
     rbind (rb_child (other s) tmp h) (\<lambda>far.
     rbind (is_black far h) (\<lambda>far_black.
     if near_black \<and> far_black
     then rbind (set_color tmp RB_RED h) (\<lambda>h.
          rmap (\<lambda>p. (True, p, parent, h)) (rb_parent parent h))
     else rbind (if far_black then near_nephew s parent tmp h else Ok (tmp, h)) (\<lambda>(tmp, h).
          rmap (\<lambda>h. (False, parent, rbh_root h, h)) (last_rotation s parent tmp h)))))))"

fun rb_remove_color :: "nat \<Rightarrow> nat option \<Rightarrow> nat option \<Rightarrow> rb_tree \<Rightarrow> rb_tree res" where
  "rb_remove_color 0 parent elm h = Fault out_of_fuel"
| "rb_remove_color (Suc n) parent elm h =
     rbind (is_black elm h) (\<lambda>black.
     if \<not> black \<or> elm = rbh_root h then set_black_if elm h
     else rbind (rb_child Lft parent h) (\<lambda>l.
          rbind (remove_color_turn (if l = elm then Lft else Rgt) parent h) (\<lambda>(more, parent, elm, h).
            if more then rb_remove_color n parent elm h else set_black_if elm h)))"

fun rb_leftmost :: "nat \<Rightarrow> nat option \<Rightarrow> rb_tree \<Rightarrow> nat option res" where
  "rb_leftmost 0 elm h = Fault out_of_fuel"
| "rb_leftmost (Suc n) elm h = rbind (rb_child Lft elm h) (\<lambda>l. if l = None then Ok elm else rb_leftmost n l h)"

text \<open>The walk to the root that calls the empty \<^verbatim>\<open>RB_AUGMENT\<close>.\<close>

fun rb_walk_up :: "nat \<Rightarrow> nat option \<Rightarrow> rb_tree \<Rightarrow> unit res" where
  "rb_walk_up n None h = Ok ()"
| "rb_walk_up 0 (Some a) h = Fault out_of_fuel"
| "rb_walk_up (Suc n) (Some a) h = rbind (rb_parent (Some a) h) (\<lambda>p. rb_walk_up n p h)"

text \<open>Taking out a node with at most one child: the result is its parent and its colour.\<close>

definition rb_unlink :: "nat option \<Rightarrow> nat option \<Rightarrow> rb_tree \<Rightarrow> (nat option \<times> rb_color \<times> rb_tree) res" where
  "rb_unlink elm child h =
     rbind (rb_parent elm h) (\<lambda>parent.
     rbind (rb_color_of elm h) (\<lambda>color.
     rbind (set_parent_if child parent h) (\<lambda>h.
     rmap (\<lambda>h. (parent, color, h)) (rb_relink parent elm child h))))"

text \<open>The node \<open>elm\<close> takes the place of \<open>old\<close>, which has a left child.\<close>

definition rb_takeover :: "nat option \<Rightarrow> nat option \<Rightarrow> rb_tree \<Rightarrow> rb_tree res" where
  "rb_takeover elm old h =
     rbind (rb_get old h) (\<lambda>e.
     rbind (rb_set elm (\<lambda>_. e) h) (\<lambda>h.
     rbind (rb_parent old h) (\<lambda>p.
     rbind (rb_relink p old elm h) (\<lambda>h.
     rbind (rb_child Lft old h) (\<lambda>l.
     rbind (set_parent l elm h) (\<lambda>h.
     rbind (rb_child Rgt old h) (\<lambda>r. set_parent_if r elm h)))))))"

definition rb_remove :: "nat \<Rightarrow> nat \<Rightarrow> rb_tree \<Rightarrow> rb_tree res" where
  "rb_remove n old h =
     rbind (rb_child Lft (Some old) h) (\<lambda>l.
     rbind (rb_child Rgt (Some old) h) (\<lambda>r.
     rbind (if l = None then rmap (\<lambda>(parent, color, h). (parent, color, r, h)) (rb_unlink (Some old) r h)
            else if r = None then rmap (\<lambda>(parent, color, h). (parent, color, l, h)) (rb_unlink (Some old) l h)
            else rbind (rb_leftmost n r h) (\<lambda>elm.
                 rbind (rb_child Rgt elm h) (\<lambda>child.
                 rbind (rb_unlink elm child h) (\<lambda>(parent, color, h).
                 rbind (rb_parent elm h) (\<lambda>p.
                 let parent = (if p = Some old then elm else parent) in
                 rbind (rb_takeover elm (Some old) h) (\<lambda>h.
                 rmap (\<lambda>u. (parent, color, child, h)) (rb_walk_up n parent h))))))) (\<lambda>(parent, color, child, h).
     if color = RB_BLACK then rb_remove_color n parent child h else Ok h)))"

section \<open>Walking in order\<close>

fun rb_extreme :: "nat \<Rightarrow> side \<Rightarrow> nat option \<Rightarrow> nat option \<Rightarrow> rb_tree \<Rightarrow> nat option res" where
  "rb_extreme n s None parent h = Ok parent"
| "rb_extreme 0 s (Some a) parent h = Fault out_of_fuel"
| "rb_extreme (Suc n) s (Some a) parent h = rbind (rb_child s (Some a) h) (\<lambda>t. rb_extreme n s t (Some a) h)"

definition rb_minmax :: "nat \<Rightarrow> int \<Rightarrow> rb_tree \<Rightarrow> nat option res" where
  "rb_minmax n val h = rb_extreme n (if val < 0 then Lft else Rgt) (rbh_root h) None h"

text \<open>The way up from a right child.\<close>

fun rb_up :: "nat \<Rightarrow> nat option \<Rightarrow> rb_tree \<Rightarrow> nat option res" where
  "rb_up 0 elm h = Fault out_of_fuel"
| "rb_up (Suc n) elm h = rbind (rb_parent elm h) (\<lambda>p.
     if p = None then Ok p
     else rbind (rb_child Rgt p h) (\<lambda>r. if elm = r then rb_up n p h else Ok p))"

definition rb_next :: "nat \<Rightarrow> nat option \<Rightarrow> rb_tree \<Rightarrow> nat option res" where
  "rb_next n elm h =
     rbind (rb_child Rgt elm h) (\<lambda>r.
     if r \<noteq> None then rb_leftmost n r h
     else rbind (rb_parent elm h) (\<lambda>p.
       rbind (if p = None then Ok False else rmap (\<lambda>l. elm = l) (rb_child Lft p h)) (\<lambda>left.
         if left then Ok p else rb_up n elm h)))"

fun rb_visit :: "nat \<Rightarrow> nat \<Rightarrow> nat option \<Rightarrow> rb_tree \<Rightarrow> nat list res" where
  "rb_visit n m None h = Ok []"
| "rb_visit n 0 (Some a) h = Fault out_of_fuel"
| "rb_visit n (Suc m) (Some a) h = rbind (rb_next n (Some a) h) (\<lambda>x. rmap (Cons a) (rb_visit n m x h))"

definition rb_foreach :: "nat \<Rightarrow> rb_tree \<Rightarrow> nat list res" where
  "rb_foreach n h = rbind (rb_minmax n (-1) h) (\<lambda>x. rb_visit n n x h)"

end
