(* ===== verification/Rbtree_Rep.thy ===== *)
theory Rbtree_Rep
  imports Rbtree
begin

text \<open>
  The trees that the pointers of \<open>Rbtree\<close> represent, and the steps of the algorithms on them. A position in a tree is a
  zipper: the subtree and, from it up to the root, the nodes passed with their other subtrees.
\<close>

section \<open>Trees and positions\<close>

datatype rbt = Leaf | Node rb_color rbt nat rbt

fun mk :: "side \<Rightarrow> rb_color \<Rightarrow> rbt \<Rightarrow> nat \<Rightarrow> rbt \<Rightarrow> rbt" where
  "mk Lft c t a u = Node c t a u"
| "mk Rgt c t a u = Node c u a t"

fun root :: "rbt \<Rightarrow> nat option" where
  "root Leaf = None"
| "root (Node c l a r) = Some a"

fun inorder :: "rbt \<Rightarrow> nat list" where
  "inorder Leaf = []"
| "inorder (Node c l a r) = inorder l @ a # inorder r"

datatype rb_frame = Frame side rb_color nat rbt

fun plug :: "rb_frame list \<Rightarrow> rbt \<Rightarrow> rbt" where
  "plug [] t = t"
| "plug (Frame s c a u # k) t = plug k (mk s c t a u)"

fun up :: "rb_frame list \<Rightarrow> nat option" where
  "up [] = None"
| "up (Frame s c a u # k) = Some a"

fun ctx_nodes :: "rb_frame list \<Rightarrow> nat list" where
  "ctx_nodes [] = []"
| "ctx_nodes (Frame s c a u # k) = a # inorder u @ ctx_nodes k"

lemma other_other [simp]: "other (other s) = s"
  and other_neq [simp]: "other s \<noteq> s" "s \<noteq> other s"
  by (cases s; simp)+

lemma mk_other: "mk (other s) c t a u = mk s c u a t"
  by (cases s) simp_all

lemma node_mk: "t \<noteq> Leaf \<Longrightarrow> \<exists>c x a y. t = mk s c x a y"
proof (cases t)
  case (Node c l a r)
  then have "t = mk s c (if s = Lft then l else r) a (if s = Lft then r else l)" by (cases s) simp_all
  then show ?thesis by blast
qed simp

lemma mk_simps [simp]: "mk s c t a u \<noteq> Leaf" "Leaf \<noteq> mk s c t a u" "root (mk s c t a u) = Some a"
  "set (inorder (mk s c t a u)) = insert a (set (inorder t) \<union> set (inorder u))"
  "distinct (inorder (mk s c t a u)) \<longleftrightarrow> a \<notin> set (inorder t) \<and> a \<notin> set (inorder u) \<and> distinct (inorder t) \<and> distinct (inorder u)
     \<and> set (inorder t) \<inter> set (inorder u) = {}"
  by (cases s; auto)+

lemma root_None [simp]: "root t = None \<longleftrightarrow> t = Leaf" "None = root t \<longleftrightarrow> t = Leaf"
  by (cases t; simp)+

lemma root_in: "root t = Some a \<Longrightarrow> a \<in> set (inorder t)"
  by (cases t) simp_all

lemma up_in: "up k = Some a \<Longrightarrow> a \<in> set (ctx_nodes k)"
  by (cases k rule: up.cases) simp_all

lemma inorder_plug_set: "set (inorder (plug k t)) = set (inorder t) \<union> set (ctx_nodes k)"
  by (induction k t rule: plug.induct) auto

lemma inorder_plug_distinct:
  "distinct (inorder (plug k t)) \<longleftrightarrow> distinct (inorder t) \<and> distinct (ctx_nodes k) \<and> set (inorder t) \<inter> set (ctx_nodes k) = {}"
  by (induction k t rule: plug.induct) auto

section \<open>What the pointers represent\<close>

definition node_at :: "(nat \<Rightarrow> rb_entry option) \<Rightarrow> nat \<Rightarrow> side \<Rightarrow> nat option \<Rightarrow> nat option \<Rightarrow> nat option \<Rightarrow> rb_color \<Rightarrow> bool" where
  "node_at E a s t u p c \<longleftrightarrow> (\<exists>e. E a = Some e \<and> child_of s e = t \<and> child_of (other s) e = u \<and> rbe_parent e = p \<and> rbe_color e = c)"

fun shape :: "(nat \<Rightarrow> rb_entry option) \<Rightarrow> nat option \<Rightarrow> rbt \<Rightarrow> bool" where
  "shape E p Leaf \<longleftrightarrow> True"
| "shape E p (Node c l a r) \<longleftrightarrow> node_at E a Lft (root l) (root r) p c \<and> shape E (Some a) l \<and> shape E (Some a) r"

fun ctx_at :: "(nat \<Rightarrow> rb_entry option) \<Rightarrow> nat option \<Rightarrow> rb_frame list \<Rightarrow> bool" where
  "ctx_at E r [] \<longleftrightarrow> True"
| "ctx_at E r (Frame s c a u # k) \<longleftrightarrow> node_at E a s r (root u) (up k) c \<and> shape E (Some a) u \<and> ctx_at E (Some a) k"

definition rep :: "nat set \<Rightarrow> rb_tree \<Rightarrow> rbt \<Rightarrow> bool" where
  "rep D h t \<longleftrightarrow> rbh_root h = root t \<and> shape (rbe_at h) None t \<and> distinct (inorder t) \<and> dom (rbe_at h) = D"

lemma node_at_other: "node_at E a (other s) t u p c \<longleftrightarrow> node_at E a s u t p c"
  by (auto simp: node_at_def)

lemma node_at_upd [simp]: "b \<noteq> a \<Longrightarrow> node_at (E(b := x)) a s t u p c = node_at E a s t u p c"
  by (simp add: node_at_def)

lemma shape_mk [simp]: "shape E p (mk s c t a u) \<longleftrightarrow> node_at E a s (root t) (root u) p c \<and> shape E (Some a) t \<and> shape E (Some a) u"
  by (cases s) (auto simp: node_at_def)

lemma shape_upd [simp]: "b \<notin> set (inorder t) \<Longrightarrow> shape (E(b := x)) p t = shape E p t"
  by (induction t arbitrary: p) auto

lemma ctx_upd [simp]: "b \<notin> set (ctx_nodes k) \<Longrightarrow> ctx_at (E(b := x)) r k = ctx_at E r k"
  by (induction k arbitrary: r rule: ctx_nodes.induct) auto

lemma shape_plug: "shape E None (plug k t) \<longleftrightarrow> shape E (up k) t \<and> ctx_at E (root t) k"
  by (induction k t rule: plug.induct) auto

fun outer :: "rb_frame list \<Rightarrow> nat option \<Rightarrow> nat option" where
  "outer [] r = r"
| "outer (Frame s c a u # k) r = outer k (Some a)"

lemma root_plug: "root (plug k t) = outer k (root t)"
  by (induction k t rule: plug.induct) simp_all

lemma outer_any: "k \<noteq> [] \<Longrightarrow> outer k r = outer k r'"
  by (cases k rule: up.cases) simp_all

lemma rep_plug: "rep D h (plug k t) \<longleftrightarrow> rbh_root h = outer k (root t) \<and> shape (rbe_at h) (up k) t \<and> ctx_at (rbe_at h) (root t) k
    \<and> distinct (inorder t) \<and> distinct (ctx_nodes k) \<and> set (inorder t) \<inter> set (ctx_nodes k) = {} \<and> dom (rbe_at h) = D"
  by (auto simp: rep_def shape_plug inorder_plug_distinct root_plug)

text \<open>Two positions of the same tree.\<close>

lemma plug_Frame: "plug k (mk s c t a u) = plug (Frame s c a u # k) t"
  by simp

section \<open>Reading and writing nodes\<close>

lemma reads:
  assumes "node_at (rbe_at h) a s t u p c"
  shows "rb_child s (Some a) h = Ok t" "rb_child (other s) (Some a) h = Ok u" "rb_parent (Some a) h = Ok p" "rb_color_of (Some a) h = Ok c"
  using assms by (auto simp: node_at_def rb_child_def rb_get_def rb_parent_def rb_color_of_def)

lemma rep_reads:
  assumes "rep D h (plug k (mk s c t a u))"
  shows "rb_child s (Some a) h = Ok (root t)" "rb_child (other s) (Some a) h = Ok (root u)" "rb_parent (Some a) h = Ok (up k)"
    "rb_color_of (Some a) h = Ok c"
  using assms reads [of h a s "root t" "root u" "up k" c] by (simp_all add: rep_plug)

fun color :: "rbt \<Rightarrow> rb_color" where
  "color Leaf = RB_BLACK"
| "color (Node c l a r) = c"

lemma color_mk [simp]: "color (mk s c t a u) = c"
  by (cases s) simp_all

lemma rep_colors:
  assumes "rep D h (plug k t)"
  shows "is_red (root t) h = Ok (color t = RB_RED)" "is_black (root t) h = Ok (color t = RB_BLACK)"
proof -
  have "t = Leaf \<or> rb_color_of (root t) h = Ok (color t) \<and> root t \<noteq> None"
    using node_mk [of t Lft] rep_reads(4) [of D h k Lft] assms by auto
  then show "is_red (root t) h = Ok (color t = RB_RED)" "is_black (root t) h = Ok (color t = RB_BLACK)"
    by (auto simp: is_red_def is_black_def)
qed

lemma rb_set_run:
  assumes "rbe_at h a = Some e"
  shows "rb_set (Some a) f h = Ok (h\<lparr>rbe_at := (rbe_at h)(a \<mapsto> f e)\<rparr>)"
  using assms by (simp add: rb_set_def rb_get_def)

lemma child_with [simp]: "child_of s (with_child s v e) = v" "child_of (other s) (with_child s v e) = child_of (other s) e"
  "child_of s (with_child (other s) v e) = child_of s e" "rbe_parent (with_child s v e) = rbe_parent e" "rbe_color (with_child s v e) = rbe_color e"
  by (cases s; simp)+

lemma child_other [simp]: "child_of s (e\<lparr>rbe_parent := p\<rparr>) = child_of s e" "child_of s (e\<lparr>rbe_color := c\<rparr>) = child_of s e"
  by (cases s; simp)+

lemma set_color_rep:
  assumes "rep D h (plug k (mk s c t a u))"
  shows "\<exists>h'. set_color (Some a) c' h = Ok h' \<and> rep D h' (plug k (mk s c' t a u))"
proof -
  obtain e where e: "rbe_at h a = Some e" "child_of s e = root t" "child_of (other s) e = root u" "rbe_parent e = up k"
    using assms by (auto simp: rep_plug node_at_def)
  let ?E = "(rbe_at h)(a \<mapsto> e\<lparr>rbe_color := c'\<rparr>)"
  have "node_at ?E a s (root t) (root u) (up k) c'" using e by (simp add: node_at_def)
  then have "rep D (h\<lparr>rbe_at := ?E\<rparr>) (plug k (mk s c' t a u))" using assms e(1) by (auto simp: rep_plug)
  then show ?thesis using rb_set_run [OF e(1)] by (simp add: set_color_def)
qed

text \<open>The link from above: the node in the focus is replaced by another one.\<close>

lemma relink_rep:
  assumes "ctx_at (rbe_at h) (Some a) k" "a \<notin> set (ctx_nodes k)" "distinct (ctx_nodes k)"
  shows "\<exists>h'. rb_relink (up k) (Some a) q h = Ok h' \<and> ctx_at (rbe_at h') q k \<and> (\<forall>x. x \<notin> set (ctx_nodes k) \<longrightarrow> rbe_at h' x = rbe_at h x)
    \<and> (rbh_root h = outer k (Some a) \<longrightarrow> rbh_root h' = outer k q) \<and> dom (rbe_at h') = dom (rbe_at h)"
proof (cases k rule: up.cases)
  case 1
  then show ?thesis by (simp add: rb_relink_def)
next
  case (2 s c b u k')
  then obtain e where e: "rbe_at h b = Some e" "child_of s e = Some a" "child_of (other s) e = root u" "rbe_parent e = up k'" "rbe_color e = c"
    using assms(1) by (auto simp: node_at_def)
  have "root u \<noteq> Some a" using assms(2) 2 root_in [of u a] by auto
  then have "rb_relink (up k) (Some a) q h = Ok (h\<lparr>rbe_at := (rbe_at h)(b \<mapsto> with_child s q e)\<rparr>)"
    using e 2 by (cases s) (simp_all add: rb_relink_def rb_child_def rb_get_def set_child_def rb_set_def)
  moreover have "node_at ((rbe_at h)(b \<mapsto> with_child s q e)) b s q (root u) (up k') c" using e by (simp add: node_at_def)
  ultimately show ?thesis using assms e(1) 2 by (auto simp: dom_def)
qed


text \<open>The parent pointer of a subtree.\<close>

lemma set_parent_if_run:
  assumes "shape (rbe_at h) p t" "distinct (inorder t)"
  shows "\<exists>h'. set_parent_if (root t) q h = Ok h' \<and> shape (rbe_at h') q t \<and> (\<forall>x. x \<notin> set (inorder t) \<longrightarrow> rbe_at h' x = rbe_at h x)
    \<and> rbh_root h' = rbh_root h \<and> dom (rbe_at h') = dom (rbe_at h)"
proof (cases t)
  case Leaf
  then show ?thesis by (simp add: set_parent_if_def)
next
  case (Node c l a r)
  then obtain e where e: "rbe_at h a = Some e" "rbe_left e = root l" "rbe_right e = root r" "rbe_color e = c"
    using assms(1) by (auto simp: node_at_def)
  then have "set_parent_if (root t) q h = Ok (h\<lparr>rbe_at := (rbe_at h)(a \<mapsto> e\<lparr>rbe_parent := q\<rparr>)\<rparr>)"
    using Node by (simp add: set_parent_if_def set_parent_def rb_set_run)
  moreover have "node_at ((rbe_at h)(a \<mapsto> e\<lparr>rbe_parent := q\<rparr>)) a Lft (root l) (root r) q c" using e by (simp add: node_at_def)
  ultimately show ?thesis using assms e(1) Node by (auto simp: dom_def)
qed

lemma shape_cong: "(\<And>x. x \<in> set (inorder t) \<Longrightarrow> E x = E' x) \<Longrightarrow> shape E p t = shape E' p t"
  by (induction t arbitrary: p) (auto simp: node_at_def)

lemma ctx_cong: "(\<And>x. x \<in> set (ctx_nodes k) \<Longrightarrow> E x = E' x) \<Longrightarrow> ctx_at E r k = ctx_at E' r k"
  by (induction k arbitrary: r rule: ctx_nodes.induct) (auto simp: node_at_def shape_cong [of _ E E'])

lemma rotate_rep:
  assumes "rep D h (plug k (mk s c x a (mk s c' y b z)))"
  shows "\<exists>h'. rb_rotate s (Some a) h = Ok h' \<and> rep D h' (plug k (mk s c' (mk s c x a y) b z))"
proof -
  note r = assms [unfolded rep_plug mk_simps shape_mk]
  obtain ea eb where ea: "rbe_at h a = Some ea" "child_of s ea = root x" "child_of (other s) ea = Some b" "rbe_parent ea = up k" "rbe_color ea = c"
    and eb: "rbe_at h b = Some eb" "child_of s eb = root y" "child_of (other s) eb = root z" "rbe_color eb = c'"
    using r by (auto simp: node_at_def)
  have ne: "a \<noteq> b" "a \<notin> set (inorder x)" "a \<notin> set (inorder y)" "a \<notin> set (inorder z)" "b \<notin> set (inorder x)" "b \<notin> set (inorder y)"
    "b \<notin> set (inorder z)" "a \<notin> set (ctx_nodes k)" "b \<notin> set (ctx_nodes k)" "distinct (ctx_nodes k)" "distinct (inorder y)"
    and dj: "set (inorder x) \<inter> set (inorder y) = {}" "set (inorder x) \<inter> set (ctx_nodes k) = {}" "set (inorder y) \<inter> set (ctx_nodes k) = {}"
    "set (inorder z) \<inter> set (ctx_nodes k) = {}" "set (inorder y) \<inter> set (inorder z) = {}"
    using r by auto
  let ?h1 = "h\<lparr>rbe_at := (rbe_at h)(a \<mapsto> with_child (other s) (root y) ea)\<rparr>"
  have 1: "set_child (other s) (Some a) (root y) h = Ok ?h1" using ea(1) by (simp add: set_child_def rb_set_run)
  obtain h2 where 2: "set_parent_if (root y) (Some a) ?h1 = Ok h2" "shape (rbe_at h2) (Some a) y"
    "\<forall>w. w \<notin> set (inorder y) \<longrightarrow> rbe_at h2 w = rbe_at ?h1 w" "rbh_root h2 = rbh_root h" "dom (rbe_at h2) = dom (rbe_at ?h1)"
    using set_parent_if_run [of ?h1 "Some b" y "Some a"] r ne by auto
  have a2: "rbe_at h2 a = Some (with_child (other s) (root y) ea)" "rbe_at h2 b = Some eb" using 2(3) ne eb(1) by auto
  let ?h3 = "h2\<lparr>rbe_at := (rbe_at h2)(b \<mapsto> eb\<lparr>rbe_parent := up k\<rparr>)\<rparr>"
  have 3: "rb_parent (Some a) h2 = Ok (up k)" "set_parent (Some b) (up k) h2 = Ok ?h3"
    using a2 ea(4) by (simp_all add: rb_parent_def rb_get_def set_parent_def rb_set_run)
  have "ctx_at (rbe_at ?h3) (Some a) k" using r ne 2(3) dj(3) by (subst ctx_cong [of k _ "rbe_at h"]) auto
  then obtain h4 where 4: "rb_relink (up k) (Some a) (Some b) ?h3 = Ok h4" "ctx_at (rbe_at h4) (Some b) k"
    "\<forall>w. w \<notin> set (ctx_nodes k) \<longrightarrow> rbe_at h4 w = rbe_at ?h3 w" "rbh_root h4 = outer k (Some b)" "dom (rbe_at h4) = dom (rbe_at ?h3)"
    using relink_rep [of ?h3 a k "Some b"] ne r 2(4) by auto
  have a4: "rbe_at h4 a = Some (with_child (other s) (root y) ea)" "rbe_at h4 b = Some (eb\<lparr>rbe_parent := up k\<rparr>)" using 4(3) a2 ne by auto
  let ?h5 = "h4\<lparr>rbe_at := (rbe_at h4)(b \<mapsto> with_child s (Some a) (eb\<lparr>rbe_parent := up k\<rparr>))\<rparr>"
  let ?h6 = "h4\<lparr>rbe_at := (rbe_at h4)(b \<mapsto> with_child s (Some a) (eb\<lparr>rbe_parent := up k\<rparr>), a \<mapsto> (with_child (other s) (root y) ea)\<lparr>rbe_parent := Some b\<rparr>)\<rparr>"
  have 5: "set_child s (Some b) (Some a) h4 = Ok ?h5" "set_parent (Some a) (Some b) ?h5 = Ok ?h6"
    using a4 ne(1) by (simp_all add: set_child_def set_parent_def rb_set_run)
  have run: "rb_rotate s (Some a) h = Ok ?h6"
    using ea eb 1 2(1) 3 4(1) 5 by (simp add: rb_rotate_def rb_child_def rb_get_def)
  have other: "rbe_at ?h6 w = rbe_at h w" if "w \<notin> insert a (insert b (set (inorder y) \<union> set (ctx_nodes k)))" for w
    using that 4(3) 2(3) by auto
  have "shape (rbe_at ?h6) (Some a) y" using 2(2) 4(3) ne dj(3) by (subst shape_cong [of y _ "rbe_at h2"]) auto
  moreover have "shape (rbe_at ?h6) (Some a) x" using r other ne dj(1,2) by (subst shape_cong [of x _ "rbe_at h"]) auto
  moreover have "shape (rbe_at ?h6) (Some b) z" using r other ne dj(4,5) by (subst shape_cong [of z _ "rbe_at h"]) auto
  moreover have "ctx_at (rbe_at ?h6) (Some b) k" using 4(2) ne by simp
  moreover have "node_at (rbe_at ?h6) a s (root x) (root y) (Some b) c" using ea by (simp add: node_at_def)
  moreover have "node_at (rbe_at ?h6) b s (Some a) (root z) (up k) c'" using eb ne(1) by (simp add: node_at_def)
  moreover have "dom (rbe_at ?h6) = D" using r 2(5) 4(5) ea(1) eb(1) by auto
  ultimately have "rep D ?h6 (plug k (mk s c' (mk s c x a y) b z))" using r 4(4) unfolding rep_plug mk_simps shape_mk by auto
  then show ?thesis using run by blast
qed

end
