(* ===== verification/Rbtree_Ins.thy ===== *)
theory Rbtree_Ins
  imports Rbtree_Rep
begin

text \<open>Insertion keeps the colours and heights of a red-black tree and adds the element at its place.\<close>

section \<open>The colours and heights\<close>

fun bh :: "rb_color \<Rightarrow> nat" where
  "bh RB_BLACK = 1"
| "bh RB_RED = 0"

fun bheight :: "rbt \<Rightarrow> nat" where
  "bheight Leaf = 0"
| "bheight (Node c l a r) = bheight l + bh c"

fun invc :: "rbt \<Rightarrow> bool" where
  "invc Leaf \<longleftrightarrow> True"
| "invc (Node c l a r) \<longleftrightarrow> (c = RB_RED \<longrightarrow> color l = RB_BLACK \<and> color r = RB_BLACK) \<and> invc l \<and> invc r"

fun invh :: "rbt \<Rightarrow> bool" where
  "invh Leaf \<longleftrightarrow> True"
| "invh (Node c l a r) \<longleftrightarrow> bheight l = bheight r \<and> invh l \<and> invh r"

definition red_black :: "rbt \<Rightarrow> bool" where
  "red_black t \<longleftrightarrow> invc t \<and> invh t \<and> color t = RB_BLACK"

text \<open>\<open>ctx_ok k n c\<close>: a subtree of black height \<open>n\<close> and root colour \<open>c\<close> makes the whole tree a red-black tree.\<close>

fun ctx_ok :: "rb_frame list \<Rightarrow> nat \<Rightarrow> rb_color \<Rightarrow> bool" where
  "ctx_ok [] n c \<longleftrightarrow> c = RB_BLACK"
| "ctx_ok (Frame s c' a u # k) n c \<longleftrightarrow> (c' = RB_RED \<longrightarrow> c = RB_BLACK \<and> color u = RB_BLACK) \<and> invc u \<and> invh u \<and> bheight u = n
     \<and> ctx_ok k (n + bh c') c'"

lemma inv_mk [simp]:
  "invc (mk s c t a u) \<longleftrightarrow> (c = RB_RED \<longrightarrow> color t = RB_BLACK \<and> color u = RB_BLACK) \<and> invc t \<and> invc u"
  "invh (mk s c t a u) \<longleftrightarrow> bheight t = bheight u \<and> invh t \<and> invh u"
  by (cases s; auto)+

lemma bheight_mk [simp]: "bheight t = bheight u \<Longrightarrow> bheight (mk s c t a u) = bheight u + bh c"
  by (cases s) simp_all

lemma not_black [simp]: "c \<noteq> RB_BLACK \<longleftrightarrow> c = RB_RED" "c \<noteq> RB_RED \<longleftrightarrow> c = RB_BLACK"
  by (cases c; simp)+

lemma red_black_plug: "red_black (plug k t) \<longleftrightarrow> invc t \<and> invh t \<and> ctx_ok k (bheight t) (color t)"
proof (induction k t rule: plug.induct)
  case (2 s c a u k t)
  then show ?case by (cases "bheight t = bheight u") (auto simp del: not_black)
qed (simp add: red_black_def)

lemma ctx_ok_black: "ctx_ok k n RB_RED \<Longrightarrow> ctx_ok k n RB_BLACK"
  by (cases k rule: up.cases) auto

lemma inorder_plug_cong: "inorder t = inorder t' \<Longrightarrow> inorder (plug k t) = inorder (plug k t')"
proof (induction k arbitrary: t t')
  case (Cons f k)
  obtain s c a u where "f = Frame s c a u" by (cases f)
  then show ?case using Cons.IH [of "mk s c t a u" "mk s c t' a u"] Cons.prems by (cases s) simp_all
qed simp

lemma inorder_mk: "inorder (mk s c t a u) = (if s = Lft then inorder t @ a # inorder u else inorder u @ a # inorder t)"
  by (cases s) simp_all

section \<open>The loop that restores the colours\<close>

definition ins_inv :: "nat set \<Rightarrow> rb_tree \<Rightarrow> rb_frame list \<Rightarrow> rbt \<Rightarrow> bool" where
  "ins_inv D h k t \<longleftrightarrow> rep D h (plug k t) \<and> color t = RB_RED \<and> invc t \<and> invh t \<and> ctx_ok k (bheight t) RB_BLACK"

lemma side_cases: "s = s' \<or> s = other s'"
  by (cases s; cases s') simp_all

lemma turn_red:
  assumes "rep D h (plug (Frame s1 RB_RED p u1 # Frame s2 RB_BLACK g (mk s2 RB_RED v w z) # k) t)"
  shows "\<exists>h'. insert_color_turn s2 (Some g) (Some p) (root t) h = Ok (Some g, h')
    \<and> rep D h' (plug k (mk s2 RB_RED (mk s1 RB_BLACK t p u1) g (mk s2 RB_BLACK v w z)))"
proof -
  let ?P = "\<lambda>c. mk s1 c t p u1" and ?U = "\<lambda>c. mk s2 c v w z"
  have 0: "rep D h (plug k (mk s2 RB_BLACK (?P RB_RED) g (?U RB_RED)))" using assms by simp
  have u: "rep D h (plug (Frame (other s2) RB_BLACK g (?P RB_RED) # k) (?U RB_RED))" using 0 by (simp add: mk_other)
  obtain h1 where h1: "set_color (Some w) RB_BLACK h = Ok h1" "rep D h1 (plug (Frame (other s2) RB_BLACK g (?P RB_RED) # k) (?U RB_BLACK))"
    using set_color_rep [OF u] by blast
  then have "rep D h1 (plug (Frame s2 RB_BLACK g (?U RB_BLACK) # k) (?P RB_RED))" by (simp add: mk_other)
  from set_color_rep [OF this] obtain h2 where h2: "set_color (Some p) RB_BLACK h1 = Ok h2"
    "rep D h2 (plug k (mk s2 RB_BLACK (?P RB_BLACK) g (?U RB_BLACK)))" by auto
  from set_color_rep [OF h2(2)] obtain h3 where h3: "set_color (Some g) RB_RED h2 = Ok h3"
    "rep D h3 (plug k (mk s2 RB_RED (?P RB_BLACK) g (?U RB_BLACK)))" by blast
  have "rb_child (other s2) (Some g) h = Ok (Some w)" "is_red (Some w) h = Ok True"
    using rep_reads(2) [OF 0] rep_colors(1) [OF u] by simp_all
  then show ?thesis using h1(1) h2(1) h3 by (auto simp: insert_color_turn_def RB_SET_BLACKRED_def)
qed

text \<open>The uncle is black: after at most one rotation the element is on the outer side, and a rotation of the grandparent ends the loop.\<close>

lemma turn_outer:
  assumes "rep D h (plug k (mk s RB_BLACK (mk s RB_RED t p u1) g u2))"
  shows "\<exists>h'. rbind (RB_SET_BLACKRED (Some p) (Some g) h) (\<lambda>h. rmap (\<lambda>h. (e, h)) (rb_rotate (other s) (Some g) h)) = Ok (e, h')
    \<and> rep D h' (plug k (mk s RB_BLACK t p (mk s RB_RED u1 g u2)))"
proof -
  have "rep D h (plug (Frame s RB_BLACK g u2 # k) (mk s RB_RED t p u1))" using assms by simp
  from set_color_rep [OF this] obtain h1 where h1: "set_color (Some p) RB_BLACK h = Ok h1"
    "rep D h1 (plug k (mk s RB_BLACK (mk s RB_BLACK t p u1) g u2))" by auto
  from set_color_rep [OF h1(2)] obtain h2 where h2: "set_color (Some g) RB_RED h1 = Ok h2"
    "rep D h2 (plug k (mk s RB_RED (mk s RB_BLACK t p u1) g u2))" by blast
  have "rep D h2 (plug k (mk (other s) RB_RED u2 g (mk (other s) RB_BLACK u1 p t)))" using h2(2) by (simp add: mk_other)
  from rotate_rep [OF this] obtain h3 where "rb_rotate (other s) (Some g) h2 = Ok h3" "rep D h3 (plug k (mk s RB_BLACK t p (mk s RB_RED u1 g u2)))"
    by (auto simp: mk_other)
  then show ?thesis using h1(1) h2(1) by (auto simp: RB_SET_BLACKRED_def)
qed


lemma insert_turn:
  assumes "ins_inv D h (Frame s1 RB_RED p u1 # Frame s2 RB_BLACK g u2 # k) t"
  shows "\<exists>h' k' t'. insert_color_turn s2 (Some g) (Some p) (root t) h = Ok (root t', h') \<and> ins_inv D h' k' t' \<and> length k' \<le> length k + 1
    \<and> inorder (plug k' t') = inorder (plug (Frame s1 RB_RED p u1 # Frame s2 RB_BLACK g u2 # k) t)"
proof -
  let ?k = "Frame s1 RB_RED p u1 # Frame s2 RB_BLACK g u2 # k"
  note i = assms [unfolded ins_inv_def]
  have t: "t \<noteq> Leaf" using i by auto
  show ?thesis
  proof (cases "color u2 = RB_RED")
    case True
    then have "u2 \<noteq> Leaf" by auto
    then obtain v w z where u2: "u2 = mk s2 RB_RED v w z" using node_mk [of u2 s2] True by auto
    let ?t = "mk s2 RB_RED (mk s1 RB_BLACK t p u1) g (mk s2 RB_BLACK v w z)"
    obtain h' where h': "insert_color_turn s2 (Some g) (Some p) (root t) h = Ok (Some g, h')" "rep D h' (plug k ?t)"
      using turn_red [of D h s1 p u1 s2 g v w z k t] i u2 by auto
    moreover have "ins_inv D h' k ?t" using h'(2) i u2 by (auto simp: ins_inv_def)
    moreover have "inorder (plug k ?t) = inorder (plug ?k t)" by (simp, rule inorder_plug_cong) (simp add: inorder_mk u2)
    ultimately show ?thesis by (intro exI [of _ h'] exI [of _ k] exI [of _ ?t]) simp
  next
    case black: False
    have r0: "rep D h (plug k (mk s2 RB_BLACK (mk s1 RB_RED t p u1) g u2))" using i by simp
    have rp: "rep D h (plug (Frame s2 RB_BLACK g u2 # k) (mk s1 RB_RED t p u1))" using i by simp
    have ru: "rep D h (plug (Frame (other s2) RB_BLACK g (mk s1 RB_RED t p u1) # k) u2)" using r0 by (simp add: mk_other)
    have tmp: "rb_child (other s2) (Some g) h = Ok (root u2)" "is_red (root u2) h = Ok False"
      using rep_reads(2) [OF r0] rep_colors(1) [OF ru] black by simp_all
    have dj: "root u1 \<noteq> root t" using i t root_in [of u1] root_in [of t] by (cases t) (auto simp: rep_plug)
    show ?thesis
    proof (cases "s1 = s2")
      case True
      let ?k' = "Frame s2 RB_BLACK p (mk s2 RB_RED u1 g u2) # k"
      obtain h' where h': "rbind (RB_SET_BLACKRED (Some p) (Some g) h) (\<lambda>h. rmap (\<lambda>h. (root t, h)) (rb_rotate (other s2) (Some g) h)) = Ok (root t, h')"
        "rep D h' (plug ?k' t)" using turn_outer [of D h k s2 t p u1 g u2 "root t"] r0 True by auto
      have "rb_child (other s2) (Some p) h = Ok (root u1)" using rep_reads(2) [OF rp] True by simp
      then have "insert_color_turn s2 (Some g) (Some p) (root t) h = Ok (root t, h')"
        using tmp dj h'(1) by (simp add: insert_color_turn_def)
      moreover have "ins_inv D h' ?k' t" using h'(2) i black by (auto simp: ins_inv_def)
      moreover have "inorder (plug ?k' t) = inorder (plug ?k t)" using True by (simp, intro inorder_plug_cong) (simp add: inorder_mk)
      ultimately show ?thesis by (intro exI [of _ h'] exI [of _ ?k'] exI [of _ t]) simp
    next
      case False
      then have s1: "s1 = other s2" using side_cases [of s1 s2] by auto
      obtain l x r where tx: "t = mk s2 RB_RED l x r" using node_mk [OF t, of s2] i by auto
      let ?t = "mk s2 RB_RED u1 p l" and ?k' = "Frame s2 RB_BLACK x (mk s2 RB_RED r g u2) # k"
      have "rep D h (plug (Frame s2 RB_BLACK g u2 # k) (mk s2 RB_RED u1 p (mk s2 RB_RED l x r)))" using rp by (simp add: s1 mk_other tx)
      from rotate_rep [OF this] obtain h1 where h1: "rb_rotate s2 (Some p) h = Ok h1"
        "rep D h1 (plug k (mk s2 RB_BLACK (mk s2 RB_RED ?t x r) g u2))" by auto
      obtain h' where h': "rbind (RB_SET_BLACKRED (Some x) (Some g) h1) (\<lambda>h. rmap (\<lambda>h. (Some p, h)) (rb_rotate (other s2) (Some g) h)) = Ok (Some p, h')"
        "rep D h' (plug ?k' ?t)" using turn_outer [OF h1(2), of "Some p"] by auto
      have "rb_child (other s2) (Some p) h = Ok (root t)" using rep_reads(1) [OF rp] s1 by simp
      then have "insert_color_turn s2 (Some g) (Some p) (root t) h = Ok (root ?t, h')"
        using tmp h1(1) h'(1) by (simp add: insert_color_turn_def tx)
      moreover have "ins_inv D h' ?k' ?t" using h'(2) i black tx by (auto simp: ins_inv_def)
      moreover have "inorder (plug ?k' ?t) = inorder (plug ?k t)" by (simp, intro inorder_plug_cong) (simp add: inorder_mk s1 tx, cases s2; simp)
      ultimately show ?thesis by (intro exI [of _ h'] exI [of _ ?k'] exI [of _ ?t]) simp
    qed
  qed
qed

lemma insert_color_run:
  assumes "ins_inv D h k t" "length k < n"
  shows "\<exists>h' t'. rb_insert_color n (root t) h = Ok h' \<and> rep D h' t' \<and> red_black t' \<and> inorder t' = inorder (plug k t)"
  using assms
proof (induction n arbitrary: h k t)
  case (Suc n)
  note i = Suc.prems(1) [unfolded ins_inv_def]
  obtain l x r where t: "t = mk Lft RB_RED l x r" using node_mk [of t Lft] i by fastforce
  have rt: "rep D h (plug k (mk Lft RB_RED l x r))" using i t by simp
  have p: "rb_parent (root t) h = Ok (up k)" using rep_reads(3) [OF rt] t by simp
  have pr: "is_red (up k) h = Ok (\<exists>s c a u k'. k = Frame s c a u # k' \<and> c = RB_RED)"
  proof (cases k rule: up.cases)
    case 1
    then show ?thesis by (simp add: is_red_def)
  next
    case (2 s c a u k')
    then show ?thesis using rep_colors(1) [of D h k' "mk s c t a u"] i by simp
  qed
  show ?case
  proof (cases "\<exists>s a u k'. k = Frame s RB_RED a u # k'")
    case False
    then have red: "is_red (up k) h = Ok False" using pr by auto
    let ?T = "plug k t"
    have "?T \<noteq> Leaf" using t by (metis (no_types, lifting) inorder.simps(1) inorder_plug_set mk_simps(4) empty_set insert_not_empty sup_eq_bot_iff)
    then obtain c l' a r' where T: "?T = mk Lft c l' a r'" using node_mk [of ?T Lft] by blast
    have "rep D h (plug [] (mk Lft c l' a r'))" using i T by simp
    from set_color_rep [OF this] obtain h' where h': "set_color (Some a) RB_BLACK h = Ok h'" "rep D h' (mk Lft RB_BLACK l' a r')" by auto
    have "invc ?T \<and> invh ?T"
    proof (cases k rule: up.cases)
      case (2 s c' b u k')
      then have "c' = RB_BLACK" using False by auto
      then have "red_black ?T" using i 2 by (simp add: red_black_plug del: plug.simps)
      then show ?thesis by (simp add: red_black_def)
    qed (use i in simp)
    then have "red_black (mk Lft RB_BLACK l' a r')" unfolding T by (auto simp: red_black_def)
    moreover have "rbh_root h = Some a" using i T by (simp add: rep_def)
    ultimately show ?thesis using p red h' T by (intro exI [of _ h'] exI [of _ "mk Lft RB_BLACK l' a r'"]) simp
  next
    case True
    then obtain s1 p1 u1 k1 where k1: "k = Frame s1 RB_RED p1 u1 # k1" by blast
    then have "k1 \<noteq> []" using i by auto
    then obtain s2 c g u2 k2 where "k1 = Frame s2 c g u2 # k2" by (metis neq_Nil_conv rb_frame.exhaust)
    moreover from this have "c = RB_BLACK" using i k1 by (cases c) auto
    ultimately have k: "k = Frame s1 RB_RED p1 u1 # Frame s2 RB_BLACK g u2 # k2" using k1 by simp
    let ?P = "mk s1 RB_RED t p1 u1"
    have rg: "rep D h (plug k2 (mk s2 RB_BLACK ?P g u2))" and rp: "rep D h (plug (Frame s2 RB_BLACK g u2 # k2) ?P)" using i k by simp_all
    have gp: "rb_parent (Some p1) h = Ok (Some g)" using rep_reads(3) [OF rp] by simp
    have "root u2 \<noteq> Some p1" using rg root_in [of u2 p1] by (auto simp: rep_plug)
    then have side: "\<exists>l. rb_child Lft (Some g) h = Ok l \<and> (if Some p1 = l then Lft else Rgt) = s2"
      using rep_reads(1,2) [OF rg] by (cases s2) auto
    obtain h1 k' t' where s: "insert_color_turn s2 (Some g) (Some p1) (root t) h = Ok (root t', h1)" "ins_inv D h1 k' t'" "length k' \<le> length k2 + 1"
      "inorder (plug k' t') = inorder (plug k t)" using insert_turn [OF Suc.prems(1) [unfolded k]] k by blast
    obtain h' T where "rb_insert_color n (root t') h1 = Ok h'" "rep D h' T" "red_black T" "inorder T = inorder (plug k' t')"
      using Suc.IH [OF s(2)] s(3) Suc.prems(2) k by auto
    then show ?thesis using p pr gp side s(1,4) k by (intro exI [of _ h'] exI [of _ T]) auto
  qed
qed simp


section \<open>The way down\<close>

lemma plug_append: "plug (k2 @ k) t = plug k (plug k2 t)"
  by (induction k2 t rule: plug.induct) simp_all

lemma length_ctx: "length k \<le> length (ctx_nodes k)"
  by (induction k rule: ctx_nodes.induct) simp_all

lemma length_plug: "length (inorder (plug k t)) = length (inorder t) + length (ctx_nodes k)"
proof (induction k t rule: plug.induct)
  case (2 s c a u k t)
  then show ?case by (cases s) simp_all
qed simp

fun rbt_height :: "rbt \<Rightarrow> nat" where
  "rbt_height Leaf = 0"
| "rbt_height (Node c l a r) = Suc (max (rbt_height l) (rbt_height r))"

lemma height_length: "rbt_height t \<le> length (inorder t)"
  by (induction t) auto

lemma height_bheight: "invc t \<Longrightarrow> invh t \<Longrightarrow> rbt_height t \<le> 2 * bheight t + 1 - bh (color t)"
proof (induction t)
  case (Node c l a r)
  have "bh (color l) = 1 \<or> bh (color l) = 0" "bh (color r) = 1 \<or> bh (color r) = 0" by (cases "color l"; cases "color r"; simp)+
  then show ?case using Node by (cases c) auto
qed simp

lemma bheight_length: "invh t \<Longrightarrow> 2 ^ bheight t \<le> length (inorder t) + 1"
proof (induction t)
  case (Node c l a r)
  then show ?case by (cases c) auto
qed simp

lemma height_log:
  assumes "red_black t" "(length (inorder t) + 1)\<^sup>2 \<le> 2 ^ m"
  shows "rbt_height t \<le> m"
proof -
  have "rbt_height t \<le> 2 * bheight t" using assms(1) height_bheight [of t] by (simp add: red_black_def)
  then have "(2::nat) ^ rbt_height t \<le> (2 ^ bheight t)\<^sup>2" by (simp flip: power_mult add: mult.commute [of 2])
  also have "\<dots> \<le> (length (inorder t) + 1)\<^sup>2" using assms(1) bheight_length [of t] by (intro power_mono) (simp_all add: red_black_def)
  finally have "(2::nat) ^ rbt_height t \<le> 2 ^ m" by (rule le_trans) (rule assms(2))
  then show ?thesis by (rule power_le_imp_le_exp [rotated]) simp
qed

text \<open>The order of the elements of \<open>A\<close> that the comparison function gives, by their keys.\<close>

locale rb_keys =
  fixes cmp :: "nat \<Rightarrow> nat \<Rightarrow> int" and key :: "nat \<Rightarrow> 'k :: linorder" and A :: "nat set"
  assumes cmp_less: "a \<in> A \<Longrightarrow> b \<in> A \<Longrightarrow> cmp a b < 0 \<longleftrightarrow> key a < key b"
    and cmp_greater: "a \<in> A \<Longrightarrow> b \<in> A \<Longrightarrow> cmp a b > 0 \<longleftrightarrow> key b < key a"
begin

definition ordered :: "rbt \<Rightarrow> bool" where
  "ordered t \<longleftrightarrow> set (inorder t) \<subseteq> A \<and> sorted_wrt (<) (map key (inorder t))"

definition place :: "nat \<Rightarrow> nat list \<Rightarrow> nat list" where
  "place x xs = filter (\<lambda>a. key a < key x) xs @ x # filter (\<lambda>a. key x < key a) xs"

lemma ordered_Node: "ordered (Node c l a r) \<longleftrightarrow> ordered l \<and> ordered r \<and> a \<in> A \<and> (\<forall>b \<in> set (inorder l). key b < key a)
    \<and> (\<forall>b \<in> set (inorder r). key a < key b) \<and> (\<forall>b \<in> set (inorder l). \<forall>d \<in> set (inorder r). key b < key d)"
  by (auto simp: ordered_def sorted_wrt_append)

lemma place_left:
  assumes "ordered (Node c l a r)" "key x < key a"
  shows "place x (inorder (Node c l a r)) = place x (inorder l) @ a # inorder r"
proof -
  have "\<forall>b \<in> set (inorder r). key x < key b" using assms by (auto simp: ordered_Node dest: less_trans)
  then have "filter (\<lambda>b. key b < key x) (inorder r) = []" "filter (\<lambda>b. key x < key b) (inorder r) = inorder r"
    by (auto simp: filter_empty_conv)
  then show ?thesis using assms(2) by (simp add: place_def)
qed

lemma place_right:
  assumes "ordered (Node c l a r)" "key a < key x"
  shows "place x (inorder (Node c l a r)) = inorder l @ a # place x (inorder r)"
proof -
  have "\<forall>b \<in> set (inorder l). key b < key x" using assms by (auto simp: ordered_Node dest: less_trans)
  then have "filter (\<lambda>b. key b < key x) (inorder l) = inorder l" "filter (\<lambda>b. key x < key b) (inorder l) = []"
    by (auto simp: filter_empty_conv)
  then show ?thesis using assms(2) by (simp add: place_def)
qed

text \<open>Where the way down ends: at the node with the key, or below a leaf, where the element belongs.\<close>

definition hit :: "rbt \<Rightarrow> nat \<Rightarrow> (nat option \<times> nat option \<times> int) res \<Rightarrow> bool" where
  "hit t x r \<longleftrightarrow> (\<exists>a d'. a \<in> set (inorder t) \<and> key a = key x \<and> r = Ok (Some a, Some a, d'))"

definition side_ok :: "rb_frame list \<Rightarrow> int \<Rightarrow> bool" where
  "side_ok k d' \<longleftrightarrow> k = [] \<or> (\<exists>s c a u k'. k = Frame s c a u # k' \<and> (d' < 0 \<longleftrightarrow> s = Lft))"

definition miss :: "rbt \<Rightarrow> nat option \<Rightarrow> nat \<Rightarrow> (nat option \<times> nat option \<times> int) res \<Rightarrow> bool" where
  "miss t p x r \<longleftrightarrow> (\<forall>a \<in> set (inorder t). key a \<noteq> key x) \<and> (\<exists>k d'. r = Ok (None, if k = [] then p else up k, d')
     \<and> plug k Leaf = t \<and> side_ok k d' \<and> (\<forall>c. inorder (plug k (Node c Leaf x Leaf)) = place x (inorder t)))"

lemma descend_run:
  assumes "shape (rbe_at h) q t" "ordered t" "x \<in> A" "rbt_height t \<le> n"
  shows "hit t x (rb_descend cmp n x (root t) p d h) \<or> miss t p x (rb_descend cmp n x (root t) p d h)"
  using assms
proof (induction t arbitrary: n p q d)
  case Leaf
  have "miss Leaf p x (rb_descend cmp n x (root Leaf) p d h)"
    unfolding miss_def by (rule conjI, simp, rule exI [of _ "[]"], rule exI [of _ d]) (simp add: place_def side_ok_def)
  then show ?case ..
next
  case (Node c l a r)
  have a: "a \<in> A" and ol: "ordered l" "ordered r" using Node.prems(2) by (auto simp: ordered_Node)
  obtain m where n: "n = Suc m" using Node.prems(4) by (cases n) auto
  have rd: "rb_child Lft (Some a) h = Ok (root l)" "rb_child Rgt (Some a) h = Ok (root r)"
    using reads [of h a Lft "root l" "root r" q c] Node.prems(1) by auto
  consider "key x < key a" | "key a < key x" | "key x = key a" by fastforce
  then show ?case
  proof cases
    case 1
    then have c: "cmp x a < 0" using cmp_less [OF Node.prems(3) a] by simp
    have s: "shape (rbe_at h) (Some a) l" "rbt_height l \<le> m" using Node.prems(1,4) n by auto
    have run: "rb_descend cmp n x (root (Node c l a r)) p d h = rb_descend cmp m x (root l) (Some a) (cmp x a) h"
      using c rd n by simp
    have nr: "\<forall>b \<in> set (inorder r). key b \<noteq> key x" using Node.prems(2) 1 by (fastforce simp: ordered_Node)
    let ?r = "rb_descend cmp m x (root l) (Some a) (cmp x a) h"
    from Node.IH(1) [OF s(1) ol(1) Node.prems(3) s(2), of "Some a" "cmp x a"] show ?thesis
    proof
      assume "hit l x ?r"
      then show ?thesis unfolding run by (auto simp: hit_def)
    next
      assume "miss l (Some a) x ?r"
      then obtain k d' where k: "\<forall>b \<in> set (inorder l). key b \<noteq> key x" "plug k Leaf = l" "\<forall>c. inorder (plug k (Node c Leaf x Leaf)) = place x (inorder l)"
        "?r = Ok (None, if k = [] then Some a else up k, d')" "side_ok k d'" unfolding miss_def by blast
      let ?k = "k @ [Frame Lft c a r]"
      have "?r = Ok (None, up ?k, d')" using k(4) by (cases k rule: up.cases) auto
      moreover have "k = [] \<Longrightarrow> d' = cmp x a" using k(2,4) by auto
      then have "side_ok ?k d'" using k(5) c by (cases k) (auto simp: side_ok_def)
      moreover have "inorder (plug ?k (Node c' Leaf x Leaf)) = place x (inorder (Node c l a r))" for c'
        using k(3) place_left [OF Node.prems(2) 1] by (simp add: plug_append)
      moreover have "plug ?k Leaf = Node c l a r" using k(2) by (simp add: plug_append)
      moreover have "\<forall>b \<in> set (inorder (Node c l a r)). key b \<noteq> key x" using k(1) nr 1 by auto
      ultimately have "miss (Node c l a r) p x ?r" unfolding miss_def by (intro conjI exI [of _ ?k] exI [of _ d']) simp_all
      then show ?thesis unfolding run ..
    qed
  next
    case 2
    then have c: "cmp x a > 0" using cmp_greater [OF Node.prems(3) a] by simp
    have s: "shape (rbe_at h) (Some a) r" "rbt_height r \<le> m" using Node.prems(1,4) n by auto
    have run: "rb_descend cmp n x (root (Node c l a r)) p d h = rb_descend cmp m x (root r) (Some a) (cmp x a) h"
      using c rd n by simp
    have nr: "\<forall>b \<in> set (inorder l). key b \<noteq> key x" using Node.prems(2) 2 by (fastforce simp: ordered_Node)
    let ?r = "rb_descend cmp m x (root r) (Some a) (cmp x a) h"
    from Node.IH(2) [OF s(1) ol(2) Node.prems(3) s(2), of "Some a" "cmp x a"] show ?thesis
    proof
      assume "hit r x ?r"
      then show ?thesis unfolding run by (auto simp: hit_def)
    next
      assume "miss r (Some a) x ?r"
      then obtain k d' where k: "\<forall>b \<in> set (inorder r). key b \<noteq> key x" "plug k Leaf = r" "\<forall>c. inorder (plug k (Node c Leaf x Leaf)) = place x (inorder r)"
        "?r = Ok (None, if k = [] then Some a else up k, d')" "side_ok k d'" unfolding miss_def by blast
      let ?k = "k @ [Frame Rgt c a l]"
      have "?r = Ok (None, up ?k, d')" using k(4) by (cases k rule: up.cases) auto
      moreover have "k = [] \<Longrightarrow> d' = cmp x a" using k(2,4) by auto
      then have "side_ok ?k d'" using k(5) c by (cases k) (auto simp: side_ok_def)
      moreover have "inorder (plug ?k (Node c' Leaf x Leaf)) = place x (inorder (Node c l a r))" for c'
        using k(3) place_right [OF Node.prems(2) 2] by (simp add: plug_append)
      moreover have "plug ?k Leaf = Node c l a r" using k(2) by (simp add: plug_append)
      moreover have "\<forall>b \<in> set (inorder (Node c l a r)). key b \<noteq> key x" using k(1) nr 2 by auto
      ultimately have "miss (Node c l a r) p x ?r" unfolding miss_def by (intro conjI exI [of _ ?k] exI [of _ d']) simp_all
      then show ?thesis unfolding run ..
    qed
  next
    case 3
    then have "\<not> cmp x a < 0" "\<not> cmp x a > 0" using cmp_less [OF Node.prems(3) a] cmp_greater [OF Node.prems(3) a] by simp_all
    then have "hit (Node c l a r) x (rb_descend cmp n x (root (Node c l a r)) p d h)" using 3 n by (auto simp: hit_def)
    then show ?thesis ..
  qed
qed

section \<open>Search and insertion\<close>

lemma find_run:
  assumes "rep D h t" "ordered t" "x \<in> A" "rbt_height t \<le> n"
  shows "rb_find cmp n x h = Ok (find (\<lambda>a. key a = key x) (inorder t))"
proof -
  have s: "shape (rbe_at h) None t" "rbh_root h = root t" using assms(1) by (simp_all add: rep_def)
  have u: "b = a" if "a \<in> set (inorder t)" "b \<in> set (inorder t)" "key a = key x" "key b = key x" for a b
  proof -
    have "distinct (map key (inorder t))" using assms(2) strict_sorted_iff [of "map key (inorder t)"] by (simp add: ordered_def)
    then show ?thesis using that by (simp add: distinct_map inj_on_def)
  qed
  let ?r = "rb_descend cmp n x (root t) None 0 h"
  from descend_run [OF s(1) assms(2-4), of None 0] show ?thesis
  proof
    assume "hit t x ?r"
    then obtain a d' where a: "a \<in> set (inorder t)" "key a = key x" "?r = Ok (Some a, Some a, d')" by (auto simp: hit_def)
    have "find (\<lambda>a. key a = key x) (inorder t) \<noteq> None" using a(1,2) by (auto simp: find_None_iff)
    then obtain b where b: "find (\<lambda>a. key a = key x) (inorder t) = Some b" by blast
    then have "b \<in> set (inorder t)" "key b = key x" by (auto simp: find_Some_iff)
    then show ?thesis using u [OF a(1) _ a(2)] a(3) b s(2) by (simp add: rb_find_def)
  next
    assume "miss t None x ?r"
    then obtain k d' where m: "\<forall>a \<in> set (inorder t). key a \<noteq> key x" "?r = Ok (None, if k = [] then None else up k, d')"
      unfolding miss_def by blast
    then have "find (\<lambda>a. key a = key x) (inorder t) = None" by (auto simp: find_None_iff)
    then show ?thesis using s(2) m(2) by (simp add: rb_find_def)
  qed
qed

end

text \<open>Hanging a new node below a leaf position.\<close>

lemma hang_rep:
  assumes "rep D h (plug k Leaf)" "x \<in> D" "x \<notin> set (ctx_nodes k)" "k = [] \<or> (\<exists>s c a u k'. k = Frame s c a u # k' \<and> s = s0)"
  shows "\<exists>h1 h2. RB_SET (Some x) (up k) h = Ok h1 \<and> (if up k = None then Ok (h1\<lparr>rbh_root := Some x\<rparr>) else set_child s0 (up k) (Some x) h1) = Ok h2
    \<and> rep D h2 (plug k (Node RB_RED Leaf x Leaf))"
proof -
  obtain e where e: "rbe_at h x = Some e" using assms(1,2) by (auto simp: rep_def)
  let ?e = "e\<lparr>rbe_parent := up k, rbe_left := None, rbe_right := None, rbe_color := RB_RED\<rparr>"
  let ?h1 = "h\<lparr>rbe_at := (rbe_at h)(x \<mapsto> ?e)\<rparr>"
  have 1: "RB_SET (Some x) (up k) h = Ok ?h1" using e by (simp add: RB_SET_def rb_set_run)
  have nx: "node_at (rbe_at ?h1) x Lft None None (up k) RB_RED" by (simp add: node_at_def)
  show ?thesis
  proof (cases k rule: up.cases)
    case k: 1
    then have "rep D (?h1\<lparr>rbh_root := Some x\<rparr>) (plug k (Node RB_RED Leaf x Leaf))" using assms(1) nx e by (auto simp: rep_def)
    then show ?thesis using 1 k by auto
  next
    case k: (2 s c a u k')
    then have s: "s = s0" using assms(4) by auto
    obtain ea where ea: "rbe_at h a = Some ea" "child_of (other s) ea = root u" "rbe_parent ea = up k'" "rbe_color ea = c"
      using assms(1) k by (auto simp: rep_plug node_at_def simp del: plug.simps)
    have xa: "x \<noteq> a" "x \<notin> set (inorder u)" "x \<notin> set (ctx_nodes k')" using assms(3) k by auto
    let ?h2 = "?h1\<lparr>rbe_at := (rbe_at ?h1)(a \<mapsto> with_child s (Some x) ea)\<rparr>"
    have 2: "set_child s0 (up k) (Some x) ?h1 = Ok ?h2" using ea(1) xa k s by (simp add: set_child_def rb_set_run)
    have "node_at (rbe_at ?h2) a s (Some x) (root u) (up k') c" using ea by (simp add: node_at_def)
    moreover have "node_at (rbe_at ?h2) x Lft None None (Some a) RB_RED" using nx k xa(1) by simp
    moreover have "a \<notin> set (inorder u)" "a \<notin> set (ctx_nodes k')" using assms(1) k by (auto simp: rep_plug simp del: plug.simps)
    ultimately have "rep D ?h2 (plug k (Node RB_RED Leaf x Leaf))"
      using assms(1,3) ea(1) e xa unfolding k rep_plug by (auto simp: outer_any)
    then show ?thesis using 1 2 k by auto
  qed
qed

context rb_keys
begin

lemma insert_run:
  assumes "rep D h t" "red_black t" "ordered t" "x \<in> A" "x \<in> D" "x \<notin> set (inorder t)" "\<forall>a \<in> set (inorder t). key a \<noteq> key x" "length (inorder t) < n"
  shows "\<exists>h' t'. rb_insert cmp n x h = Ok (None, h') \<and> rep D h' t' \<and> red_black t' \<and> ordered t' \<and> inorder t' = place x (inorder t)"
proof -
  have s: "shape (rbe_at h) None t" "rbh_root h = root t" using assms(1) by (simp_all add: rep_def)
  obtain k d' where k: "rb_descend cmp n x (root t) None 0 h = Ok (None, up k, d')" "plug k Leaf = t"
    "side_ok k d'" "\<forall>c. inorder (plug k (Node c Leaf x Leaf)) = place x (inorder t)"
  proof -
    have "\<not> hit t x (rb_descend cmp n x (root t) None 0 h)" using assms(7) by (auto simp: hit_def)
    then have "miss t None x (rb_descend cmp n x (root t) None 0 h)"
      using descend_run [OF s(1) assms(3,4) le_trans [OF height_length less_imp_le [OF assms(8)]], of None 0] by blast
    then obtain k d' where k: "rb_descend cmp n x (root t) None 0 h = Ok (None, if k = [] then None else up k, d')" "plug k Leaf = t"
      "side_ok k d'" "\<forall>c. inorder (plug k (Node c Leaf x Leaf)) = place x (inorder t)" unfolding miss_def by blast
    have "(if k = [] then None else up k) = up k" by (cases k) simp_all
    then show ?thesis using that k by simp
  qed
  have xk: "x \<notin> set (ctx_nodes k)" using assms(6) k(2) inorder_plug_set [of k Leaf] by auto
  let ?s = "if d' < 0 then Lft else Rgt"
  have sd: "k = [] \<or> (\<exists>s c a u k'. k = Frame s c a u # k' \<and> s = ?s)" using k(3) unfolding side_ok_def by (metis side.exhaust)
  obtain h1 h2 where h: "RB_SET (Some x) (up k) h = Ok h1"
    "(if up k = None then Ok (h1\<lparr>rbh_root := Some x\<rparr>) else set_child ?s (up k) (Some x) h1) = Ok h2" "rep D h2 (plug k (Node RB_RED Leaf x Leaf))"
    using hang_rep [OF _ assms(5) xk sd, of h] assms(1) k(2) by blast
  have "ctx_ok k 0 RB_BLACK" using assms(2) k(2) red_black_plug [of k Leaf] by simp
  then have "ins_inv D h2 k (Node RB_RED Leaf x Leaf)" using h(3) by (simp add: ins_inv_def)
  moreover have "length k < n" using assms(8) length_ctx [of k] length_plug [of k Leaf] k(2) by simp
  ultimately obtain h' t' where h': "rb_insert_color n (Some x) h2 = Ok h'" "rep D h' t'" "red_black t'"
    "inorder t' = inorder (plug k (Node RB_RED Leaf x Leaf))" using insert_color_run [of D h2 k "Node RB_RED Leaf x Leaf" n] by auto
  have p: "inorder t' = place x (inorder t)" using h'(4) k(4) by simp
  have f: "sorted_wrt (<) (map key (filter P (inorder t)))" for P
    using assms(3) by (auto simp: ordered_def sorted_wrt_map intro: sorted_wrt_filter)
  have "sorted_wrt (<) (map key (place x (inorder t)))"
    using f [of "\<lambda>a. key a < key x"] f [of "\<lambda>a. key x < key a"] by (auto simp: place_def sorted_wrt_append dest: less_trans)
  then have "ordered t'" using p assms(3,4) by (auto simp: ordered_def place_def)
  moreover have "rb_insert cmp n x h = Ok (None, h')" using s(2) k(1) h(1,2) h'(1) by (simp add: rb_insert_def split: if_splits)
  ultimately show ?thesis using h'(2,3) p by blast
qed

end

end
