(* ===== verification/Rbtree_Del.thy ===== *)
theory Rbtree_Del
  imports Rbtree_Ins
begin

text \<open>Removal keeps the colours and heights of a red-black tree and takes out exactly the element.\<close>

section \<open>The loop that restores the heights\<close>

fun paint :: "rbt \<Rightarrow> rbt" where
  "paint Leaf = Leaf"
| "paint (Node c l a r) = Node RB_BLACK l a r"

lemma paint_mk [simp]: "paint (mk s c t a u) = mk s RB_BLACK t a u"
  by (cases s) simp_all

lemma paint_simps [simp]: "inorder (paint t) = inorder t" "color (paint t) = RB_BLACK" "root (paint t) = root t" "invh (paint t) = invh t"
  "invc t \<Longrightarrow> invc (paint t)"
  by (cases t; simp)+

lemma paint_black [simp]: "color t = RB_BLACK \<Longrightarrow> paint t = t"
  by (cases t) simp_all

lemma bheight_paint: "color t = RB_RED \<Longrightarrow> bheight (paint t) = bheight t + 1"
  by (cases t) simp_all

lemma set_black_rep:
  assumes "rep D h (plug k t)"
  shows "\<exists>h'. set_black_if (root t) h = Ok h' \<and> rep D h' (plug k (paint t))"
proof (cases "t = Leaf")
  case False
  then obtain c l a r where "t = mk Lft c l a r" using node_mk by blast
  then show ?thesis using set_color_rep [of D h k Lft c l a r RB_BLACK] assms by (auto simp: set_black_if_def)
qed (use assms in \<open>simp add: set_black_if_def\<close>)

text \<open>The subtree in the focus is one black node too low; its root may be red, with red children, and is then painted black.\<close>

definition del_inv :: "nat set \<Rightarrow> rb_tree \<Rightarrow> rb_frame list \<Rightarrow> rbt \<Rightarrow> bool" where
  "del_inv D h k t \<longleftrightarrow> rep D h (plug k t) \<and> invc (paint t) \<and> invh t \<and> ctx_ok k (bheight t + 1) RB_BLACK"

text \<open>The tree at a black element, its parent \<open>a\<close> and its sibling \<open>u\<close>.\<close>

definition low :: "nat set \<Rightarrow> rb_tree \<Rightarrow> rb_frame list \<Rightarrow> rbt \<Rightarrow> bool" where
  "low D h k t \<longleftrightarrow> rep D h (plug k t) \<and> color t = RB_BLACK \<and> invc t \<and> invh t \<and> ctx_ok k (bheight t + 1) RB_BLACK"

lemma sibling_node:
  assumes "low D h (Frame s c a u # k) t"
  obtains cu y b z where "u = mk s cu y b z"
  using assms node_mk [of u s] by (cases "u = Leaf") (auto simp: low_def)

lemma red_sibling_run:
  assumes "low D h (Frame s c a u # k) t"
  shows "\<exists>h' c' u' k'. red_sibling s (Some a) h = Ok (root u', h') \<and> low D h' (Frame s c' a u' # k') t \<and> color u' = RB_BLACK
    \<and> inorder (plug (Frame s c' a u' # k') t) = inorder (plug (Frame s c a u # k) t) \<and> (k' = k \<and> c' = c \<or> c' = RB_RED)"
proof -
  note i = assms [unfolded low_def]
  obtain cu y b z where u: "u = mk s cu y b z" using sibling_node [OF assms] .
  have r0: "rep D h (plug k (mk s c t a u))" and ru: "rep D h (plug (Frame (other s) c a t # k) u)" using i by (simp_all add: mk_other)
  have tmp: "rb_child (other s) (Some a) h = Ok (Some b)" "rb_color_of (Some b) h = Ok cu"
    using rep_reads(2) [OF r0] rep_reads(4) [OF ru [unfolded u]] u by simp_all
  show ?thesis
  proof (cases "cu = RB_RED")
    case False
    then show ?thesis using tmp assms u
      by (intro exI [of _ h] exI [of _ c] exI [of _ u] exI [of _ k]) (simp add: red_sibling_def)
  next
    case True
    have c: "c = RB_BLACK" using i u True by (cases c) auto
    obtain h1 where h1: "set_color (Some b) RB_BLACK h = Ok h1" "rep D h1 (plug (Frame (other s) c a t # k) (mk s RB_BLACK y b z))"
      using set_color_rep [OF ru [unfolded u]] by blast
    have "rep D h1 (plug k (mk s c t a (mk s RB_BLACK y b z)))" using h1(2) by (simp add: mk_other)
    from set_color_rep [OF this] obtain h2 where h2: "set_color (Some a) RB_RED h1 = Ok h2"
      "rep D h2 (plug k (mk s RB_RED t a (mk s RB_BLACK y b z)))" by blast
    from rotate_rep [OF h2(2)] obtain h3 where h3: "rb_rotate s (Some a) h2 = Ok h3"
      "rep D h3 (plug (Frame s RB_BLACK b z # k) (mk s RB_RED t a y))" by auto
    have n: "rb_child (other s) (Some a) h3 = Ok (root y)" using rep_reads(2) [OF h3(2)] .
    let ?k = "Frame s RB_BLACK b z # k"
    have "low D h3 (Frame s RB_RED a y # ?k) t" using i u True h3(2) c by (auto simp: low_def)
    moreover have "color y = RB_BLACK" using i u True by simp
    moreover have "inorder (plug (Frame s RB_RED a y # ?k) t) = inorder (plug (Frame s c a u # k) t)"
      by (simp, rule inorder_plug_cong) (simp add: inorder_mk u)
    moreover have "red_sibling s (Some a) h = Ok (root y, h3)"
      using tmp True h1(1) h2(1) h3(1) n by (simp add: red_sibling_def RB_SET_BLACKRED_def)
    ultimately show ?thesis by blast
  qed
qed

lemma near_nephew_run:
  assumes "low D h (Frame s c a (mk s RB_BLACK (mk s RB_RED y d w) b z) # k) t" "color z = RB_BLACK"
  shows "\<exists>h'. near_nephew s (Some a) (Some b) h = Ok (Some d, h') \<and> low D h' (Frame s c a (mk s RB_BLACK y d (mk s RB_RED w b z)) # k) t
    \<and> inorder (plug (Frame s c a (mk s RB_BLACK y d (mk s RB_RED w b z)) # k) t)
      = inorder (plug (Frame s c a (mk s RB_BLACK (mk s RB_RED y d w) b z) # k) t)"
proof -
  note i = assms(1) [unfolded low_def]
  let ?o = "other s" and ?f = "Frame (other s) c a t"
  have ru: "rep D h (plug (?f # k) (mk s RB_BLACK (mk s RB_RED y d w) b z))" using i by (simp add: mk_other)
  have n: "rb_child s (Some b) h = Ok (Some d)" using rep_reads(1) [OF ru] by simp
  have "rep D h (plug (Frame s RB_BLACK b z # ?f # k) (mk s RB_RED y d w))" using ru by simp
  from set_color_rep [OF this] obtain h1 where h1: "set_color (Some d) RB_BLACK h = Ok h1"
    "rep D h1 (plug (?f # k) (mk s RB_BLACK (mk s RB_BLACK y d w) b z))" by auto
  from set_color_rep [OF h1(2)] obtain h2 where h2: "set_color (Some b) RB_RED h1 = Ok h2"
    "rep D h2 (plug (?f # k) (mk s RB_RED (mk s RB_BLACK y d w) b z))" by blast
  have "rep D h2 (plug (?f # k) (mk ?o RB_RED z b (mk ?o RB_BLACK w d y)))" using h2(2) by (simp add: mk_other)
  from rotate_rep [OF this] obtain h3 where h3: "rb_rotate ?o (Some b) h2 = Ok h3" "rep D h3 (plug (?f # k) (mk s RB_BLACK y d (mk s RB_RED w b z)))"
    by (auto simp: mk_other)
  have r3: "rep D h3 (plug k (mk s c t a (mk s RB_BLACK y d (mk s RB_RED w b z))))" using h3(2) by (simp add: mk_other)
  have "rb_child ?o (Some a) h3 = Ok (Some d)" using rep_reads(2) [OF r3] by simp
  then have "near_nephew s (Some a) (Some b) h = Ok (Some d, h3)"
    using n h1(1) h2(1) h3(1) by (simp add: near_nephew_def set_black_if_def)
  moreover have "low D h3 (Frame s c a (mk s RB_BLACK y d (mk s RB_RED w b z)) # k) t" using i r3 assms(2) by (auto simp: low_def)
  moreover have "inorder (plug (Frame s c a (mk s RB_BLACK y d (mk s RB_RED w b z)) # k) t)
      = inorder (plug (Frame s c a (mk s RB_BLACK (mk s RB_RED y d w) b z) # k) t)"
    by (simp, rule inorder_plug_cong) (simp add: inorder_mk)
  ultimately show ?thesis by blast
qed

lemma last_rotation_run:
  assumes "low D h (Frame s c a (mk s RB_BLACK y b z) # k) t" "color z = RB_RED"
  shows "\<exists>h'. last_rotation s (Some a) (Some b) h = Ok h' \<and> rep D h' (plug k (mk s c (mk s RB_BLACK t a y) b (paint z)))
    \<and> red_black (plug k (mk s c (mk s RB_BLACK t a y) b (paint z)))
    \<and> inorder (plug k (mk s c (mk s RB_BLACK t a y) b (paint z))) = inorder (plug (Frame s c a (mk s RB_BLACK y b z) # k) t)"
proof -
  note i = assms(1) [unfolded low_def]
  have r0: "rep D h (plug k (mk s c t a (mk s RB_BLACK y b z)))" and ru: "rep D h (plug (Frame (other s) c a t # k) (mk s RB_BLACK y b z))"
    using i by (simp_all add: mk_other)
  have c0: "rb_color_of (Some a) h = Ok c" using rep_reads(4) [OF r0] .
  obtain h1 where h1: "set_color (Some b) c h = Ok h1" "rep D h1 (plug (Frame (other s) c a t # k) (mk s c y b z))"
    using set_color_rep [OF ru] by blast
  have "rep D h1 (plug k (mk s c t a (mk s c y b z)))" using h1(2) by (simp add: mk_other)
  from set_color_rep [OF this] obtain h2 where h2: "set_color (Some a) RB_BLACK h1 = Ok h2" "rep D h2 (plug k (mk s RB_BLACK t a (mk s c y b z)))"
    by blast
  have rb: "rep D h2 (plug (Frame (other s) RB_BLACK a t # k) (mk s c y b z))" using h2(2) by (simp add: mk_other)
  have far: "rb_child (other s) (Some b) h2 = Ok (root z)" using rep_reads(2) [OF rb] .
  have "rep D h2 (plug (Frame (other s) c b y # Frame (other s) RB_BLACK a t # k) z)" using rb by (simp add: mk_other)
  from set_black_rep [OF this] obtain h3 where h3: "set_black_if (root z) h2 = Ok h3"
    "rep D h3 (plug k (mk s RB_BLACK t a (mk s c y b (paint z))))" by (auto simp: mk_other)
  from rotate_rep [OF h3(2)] obtain h4 where h4: "rb_rotate s (Some a) h3 = Ok h4"
    "rep D h4 (plug k (mk s c (mk s RB_BLACK t a y) b (paint z)))" by blast
  have "red_black (plug k (mk s c (mk s RB_BLACK t a y) b (paint z)))"
    using i assms(2) bheight_paint [OF assms(2)] by (auto simp: red_black_plug)
  moreover have "inorder (plug k (mk s c (mk s RB_BLACK t a y) b (paint z))) = inorder (plug (Frame s c a (mk s RB_BLACK y b z) # k) t)"
    by (simp, rule inorder_plug_cong) (simp add: inorder_mk)
  moreover have "last_rotation s (Some a) (Some b) h = Ok h4"
    using c0 h1(1) h2(1) far h3(1) h4(1) by (simp add: last_rotation_def)
  ultimately show ?thesis using h4(2) by blast
qed


lemma remove_turn:
  assumes "low D h (Frame s c a u # k) t"
  shows "(\<exists>h' k' t'. remove_color_turn s (Some a) h = Ok (True, up k', root t', h') \<and> del_inv D h' k' t' \<and> (color t' = RB_RED \<or> k' = k)
      \<and> inorder (plug k' t') = inorder (plug (Frame s c a u # k) t))
    \<or> (\<exists>h' T p. remove_color_turn s (Some a) h = Ok (False, p, root T, h') \<and> rep D h' T \<and> red_black T
      \<and> inorder T = inorder (plug (Frame s c a u # k) t))"
proof -
  obtain h1 c1 u1 k1 where s1: "red_sibling s (Some a) h = Ok (root u1, h1)" "low D h1 (Frame s c1 a u1 # k1) t" "color u1 = RB_BLACK"
    "inorder (plug (Frame s c1 a u1 # k1) t) = inorder (plug (Frame s c a u # k) t)" "k1 = k \<and> c1 = c \<or> c1 = RB_RED"
    using red_sibling_run [OF assms] by blast
  obtain cu y b z where "u1 = mk s cu y b z" using sibling_node [OF s1(2)] .
  then have u1: "u1 = mk s RB_BLACK y b z" using s1(3) by simp
  note i = s1(2) [unfolded low_def u1]
  have ru: "rep D h1 (plug (Frame (other s) c1 a t # k1) (mk s RB_BLACK y b z))" using i by (simp add: mk_other)
  have ry: "rep D h1 (plug (Frame s RB_BLACK b z # Frame (other s) c1 a t # k1) y)"
    and rz: "rep D h1 (plug (Frame (other s) RB_BLACK b y # Frame (other s) c1 a t # k1) z)" using ru by (simp_all add: mk_other)
  have rd: "rb_child s (Some b) h1 = Ok (root y)" "rb_child (other s) (Some b) h1 = Ok (root z)" "is_black (root y) h1 = Ok (color y = RB_BLACK)"
    "is_black (root z) h1 = Ok (color z = RB_BLACK)"
    using rep_reads(1,2) [OF ru] rep_colors(2) [OF ry] rep_colors(2) [OF rz] by simp_all
  show ?thesis
  proof (cases "color y = RB_BLACK \<and> color z = RB_BLACK")
    case True
    let ?t = "mk s c1 t a (mk s RB_RED y b z)"
    obtain h2 where h2: "set_color (Some b) RB_RED h1 = Ok h2" "rep D h2 (plug (Frame (other s) c1 a t # k1) (mk s RB_RED y b z))"
      using set_color_rep [OF ru] by blast
    have r2: "rep D h2 (plug k1 ?t)" using h2(2) by (simp add: mk_other)
    have "ctx_ok k1 (bheight t + 1 + bh c1) RB_BLACK" using i ctx_ok_black by (cases c1) auto
    then have "del_inv D h2 k1 ?t" using r2 i True by (auto simp: del_inv_def)
    moreover have "remove_color_turn s (Some a) h = Ok (True, up k1, root ?t, h2)"
      using s1(1) u1 rd True h2(1) rep_reads(3) [OF r2] by (simp add: remove_color_turn_def)
    moreover have "inorder (plug k1 ?t) = inorder (plug (Frame s c a u # k) t)"
      unfolding s1(4) [symmetric] u1 by (simp, rule inorder_plug_cong) (simp add: inorder_mk)
    ultimately show ?thesis using s1(5) by (intro disjI1 exI [of _ h2] exI [of _ k1] exI [of _ ?t]) auto
  next
    case False
    have "\<exists>h2 y' b' z'. (if color z = RB_BLACK then near_nephew s (Some a) (Some b) h1 else Ok (Some b, h1)) = Ok (Some b', h2)
      \<and> low D h2 (Frame s c1 a (mk s RB_BLACK y' b' z') # k1) t \<and> color z' = RB_RED
      \<and> inorder (plug (Frame s c1 a (mk s RB_BLACK y' b' z') # k1) t) = inorder (plug (Frame s c1 a u1 # k1) t)"
    proof (cases "color z = RB_BLACK")
      case True
      then have "color y = RB_RED" using False by simp
      then obtain y1 d w where "y = mk s RB_RED y1 d w" using node_mk [of y s] by fastforce
      then show ?thesis using near_nephew_run [of D h1 s c1 a y1 d w b z k1 t] s1(2) u1 True by fastforce
    qed (use s1(2) u1 in auto)
    then obtain h2 y' b' z' where h2: "(if color z = RB_BLACK then near_nephew s (Some a) (Some b) h1 else Ok (Some b, h1)) = Ok (Some b', h2)"
      "low D h2 (Frame s c1 a (mk s RB_BLACK y' b' z') # k1) t" "color z' = RB_RED"
      "inorder (plug (Frame s c1 a (mk s RB_BLACK y' b' z') # k1) t) = inorder (plug (Frame s c1 a u1 # k1) t)" by blast
    let ?T = "plug k1 (mk s c1 (mk s RB_BLACK t a y') b' (paint z'))"
    obtain h3 where h3: "last_rotation s (Some a) (Some b') h2 = Ok h3" "rep D h3 ?T" "red_black ?T"
      "inorder ?T = inorder (plug (Frame s c1 a (mk s RB_BLACK y' b' z') # k1) t)" using last_rotation_run [OF h2(2,3)] by blast
    have "remove_color_turn s (Some a) h = Ok (False, Some a, root ?T, h3)"
      using s1(1) u1 rd False h2(1) h3(1,2) by (auto simp: remove_color_turn_def rep_def)
    then show ?thesis using h3(2-4) h2(4) s1(4) by (intro disjI2 exI [of _ h3] exI [of _ ?T] exI [of _ "Some a"]) simp
  qed
qed

lemma outer_in: "k \<noteq> [] \<Longrightarrow> \<exists>a \<in> set (ctx_nodes k). outer k r = Some a"
proof (induction k r rule: outer.induct)
  case (2 s c a u k r)
  then show ?case by (cases "k = []") auto
qed simp

lemma rep_root_focus:
  assumes "rep D h (plug k t)"
  shows "root t = rbh_root h \<longleftrightarrow> k = []"
proof (cases "k = []")
  case True
  then show ?thesis using assms by (simp add: rep_def)
next
  case False
  then show ?thesis using outer_in [OF False, of "root t"] root_in [of t] assms by (auto simp: rep_plug)
qed

lemma remove_color_run:
  assumes "del_inv D h k t" "(if color t = RB_RED then 1 else length k + 2) \<le> n"
  shows "\<exists>h' T. rb_remove_color n (up k) (root t) h = Ok h' \<and> rep D h' T \<and> red_black T \<and> inorder T = inorder (plug k t)"
  using assms
proof (induction n arbitrary: h k t)
  case (Suc n)
  note i = Suc.prems(1) [unfolded del_inv_def]
  have bl: "is_black (root t) h = Ok (color t = RB_BLACK)" using rep_colors(2) i by blast
  have rf: "root t = rbh_root h \<longleftrightarrow> k = []" using rep_root_focus i by blast
  show ?case
  proof (cases "color t = RB_RED \<or> k = []")
    case True
    obtain h' where h': "set_black_if (root t) h = Ok h'" "rep D h' (plug k (paint t))" using set_black_rep i by blast
    have "red_black (plug k (paint t))"
    proof (cases "color t = RB_RED")
      case True
      then show ?thesis using i bheight_paint [OF True] by (simp add: red_black_plug)
    next
      case False
      then have "k = []" using True by simp
      then show ?thesis using i by (simp add: red_black_def)
    qed
    moreover have "rb_remove_color (Suc n) (up k) (root t) h = Ok h'" using True bl rf h'(1) by auto
    ultimately show ?thesis using h'(2) inorder_plug_cong [of "paint t" t k] by (intro exI [of _ h'] exI [of _ "plug k (paint t)"]) simp
  next
    case False
    then have black: "color t = RB_BLACK" "k \<noteq> []" by simp_all
    then obtain s c a u k' where k: "k = Frame s c a u # k'" by (metis neq_Nil_conv rb_frame.exhaust)
    have low: "low D h (Frame s c a u # k') t" using i black k by (simp add: low_def)
    obtain cu y b z where u: "u = mk s cu y b z" using sibling_node [OF low] .
    have r0: "rep D h (plug k' (mk s c t a u))" using i k by simp
    have "root u \<noteq> root t" using r0 u root_in [of t b] by (auto simp: rep_plug)
    then have side: "\<exists>l. rb_child Lft (Some a) h = Ok l \<and> (if l = root t then Lft else Rgt) = s"
      using rep_reads(1,2) [OF r0] by (cases s) auto
    from remove_turn [OF low] show ?thesis
    proof
      assume "\<exists>h' k1 t'. remove_color_turn s (Some a) h = Ok (True, up k1, root t', h') \<and> del_inv D h' k1 t' \<and> (color t' = RB_RED \<or> k1 = k')
        \<and> inorder (plug k1 t') = inorder (plug (Frame s c a u # k') t)"
      then obtain h1 k1 t1 where s1: "remove_color_turn s (Some a) h = Ok (True, up k1, root t1, h1)" "del_inv D h1 k1 t1" "color t1 = RB_RED \<or> k1 = k'"
        "inorder (plug k1 t1) = inorder (plug k t)" unfolding k by blast
      have "(if color t1 = RB_RED then 1 else length k1 + 2) \<le> n" using s1(3) Suc.prems(2) black(1) k by (auto split: if_splits)
      from Suc.IH [OF s1(2) this] show ?thesis using bl rf black s1(1,4) side k by auto
    next
      assume "\<exists>h' T p. remove_color_turn s (Some a) h = Ok (False, p, root T, h') \<and> rep D h' T \<and> red_black T
        \<and> inorder T = inorder (plug (Frame s c a u # k') t)"
      then obtain h1 T p where s1: "remove_color_turn s (Some a) h = Ok (False, p, root T, h1)" "rep D h1 T" "red_black T" "inorder T = inorder (plug k t)"
        unfolding k by blast
      have "paint T = T" using s1(3) by (simp add: red_black_def)
      then obtain h2 where h2: "set_black_if (root T) h1 = Ok h2" "rep D h2 T" using set_black_rep [of D h1 "[]" T] s1(2) by auto
      then show ?thesis using bl rf black s1 side k by (intro exI [of _ h2] exI [of _ T]) auto
    qed
  qed
qed (auto split: if_splits)


section \<open>Taking a node out\<close>

lemma unlink_rep:
  assumes "rep D h (plug k (mk s c Leaf e u))"
  shows "\<exists>h'. rb_unlink (Some e) (root u) h = Ok (up k, c, h') \<and> rep D h' (plug k u) \<and> rbe_at h' e = rbe_at h e"
proof -
  note r = assms [unfolded rep_plug mk_simps shape_mk]
  have ne: "e \<notin> set (inorder u)" "e \<notin> set (ctx_nodes k)" "distinct (ctx_nodes k)" "distinct (inorder u)" "set (inorder u) \<inter> set (ctx_nodes k) = {}"
    using r by auto
  obtain h1 where h1: "set_parent_if (root u) (up k) h = Ok h1" "shape (rbe_at h1) (up k) u" "\<forall>x. x \<notin> set (inorder u) \<longrightarrow> rbe_at h1 x = rbe_at h x"
    "rbh_root h1 = rbh_root h" "dom (rbe_at h1) = dom (rbe_at h)" using set_parent_if_run [of h "Some e" u "up k"] r ne by auto
  have "ctx_at (rbe_at h1) (Some e) k" using r h1(3) ne(5) by (subst ctx_cong [of k _ "rbe_at h"]) auto
  then obtain h2 where h2: "rb_relink (up k) (Some e) (root u) h1 = Ok h2" "ctx_at (rbe_at h2) (root u) k"
    "\<forall>x. x \<notin> set (ctx_nodes k) \<longrightarrow> rbe_at h2 x = rbe_at h1 x" "rbh_root h2 = outer k (root u)" "dom (rbe_at h2) = dom (rbe_at h1)"
    using relink_rep [of h1 e k "root u"] ne r h1(4) by auto
  have "shape (rbe_at h2) (up k) u" using h1(2) h2(3) ne(5) by (subst shape_cong [of u _ "rbe_at h1"]) auto
  then have "rep D h2 (plug k u)" using r ne h2(2,4,5) h1(5) unfolding rep_plug by auto
  moreover have "rb_unlink (Some e) (root u) h = Ok (up k, c, h2)" using rep_reads(3,4) [OF assms] h1(1) h2(1) by (simp add: rb_unlink_def)
  moreover have "rbe_at h2 e = rbe_at h e" using h1(3) h2(3) ne by simp
  ultimately show ?thesis by blast
qed

lemma takeover_rep:
  assumes "rep D h (plug k (Node c l old r))" "l \<noteq> Leaf" "e \<in> D" "e \<notin> set (inorder (plug k (Node c l old r)))"
  shows "\<exists>h'. rb_takeover (Some e) (Some old) h = Ok h' \<and> rep D h' (plug k (Node c l e r))"
proof -
  note rr = assms(1) [unfolded rep_plug inorder.simps shape.simps]
  obtain eo where eo: "rbe_at h old = Some eo" "rbe_left eo = root l" "rbe_right eo = root r" "rbe_parent eo = up k" "rbe_color eo = c"
    using rr by (auto simp: node_at_def)
  obtain ee where ee: "rbe_at h e = Some ee" using assms(1,3) by (auto simp: rep_def)
  have ne: "e \<noteq> old" "e \<notin> set (inorder l)" "e \<notin> set (inorder r)" "e \<notin> set (ctx_nodes k)" using assms(4) by (auto simp: inorder_plug_set)
  have no: "old \<notin> set (inorder l)" "old \<notin> set (inorder r)" "old \<notin> set (ctx_nodes k)" "distinct (ctx_nodes k)" "distinct (inorder l)" "distinct (inorder r)"
    and dj: "set (inorder l) \<inter> set (inorder r) = {}" "set (inorder l) \<inter> set (ctx_nodes k) = {}" "set (inorder r) \<inter> set (ctx_nodes k) = {}"
    using rr by auto
  let ?h1 = "h\<lparr>rbe_at := (rbe_at h)(e \<mapsto> eo)\<rparr>"
  have 1: "rb_get (Some old) h = Ok eo" "rb_set (Some e) (\<lambda>_. eo) h = Ok ?h1" "rb_parent (Some old) ?h1 = Ok (up k)"
    using eo ee ne(1) by (simp_all add: rb_get_def rb_set_run rb_parent_def)
  have "ctx_at (rbe_at ?h1) (Some old) k" using rr ne by simp
  then obtain h2 where h2: "rb_relink (up k) (Some old) (Some e) ?h1 = Ok h2" "ctx_at (rbe_at h2) (Some e) k"
    "\<forall>x. x \<notin> set (ctx_nodes k) \<longrightarrow> rbe_at h2 x = rbe_at ?h1 x" "rbh_root h2 = outer k (Some e)" "dom (rbe_at h2) = dom (rbe_at ?h1)"
    using relink_rep [of ?h1 old k "Some e"] no rr by auto
  have "shape (rbe_at h2) (Some old) l" using rr h2(3) ne dj(2) by (subst shape_cong [of l _ "rbe_at h"]) auto
  then obtain h3 where h3: "set_parent_if (root l) (Some e) h2 = Ok h3" "shape (rbe_at h3) (Some e) l"
    "\<forall>x. x \<notin> set (inorder l) \<longrightarrow> rbe_at h3 x = rbe_at h2 x" "rbh_root h3 = rbh_root h2" "dom (rbe_at h3) = dom (rbe_at h2)"
    using set_parent_if_run [of h2 "Some old" l "Some e"] no by auto
  have "rbe_at h3 x = rbe_at h x" if "x \<in> set (inorder r)" for x
  proof -
    have "x \<notin> set (inorder l)" "x \<notin> set (ctx_nodes k)" "x \<noteq> e" using that dj(1,3) ne(3) by auto
    then show ?thesis using h2(3) h3(3) by simp
  qed
  then have "shape (rbe_at h3) (Some old) r" using rr shape_cong [of r "rbe_at h3" "rbe_at h"] by blast
  then obtain h4 where h4: "set_parent_if (root r) (Some e) h3 = Ok h4" "shape (rbe_at h4) (Some e) r"
    "\<forall>x. x \<notin> set (inorder r) \<longrightarrow> rbe_at h4 x = rbe_at h3 x" "rbh_root h4 = rbh_root h3" "dom (rbe_at h4) = dom (rbe_at h3)"
    using set_parent_if_run [of h3 "Some old" r "Some e"] no by auto
  have same: "rbe_at h4 x = rbe_at h2 x" if "x \<in> set (ctx_nodes k)" for x
  proof -
    have "x \<notin> set (inorder l)" "x \<notin> set (inorder r)" using that dj(2,3) by auto
    then show ?thesis using h3(3) h4(3) by simp
  qed
  have old: "rbe_at h2 old = Some eo" "rbe_at h3 old = Some eo" using h2(3) h3(3) no ne eo(1) by auto
  have run: "rb_takeover (Some e) (Some old) h = Ok h4"
    using 1 h2(1) h3(1) h4(1) old eo assms(2) by (simp add: rb_takeover_def rb_child_def rb_get_def set_parent_if_def)
  have "rbe_at h4 e = Some eo" using h2(3) h3(3) h4(3) ne by simp
  then have "node_at (rbe_at h4) e Lft (root l) (root r) (up k) c" using eo by (simp add: node_at_def)
  moreover have "shape (rbe_at h4) (Some e) l" using h3(2) h4(3) dj(1) by (subst shape_cong [of l _ "rbe_at h3"]) auto
  moreover have "ctx_at (rbe_at h4) (Some e) k" using h2(2) ctx_cong [of k "rbe_at h4" "rbe_at h2"] same by blast
  moreover have "dom (rbe_at h4) = D" using rr h2(5) h3(5) h4(5) ee by auto
  ultimately have "rep D h4 (plug k (Node c l e r))"
    using rr ne h4(2,4) h3(4) h2(4) unfolding rep_plug inorder.simps shape.simps by auto
  then show ?thesis using run by blast
qed

lemma leftmost_run:
  assumes "shape (rbe_at h) q t" "t \<noteq> Leaf" "length (inorder t) \<le> n"
  shows "\<exists>m c e r rest. t = plug m (Node c Leaf e r) \<and> rb_leftmost n (root t) h = Ok (Some e) \<and> (\<forall>x. inorder (plug m x) = inorder x @ rest)"
  using assms
proof (induction t arbitrary: q n)
  case (Node c l a r)
  obtain k where n: "n = Suc k" using Node.prems(3) by (cases n) auto
  have rd: "rb_child Lft (Some a) h = Ok (root l)" using reads(1) [of h a Lft "root l" "root r" q c] Node.prems(1) by auto
  show ?case
  proof (cases "l = Leaf")
    case True
    then show ?thesis using n rd by (intro exI [of _ "[]"] exI [of _ c] exI [of _ a] exI [of _ r] exI [of _ "[]"]) simp
  next
    case False
    obtain m c' e r' rest where m: "l = plug m (Node c' Leaf e r')" "rb_leftmost k (root l) h = Ok (Some e)" "\<forall>x. inorder (plug m x) = inorder x @ rest"
      using Node.IH(1) [of "Some a" k] False Node.prems n by auto
    have "rb_leftmost n (root (Node c l a r)) h = Ok (Some e)" using n rd False m(2) by simp
    then show ?thesis using m by (intro exI [of _ "m @ [Frame Lft c a r]"] exI [of _ c'] exI [of _ e] exI [of _ r'] exI [of _ "rest @ a # inorder r"])
        (simp add: plug_append)
  qed
qed simp

lemma walk_up_run:
  assumes "ctx_at (rbe_at h) r k" "length k \<le> n"
  shows "rb_walk_up n (up k) h = Ok ()"
  using assms
proof (induction k arbitrary: r n rule: ctx_nodes.induct)
  case (2 s c a u k)
  obtain m where n: "n = Suc m" using "2.prems"(2) by (cases n) auto
  have "rb_parent (Some a) h = Ok (up k)" using reads(3) [of h a s r "root u" "up k" c] "2.prems"(1) by auto
  then show ?case using "2.IH" [of "Some a" m] "2.prems" n by simp
qed simp

lemma mem_plug: "a \<in> set (inorder t) \<Longrightarrow> \<exists>k c l r. t = plug k (Node c l a r)"
proof (induction t)
  case (Node c l b r)
  then consider "a = b" | "a \<in> set (inorder l)" | "a \<in> set (inorder r)" by auto
  then show ?case
  proof cases
    case 1
    then show ?thesis by (intro exI [of _ "[]"]) auto
  next
    case 2
    then obtain k c' l' r' where "l = plug k (Node c' l' a r')" using Node.IH(1) by blast
    then have "Node c l b r = plug (k @ [Frame Lft c b r]) (Node c' l' a r')" by (simp add: plug_append)
    then show ?thesis by blast
  next
    case 3
    then obtain k c' l' r' where "r = plug k (Node c' l' a r')" using Node.IH(2) by blast
    then have "Node c l b r = plug (k @ [Frame Rgt c b l]) (Node c' l' a r')" by (simp add: plug_append)
    then show ?thesis by blast
  qed
qed simp

lemma inorder_around: "\<exists>pre post. \<forall>t. inorder (plug k t) = pre @ inorder t @ post"
proof (induction k)
  case (Cons f k)
  obtain s c a u where f: "f = Frame s c a u" by (cases f)
  obtain pre post where "\<forall>t. inorder (plug k t) = pre @ inorder t @ post" using Cons by blast
  then have "\<forall>t. inorder (plug (f # k) t) = (if s = Lft then pre else pre @ inorder u @ [a]) @ inorder t @ (if s = Lft then a # inorder u @ post else post)"
    by (simp add: f inorder_mk)
  then show ?case by blast
qed (intro exI [of _ "[]"], simp)

text \<open>What remains to be done when a node with at most one child is gone.\<close>

lemma after_unlink:
  assumes "red_black (plug k (mk s c Leaf e u))" "rep D h (plug k u)" "length k + 2 \<le> n"
  shows "\<exists>h' T. (if c = RB_BLACK then rb_remove_color n (up k) (root u) h else Ok h) = Ok h' \<and> rep D h' T \<and> red_black T \<and> inorder T = inorder (plug k u)"
proof (cases "c = RB_BLACK")
  case True
  have "del_inv D h k u" using assms(1,2) True by (auto simp: del_inv_def red_black_plug)
  then show ?thesis using remove_color_run [of D h k u n] assms(3) True by auto
next
  case False
  then have "red_black (plug k u)" using assms(1) ctx_ok_black by (auto simp: red_black_plug)
  then show ?thesis using False assms(2) by auto
qed

lemma ctx_ok_rename: "ctx_ok (m @ Frame s c a u # k) n c' \<longleftrightarrow> ctx_ok (m @ Frame s c b u # k) n c'"
  by (induction m arbitrary: n c' rule: ctx_nodes.induct) auto


lemma ctx_nodes_append [simp]: "ctx_nodes (m @ k) = ctx_nodes m @ ctx_nodes k"
  by (induction m rule: ctx_nodes.induct) simp_all

lemma remove_leaf_side:
  assumes "rep D h (plug k (mk s c Leaf old u))" "red_black (plug k (mk s c Leaf old u))" "length (inorder (plug k (mk s c Leaf old u))) + 2 \<le> n"
  shows "\<exists>h' T. rbind (rmap (\<lambda>(parent, color, h). (parent, color, root u, h)) (rb_unlink (Some old) (root u) h)) (\<lambda>(parent, color, child, h).
      if color = RB_BLACK then rb_remove_color n parent child h else Ok h) = Ok h' \<and> rep D h' T \<and> red_black T \<and> inorder T = inorder (plug k u)"
proof -
  obtain h1 where h1: "rb_unlink (Some old) (root u) h = Ok (up k, c, h1)" "rep D h1 (plug k u)" using unlink_rep [OF assms(1)] by blast
  have "length k + 2 \<le> n" using assms(3) length_ctx [of k] length_plug [of k "mk s c Leaf old u"] by simp
  from after_unlink [OF assms(2) h1(2) this] show ?thesis using h1(1) by simp
qed

lemma remove_run:
  assumes "rep D h t" "red_black t" "old \<in> set (inorder t)" "length (inorder t) + 2 \<le> n"
  shows "\<exists>h' T. rb_remove n old h = Ok h' \<and> rep D h' T \<and> red_black T \<and> inorder T = remove1 old (inorder t)"
proof -
  obtain k c l r where t: "t = plug k (Node c l old r)" using mem_plug [OF assms(3)] by blast
  obtain pre post where io: "\<forall>x. inorder (plug k x) = pre @ inorder x @ post" using inorder_around by blast
  have d: "distinct (inorder t)" using assms(1) by (simp add: rep_def)
  have old: "old \<notin> set pre" "old \<notin> set (inorder l)" using d by (auto simp: t io)
  have r0: "rep D h (plug k (mk Lft c l old r))" using assms(1) t by simp
  have rd: "rb_child Lft (Some old) h = Ok (root l)" "rb_child Rgt (Some old) h = Ok (root r)" using rep_reads(1,2) [OF r0] by simp_all
  show ?thesis
  proof (cases "l = Leaf \<or> r = Leaf")
    case True
    have fin: "inorder (plug k u) = remove1 old (inorder t)" if "l = Leaf \<and> u = r \<or> r = Leaf \<and> u = l" for u
      using that old by (auto simp: t io remove1_append)
    show ?thesis
    proof (cases "l = Leaf")
      case True
      then show ?thesis using remove_leaf_side [of D h k Lft c old r n] assms t rd fin [of r] by (simp add: rb_remove_def)
    next
      case False
      then have "r = Leaf" using \<open>l = Leaf \<or> r = Leaf\<close> by simp
      then show ?thesis using False remove_leaf_side [of D h k Rgt c old l n] assms t rd fin [of l] by (simp add: rb_remove_def)
    qed
  next
    case False
    have sr: "shape (rbe_at h) (Some old) r" using r0 by (simp add: rep_plug)
    have "length (inorder r) \<le> n" using assms(4) t length_plug [of k "Node c l old r"] by simp
    then obtain m c2 e rr rest where m: "r = plug m (Node c2 Leaf e rr)" "rb_leftmost n (root r) h = Ok (Some e)" "\<forall>x. inorder (plug m x) = inorder x @ rest"
      using leftmost_run [OF sr] False by blast
    let ?K = "m @ Frame Rgt c old l # k" and ?K' = "m @ Frame Rgt c e l # k"
    have pl: "t = plug ?K (mk Lft c2 Leaf e rr)" by (simp add: t plug_append m(1))
    have re: "rep D h (plug ?K (mk Lft c2 Leaf e rr))" using assms(1) pl by simp
    obtain h1 where h1: "rb_unlink (Some e) (root rr) h = Ok (up ?K, c2, h1)" "rep D h1 (plug ?K rr)" "rbe_at h1 e = rbe_at h e"
      using unlink_rep [OF re] by blast
    have p1: "rb_parent (Some e) h1 = Ok (up ?K)" using rep_reads(3) [OF re] h1(3) by (simp add: rb_parent_def rb_get_def)
    have "node_at (rbe_at h) e Lft None (root rr) (up ?K) c2" using re unfolding rep_plug by simp
    moreover have "dom (rbe_at h) = D" using assms(1) by (simp add: rep_def)
    ultimately have eD: "e \<in> D" by (auto simp: node_at_def)
    have "e \<notin> set (inorder (plug ?K rr))" using re by (auto simp: inorder_plug_set rep_plug)
    then obtain h2 where h2: "rb_takeover (Some e) (Some old) h1 = Ok h2" "rep D h2 (plug k (Node c l e (plug m rr)))"
      using takeover_rep [of D h1 k c l old "plug m rr" e] h1(2) False eD by (auto simp: plug_append)
    have par: "(if up ?K = Some old then Some e else up ?K) = up ?K'"
    proof (cases m rule: up.cases)
      case (2 s c' a u m')
      then have "a \<noteq> old" using re by (auto simp: rep_plug)
      then show ?thesis using 2 by simp
    qed simp
    have rK': "rep D h2 (plug ?K' rr)" using h2(2) by (simp add: plug_append)
    have len: "length ?K' + 2 \<le> n"
      using assms(4) length_ctx [of ?K] length_plug [of ?K "mk Lft c2 Leaf e rr"] unfolding pl by simp
    have w: "rb_walk_up n (up ?K') h2 = Ok ()" using walk_up_run [of h2 "root rr" ?K' n] rK' len by (simp add: rep_plug)
    have "red_black (plug ?K' (mk Lft c2 Leaf e rr))"
      using assms(2) unfolding pl red_black_plug using ctx_ok_rename [of m Rgt c old l k _ _ e] by auto
    from after_unlink [OF this rK' len] obtain h3 T where h3: "(if c2 = RB_BLACK then rb_remove_color n (up ?K') (root rr) h2 else Ok h2) = Ok h3"
      "rep D h3 T" "red_black T" "inorder T = inorder (plug ?K' rr)" by blast
    have ch: "rb_child Rgt (Some e) h = Ok (root rr)" using rep_reads(2) [OF re] by simp
    have "rb_remove n old h = Ok h3"
      using rd False m(2) ch h1(1) p1 h2(1) w h3(1) par by (simp add: rb_remove_def Let_def)
    moreover have "inorder T = remove1 old (inorder t)" using h3(4) old m(3) by (simp add: t plug_append io m(1) remove1_append)
    ultimately show ?thesis using h3(2,3) by blast
  qed
qed

end
