(* ===== verification/Rbtree_Walk.thy ===== *)
theory Rbtree_Walk
  imports Rbtree_Del
begin

text \<open>
  \<^verbatim>\<open>RB_MINMAX\<close>, \<^verbatim>\<open>RB_NEXT\<close> and \<^verbatim>\<open>RB_FOREACH\<close>: the walk over the pointers visits the nodes of the tree in order.
\<close>

fun head_of :: "nat list \<Rightarrow> nat option" where
  "head_of [] = None"
| "head_of (x # xs) = Some x"

fun after :: "rb_frame list \<Rightarrow> nat list" where
  "after [] = []"
| "after (Frame Lft c a u # k) = a # inorder u @ after k"
| "after (Frame Rgt c a u # k) = after k"

lemma inorder_after: "\<exists>pre. \<forall>t. inorder (plug k t) = pre @ inorder t @ after k"
proof (induction k rule: after.induct)
  case (2 c a u k)
  then obtain pre where "\<forall>t. inorder (plug k t) = pre @ inorder t @ after k" by blast
  then show ?case by (intro exI [of _ pre]) simp
next
  case (3 c a u k)
  then obtain pre where "\<forall>t. inorder (plug k t) = pre @ inorder t @ after k" by blast
  then show ?case by (intro exI [of _ "pre @ inorder u @ [a]"]) simp
qed simp

lemma extreme_run:
  assumes "shape (rbe_at h) q t" "length (inorder t) \<le> n"
  shows "rb_extreme n s (root t) p h = Ok (if t = Leaf then p else Some (if s = Lft then hd (inorder t) else last (inorder t)))"
  using assms
proof (induction t arbitrary: n p q)
  case (Node c l a r)
  obtain m where n: "n = Suc m" using Node.prems(2) by (cases n) auto
  have rd: "rb_child Lft (Some a) h = Ok (root l)" "rb_child Rgt (Some a) h = Ok (root r)"
    using reads [of h a Lft "root l" "root r" q c] Node.prems(1) by auto
  have ne: "l \<noteq> Leaf \<Longrightarrow> inorder l \<noteq> []" "r \<noteq> Leaf \<Longrightarrow> inorder r \<noteq> []" by (cases l; simp) (cases r; simp)
  show ?case
    using Node.IH(1) [of "Some a" m "Some a"] Node.IH(2) [of "Some a" m "Some a"] Node.prems n rd ne by (cases s) auto
qed simp

lemma up_run:
  assumes "rep D h (plug k t)" "root t = Some a" "length k < n"
  shows "rb_up n (Some a) h = Ok (head_of (after k))"
  using assms
proof (induction k arbitrary: t a n rule: ctx_nodes.induct)
  case 1
  then show ?case using reads(3) by (cases n; cases t) (auto simp: rep_def)
next
  case (2 s c b u k)
  obtain m where n: "n = Suc m" using "2.prems"(3) by (cases n) auto
  have r: "rep D h (plug k (mk s c t b u))" using "2.prems"(1) by simp
  obtain c' x y where t: "t = mk Lft c' x a y" using "2.prems"(2) by (cases t) auto
  have p: "rb_parent (Some a) h = Ok (Some b)" using rep_reads(3) [of D h "Frame s c b u # k" Lft] "2.prems"(1) t by simp
  have ne: "root u \<noteq> Some a" using r root_in [of u a] root_in [OF "2.prems"(2)] by (auto simp: rep_plug)
  show ?case
  proof (cases s)
    case Lft
    then show ?thesis using rep_reads(2) [OF r] p n ne by simp
  next
    case Rgt
    then have "rb_child Rgt (Some b) h = Ok (Some a)" using rep_reads(1) [OF r] "2.prems"(2) by simp
    then show ?thesis using p n Rgt "2.IH" [OF r, of b m] "2.prems"(3) by simp
  qed
qed

lemma next_run:
  assumes "rep D h t" "inorder t = xs @ a # ys" "length (inorder t) \<le> n"
  shows "rb_next n (Some a) h = Ok (head_of ys)"
proof -
  obtain k c l r where t: "t = plug k (Node c l a r)" using mem_plug [of a t] assms(2) by auto
  obtain pre where io: "inorder t = (pre @ inorder l) @ a # inorder r @ after k" using inorder_after [of k] t by auto
  have "distinct (inorder t)" using assms(1) by (simp add: rep_def)
  then have ys: "ys = inorder r @ after k" using assms(2) io append_Cons_eq_iff [of a xs ys "pre @ inorder l" "inorder r @ after k"] by simp
  have r0: "rep D h (plug k (mk Lft c l a r))" using assms(1) t by simp
  have rd: "rb_child Rgt (Some a) h = Ok (root r)" "rb_parent (Some a) h = Ok (up k)" using rep_reads(2,3) [OF r0] by simp_all
  show ?thesis
  proof (cases "r = Leaf")
    case False
    have "shape (rbe_at h) (Some a) r" using r0 by (simp add: rep_plug)
    moreover have "length (inorder r) \<le> n" using assms(3) io by simp
    ultimately obtain m c' e r' rest where m: "r = plug m (Node c' Leaf e r')" "rb_leftmost n (root r) h = Ok (Some e)" "\<forall>x. inorder (plug m x) = inorder x @ rest"
      using leftmost_run False by blast
    then show ?thesis using rd False ys by (simp add: rb_next_def)
  next
    case True
    have "length k < n" using assms(3) length_ctx [of k] length_plug [of k "Node c l a r"] t by simp
    then have u: "rb_up n (Some a) h = Ok (head_of (after k))" using up_run [OF r0] by simp
    show ?thesis
    proof (cases k rule: after.cases)
      case (2 c' b u k')
      have "rep D h (plug k' (mk Lft c' (mk Lft c l a r) b u))" using r0 2 by simp
      then show ?thesis using rep_reads(1) [of D h k' Lft] rd True ys 2 by (simp add: rb_next_def)
    next
      case (3 c' b u k')
      have r3: "rep D h (plug k' (mk Rgt c' (mk Lft c l a r) b u))" using r0 3 by simp
      have "root u \<noteq> Some a" using r3 root_in [of u a] by (auto simp: rep_plug)
      then show ?thesis using rep_reads(2) [OF r3] rd True ys 3 u by (simp add: rb_next_def)
    qed (use rd True ys u in \<open>simp add: rb_next_def\<close>)
  qed
qed

lemma visit_run:
  assumes "rep D h t" "inorder t = xs @ ys" "length (inorder t) \<le> n" "length ys \<le> m"
  shows "rb_visit n m (head_of ys) h = Ok ys"
  using assms
proof (induction ys arbitrary: xs m)
  case (Cons a ys)
  then obtain j where "m = Suc j" by (cases m) auto
  then show ?case using Cons.IH [of "xs @ [a]" j] Cons.prems next_run [OF Cons.prems(1,2,3)] by simp
qed simp

lemma foreach_run:
  assumes "rep D h t" "length (inorder t) \<le> n"
  shows "rb_foreach n h = Ok (inorder t)"
proof -
  have "rb_minmax n (-1) h = Ok (head_of (inorder t))"
    using extreme_run [of h None t n Lft None] assms by (cases t; cases "inorder t") (auto simp: rb_minmax_def rep_def)
  then show ?thesis using visit_run [of D h t "[]" "inorder t" n n] assms by (simp add: rb_foreach_def)
qed

lemma minmax_run:
  assumes "rep D h t" "length (inorder t) \<le> n"
  shows "rb_minmax n val h = Ok (if inorder t = [] then None else Some (if val < 0 then hd (inorder t) else last (inorder t)))"
  using extreme_run [of h None t n "if val < 0 then Lft else Rgt" None] assms by (cases t) (auto simp: rb_minmax_def rep_def)

end
