(* ===== verification/Rbtree_Index.thy ===== *)
theory Rbtree_Index
  imports Rbtree_Walk Session_Inv "HOL-Library.Product_Lexorder"
begin

text \<open>
  The index of the downloads, \<^verbatim>\<open>piece_dl_by_idxoff\<close>: \<open>Session\<close> keeps it as a list in the order of the walk; here the
  red-black tree of \<^verbatim>\<open>network.c\<close>, with its comparison function, is shown to do what those lists do, as long as the keys
  stay below \<open>2 ^ 31\<close>.
\<close>

section \<open>The comparison function\<close>

definition small_key :: "u32 \<times> u32 \<Rightarrow> bool" where
  "small_key k \<longleftrightarrow> fst k < 2 ^ 31 \<and> snd k < 2 ^ 31"

lemma cmp_order:
  assumes "small_key k1" "small_key k2"
  shows "piece_dl_idxnode_cmp k1 k2 < 0 \<longleftrightarrow> k1 < k2" "piece_dl_idxnode_cmp k1 k2 > 0 \<longleftrightarrow> k2 < k1"
proof -
  have s: "sint (fst k1 - fst k2) = uint (fst k1) - uint (fst k2)" "sint (snd k1 - snd k2) = uint (snd k1) - uint (snd k2)"
    using assms sint_diff by (simp_all add: small_key_def)
  have z: "uint (fst k1 - fst k2) = 0 \<longleftrightarrow> fst k1 = fst k2" by (simp add: unsigned_eq_0_iff)
  show "piece_dl_idxnode_cmp k1 k2 < 0 \<longleftrightarrow> k1 < k2" "piece_dl_idxnode_cmp k1 k2 > 0 \<longleftrightarrow> k2 < k1"
    using s z by (cases "fst k1 = fst k2"; auto simp: piece_dl_idxnode_cmp_def less_prod_def' Let_def word_less_def)+
qed

definition idx_cmp :: "(nat \<Rightarrow> piece_dl_idxnode) \<Rightarrow> nat \<Rightarrow> nat \<Rightarrow> int" where
  "idx_cmp nd a b = piece_dl_idxnode_cmp (node_key (nd a)) (node_key (nd b))"

interpretation dlx: rb_keys "idx_cmp nd" "\<lambda>a. node_key (nd a)" "{a. small_key (node_key (nd a))}" for nd
  by unfold_locales (simp_all add: idx_cmp_def cmp_order)

section \<open>The lists of the session\<close>

lemma RB_FIND_map: "RB_FIND (map nd xs) k = map_option nd (find (\<lambda>a. node_key (nd a) = k) xs)"
  by (induction xs) (auto simp: RB_FIND_def)

lemma RB_INSERT_map:
  assumes "set xs \<subseteq> {a. small_key (node_key (nd a))}" "sorted_wrt (<) (map (\<lambda>a. node_key (nd a)) xs)" "small_key (node_key (nd x))"
  shows "RB_INSERT (map nd xs) (nd x) = map nd (if \<exists>a \<in> set xs. node_key (nd a) = node_key (nd x) then xs else dlx.place nd x xs)"
  using assms(1,2)
proof (induction xs)
  case (Cons a xs)
  have c: "piece_dl_idxnode_cmp (node_key (nd x)) (node_key (nd a)) < 0 \<longleftrightarrow> node_key (nd x) < node_key (nd a)"
    "piece_dl_idxnode_cmp (node_key (nd x)) (node_key (nd a)) > 0 \<longleftrightarrow> node_key (nd a) < node_key (nd x)"
    using cmp_order Cons.prems(1) assms(3) by auto
  have lt: "node_key (nd a) < node_key (nd b)" if "b \<in> set xs" for b using Cons.prems(2) that by auto
  consider "node_key (nd x) < node_key (nd a)" | "node_key (nd a) < node_key (nd x)" | "node_key (nd x) = node_key (nd a)" by fastforce
  then show ?case
  proof cases
    case 1
    then have "\<forall>b \<in> set xs. node_key (nd x) < node_key (nd b)" using lt by (meson less_trans)
    then have "\<not> (\<exists>b \<in> set (a # xs). node_key (nd b) = node_key (nd x))" "filter (\<lambda>b. node_key (nd b) < node_key (nd x)) xs = []"
      "filter (\<lambda>b. node_key (nd x) < node_key (nd b)) xs = xs" using 1 by (auto simp: filter_empty_conv filter_id_conv)
    then show ?thesis using 1 c by (simp add: dlx.place_def)
  next
    case 2
    then show ?thesis using Cons c by (auto simp: dlx.place_def Let_def)
  next
    case 3
    have z: "piece_dl_idxnode_cmp k k = 0" for k by simp
    show ?thesis using 3 by (simp add: z)
  qed
qed (simp add: dlx.place_def)

lemma place_length: "length (dlx.place nd x xs) \<le> length xs + 1"
  by (induction xs) (auto simp: dlx.place_def)

lemma remove1_other: "distinct xs \<Longrightarrow> remove1 b xs = filter (\<lambda>a. b \<noteq> a) xs"
  by (simp add: distinct_remove1_removeAll removeAll_filter_not_eq)

lemma RB_REMOVE_map:
  assumes "sorted_wrt (<) (map (\<lambda>a. node_key (nd a)) xs)" "b \<in> set xs"
  shows "RB_REMOVE (map nd xs) (node_key (nd b)) = map nd (remove1 b xs)"
proof -
  have d: "distinct (map (\<lambda>a. node_key (nd a)) xs)" using assms(1) strict_sorted_iff by blast
  then have "filter (\<lambda>a. node_key (nd a) \<noteq> node_key (nd b)) xs = filter (\<lambda>a. b \<noteq> a) xs"
    using assms(2) by (intro filter_cong) (auto simp: distinct_map inj_on_def)
  then show ?thesis using d remove1_other [of xs b] by (simp add: RB_REMOVE_def filter_map comp_def distinct_map)
qed

lemma RB_REMOVE_none: "RB_FIND ns k = None \<Longrightarrow> RB_REMOVE ns k = ns"
  by (auto simp: RB_FIND_def RB_REMOVE_def find_None_iff filter_id_conv)

section \<open>Runs of the tree and of the list\<close>

text \<open>
  The two ways the tree changes: a new node is inserted, as \<^verbatim>\<open>network_piece_dl_create\<close> does, or the node with the key of
  \<open>find\<close> is looked up and removed, as \<^verbatim>\<open>network_piece_dl_free\<close> does. The addresses hold the nodes \<open>nd\<close>.
\<close>

datatype index_op = Ins nat | Del nat

fun op_node :: "index_op \<Rightarrow> nat" where
  "op_node (Ins a) = a"
| "op_node (Del a) = a"

fun tree_step :: "nat \<Rightarrow> (nat \<Rightarrow> piece_dl_idxnode) \<Rightarrow> index_op \<Rightarrow> rb_tree \<Rightarrow> rb_tree res" where
  "tree_step n nd (Ins a) h = rmap snd (rb_insert (idx_cmp nd) n a h)"
| "tree_step n nd (Del a) h = rbind (rb_find (idx_cmp nd) n a h) (\<lambda>res. case res of None \<Rightarrow> Ok h | Some b \<Rightarrow> rb_remove n b h)"

fun list_step :: "(nat \<Rightarrow> piece_dl_idxnode) \<Rightarrow> index_op \<Rightarrow> piece_dl_idxnode list \<Rightarrow> piece_dl_idxnode list" where
  "list_step nd (Ins a) ns = RB_INSERT ns (nd a)"
| "list_step nd (Del a) ns = RB_REMOVE ns (node_key (nd a))"

fun tree_run :: "nat \<Rightarrow> (nat \<Rightarrow> piece_dl_idxnode) \<Rightarrow> index_op list \<Rightarrow> rb_tree \<Rightarrow> rb_tree res" where
  "tree_run n nd [] h = Ok h"
| "tree_run n nd (op # ops) h = rbind (tree_step n nd op h) (tree_run n nd ops)"

fun list_run :: "(nat \<Rightarrow> piece_dl_idxnode) \<Rightarrow> index_op list \<Rightarrow> piece_dl_idxnode list \<Rightarrow> piece_dl_idxnode list" where
  "list_run nd [] ns = ns"
| "list_run nd (op # ops) ns = list_run nd ops (list_step nd op ns)"

definition usable :: "(nat \<Rightarrow> piece_dl_idxnode) \<Rightarrow> rb_tree \<Rightarrow> nat \<Rightarrow> bool" where
  "usable nd h a \<longleftrightarrow> rbe_at h a \<noteq> None \<and> small_key (node_key (nd a))"

definition simulates :: "(nat \<Rightarrow> piece_dl_idxnode) \<Rightarrow> nat set \<Rightarrow> rb_tree \<Rightarrow> piece_dl_idxnode list \<Rightarrow> bool" where
  "simulates nd D h ns \<longleftrightarrow> (\<exists>t. rep D h t \<and> red_black t \<and> dlx.ordered nd t \<and> ns = map nd (inorder t))"

lemma insert_found:
  assumes "rb_find (idx_cmp nd) n x h = Ok (Some a)"
  shows "rmap snd (rb_insert (idx_cmp nd) n x h) = Ok h"
  using assms by (cases "rb_descend (idx_cmp nd) n x (rbh_root h) None 0 h") (auto simp: rb_find_def rb_insert_def)

lemma simulates_step:
  assumes "simulates nd D h ns" "op_node op \<in> D" "small_key (node_key (nd (op_node op)))" "length ns + 3 \<le> n"
  shows "\<exists>h'. tree_step n nd op h = Ok h' \<and> simulates nd D h' (list_step nd op ns) \<and> length (list_step nd op ns) \<le> length ns + 1"
proof -
  obtain t where t: "rep D h t" "red_black t" "dlx.ordered nd t" "ns = map nd (inorder t)" using assms(1) by (auto simp: simulates_def)
  note o = t(3) [unfolded dlx.ordered_def]
  have len: "length (inorder t) + 3 \<le> n" using assms(4) t(4) by simp
  have ht: "rbt_height t \<le> n" using len height_length [of t] by simp
  have fnd: "rb_find (idx_cmp nd) n x h = Ok (find (\<lambda>a. node_key (nd a) = node_key (nd x)) (inorder t))" if "small_key (node_key (nd x))" for x
    using dlx.find_run [OF t(1,3) _ ht] that by simp
  show ?thesis
  proof (cases op)
    case (Ins x)
    have li: "list_step nd op ns = map nd (if \<exists>a \<in> set (inorder t). node_key (nd a) = node_key (nd x) then inorder t else dlx.place nd x (inorder t))"
      using RB_INSERT_map [of "inorder t" nd x] o assms(3) Ins t(4) by simp
    show ?thesis
    proof (cases "\<exists>a \<in> set (inorder t). node_key (nd a) = node_key (nd x)")
      case True
      then obtain a where "find (\<lambda>a. node_key (nd a) = node_key (nd x)) (inorder t) = Some a" by (fastforce simp: find_None_iff)
      then have "tree_step n nd op h = Ok h" using insert_found fnd [of x] assms(3) Ins by simp
      moreover have "list_step nd op ns = ns" using li True t(4) by simp
      ultimately show ?thesis using assms(1) by simp
    next
      case False
      then have "\<exists>h' t'. rb_insert (idx_cmp nd) n x h = Ok (None, h') \<and> rep D h' t' \<and> red_black t' \<and> dlx.ordered nd t' \<and> inorder t' = dlx.place nd x (inorder t)"
        using assms(2,3) Ins len by (intro dlx.insert_run [OF t(1-3)]) auto
      then obtain h' t' where h': "rb_insert (idx_cmp nd) n x h = Ok (None, h')" "rep D h' t'" "red_black t'" "dlx.ordered nd t'" "inorder t' = dlx.place nd x (inorder t)"
        by blast
      have l: "list_step nd op ns = map nd (inorder t')" using li False h'(5) by simp
      have "length (list_step nd op ns) \<le> length ns + 1" using l h'(5) t(4) place_length by simp
      moreover have "simulates nd D h' (list_step nd op ns)" using l h'(2,3,4) by (auto simp: simulates_def)
      ultimately show ?thesis using h'(1) Ins by simp
    qed
  next
    case (Del x)
    have f: "rb_find (idx_cmp nd) n x h = Ok (find (\<lambda>a. node_key (nd a) = node_key (nd x)) (inorder t))" using fnd assms(3) Del by simp
    show ?thesis
    proof (cases "find (\<lambda>a. node_key (nd a) = node_key (nd x)) (inorder t)")
      case None
      then have "list_step nd op ns = ns" using RB_FIND_map [of nd "inorder t"] RB_REMOVE_none Del t(4) by simp
      then show ?thesis using f None Del assms(1) by simp
    next
      case (Some b)
      then have b: "b \<in> set (inorder t)" "node_key (nd b) = node_key (nd x)" by (auto simp: find_Some_iff)
      obtain h' T where h': "rb_remove n b h = Ok h'" "rep D h' T" "red_black T" "inorder T = remove1 b (inorder t)"
        using remove_run [OF t(1,2) b(1), of n] len by auto
      have l: "list_step nd op ns = map nd (inorder T)" using RB_REMOVE_map [of nd "inorder t" b] o b Del t(4) h'(4) by simp
      have "sorted_wrt (<) (map (\<lambda>a. node_key (nd a)) (inorder T))"
        using o h'(4) remove1_other [of "inorder t" b] t(1) by (simp add: rep_def sorted_wrt_map sorted_wrt_filter)
      then have "dlx.ordered nd T" using o h'(4) by (auto simp: dlx.ordered_def dest: notin_set_remove1)
      then have "simulates nd D h' (list_step nd op ns)" using l h'(2,3) by (auto simp: simulates_def)
      moreover have "length (list_step nd op ns) \<le> length ns + 1" using l h'(4) t(4) by (auto simp: length_remove1)
      ultimately show ?thesis using h'(1) f Some Del by simp
    qed
  qed
qed

lemma simulates_run:
  assumes "simulates nd D h ns" "\<forall>op \<in> set ops. op_node op \<in> D \<and> small_key (node_key (nd (op_node op)))" "length ns + length ops + 2 \<le> n"
  shows "\<exists>h'. tree_run n nd ops h = Ok h' \<and> simulates nd D h' (list_run nd ops ns) \<and> length (list_run nd ops ns) + 2 \<le> n"
  using assms
proof (induction ops arbitrary: h ns)
  case (Cons op ops)
  obtain h1 where h1: "tree_step n nd op h = Ok h1" "simulates nd D h1 (list_step nd op ns)" "length (list_step nd op ns) \<le> length ns + 1"
    using simulates_step [of nd D h ns op n] Cons.prems by auto
  then show ?case using Cons.IH [OF h1(2)] Cons.prems by simp
qed simp

lemma simulates_foreach: "simulates nd D h ns \<Longrightarrow> length ns \<le> n \<Longrightarrow> rmap (map nd) (rb_foreach n h) = Ok ns"
  using foreach_run by (fastforce simp: simulates_def)

lemma simulates_find:
  assumes "simulates nd D h ns" "small_key (node_key (nd x))" "(length ns + 1)\<^sup>2 \<le> 2 ^ m"
  shows "rmap (map_option nd) (rb_find (idx_cmp nd) m x h) = Ok (RB_FIND ns (node_key (nd x)))"
proof -
  obtain t where t: "rep D h t" "red_black t" "dlx.ordered nd t" "ns = map nd (inorder t)" using assms(1) by (auto simp: simulates_def)
  have "rbt_height t \<le> m" using height_log [OF t(2)] assms(3) t(4) by simp
  then show ?thesis using dlx.find_run [OF t(1,3)] assms(2) t(4) by (simp add: RB_FIND_map)
qed

lemma simulates_empty: "rbh_root h = None \<Longrightarrow> simulates nd (dom (rbe_at h)) h []"
  by (auto simp: simulates_def rep_def red_black_def dlx.ordered_def intro: exI [of _ Leaf])

text \<open>
  (C22) From an empty tree, any sequence of insertions and removals on the pointers succeeds: no NULL pointer is followed, no
  object outside the allocated ones is read, and the loops end within as many turns as there are operations, and two. The
  walk then visits exactly the nodes, in the order, of the list that \<open>Session\<close> keeps, after the same operations.
\<close>

theorem tree_refines_list:
  assumes "rbh_root h = None" "\<forall>op \<in> set ops. usable nd h (op_node op)" "length ops + 2 \<le> n"
  shows "\<exists>h'. tree_run n nd ops h = Ok h' \<and> rmap (map nd) (rb_foreach n h') = Ok (list_run nd ops [])"
proof -
  obtain h' where "tree_run n nd ops h = Ok h'" "simulates nd (dom (rbe_at h)) h' (list_run nd ops [])" "length (list_run nd ops []) + 2 \<le> n"
    using simulates_run [OF simulates_empty [OF assms(1)], of ops nd n] assms(2,3) by (fastforce simp: usable_def)
  then show ?thesis using simulates_foreach by fastforce
qed

text \<open>
  (C23) A search in a tree made by insertions and removals takes at most \<open>2 * log2 (size + 1)\<close> steps down, and finds the node
  with the key if and only if the list of \<open>Session\<close> has one: the colours keep the tree balanced.
\<close>

theorem tree_find_logarithmic:
  assumes "rbh_root h = None" "\<forall>op \<in> set ops. usable nd h (op_node op)" "length ops + 2 \<le> n"
    "tree_run n nd ops h = Ok h'" "small_key (node_key (nd x))" "(length (list_run nd ops []) + 1)\<^sup>2 \<le> 2 ^ m"
  shows "rmap (map_option nd) (rb_find (idx_cmp nd) m x h') = Ok (RB_FIND (list_run nd ops []) (node_key (nd x)))"
proof -
  have "simulates nd (dom (rbe_at h)) h' (list_run nd ops [])"
    using simulates_run [OF simulates_empty [OF assms(1)], of ops nd n] assms(2-4) by (fastforce simp: usable_def)
  then show ?thesis using simulates_find assms(5,6) by blast
qed

section \<open>An example\<close>

definition sample_node :: "nat \<Rightarrow> piece_dl_idxnode" where
  "sample_node a = \<lparr>in_idx = word_of_nat (a mod 3), in_off = word_of_nat a, in_dls = []\<rparr>"

definition blank_tree :: "nat \<Rightarrow> rb_tree" where
  "blank_tree k = \<lparr>rbh_root = None, rbe_at = \<lambda>a. if a < k then Some \<lparr>rbe_left = None, rbe_right = None, rbe_parent = None, rbe_color = RB_BLACK\<rparr> else None\<rparr>"

definition sample_ops :: "index_op list" where
  "sample_ops = [Ins 1, Ins 2, Ins 3, Ins 4, Ins 5, Del 2, Ins 0, Del 1, Del 1]"

lemma sample_usable: "\<forall>op \<in> set sample_ops. usable sample_node (blank_tree 6) (op_node op)"
  by (simp add: sample_ops_def usable_def blank_tree_def sample_node_def small_key_def node_key_def)

theorem tree_refines_list_witness:
  "\<exists>h'. tree_run 11 sample_node sample_ops (blank_tree 6) = Ok h' \<and> rmap (map sample_node) (rb_foreach 11 h') = Ok (map sample_node [0, 3, 4, 5])"
proof -
  have "list_run sample_node sample_ops [] = map sample_node [0, 3, 4, 5]" by code_simp
  then show ?thesis using tree_refines_list [of "blank_tree 6" sample_ops sample_node 11] sample_usable by (simp add: blank_tree_def sample_ops_def)
qed

theorem tree_find_logarithmic_witness:
  "\<exists>h'. tree_run 11 sample_node sample_ops (blank_tree 6) = Ok h'
     \<and> rmap (map_option sample_node) (rb_find (idx_cmp sample_node) 5 4 h') = Ok (Some (sample_node 4))"
proof -
  have l: "list_run sample_node sample_ops [] = map sample_node [0, 3, 4, 5]" by code_simp
  have f: "RB_FIND (map sample_node [0, 3, 4, 5]) (node_key (sample_node 4)) = Some (sample_node 4)" by code_simp
  have k: "small_key (node_key (sample_node 4))" by (simp add: sample_node_def small_key_def node_key_def)
  have b: "rbh_root (blank_tree 6) = None" "length sample_ops + 2 \<le> 11" by (simp_all add: blank_tree_def sample_ops_def)
  obtain h' where h': "tree_run 11 sample_node sample_ops (blank_tree 6) = Ok h'"
    using simulates_run [OF simulates_empty [OF b(1)], of sample_ops sample_node 11] sample_usable b(2) by (fastforce simp: usable_def)
  have "(length (list_run sample_node sample_ops []) + 1)\<^sup>2 \<le> 2 ^ 5" by (simp add: l power2_eq_square)
  from tree_find_logarithmic [OF b(1) sample_usable b(2) h' k this] show ?thesis unfolding l f using h' by blast
qed

text \<open>
  The distance of the keys matters: three indices a third of the range apart are each less than the next one, around in a circle.
\<close>

lemma cmp_circle:
  "piece_dl_idxnode_cmp (0, 0) (0x50000000, 0) < 0" "piece_dl_idxnode_cmp (0x50000000, 0) (0xA0000000, 0) < 0"
  "piece_dl_idxnode_cmp (0xA0000000, 0) (0, 0) < 0"
  by code_simp+

end
