(* ===== verification/Bookkeeping.thy ===== *)
theory Bookkeeping
  imports Scheduler Rbtree_Index
begin

text \<open>
  The bookkeeping of peers and downloads as the rest of the program uses it: any sequence of its operations keeps the
  session in order, and keeps the index of the downloads what the tree of \<^verbatim>\<open>network.c\<close> can represent, a strictly
  ascending list of nodes with keys below \<open>2 ^ 31\<close>.
\<close>

section \<open>The order of the index\<close>

definition index_ok :: "piece_dl_idxnode list \<Rightarrow> bool" where
  "index_ok ns \<longleftrightarrow> (\<forall>n \<in> set ns. small_key (node_key n)) \<and> sorted_wrt (<) (map node_key ns)"

lemma index_ok_Cons: "index_ok (m # ns) \<longleftrightarrow> small_key (node_key m) \<and> (\<forall>n \<in> set ns. node_key m < node_key n) \<and> index_ok ns"
  by (auto simp: index_ok_def)

lemma index_ok_keys: "map node_key ms = map node_key ns \<Longrightarrow> index_ok ms = index_ok ns"
proof -
  assume e: "map node_key ms = map node_key ns"
  have "(\<forall>n \<in> set ms. small_key (node_key n)) = (\<forall>k \<in> set (map node_key ms). small_key k)" by simp
  also have "\<dots> = (\<forall>n \<in> set ns. small_key (node_key n))" unfolding e by simp
  finally show ?thesis by (simp add: index_ok_def e)
qed

lemma set_dls_index [simp]: "index_ok (set_dls ns k ds) = index_ok ns"
  by (rule index_ok_keys) (simp add: set_dls_def node_key_def)

lemma RB_REMOVE_index: "index_ok ns \<Longrightarrow> index_ok (RB_REMOVE ns k)"
  by (induction ns) (auto simp: index_ok_Cons RB_REMOVE_def)

lemma RB_INSERT_set: "set (RB_INSERT ns n) \<subseteq> insert n (set ns)"
  by (induction ns) (auto simp: Let_def)

lemma RB_INSERT_index: "index_ok ns \<Longrightarrow> small_key (node_key n) \<Longrightarrow> index_ok (RB_INSERT ns n)"
proof (induction ns)
  case (Cons m ns)
  have "small_key (node_key m)" using Cons.prems(1) by (simp add: index_ok_Cons)
  note c = cmp_order [OF Cons.prems(2) this]
  show ?case using Cons RB_INSERT_set [of ns n]
    by (auto simp: index_ok_Cons Let_def c intro: less_trans)
qed (simp add: index_ok_def)

section \<open>The operations keep it\<close>

lemma create_index:
  assumes "network_piece_dl_create p idx off len sc = Ok (d, sc')" "index_ok (piece_dl_by_idxoff sc)" "small_key (idx, off)"
  shows "index_ok (piece_dl_by_idxoff sc')"
proof -
  have "index_ok (RB_INSERT (piece_dl_by_idxoff sc) \<lparr>in_idx = idx, in_off = off, in_dls = ds\<rparr>)" for ds
    using assms(2,3) by (intro RB_INSERT_index) (simp_all add: node_key_def)
  then show ?thesis using assms(1,2)
    by (cases "peer_at sc p"; cases "RB_FIND (piece_dl_by_idxoff sc) (idx, off)")
      (auto simp: network_piece_dl_create_def get_peer_def set_dl_def set_peer_def Let_def)
qed

lemma free_index:
  assumes "network_piece_dl_free d sc = Ok sc'" "index_ok (piece_dl_by_idxoff sc)"
  shows "index_ok (piece_dl_by_idxoff sc')"
proof -
  let ?ns = "piece_dl_by_idxoff sc" and ?k = "\<lambda>pd :: piece_dl. (pd_idx pd, pd_off pd)"
  obtain pd ns s where ns: "(case RB_FIND ?ns (?k pd) of None \<Rightarrow> Ok ?ns
      | Some res \<Rightarrow> rmap (set_dls ?ns (?k pd)) (tailq_remove d (in_dls res))) = Ok ns"
    "sc' = s\<lparr>piece_dl_by_idxoff := (case RB_FIND ns (?k pd) of None \<Rightarrow> ns
      | Some res \<Rightarrow> if in_dls res = [] then RB_REMOVE ns (?k pd) else ns), dl_at := (dl_at s)(d := None)\<rparr>"
    using assms(1) unfolding network_piece_dl_free_def Let_def rbind_eq_Ok res.inject by blast
  have "index_ok ns" using ns(1) assms(2) by (auto simp: rmap_eq_Ok split: option.split_asm)
  then show ?thesis by (simp add: ns(2) RB_REMOVE_index split: option.split)
qed

lemma orphan_index:
  assumes "orphan_dl p sc d = Ok sc'" "index_ok (piece_dl_by_idxoff sc)"
  shows "index_ok (piece_dl_by_idxoff sc')"
  using assms by (auto simp: orphan_dl_def rbind_eq_Ok Let_def set_dl_def set_peer_def split: if_splits elim!: free_index)

lemma orphans_index:
  "rfold (orphan_dl p) sc ds = Ok sc' \<Longrightarrow> index_ok (piece_dl_by_idxoff sc) \<Longrightarrow> index_ok (piece_dl_by_idxoff sc')"
  by (induction ds arbitrary: sc) (auto simp: rbind_eq_Ok dest: orphan_index)

lemma peer_free_index:
  assumes "network_peer_free p sc = Ok sc'" "index_ok (piece_dl_by_idxoff sc)"
  shows "index_ok (piece_dl_by_idxoff sc')"
  using assms orphans_index by (auto simp: network_peer_free_def rbind_eq_Ok)

lemma add_address_run:
  assumes "session_ok {} sc"
  shows "\<exists>sc'. add_address pid a prt sc = Ok sc' \<and> session_ok {} sc'
    \<and> (index_ok (piece_dl_by_idxoff sc) \<longrightarrow> index_ok (piece_dl_by_idxoff sc'))"
proof -
  obtain p s where c: "network_peer_create sc = (p, s)" by (cases "network_peer_create sc")
  then have s: "session_ok {p} s" "peer_at s p = Some new_peer" "piece_dl_by_idxoff s = piece_dl_by_idxoff sc"
    using peer_create_ok [OF assms] by (auto simp: network_peer_create_def set_peer_def)
  let ?x = "new_peer\<lparr>peer_id := pid, sin_addr := a, sin_port := prt\<rparr>"
  have "session_ok {p} (set_peer s p ?x)" by (rule set_peer_ok [OF s(1,2)]) simp
  then obtain sc' where sc': "network_peerlist_add_peer p (set_peer s p ?x) = Ok sc'" "session_ok {} sc'"
    using add_peer_ok [of p "{}" "set_peer s p ?x" ?x] by auto
  have "index_ok (piece_dl_by_idxoff sc) \<longrightarrow> index_ok (piece_dl_by_idxoff sc')"
    using sc'(1) s(3) peer_free_index [of p "set_peer s p ?x" sc']
    by (auto simp: network_peerlist_add_peer_def rbind_eq_Ok set_peer_def split: if_splits)
  then show ?thesis using sc' c s(2) by (simp add: add_address_def get_peer_def)
qed

lemma reap_dead_run:
  assumes "session_ok {} sc" "peer_at sc p = Some x"
  shows "\<exists>gone sc'. scheduler_reap_dead p sc = Ok (gone, sc') \<and> session_ok {} sc'
    \<and> (index_ok (piece_dl_by_idxoff sc) \<longrightarrow> index_ok (piece_dl_by_idxoff sc'))"
proof (cases "state x AND PEER_STATE_DEAD \<noteq> 0")
  case True
  let ?s = "sc\<lparr>peers := remove1 p (peers sc)\<rparr>"
  have p: "p \<in> set (peers sc)" using assms by (auto simp: session_ok_def)
  have "links_ok ?s" using assms(1) links_ok_cong [of ?s sc] by (simp add: session_ok_def)
  from peer_free_ok [OF this, of p x] obtain s1 where s1: "network_peer_free p ?s = Ok (s1\<lparr>peer_at := (peer_at s1)(p := None)\<rparr>)"
    "frame ?s s1" "links_ok (s1\<lparr>peer_at := (peer_at s1)(p := None)\<rparr>)" using assms(2) by auto
  let ?r = "s1\<lparr>peer_at := (peer_at s1)(p := None), num_peers := num_peers sc - 1\<rparr>"
  note f = frame_fields [OF s1(2)]
  have "num_peers sc - 1 = of_nat (length (remove1 p (peers sc)))"
    using assms(1) p by (cases "length (peers sc)") (auto simp: session_ok_def length_remove1)
  moreover have "links_ok ?r" using s1(3) links_ok_cong [of ?r "s1\<lparr>peer_at := (peer_at s1)(p := None)\<rparr>"] by simp
  ultimately have so: "session_ok {} ?r" using assms(1) frame_dom [OF s1(2)] by (auto simp: session_ok_def f)
  have run: "scheduler_reap_dead p sc = Ok (True, ?r)"
    using True assms(2) p s1(1) by (simp add: scheduler_reap_dead_def get_peer_def tailq_remove_def f)
  have "index_ok (piece_dl_by_idxoff sc) \<longrightarrow> index_ok (piece_dl_by_idxoff ?r)" using peer_free_index [OF s1(1)] by simp
  then show ?thesis using run so by blast
next
  case False
  then show ?thesis using assms by (intro exI [of _ False] exI [of _ sc]) (simp add: scheduler_reap_dead_def get_peer_def)
qed

section \<open>Sequences of operations\<close>

text \<open>
  What the rest of the program does to the bookkeeping: an address of the tracker's list is added, a peer is marked dead,
  a dead peer is reaped, a block below \<open>2 ^ 31\<close> is requested from a peer, a download is freed.
\<close>

inductive book_step :: "session \<Rightarrow> session \<Rightarrow> bool" where
  add: "add_address pid a prt sc = Ok sc' \<Longrightarrow> book_step sc sc'"
| kill: "kill_peer p sc = Ok sc' \<Longrightarrow> book_step sc sc'"
| reap: "scheduler_reap_dead p sc = Ok (gone, sc') \<Longrightarrow> book_step sc sc'"
| request: "small_key (idx, off) \<Longrightarrow> network_piece_dl_create p idx off len sc = Ok (d, sc') \<Longrightarrow> book_step sc sc'"
| free: "network_piece_dl_free d sc = Ok sc' \<Longrightarrow> book_step sc sc'"

inductive book_steps :: "session \<Rightarrow> session \<Rightarrow> bool" for sc where
  start: "book_steps sc sc"
| step: "book_steps sc sc' \<Longrightarrow> book_step sc' sc'' \<Longrightarrow> book_steps sc sc''"

lemma book_step_ok:
  assumes "book_step sc sc'" "session_ok {} sc" "index_ok (piece_dl_by_idxoff sc)"
  shows "session_ok {} sc' \<and> index_ok (piece_dl_by_idxoff sc')"
  using assms(1)
proof (cases rule: book_step.cases)
  case (add pid a prt)
  then show ?thesis using add_address_run [OF assms(2), of pid a prt] assms(3) by auto
next
  case (kill p)
  then obtain x where "peer_at sc p = Some x" "sc' = set_peer sc p (x\<lparr>state := 0 OR PEER_STATE_DEAD\<rparr>)"
    by (cases "peer_at sc p") (auto simp: kill_peer_def get_peer_def)
  then show ?thesis using set_peer_ok [OF assms(2)] assms(3) by (auto simp: set_peer_def)
next
  case (reap p gone)
  then obtain x where "peer_at sc p = Some x" by (cases "peer_at sc p") (auto simp: scheduler_reap_dead_def get_peer_def)
  then show ?thesis using reap_dead_run [OF assms(2)] reap assms(3) by fastforce
next
  case (request idx off p len d)
  then obtain x where x: "peer_at sc p = Some x" by (cases "peer_at sc p") (auto simp: network_piece_dl_create_def get_peer_def)
  have l: "links_ok sc" using assms(2) by (simp add: session_ok_def)
  show ?thesis using dl_create_ok [OF l x, of idx off len] request create_index [OF request(2) assms(3)] frame_session_ok [OF assms(2)] by auto
next
  case (free d)
  then obtain pd where pd: "dl_at sc d = Some pd" by (cases "dl_at sc d") (auto simp: network_piece_dl_free_def get_dl_def)
  have l: "links_ok sc" using assms(2) by (simp add: session_ok_def)
  show ?thesis using dl_free_ok [OF l pd] free free_index [OF free assms(3)] frame_session_ok [OF assms(2)] by auto
qed

section \<open>The tree behind the list\<close>

text \<open>The node of a key holds exactly the downloads of the block.\<close>

definition downloads_of :: "session \<Rightarrow> u32 \<times> u32 \<Rightarrow> nat set" where
  "downloads_of sc k = {d. \<exists>pd. dl_at sc d = Some pd \<and> (pd_idx pd, pd_off pd) = k}"

lemma index_lookup:
  assumes "links_ok sc"
  shows "case RB_FIND (piece_dl_by_idxoff sc) k of None \<Rightarrow> downloads_of sc k = {}
    | Some n \<Rightarrow> node_key n = k \<and> set (in_dls n) = downloads_of sc k \<and> in_dls n \<noteq> []"
proof -
  note l = links_okD [OF assms]
  have q: "set (ix.queue (piece_dl_by_idxoff sc) k) = downloads_of sc k"
    using l(2) by (cases k) (auto simp: linked_def downloads_of_def dl_key_def)
  show ?thesis
  proof (cases "RB_FIND (piece_dl_by_idxoff sc) k")
    case None
    then show ?thesis using q by (simp add: ix.queue_def)
  next
    case (Some n)
    then have "in_dls n \<noteq> []" using l(4) unfolding ix.no_empty_def by blast
    moreover have "node_key n = k" using Some by (auto simp: RB_FIND_def find_Some_iff)
    ultimately show ?thesis using q Some by (simp add: ix.queue_def)
  qed
qed

text \<open>Every such list is the walk of a red-black tree: its nodes inserted one by one.\<close>

lemma list_run_append: "list_run nd (ops1 @ ops2) ns = list_run nd ops2 (list_run nd ops1 ns)"
  by (induction ops1 arbitrary: ns) simp_all

lemma RB_INSERT_last:
  assumes "index_ok (ns @ [n])"
  shows "RB_INSERT ns n = ns @ [n]"
  using assms
proof (induction ns)
  case (Cons m ns)
  then have "small_key (node_key m)" "small_key (node_key n)" "node_key m < node_key n" by (auto simp: index_ok_def)
  then show ?case using cmp_order [of "node_key n" "node_key m"] Cons by (auto simp: index_ok_Cons Let_def)
qed simp

lemma simulates_exists:
  assumes "index_ok ns"
  shows "\<exists>nd D h. simulates nd D h ns"
proof -
  let ?ops = "\<lambda>k. map Ins [0..<k]" and ?h = "blank_tree (length ns)"
  have "list_run (nth ns) (?ops k) [] = take k ns" if "k \<le> length ns" for k
    using that
  proof (induction k)
    case (Suc k)
    have "index_ok (take (Suc k) ns)" using assms set_take_subset [of "Suc k" ns] sorted_wrt_take [of "(<)" "map node_key ns" "Suc k"]
      by (auto simp: index_ok_def take_map)
    then show ?case using Suc RB_INSERT_last [of "take k ns" "ns ! k"] by (simp add: list_run_append take_Suc_conv_app_nth)
  qed simp
  then have "list_run (nth ns) (?ops (length ns)) [] = ns" by simp
  moreover have "\<forall>op \<in> set (?ops (length ns)). op_node op \<in> dom (rbe_at ?h) \<and> small_key (node_key (ns ! op_node op))"
    using assms by (auto simp: index_ok_def blank_tree_def)
  moreover have "rbh_root ?h = None" by (simp add: blank_tree_def)
  ultimately show ?thesis using simulates_run [OF simulates_empty, of ?h "?ops (length ns)" "nth ns" "length ns + 2"] by fastforce
qed

section \<open>Properties\<close>

text \<open>
  (C11) The bookkeeping is never corrupted. From a session in order whose index is ascending with keys below \<open>2 ^ 31\<close>, every
  session that adding, killing and reaping peers, requesting blocks with such keys and freeing downloads can reach, in any
  order, is in order again: each download is in the index and in the queue of exactly its peer, the list and the
  counter of peers agree, and the index is as before. In it none of these operations uses a freed object or fails: adding
  any address, killing and reaping any listed peer, a request to any listed peer, freeing any download. A lookup of a block
  returns a download of that block, and returns none only if there is none, whether a listed peer is given or not. The
  index is the walk of a red-black tree, and the search in any such tree, with the comparison of the code, returns a node
  of the key whose queue holds exactly the downloads of the block, or none when there are none.
\<close>

theorem bookkeeping_invariant:
  assumes "session_ok {} sc0" "index_ok (piece_dl_by_idxoff sc0)" "book_steps sc0 sc"
  shows "session_ok {} sc \<and> index_ok (piece_dl_by_idxoff sc)
    \<and> (\<forall>pid a prt. is_Ok (add_address pid a prt sc))
    \<and> (\<forall>p \<in> set (peers sc). is_Ok (kill_peer p sc) \<and> is_Ok (scheduler_reap_dead p sc)
         \<and> (\<forall>idx off len. small_key (idx, off) \<longrightarrow> is_Ok (network_piece_dl_create p idx off len sc)))
    \<and> (\<forall>d. dl_at sc d \<noteq> None \<longrightarrow> is_Ok (network_piece_dl_free d sc))
    \<and> (\<forall>p idx off. small_key (idx, off) \<and> set_option p \<subseteq> set (peers sc) \<longrightarrow> (\<exists>r. network_piece_dl_find sc p idx off = Ok r
         \<and> (case r of None \<Rightarrow> downloads_of sc (idx, off) = {} | Some d \<Rightarrow> d \<in> downloads_of sc (idx, off))))
    \<and> (\<exists>nd D h. simulates nd D h (piece_dl_by_idxoff sc))
    \<and> (\<forall>nd D h m x. simulates nd D h (piece_dl_by_idxoff sc) \<and> small_key (node_key (nd x))
         \<and> (length (piece_dl_by_idxoff sc) + 1)\<^sup>2 \<le> 2 ^ m \<longrightarrow> (\<exists>r. rb_find (idx_cmp nd) m x h = Ok r
         \<and> (case r of None \<Rightarrow> downloads_of sc (node_key (nd x)) = {}
            | Some b \<Rightarrow> node_key (nd b) = node_key (nd x) \<and> set (in_dls (nd b)) = downloads_of sc (node_key (nd x)))))"
proof -
  have "session_ok {} sc \<and> index_ok (piece_dl_by_idxoff sc)" using assms(3) by induction (use assms(1,2) book_step_ok in auto)
  then have ok: "session_ok {} sc" and ix: "index_ok (piece_dl_by_idxoff sc)" by simp_all
  then have l: "links_ok sc" by (simp add: session_ok_def)
  have alive: "\<exists>x. peer_at sc p = Some x" if "p \<in> set (peers sc)" for p using that ok by (auto simp: session_ok_def)
  have "is_Ok (add_address pid a prt sc)" for pid a prt using add_address_run [OF ok, of pid a prt] by (auto simp: is_Ok_iff)
  moreover have "is_Ok (kill_peer p sc) \<and> is_Ok (scheduler_reap_dead p sc)
      \<and> (\<forall>idx off len. small_key (idx, off) \<longrightarrow> is_Ok (network_piece_dl_create p idx off len sc))" if p: "p \<in> set (peers sc)" for p
  proof -
    obtain x where x: "peer_at sc p = Some x" using alive [OF p] by blast
    have "is_Ok (network_piece_dl_create p idx off len sc)" for idx off len using dl_create_ok [OF l x, of idx off len] by (auto simp: is_Ok_iff)
    then show ?thesis using reap_dead_run [OF ok x] x by (auto simp: is_Ok_iff kill_peer_def get_peer_def)
  qed
  moreover have "is_Ok (network_piece_dl_free d sc)" if "dl_at sc d \<noteq> None" for d
    using dl_free_ok [OF l, of d] that by (auto simp: is_Ok_iff)
  moreover have "\<exists>r. network_piece_dl_find sc p idx off = Ok r
      \<and> (case r of None \<Rightarrow> downloads_of sc (idx, off) = {} | Some d \<Rightarrow> d \<in> downloads_of sc (idx, off))"
    if "set_option p \<subseteq> set (peers sc)" for p idx off
    using dl_find_ok [OF l, of p idx off] that alive by (fastforce simp: downloads_of_def split: option.splits)
  moreover have "\<exists>r. rb_find (idx_cmp nd) m x h = Ok r \<and> (case r of None \<Rightarrow> downloads_of sc (node_key (nd x)) = {}
      | Some b \<Rightarrow> node_key (nd b) = node_key (nd x) \<and> set (in_dls (nd b)) = downloads_of sc (node_key (nd x)))"
    if "simulates nd D h (piece_dl_by_idxoff sc)" "small_key (node_key (nd x))" "(length (piece_dl_by_idxoff sc) + 1)\<^sup>2 \<le> 2 ^ m"
    for nd D h m x
    using simulates_find [OF that] index_lookup [OF l, of "node_key (nd x)"] by (auto simp: rmap_eq_Ok split: option.splits)
  ultimately show ?thesis using ok ix simulates_exists [OF ix] by (intro conjI allI ballI impI) blast+
qed

theorem bookkeeping_invariant_witness:
  "\<exists>sc. book_steps (example_session (example_torrent 0)) sc \<and> peers sc = [0] \<and> session_ok {} sc
     \<and> is_Ok (network_piece_dl_create 0 2 16384 100 sc) \<and> is_Ok (scheduler_reap_dead 0 sc)"
proof -
  let ?sc = "example_session (example_torrent 0)"
  obtain sc1 where a: "add_address (replicate 20 0) [127, 0, 0, 1] [0, 80] ?sc = Ok sc1" "peers sc1 = [0]"
    by (simp add: add_address_def network_peer_create_def example_session_def set_peer_def network_peerlist_add_peer_def get_peer_def)
  have s: "book_steps ?sc sc1" by (rule book_steps.step [OF book_steps.start book_step.add [OF a(1)]])
  have "index_ok (piece_dl_by_idxoff ?sc)" by (simp add: index_ok_def example_session_def)
  from bookkeeping_invariant [OF example_session_ok this s] have "session_ok {} sc1"
    "is_Ok (network_piece_dl_create 0 2 16384 100 sc1)" "is_Ok (scheduler_reap_dead 0 sc1)"
    using a(2) by (simp_all add: small_key_def)
  then show ?thesis using s a(2) by blast
qed

end
