(* ===== verification/Tracker.thy ===== *)
theory Tracker
  imports Network
begin

text \<open>
  The answer of the tracker, from \<^verbatim>\<open>announce.c\<close>: the handler that collects it, the one that runs when the
  tracker closes the connection and reads it, and the timer that announces again. \<^verbatim>\<open>network_start_torrent\<close>,
  which begins with an announce, is here too.

  The memory of the answer is not terminated: reading past what has arrived is undefined.
\<close>

definition HTTP_1_0 :: bytes where "HTTP_1_0 = str ''HTTP/1.0''"
definition HTTP_1_1 :: bytes where "HTTP_1_1 = str ''HTTP/1.1''"
definition HTTP_OK :: bytes where "HTTP_OK = str ''200''"
definition HTTP_END :: bytes where "HTTP_END = [13, 10, 13, 10]"
definition DEFAULT_ANNOUNCE_INTERVAL :: u32 where "DEFAULT_ANNOUNCE_INTERVAL = 1800"
definition DEFAULT_PORT :: bytes where "DEFAULT_PORT = str ''6668''"

section \<open>Collecting the answer\<close>

text \<open>One call reads at most 256 bytes of the \<open>input\<close> that is there.\<close>

definition handle_announce_response :: "bytes \<Rightarrow> http_response \<Rightarrow> bytes \<times> http_response" where
  "handle_announce_response input res =
     (let res = (if rxsize res \<le> length (rxbuf res) + 256 then res\<lparr>rxsize := rxsize res + RESBUFLEN\<rparr> else res)
      in (drop 256 input, res\<lparr>rxbuf := rxbuf res @ take 256 input\<rparr>))"

text \<open>The loop at the start of \<^verbatim>\<open>handle_announce_error\<close>: read until nothing comes.\<close>

function drain :: "bytes \<Rightarrow> http_response \<Rightarrow> http_response" where
  "drain input res =
     (let (rest, res') = handle_announce_response input res in
      if length (rxbuf res') > length (rxbuf res) then drain rest res' else res')"
  by pat_completeness auto
termination
  by (relation "measure (\<lambda>(input, res). length input)") (auto simp: handle_announce_response_def Let_def split: if_splits)

section \<open>Reading the answer\<close>

text \<open>\<^verbatim>\<open>strncmp (s, pat, strlen (pat)) == 0\<close> for a pattern without NULs.\<close>

fun strncmp_eq :: "bytes \<Rightarrow> bytes \<Rightarrow> bool res" where
  "strncmp_eq s [] = Ok True"
| "strncmp_eq [] (c # pat) = Fault (Undef ''rxmsg'')"
| "strncmp_eq (a # s) (c # pat) = (if a = c then strncmp_eq s pat else Ok False)"

text \<open>The body of the response, \<open>None\<close> when the response is not a good one (\<^verbatim>\<open>goto err\<close>).\<close>

definition http_body :: "bytes \<Rightarrow> bytes option res" where
  "http_body rx =
     rbind (strncmp_eq rx HTTP_1_0) (\<lambda>v10.
     rbind (if v10 then Ok True else strncmp_eq rx HTTP_1_1) (\<lambda>http.
     if \<not> http then Ok None
     else let c = length HTTP_1_0 + 1 in
       rbind (strncmp_eq (drop c rx) HTTP_OK) (\<lambda>ok.
       if \<not> ok then Ok None
       else rbind (strstr (drop c rx) HTTP_END 0) (\<lambda>r.
         Ok (map_option (\<lambda>k. drop (c + k + length HTTP_END) rx) r)))))"

definition body_buf :: "bytes \<Rightarrow> buf res" where
  "body_buf body = rmap snd (buf_set (buf_alloc 128 BUF_AUTOEXT) body (length body) 0)"

definition set_count :: "benc_node \<Rightarrow> string \<Rightarrow> string \<Rightarrow> (u32 \<Rightarrow> torrent \<Rightarrow> torrent) \<Rightarrow> torrent \<Rightarrow> torrent res" where
  "set_count troot k msg upd t = rbind (find_key troot k) (\<lambda>r. case r of
       None \<Rightarrow> Ok t
     | Some n \<Rightarrow> rmap (\<lambda>i. upd (word_of_int i) t) (number_of msg n))"

text \<open>The fields of a parsed answer: \<open>None\<close> is \<^verbatim>\<open>goto err\<close>; the peers are handed to \<open>Network\<close>.\<close>

definition read_answer :: "sysenv \<Rightarrow> benc_node \<Rightarrow> session \<Rightarrow> session res" where
  "read_answer e troot sc =
     rbind (find_key troot ''failure reason'') (\<lambda>r. if r \<noteq> None then Ok sc
     else rbind (set_count troot ''interval'' ''interval is not a number'' (\<lambda>w. interval_update (\<lambda>_. w))
         ((tp sc)\<lparr>interval := DEFAULT_ANNOUNCE_INTERVAL\<rparr>)) (\<lambda>t.
     rbind (set_count troot ''complete'' ''complete is not a number'' (\<lambda>w. complete_update (\<lambda>_. w)) t) (\<lambda>t.
     rbind (set_count troot ''incomplete'' ''incomplete is not a number'' (\<lambda>w. incomplete_update (\<lambda>_. w)) t) (\<lambda>t.
     let sc = sc\<lparr>tp := t\<rparr> in
     rbind (find_key troot ''peers'') (\<lambda>r. case r of
         None \<Rightarrow> Ok sc
       | Some n \<Rightarrow> rmap (\<lambda>sc. if servfd sc = 0 then sc\<lparr>servfd := e_listen e\<rparr> else sc) (network_peerlist_update e n sc))))))"

text \<open>
  \<^verbatim>\<open>handle_announce_error\<close>: \<open>input\<close> is what is left to read. The result is \<open>None\<close> only where that of the parser
  is. When nothing arrived at all the buffer stays allocated.
\<close>

definition handle_announce_error :: "sysenv \<Rightarrow> ev_error list \<Rightarrow> bytes \<Rightarrow> session \<Rightarrow> session res option" where
  "handle_announce_error e err input sc = (case http_res sc of
       None \<Rightarrow> Some (Ok (sc\<lparr>announce_underway := False\<rparr>))
     | Some res \<Rightarrow>
         let res = drain input res; rx = rxbuf res;
             done = (\<lambda>sc. sc\<lparr>http_res := None, announce_underway := False\<rparr>) in
         if rx = [] then Some (Ok (sc\<lparr>http_res := Some res, announce_underway := False\<rparr>))
         else if EV_TIMEOUT \<in> set err then Some (Fault (Exit ''handle_announce_error() TIMOUT (unexpected)''))
         else case http_body rx of
             Fault f \<Rightarrow> Some (Fault f)
           | Ok None \<Rightarrow> Some (Ok (done sc))
           | Ok (Some body) \<Rightarrow> (case body_buf body of
               Fault f \<Rightarrow> Some (Fault f)
             | Ok b \<Rightarrow> (case benc_parse_buf b benc_root_create of
                 None \<Rightarrow> None
               | Some (Fault f) \<Rightarrow> Some (Fault f)
               | Some (Ok None) \<Rightarrow> Some (Fault (Exit ''handle_announce_error: HTTP response parsing failed (no peers?)''))
               | Some (Ok (Some troot)) \<Rightarrow> Some (rmap done (read_answer e troot sc)))))"

definition announce_update :: "sysenv \<Rightarrow> session \<Rightarrow> session res" where
  "announce_update e sc = (if \<not> announce_underway sc then rmap snd (announce (e_now e) (e_tracker e) None sc) else Ok sc)"

section \<open>Starting a torrent\<close>

text \<open>\<^verbatim>\<open>snprintf (id, 21, "-UL-0001-0%010ld", r)\<close>: the text is cut at 20 characters.\<close>

definition network_peer_id_create :: "nat \<Rightarrow> bytes" where
  "network_peer_id_create r =
     (let d = dec_nat r; s = str ''-UL-0001-0'' @ replicate (10 - length d) 48 @ d
      in take PEER_ID_LEN s @ [0] @ drop (length (take PEER_ID_LEN s) + 1) (replicate (PEER_ID_LEN + 1) 1))"

definition start_session :: "sysenv \<Rightarrow> bytes option \<Rightarrow> u64 \<Rightarrow> torrent \<Rightarrow> disk \<Rightarrow> session" where
  "start_session e user_port fds t dk =
     \<lparr>peers = [], peer_at = \<lambda>p. None, dl_at = \<lambda>d. None, piece_dl_by_idxoff = [], fresh_peer = 0, fresh_dl = 0, servfd = 0,
      key = None, ip = None, numwant = None, peerid = network_peer_id_create (e_rnd e 0),
      port = (case user_port of None \<Rightarrow> cstr DEFAULT_PORT | Some s \<Rightarrow> s), s_trackerid = None,
      tp = (if good_pieces t = num_pieces t then t\<lparr>left := 0\<rparr> else t), dsk = dk, http_res = None, maxfds = fds,
      announce_underway = False, num_peers = 0, last_announce = 0, rarity_array = None, last_rarity = 0, ctl_server = None,
      outbox = [], tracker_out = [], resume_file = None\<rparr>"

definition network_start_torrent :: "sysenv \<Rightarrow> bytes option \<Rightarrow> bool \<Rightarrow> u64 \<Rightarrow> torrent \<Rightarrow> disk \<Rightarrow> (int \<times> session) res" where
  "network_start_torrent e user_port gui fds t dk =
     rbind (case user_port of None \<Rightarrow> Ok None | Some s \<Rightarrow> rmap Some (xstrdup s)) (\<lambda>prt.
     let sc = start_session e prt fds t dk; start = downloaded (tp sc);
         sc = sc\<lparr>tp := (tp sc)\<lparr>downloaded := 0\<rparr>\<rparr>;
         sc = (if gui then ctl_server_start start sc else sc)
     in announce (e_now e) (e_tracker e) (Some (cstr (str ''started''))) sc)"

end
