(* ===== verification/Network_Inv.thy ===== *)
theory Network_Inv
  imports Network
begin

text \<open>
  The invariant of the session under the messages of a peer. \<open>healthy e sc\<close> collects what the handlers rely on;
  \<open>keep e F sc r\<close> says that a run that started in \<open>sc\<close> ends in a healthy session with the receive buffers of
  the peers as they were, or in a fault of the set \<open>F\<close>: with \<open>F\<close> empty the run cannot fail at all.
\<close>

section \<open>Healthy sessions\<close>

definition rarity_ready :: "int \<Rightarrow> session \<Rightarrow> bool" where
  "rarity_ready t sc \<longleftrightarrow> t - last_rarity sc > RARITY_AGE \<or> rarity_array sc \<noteq> None"

definition files_ok :: "torrent \<Rightarrow> bool" where
  "files_ok t \<longleftrightarrow> num_pieces t \<noteq> 0 \<and> (\<forall>f \<in> set (files t). 0 \<le> file_length f)"

definition healthy :: "sysenv \<Rightarrow> session \<Rightarrow> bool" where
  "healthy e sc \<longleftrightarrow> session_ok {} sc \<and> sched_ok sc \<and> files_ok (tp sc) \<and> rarity_ready (e_now e) sc"

definition rx_of :: "peer \<Rightarrow> u32 \<times> u32 \<times> bytes option" where
  "rx_of x = (rxpending x, rxmsglen x, rxmsg x)"

definition rx_same :: "session \<Rightarrow> session \<Rightarrow> bool" where
  "rx_same sc sc' \<longleftrightarrow> peers sc' = peers sc \<and> num_pieces (tp sc') = num_pieces (tp sc) \<and> (\<forall>p. map_option rx_of (peer_at sc' p) = map_option rx_of (peer_at sc p))"

lemma rx_same_refl [simp]: "rx_same sc sc"
  and rx_same_trans: "rx_same a b \<Longrightarrow> rx_same b c \<Longrightarrow> rx_same a c"
  by (simp_all add: rx_same_def)

lemma goodD:
  assumes "healthy e sc"
  shows "session_ok {} sc" "links_ok sc" "sched_ok sc" "torrent_ok (tp sc)" "files_ok (tp sc)" "rarity_ready (e_now e) sc"
    "\<forall>q \<in> set (peers sc). peer_at sc q \<noteq> None" "peer_at sc p = Some x \<Longrightarrow> p \<in> set (peers sc)"
  using assms sched_okD(1) [of sc] by (auto simp: healthy_def session_ok_def)

lemma in_range:
  assumes "files_ok t" "\<not> idx > num_pieces t - 1"
  shows "unat idx < unat (num_pieces t)"
proof -
  have "unat (num_pieces t - 1) = unat (num_pieces t) - 1" "unat (num_pieces t) \<noteq> 0"
    using assms(1) by (simp_all add: files_ok_def unat_minus_one unat_eq_zero)
  then show ?thesis using assms(2) by (simp add: word_less_nat_alt)
qed

section \<open>Runs that keep a healthy session\<close>

definition keep :: "sysenv \<Rightarrow> fault set \<Rightarrow> session \<Rightarrow> session res \<Rightarrow> bool" where
  "keep e F sc r \<longleftrightarrow> (case r of Ok sc' \<Rightarrow> healthy e sc' \<and> rx_same sc sc' | Fault f \<Rightarrow> f \<in> F)"

lemma keep_Ok [simp]: "keep e F sc (Ok sc') \<longleftrightarrow> healthy e sc' \<and> rx_same sc sc'"
  and keep_Fault [simp]: "keep e F sc (Fault f) \<longleftrightarrow> f \<in> F"
  by (simp_all add: keep_def)

lemma keep_mono: "keep e F sc r \<Longrightarrow> F \<subseteq> F' \<Longrightarrow> keep e F' sc r"
  by (cases r) auto

lemma keep_from: "rx_same sc sc1 \<Longrightarrow> keep e F sc1 r \<Longrightarrow> keep e F sc r"
  by (cases r) (auto intro: rx_same_trans)

lemma keep_bind:
  assumes "keep e F sc m" "\<And>sc'. m = Ok sc' \<Longrightarrow> healthy e sc' \<Longrightarrow> rx_same sc sc' \<Longrightarrow> keep e F sc' (f sc')"
  shows "keep e F sc (rbind m f)"
  using assms by (cases m) (auto intro: keep_from)

lemma keep_pure:
  assumes "\<And>g. m = Fault g \<Longrightarrow> g \<in> F" "\<And>y. m = Ok y \<Longrightarrow> keep e F sc (f y)"
  shows "keep e F sc (rbind m f)"
  using assms by (cases m) auto

lemma keep_rmap: "keep e F sc (rbind m (\<lambda>x. Ok (f x))) \<Longrightarrow> keep e F sc (rmap f m)"
  by (cases m) auto

lemma keep_rfold:
  assumes "healthy e sc" "\<And>sc' x. x \<in> set xs \<Longrightarrow> healthy e sc' \<Longrightarrow> rx_same sc sc' \<Longrightarrow> keep e F sc' (f sc' x)"
  shows "keep e F sc (rfold f sc xs)"
  using assms
proof (induction xs arbitrary: sc)
  case (Cons x xs)
  have "keep e F sc (f sc x)" using Cons.prems by simp
  then show ?case unfolding rfold.simps
    using Cons.IH Cons.prems(2) rx_same_trans by (intro keep_bind) fastforce+
qed simp

text \<open>A listed peer is there, and a step keeps it.\<close>

lemma good_peer: "healthy e sc \<Longrightarrow> p \<in> set (peers sc) \<Longrightarrow> \<exists>x. get_peer sc p = Ok x \<and> peer_at sc p = Some x"
  using goodD(7) by fastforce

lemma keep_get_peer:
  assumes "healthy e sc" "p \<in> set (peers sc)" "\<And>x. peer_at sc p = Some x \<Longrightarrow> keep e F sc (f x)"
  shows "keep e F sc (rbind (get_peer sc p) f)"
  using good_peer [OF assms(1,2)] assms(3) by (metis rbind.simps(1))

lemma rx_same_peers: "rx_same sc sc' \<Longrightarrow> peers sc' = peers sc"
  and rx_same_num: "rx_same sc sc' \<Longrightarrow> num_pieces (tp sc') = num_pieces (tp sc)"
  by (simp_all add: rx_same_def)

lemma set_peer_tp [simp]: "tp (set_peer sc p x) = tp sc" "dsk (set_peer sc p x) = dsk sc"
  by (simp_all add: set_peer_def)

section \<open>Changes of one peer, and of fields outside the bookkeeping\<close>

lemma quiet_good:
  assumes "healthy e sc" "quiet sc sc'" "torrent_ok (tp sc')" "files_ok (tp sc')" "num_pieces (tp sc') = num_pieces (tp sc)"
    and "\<And>p x. peer_at sc' p = Some x \<Longrightarrow> bits_ok (tp sc') x" "rarity_array sc' = rarity_array sc" "last_rarity sc' = last_rarity sc"
  shows "healthy e sc'"
proof -
  have "dl_at sc' = dl_at sc" using assms(2) by (simp add: quiet_def)
  then show ?thesis
    using assms quiet_ok [OF assms(2), of "{}"] by (auto simp: healthy_def sched_ok_def rarity_ready_def rarity_ok_def)
qed

lemma set_peer_good:
  assumes "healthy e sc" "peer_at sc p = Some x" "peer_piece_dls y = peer_piece_dls x" "bits_ok (tp sc) y"
  shows "healthy e (set_peer sc p y)"
proof (rule quiet_good [OF assms(1)])
  show "quiet sc (set_peer sc p y)" by (rule quiet_set_peer [OF assms(2,3)])
  show "bits_ok (tp (set_peer sc p y)) z" if "peer_at (set_peer sc p y) q = Some z" for q z
    using that assms(4) sched_okD(2) [OF goodD(3) [OF assms(1)], of q z]
    by (cases "q = p") (simp_all add: set_peer_def)
qed (use goodD [OF assms(1)] in \<open>simp_all add: set_peer_def\<close>)

lemma set_peer_rx: "peer_at sc p = Some x \<Longrightarrow> rx_of y = rx_of x \<Longrightarrow> rx_same sc (set_peer sc p y)"
  by (simp add: rx_same_def)

lemma bits_ok_cong: "bitfield y = bitfield x \<Longrightarrow> bits_ok t y = bits_ok t x"
  by (simp add: bits_ok_def)

lemma keep_set_peer:
  assumes "healthy e sc" "peer_at sc p = Some x" "peer_piece_dls y = peer_piece_dls x" "rx_of y = rx_of x" "bitfield y = bitfield x"
  shows "keep e F sc (Ok (set_peer sc p y))"
  using set_peer_good [OF assms(1-3)] set_peer_rx [OF assms(2,4)] bits_ok_cong [OF assms(5)]
    sched_okD(2) [OF goodD(3) [OF assms(1)] assms(2)] by simp

lemma kill_keep: "healthy e sc \<Longrightarrow> p \<in> set (peers sc) \<Longrightarrow> keep e F sc (kill_peer p sc)"
  unfolding kill_peer_def by (rule keep_get_peer) (auto simp: rx_of_def simp del: keep_Ok intro: keep_set_peer)

lemma change_state_keep: "healthy e sc \<Longrightarrow> p \<in> set (peers sc) \<Longrightarrow> keep e F sc (change_state p f sc)"
  unfolding change_state_def by (rule keep_get_peer) (auto simp: rx_of_def simp del: keep_Ok intro: keep_set_peer)

lemma fields_good:
  assumes "healthy e sc" "peer_at sc' = peer_at sc" "quiet sc sc'" "tp sc' = tp sc" "rarity_array sc' = rarity_array sc"
    "last_rarity sc' = last_rarity sc"
  shows "healthy e sc'" "rx_same sc sc'"
  using quiet_good [OF assms(1,3)] goodD [OF assms(1)] assms(2-6) sched_okD(2) [OF goodD(3) [OF assms(1)]]
  by (auto simp: rx_same_def quiet_def)

lemma peer_write_keep:
  assumes "healthy e sc" "p \<in> set (peers sc)"
  shows "keep e F sc (network_peer_write t p msg sc)"
  unfolding network_peer_write_def
proof (rule keep_get_peer [OF assms])
  fix x
  assume x: "peer_at sc p = Some x"
  let ?sc = "set_peer sc p (x\<lparr>lastsend := t\<rparr>)"
  have k: "keep e F sc (Ok ?sc)" by (rule keep_set_peer [OF assms(1) x]) (simp_all add: rx_of_def)
  have "healthy e (?sc\<lparr>outbox := outbox sc @ [(p, msg)]\<rparr>)" "rx_same ?sc (?sc\<lparr>outbox := outbox sc @ [(p, msg)]\<rparr>)"
    using fields_good [of e ?sc] k by simp_all
  then show "keep e F sc (Ok (?sc\<lparr>outbox := outbox sc @ [(p, msg)]\<rparr>))" using k rx_same_trans by auto
qed

lemma write_flag_keep:
  assumes "healthy e sc" "p \<in> set (peers sc)"
  shows "keep e F sc (write_flag t p mid f sc)"
  unfolding write_flag_def
proof (rule keep_get_peer [OF assms])
  fix x
  assume x: "peer_at sc p = Some x"
  let ?sc = "set_peer sc p (x\<lparr>state := f (state x)\<rparr>)"
  have k: "keep e F sc (Ok ?sc)" by (rule keep_set_peer [OF assms(1) x]) (simp_all add: rx_of_def)
  then show "keep e F sc (network_peer_write t p (id_msg mid) ?sc)"
    using keep_from [OF _ peer_write_keep [of e ?sc p F]] assms(2) by simp
qed

lemmas write_defs = network_peer_write_have_def network_peer_request_block_def network_peer_reject_block_def
  network_peer_write_haveall_def network_peer_write_havenone_def network_peer_write_keepalive_def
lemmas flag_defs = network_peer_write_interested_def network_peer_write_unchoke_def network_peer_write_choke_def

lemma writes_keep:
  assumes "healthy e sc" "p \<in> set (peers sc)"
  shows "keep e F sc (network_peer_write_have t p idx sc)" "keep e F sc (network_peer_request_block t p idx off len sc)"
    "keep e F sc (network_peer_reject_block t p idx off len sc)" "keep e F sc (network_peer_write_haveall t p sc)"
    "keep e F sc (network_peer_write_havenone t p sc)" "keep e F sc (network_peer_write_keepalive t p sc)"
    "keep e F sc (network_peer_write_interested t p sc)" "keep e F sc (network_peer_write_unchoke t p sc)"
    "keep e F sc (network_peer_write_choke t p sc)"
  using peer_write_keep [OF assms] write_flag_keep [OF assms] by (simp_all add: write_defs flag_defs Let_def)

lemma ul_enqueue_keep:
  assumes "healthy e sc" "p \<in> set (peers sc)"
  shows "keep e F sc (network_piece_ul_enqueue p idx off len sc)"
  unfolding network_piece_ul_enqueue_def
  by (rule keep_get_peer [OF assms], rule keep_set_peer [OF assms(1)]) (simp_all add: rx_of_def)

section \<open>Changes of the downloads\<close>

lemma frame_good:
  assumes "healthy e sc" "frame sc sc'" "links_ok sc'" "\<And>d pd. dl_at sc' d = Some pd \<Longrightarrow> unat (pd_idx pd) < unat (num_pieces (tp sc))"
  shows "healthy e sc'" "rx_same sc sc'"
proof -
  note f = frame_fields [OF assms(2)]
  have p: "\<exists>z ds. peer_at sc q = Some z \<and> y = z\<lparr>peer_piece_dls := ds\<rparr>" if y: "peer_at sc' q = Some y" for q y
  proof -
    obtain z where "peer_at sc q = Some z" using frame_None [OF assms(2), of q] y by fastforce
    then show ?thesis using frame_peer [OF assms(2), of q z] y by auto
  qed
  have "bits_ok (tp sc) y" if "peer_at sc' q = Some y" for q y
    using p [OF that] sched_okD(2) [OF goodD(3) [OF assms(1)], of q] by (auto simp: bits_ok_def)
  then have "sched_ok sc'" using goodD(3) [OF assms(1)] assms(4) by (simp add: sched_ok_def f)
  then show "healthy e sc'" using assms(1) frame_session_ok [OF _ assms(2,3)] by (simp add: healthy_def f rarity_ready_def)
  have "map_option rx_of (peer_at sc' q) = map_option rx_of (peer_at sc q)" for q
    using p [of q] frame_None [OF assms(2), of q] by (cases "peer_at sc' q") (auto simp: rx_of_def)
  then show "rx_same sc sc'" by (simp add: rx_same_def f)
qed

lemma dl_free_keep:
  assumes "healthy e sc" "dl_at sc d = Some pd"
  shows "keep e F sc (network_piece_dl_free d sc)"
proof -
  obtain sc' where "network_piece_dl_free d sc = Ok sc'" "links_ok sc'" "frame sc sc'" "dl_at sc' = (dl_at sc)(d := None)"
    using dl_free_ok [OF goodD(2) [OF assms(1)] assms(2)] by blast
  moreover from this have "unat (pd_idx pd') < unat (num_pieces (tp sc))" if "dl_at sc' d' = Some pd'" for d' pd'
    using that sched_okD(3) [OF goodD(3) [OF assms(1)], of d' pd'] by (simp split: if_splits)
  ultimately show ?thesis using frame_good [OF assms(1), of sc'] by simp
qed

lemma keep_dl_find:
  assumes "healthy e sc" "\<And>q. p = Some q \<Longrightarrow> q \<in> set (peers sc)" "keep e F sc (f None)"
    and "\<And>d pd. dl_at sc d = Some pd \<Longrightarrow> pd_idx pd = idx \<Longrightarrow> pd_off pd = off \<Longrightarrow> keep e F sc (f (Some d))"
  shows "keep e F sc (rbind (network_piece_dl_find sc p idx off) f)"
proof -
  have "\<And>q. p = Some q \<Longrightarrow> peer_at sc q \<noteq> None" using assms(2) goodD(7) [OF assms(1)] by blast
  from dl_find_ok [OF goodD(2) [OF assms(1)] this, of p idx off]
  obtain r where "network_piece_dl_find sc p idx off = Ok r"
    "case r of None \<Rightarrow> True | Some d \<Rightarrow> \<exists>pd. dl_at sc d = Some pd \<and> pd_idx pd = idx \<and> pd_off pd = off"
    by (fastforce split: option.splits)
  then show ?thesis using assms(3,4) by (cases r) auto
qed

lemma free_block_keep: "healthy e sc \<Longrightarrow> keep e F sc (free_block idx sc off)"
  unfolding free_block_def by (rule keep_dl_find) (auto intro: dl_free_keep)

lemma unlink_good:
  assumes "healthy e sc" "d \<in> set (dls_of sc p)"
  shows "healthy e (unlink_dl p sc d)" "rx_same sc (unlink_dl p sc d)"
proof -
  note u = unlink_ok [OF goodD(2) [OF assms(1)] assms(2)]
  obtain pd where "dl_at sc d = Some pd" using linkedD [OF links_okD(1) [OF goodD(2) [OF assms(1)]] assms(2)] by blast
  then have "unat (pd_idx pd') < unat (num_pieces (tp sc))" if "dl_at (unlink_dl p sc d) d' = Some pd'" for d' pd'
    using that sched_okD(3) [OF goodD(3) [OF assms(1)]] by (auto simp: u(4) split: if_splits)
  then show "healthy e (unlink_dl p sc d)" "rx_same sc (unlink_dl p sc d)" using frame_good [OF assms(1) u(2,1)] by blast+
qed

lemma choke_dl_keep:
  assumes "healthy e sc" "d \<in> set (dls_of sc p)"
  shows "\<exists>sc'. choke_dl p sc d = Ok sc' \<and> healthy e sc' \<and> rx_same sc sc' \<and> dls_of sc' p = remove1 d (dls_of sc p)"
proof -
  obtain pd where pd: "dl_at sc d = Some pd" using linkedD [OF links_okD(1) [OF goodD(2) [OF assms(1)]] assms(2)] by blast
  obtain x where x: "peer_at sc p = Some x" using assms(2) by (cases "peer_at sc p") (simp_all add: dls_of_def)
  let ?u = "unlink_dl p sc d" and ?x = "x\<lparr>peer_piece_dls := remove1 d (dls_of sc p)\<rparr>"
  have u: "peer_at ?u p = Some ?x" using x by (simp add: unlink_dl_def)
  note g = unlink_good [OF assms]
  let ?sc = "set_peer ?u p (?x\<lparr>dl_queue_len := dl_queue_len x - 1\<rparr>)"
  have run: "choke_dl p sc d = Ok ?sc"
    using pd x assms(2) by (simp add: choke_dl_def get_dl_def get_peer_def set_dl_def set_peer_def tailq_remove_def unlink_dl_def dls_of_def Let_def)
  have "keep e {} ?u (Ok ?sc)" by (rule keep_set_peer [OF g(1) u]) (simp_all add: rx_of_def)
  then have "healthy e ?sc" "rx_same sc ?sc" using rx_same_trans [OF g(2)] by simp_all
  then show ?thesis using run by simp
qed

lemma choke_loop_keep:
  assumes "healthy e sc" "distinct ds" "set ds \<subseteq> set (dls_of sc p)"
  shows "keep e F sc (rfold (choke_dl p) sc ds)"
  using assms
proof (induction ds arbitrary: sc)
  case (Cons d ds)
  obtain s1 where s1: "choke_dl p sc d = Ok s1" "healthy e s1" "rx_same sc s1" "dls_of s1 p = remove1 d (dls_of sc p)"
    using choke_dl_keep [OF Cons.prems(1), of d p] Cons.prems(3) by auto
  have "distinct (dls_of sc p)" using linked_distinct [OF links_okD(1) [OF goodD(2) [OF Cons.prems(1)]]] .
  then have "set ds \<subseteq> set (dls_of s1 p)" using Cons.prems(2,3) s1(4) by auto
  then show ?case using Cons.IH [OF s1(2)] Cons.prems(2) s1(1,3) keep_from by auto
qed simp

lemma set_dl_good:
  assumes "healthy e sc" "dl_at sc d = Some pd" "pc y = pc pd" "dl_key y = dl_key pd"
  shows "healthy e (set_dl sc d y)" "rx_same sc (set_dl sc d y)"
proof -
  note l = links_okD [OF goodD(2) [OF assms(1)]]
  let ?sc = "set_dl sc d y"
  have t: "dl_at ?sc = (dl_at sc)(d \<mapsto> y)" by (simp add: set_dl_def)
  have "dls_of ?sc = dls_of sc" by (auto simp: dls_of_def set_dl_def)
  then have "linked (dl_at ?sc) (dls_of ?sc) pc" "linked (dl_at ?sc) (ix.queue (piece_dl_by_idxoff sc)) dl_key"
    unfolding t using linked_same [OF l(1) assms(2,3)] linked_same [OF l(2) assms(2,4)] by simp_all
  then have "links_ok ?sc" using goodD(2) [OF assms(1)] assms(2) unfolding links_ok_def t by (auto simp: set_dl_def)
  moreover have "frame sc ?sc" by (auto simp: frame_def erase_def peer_rest_def set_dl_def)
  moreover have "pd_idx y = pd_idx pd" using assms(4) by (simp add: dl_key_def)
  then have "unat (pd_idx pd') < unat (num_pieces (tp sc))" if "dl_at ?sc d' = Some pd'" for d' pd'
    using that sched_okD(3) [OF goodD(3) [OF assms(1)]] assms(2) by (auto simp: t split: if_splits)
  ultimately show "healthy e ?sc" "rx_same sc ?sc" using frame_good [OF assms(1)] by blast+
qed

end
