(* ===== verification/Network_Msg.thy ===== *)
theory Network_Msg
  imports Network_Inv
begin

text \<open>
  Every message keeps a healthy session, and a message that has all its fields and is not a block cannot
  fail. A block goes to the storage, whose files may refuse it; what remains of the session is healthy.
\<close>

section \<open>Interest, bit fields and requests\<close>

lemma only_rarity_healthy:
  assumes "healthy e sc" "only_rarity sc sc'" "sched_ok sc'" "rarity_ready (e_now e) sc'"
  shows "healthy e sc'" "rx_same sc sc'"
  using assms quiet_ok [OF only_rarity_same(5) [OF assms(2)]] only_rarity_same [OF assms(2)]
  by (simp_all add: healthy_def rx_same_def)

lemma ask_interest_keep:
  assumes "healthy e sc" "p \<in> set (peers sc)"
  shows "keep e F sc (ask_interest e p sc)"
  unfolding ask_interest_def
proof (rule keep_get_peer [OF assms])
  fix x
  assume x: "peer_at sc p = Some x"
  obtain r hint sc' where g: "scheduler_piece_gimme (e_now e) (e_rnd e (unat (totalrx x))) p True sc = Ok (r, hint, sc')"
    "only_rarity sc sc'" "sched_ok sc'" "e_now e - last_rarity sc' > RARITY_AGE \<or> rarity_array sc' \<noteq> None"
    using gimme_ok [OF goodD(2,3) [OF assms(1)] x goodD(7) [OF assms(1)], of "e_now e" "e_rnd e (unat (totalrx x))" True]
      goodD(6) [OF assms(1)] by (auto simp: rarity_ready_def)
  have h: "healthy e sc'" "rx_same sc sc'" using only_rarity_healthy [OF assms(1) g(2,3)] g(4) by (auto simp: rarity_ready_def)
  moreover have "p \<in> set (peers sc')" using h(2) assms(2) by (simp add: rx_same_peers)
  ultimately have "keep e F sc' (rbind (get_peer sc' p) (\<lambda>x.
      if hint \<and> state x AND PEER_STATE_AMINTERESTED = 0 then network_peer_write_interested (e_now e) p sc' else Ok sc'))"
    by (intro keep_get_peer) (simp_all add: writes_keep)
  then show "keep e F sc (rbind (scheduler_piece_gimme (e_now e) (e_rnd e (unat (totalrx x))) p True sc) (\<lambda>(_, res, sc).
      rbind (get_peer sc p) (\<lambda>x. if res \<and> state x AND PEER_STATE_AMINTERESTED = 0
        then network_peer_write_interested (e_now e) p sc else Ok sc)))"
    using g(1) keep_from [OF h(2)] by simp
qed

lemma take_bitfield_keep:
  assumes "healthy e sc" "p \<in> set (peers sc)" "length bf = unat (bitfield_len (tp sc))"
  shows "keep e F sc (take_bitfield e p bf sc)"
  unfolding take_bitfield_def
proof (rule keep_get_peer [OF assms(1,2)])
  fix x
  assume x: "peer_at sc p = Some x"
  let ?sc = "set_peer sc p (x\<lparr>bitfield := Some bf, state := established (state x)\<rparr>)"
  have "healthy e ?sc" by (rule set_peer_good [OF assms(1) x]) (simp_all add: bits_ok_def assms(3))
  moreover have "rx_same sc ?sc" by (rule set_peer_rx [OF x]) (simp add: rx_of_def)
  ultimately show "keep e F sc (ask_interest e p ?sc)" using ask_interest_keep [of e ?sc p F] keep_from assms(2) by simp
qed

lemma setbit_in:
  assumes "torrent_ok t" "length bf = unat (bitfield_len t)" "unat i < unat (num_pieces t)"
  shows "\<exists>bf'. util_setbit bf i = Ok bf' \<and> length bf' = length bf"
proof -
  have "unat i < 8 * length bf" using bitfield_covers [of t i] assms by (simp add: torrent_ok_def)
  then show ?thesis by (simp add: setbit_update byte_of_in)
qed

lemma msg_u32_in: "k + 4 \<le> length m \<Longrightarrow> \<exists>w. msg_u32 m k = Ok w"
  by (simp add: msg_u32_def)

lemma process_have_keep:
  assumes "healthy e sc" "p \<in> set (peers sc)" "F = UNIV \<or> 5 \<le> length m"
  shows "keep e F sc (process_have e p m sc)"
  unfolding process_have_def
proof (rule keep_pure)
  fix idx
  let ?body = "\<lambda>x. let x = (case bitfield x of
                  None \<Rightarrow> x\<lparr>bitfield := Some (replicate (unat (bitfield_len (tp sc))) 0), state := established (state x)\<rparr>
                | Some bf \<Rightarrow> x)
       in rbind (util_setbit (the (bitfield x)) idx) (\<lambda>bf. ask_interest e p (set_peer sc p (x\<lparr>bitfield := Some bf\<rparr>)))"
  have "keep e F sc (?body x)" if x: "peer_at sc p = Some x" and i: "unat idx < unat (num_pieces (tp sc))" for x
  proof -
    define y where "y = (case bitfield x of
        None \<Rightarrow> x\<lparr>bitfield := Some (replicate (unat (bitfield_len (tp sc))) 0), state := established (state x)\<rparr> | Some bf \<Rightarrow> x)"
    have y: "peer_piece_dls y = peer_piece_dls x" "rx_of y = rx_of x" "\<exists>bf. bitfield y = Some bf \<and> length bf = unat (bitfield_len (tp sc))"
      using sched_okD(2) [OF goodD(3) [OF assms(1)] x] by (auto simp: y_def rx_of_def bits_ok_def split: option.splits)
    then obtain bf where bf: "bitfield y = Some bf" "length bf = unat (bitfield_len (tp sc))" by blast
    obtain bf' where b: "util_setbit bf idx = Ok bf'" "length bf' = length bf"
      using setbit_in [OF goodD(4) [OF assms(1)] bf(2) i] by blast
    let ?sc = "set_peer sc p (y\<lparr>bitfield := Some bf'\<rparr>)"
    have "healthy e ?sc" by (rule set_peer_good [OF assms(1) x]) (simp_all add: bits_ok_def b bf y(1))
    moreover have "rx_same sc ?sc" by (rule set_peer_rx [OF x]) (use y(2) in \<open>simp add: rx_of_def\<close>)
    ultimately have "keep e F sc (ask_interest e p ?sc)" using ask_interest_keep [of e ?sc p F] keep_from assms(2) by simp
    then show ?thesis using bf b(1) by (simp add: Let_def flip: y_def)
  qed
  then show "keep e F sc (if idx > num_pieces (tp sc) - 1 then Ok sc else rbind (get_peer sc p) ?body)"
    using keep_get_peer [OF assms(1,2), of F ?body] in_range [OF goodD(5) [OF assms(1)], of idx] assms(1) by simp
qed (use assms(3) msg_u32_in [of 1 m] in auto)

lemma process_bitfield_keep:
  assumes "healthy e sc" "p \<in> set (peers sc)" "\<And>x. peer_at sc p = Some x \<Longrightarrow> unat (rxmsglen x) = length m" "m \<noteq> []"
  shows "keep e F sc (process_bitfield e p m sc)"
  unfolding process_bitfield_def
proof (rule keep_get_peer [OF assms(1,2)])
  fix x
  assume x: "peer_at sc p = Some x"
  have "rxmsglen x \<noteq> 0" using assms(3) [OF x] assms(4) by auto
  then have "unat (rxmsglen x - 1) = length m - 1" using unat_minus_one [of "rxmsglen x"] assms(3) [OF x] by simp
  then have n: "1 + unat (rxmsglen x - 1) = length m" using assms(4) by (cases m) simp_all
  have "keep e F sc (take_bitfield e p (mread m 1 (unat (rxmsglen x - 1))) sc)" if "rxmsglen x - 1 = bitfield_len (tp sc)"
    by (rule take_bitfield_keep [OF assms(1,2)]) (use that n in simp)
  then show "keep e F sc (if state x AND PEER_STATE_BITFIELD = 0 then Ok sc
     else let bitfieldlen = rxmsglen x - 1 in
       if bitfieldlen \<noteq> bitfield_len (tp sc) then kill_peer p sc
       else if 1 + unat bitfieldlen > length m then Fault (Undef ''rxmsg'')
       else take_bitfield e p (mread m 1 (unat bitfieldlen)) sc)"
    using n kill_keep [OF assms(1,2)] assms(1) by (auto simp: Let_def)
qed

lemma process_haveall_keep:
  assumes "healthy e sc" "p \<in> set (peers sc)"
  shows "keep e F sc (process_haveall e p b sc)"
  unfolding process_haveall_def
  by (rule keep_get_peer [OF assms]) (use assms in \<open>simp add: take_bitfield_keep\<close>)

lemma keep_if: "(c \<Longrightarrow> keep e F sc a) \<Longrightarrow> (\<not> c \<Longrightarrow> keep e F sc b) \<Longrightarrow> keep e F sc (if c then a else b)"
  by simp

text \<open>Reading a field, and the test of the index.\<close>

lemma keep_field:
  assumes "F = UNIV \<or> k + 4 \<le> length m" "\<And>w. keep e F sc (f w)"
  shows "keep e F sc (rbind (msg_u32 m k) f)"
  by (rule keep_pure) (use assms msg_u32_in [of k m] in auto)

lemma keep_index:
  assumes "healthy e sc" "unat idx < unat (num_pieces (tp sc)) \<Longrightarrow> keep e F sc r"
  shows "keep e F sc (if idx > num_pieces (tp sc) - 1 then Ok sc else r)"
  using assms in_range [OF goodD(5) [OF assms(1)], of idx] by simp

lemma keep_piece:
  assumes "healthy e sc" "unat idx < unat (num_pieces (tp sc))" "keep e F sc (f (piece_array (tp sc) ! unat idx))"
  shows "keep e F sc (rbind (torrent_piece_find (tp sc) idx) f)"
  using assms(3) torrent_ok_piece(1) [OF goodD(4) [OF assms(1)] assms(2)] by simp

lemma process_request_keep:
  assumes "healthy e sc" "p \<in> set (peers sc)" "F = UNIV \<or> 13 \<le> length m"
  shows "keep e F sc (process_request e p m sc)"
proof -
  have l: "F = UNIV \<or> 1 + 4 \<le> length m" "F = UNIV \<or> 5 + 4 \<le> length m" "F = UNIV \<or> 9 + 4 \<le> length m" using assms(3) by auto
  have r: "keep e F sc (rbind (get_peer sc p) (\<lambda>x. if state x AND PEER_STATE_FAST \<noteq> 0
      then network_peer_reject_block (e_now e) p idx off len sc else Ok sc))" for idx off len
    by (rule keep_get_peer [OF assms(1,2)]) (use assms writes_keep in simp)
  show ?thesis
    unfolding process_request_def
    by (intro keep_field l keep_index assms(1) keep_piece) (simp_all add: r ul_enqueue_keep assms(1,2) keep_field [OF l(3)])
qed

lemma process_cancel_keep:
  assumes "healthy e sc" "p \<in> set (peers sc)" "F = UNIV \<or> 13 \<le> length m"
  shows "keep e F sc (process_cancel p m sc)"
proof -
  have l: "F = UNIV \<or> 1 + 4 \<le> length m" "F = UNIV \<or> 5 + 4 \<le> length m" "F = UNIV \<or> 9 + 4 \<le> length m" using assms(3) by auto
  show ?thesis
    unfolding process_cancel_def
    by (intro keep_field l keep_index keep_get_peer assms(1,2), rule keep_set_peer [OF assms(1)]) (simp_all add: rx_of_def)
qed

lemma process_reject_keep:
  assumes "healthy e sc" "p \<in> set (peers sc)" "F = UNIV \<or> 13 \<le> length m"
  shows "keep e F sc (process_reject p m sc)"
proof -
  have l: "F = UNIV \<or> 1 + 4 \<le> length m" "F = UNIV \<or> 5 + 4 \<le> length m" "F = UNIV \<or> 9 + 4 \<le> length m" using assms(3) by auto
  have s: "keep e F sc' (rbind (get_peer sc' p) (\<lambda>x. Ok (set_peer sc' p (x\<lparr>dl_queue_len := dl_queue_len x - 1\<rparr>))))"
    if "healthy e sc'" "rx_same sc sc'" for sc'
    by (rule keep_get_peer [OF that(1)], use that(2) assms(2) in \<open>simp add: rx_same_peers\<close>, rule keep_set_peer [OF that(1)])
      (simp_all add: rx_of_def)
  have d: "keep e F sc (rbind (network_piece_dl_free d sc) (\<lambda>sc. rbind (get_peer sc p) (\<lambda>x.
      Ok (set_peer sc p (x\<lparr>dl_queue_len := dl_queue_len x - 1\<rparr>)))))" if "dl_at sc d = Some pd" for d pd
    by (rule keep_bind [OF dl_free_keep [OF assms(1) that]]) (rule s)
  have "keep e F sc (rbind (network_piece_dl_find sc (Some p) idx off) (\<lambda>r. case r of
             None \<Rightarrow> Ok sc
           | Some d \<Rightarrow> rbind (network_piece_dl_free d sc) (\<lambda>sc. rbind (get_peer sc p) (\<lambda>x.
               Ok (set_peer sc p (x\<lparr>dl_queue_len := dl_queue_len x - 1\<rparr>))))))" for idx off
    by (rule keep_dl_find [OF assms(1)]) (use assms d in auto)
  note find = this
  have "keep e F sc (rbind (msg_u32 m 1) (\<lambda>idx.
       if idx > num_pieces (tp sc) - 1 then Ok sc
       else rbind (msg_u32 m 5) (\<lambda>off. rbind (msg_u32 m 9) (\<lambda>blocklen.
         rbind (network_piece_dl_find sc (Some p) idx off) (\<lambda>r. case r of
             None \<Rightarrow> Ok sc
           | Some d \<Rightarrow> rbind (network_piece_dl_free d sc) (\<lambda>sc. rbind (get_peer sc p) (\<lambda>x.
               Ok (set_peer sc p (x\<lparr>dl_queue_len := dl_queue_len x - 1\<rparr>)))))))))"
    by (intro keep_field l keep_index assms(1)) (rule find)
  then show ?thesis
    unfolding process_reject_def by (intro keep_get_peer assms(1,2)) (simp add: kill_keep assms(1,2))
qed

lemma process_choke_keep:
  assumes "healthy e sc" "p \<in> set (peers sc)"
  shows "keep e F sc (process_choke p sc)"
  unfolding process_choke_def
proof (rule keep_get_peer [OF assms])
  fix x
  assume x: "peer_at sc p = Some x"
  let ?sc = "set_peer sc p (x\<lparr>state := state x OR PEER_STATE_CHOKED\<rparr>)"
  have k: "keep e F sc (Ok ?sc)" by (rule keep_set_peer [OF assms(1) x]) (simp_all add: rx_of_def)
  have "distinct (peer_piece_dls x)"
    using linked_distinct [OF links_okD(1) [OF goodD(2) [OF assms(1)]], of p] x by (simp add: dls_of_def)
  then have "keep e F ?sc (rfold (choke_dl p) ?sc (peer_piece_dls x))" using k by (intro choke_loop_keep) simp_all
  then show "keep e F sc (let sc = ?sc in if state x AND PEER_STATE_FAST = 0 then rfold (choke_dl p) sc (peer_piece_dls x) else Ok sc)"
    using k keep_from [of sc ?sc] by (simp add: Let_def)
qed

section \<open>A block\<close>

text \<open>What the storage operations change of the torrent: the references to the files and a flag.\<close>

definition same_files :: "torrent \<Rightarrow> torrent \<Rightarrow> bool" where
  "same_files t t' \<longleftrightarrow> (\<exists>fs n. t' = t\<lparr>files := fs, isnew := n\<rparr> \<and> map file_length fs = map file_length (files t))"

lemma same_filesI: "map file_length fs = map file_length (files t) \<Longrightarrow> same_files t (t\<lparr>files := fs, isnew := n\<rparr>)"
  by (auto simp: same_files_def)

lemma same_files_refl [simp]: "same_files t t"
  using same_filesI [of "files t" t "isnew t"] by simp

lemma same_files_trans: "same_files a b \<Longrightarrow> same_files b c \<Longrightarrow> same_files a c"
  unfolding same_files_def by fastforce

lemma map_update_same: "g x = g (xs ! i) \<Longrightarrow> map g (xs[i := x]) = map g xs"
  by (induction xs arbitrary: i) (auto split: nat.splits)

lemma mmap_create_same:
  assumes "torrent_mmap_create pg f off len (t, dk) = Ok (m, t', dk')"
  shows "same_files t t'" "mm_len m = len"
proof -
  let ?fs = "(files t)[f := (files t ! f)\<lparr>tf_open := True, refs := refs (files t ! f) + 1\<rparr>]"
  have "map file_length ?fs = map file_length (files t)"
    by (rule map_update_same) simp
  then show "same_files t t'" "mm_len m = len"
    using assms by (auto simp: torrent_mmap_create_def Let_def split: if_splits intro: same_filesI)
qed

lemma map_one_same:
  assumes "map_one pg (tpp, t, dk) (f, off, n) = Ok (tpp', t', dk')"
  shows "same_files t t'" "tpp_index tpp' = tpp_index tpp" "tpp_len tpp' = tpp_len tpp + n"
  using assms mmap_create_same [of pg f off n t dk] by (auto simp: map_one_def rbind_eq_Ok)

lemma part_length:
  assumes "0 \<le> off" "off \<le> fl" "fl - off \<le> uint (len :: u32)"
  shows "uint (word_of_int (fl - off) :: u32) = fl - off" "unat (word_of_int (fl - off) :: u32) \<le> unat len"
proof -
  show u: "uint (word_of_int (fl - off) :: u32) = fl - off"
    using assms unsigned_less [of len, where 'a = int] by (intro uint_of_int_small) simp_all
  have "(word_of_int (fl - off) :: u32) \<le> len" unfolding word_le_def u using assms(3) .
  then show "unat (word_of_int (fl - off) :: u32) \<le> unat len" by (simp add: word_le_nat_alt)
qed

lemma seg_fits:
  assumes "map_one pg (tpp, t, dk) (f, off, n) = Ok (tpp', t', dk')" "unat n \<le> unat len"
    and "unat (tpp_len tpp) + unat len \<le> L" "L < 2 ^ 32"
  shows "unat (tpp_len tpp') + unat (len - n) \<le> L" "unat (tpp_len tpp') \<le> L"
proof -
  have "unat (tpp_len tpp + n) = unat (tpp_len tpp) + unat n" using assms(2-4) by (simp add: unat_word_ariths)
  moreover have "unat (len - n) = unat len - unat n" using assms(2) by (simp add: unat_sub word_le_nat_alt)
  ultimately show "unat (tpp_len tpp') + unat (len - n) \<le> L" "unat (tpp_len tpp') \<le> L"
    using map_one_same(3) [OF assms(1)] assms(2,3) by simp_all
qed

definition map_inv :: "nat \<Rightarrow> torrent \<Rightarrow> u32 \<Rightarrow> map_state \<Rightarrow> bool" where
  "map_inv L t idx st \<longleftrightarrow> (case st of (tpp', t', dk') \<Rightarrow> same_files t t' \<and> tpp_index tpp' = idx \<and> unat (tpp_len tpp') \<le> L)"

lemma map_inv_one:
  assumes "map_inv L t idx st" "map_one pg st (f, off, n) = Ok st'" "unat n \<le> unat len" "unat (tpp_len (fst st)) + unat len \<le> L" "L < 2 ^ 32"
  shows "map_inv L t idx st'" "unat (tpp_len (fst st')) + unat (len - n) \<le> L"
proof -
  obtain tpp u dk tpp' u' dk' where st: "st = (tpp, u, dk)" "st' = (tpp', u', dk')" by (metis prod_cases3)
  show "map_inv L t idx st'" "unat (tpp_len (fst st')) + unat (len - n) \<le> L"
    using assms map_one_same [of pg tpp u dk f off n tpp' u' dk'] seg_fits [of pg tpp u dk f off n tpp' u' dk' len L]
      same_files_trans by (auto simp: map_inv_def st)
qed

lemma map_loop_same:
  assumes "piece_map_loop pg f fls off len st = Ok st'" "map_inv L t idx st"
    and "0 \<le> off" "\<forall>fl \<in> set fls. 0 \<le> fl" "unat (tpp_len (fst st)) + unat len \<le> L" "L < 2 ^ 32"
  shows "map_inv L t idx st'"
  using assms
proof (induction pg f fls off len st rule: piece_map_loop.induct)
  case (2 pg f fl fls off len st)
  note prems = "2.prems" and one = map_inv_one [OF "2.prems"(2) _ _ "2.prems"(5,6)]
  let ?n = "word_of_int (fl - off) :: u32"
  consider "off > fl" | "off \<le> fl" "fl < uint len \<and> tpp_len (fst st) < len" | "off \<le> fl" "\<not> (fl < uint len \<and> tpp_len (fst st) < len)" "off + uint len > fl"
    | "off \<le> fl" "\<not> (fl < uint len \<and> tpp_len (fst st) < len)" "\<not> off + uint len > fl" by linarith
  then show ?case
  proof cases
    case 1
    then show ?thesis using "2.IH"(1) prems by simp
  next
    case 2
    have n: "unat ?n \<le> unat len" using part_length [of off fl len] 2 prems(3) by simp
    show ?thesis
    proof (cases "fl - off = 0")
      case True
      then show ?thesis using "2.IH"(2) 2 prems by simp
    next
      case False
      then obtain st1 where s: "map_one pg st (f, off, ?n) = Ok st1" "piece_map_loop pg (f + 1) fls 0 (len - ?n) st1 = Ok st'"
        using prems(1) 2 by (auto simp: rbind_eq_Ok)
      then show ?thesis using "2.IH"(3) [OF _ _ False s(1) s(2)] one [OF s(1) n] 2 prems by simp
    qed
  next
    case 3
    note c3 = this
    have n: "unat ?n \<le> unat len" using part_length [of off fl len] 3 prems(3) by simp
    show ?thesis
    proof (cases "fl = off")
      case True
      then show ?thesis using "2.IH"(4) 3 prems by (auto split: if_splits)
    next
      case False
      then obtain st1 where s1: "map_one pg st (f, off, ?n) = Ok st1"
        using prems(1) 3 by (cases "map_one pg st (f, off, ?n)") (auto split: if_splits)
      then obtain nl nls where "fls = nl # nls" using prems(1) 3 False by (cases fls) (auto split: if_splits)
      note s = s1 this
      have i: "map_inv L t idx st1" "unat (tpp_len (fst st1)) + unat (len - ?n) \<le> L" using one [OF s(1) n] by simp_all
      have nl: "0 \<le> nl" "\<forall>fl \<in> set nls. 0 \<le> fl" using prems(4) s(2) by simp_all
      let ?len = "len - ?n"
      consider "nl < uint ?len" "nl = 0" | "nl < uint ?len" "nl \<noteq> 0" | "\<not> nl < uint ?len" "?len = 0" | "\<not> nl < uint ?len" "?len \<noteq> 0"
        by blast
      then show ?thesis
      proof cases
        case 1
        then show ?thesis using "2.IH"(5) [OF _ _ _ False s(1)] 3 False s i nl prems by (auto split: if_splits)
      next
        case 2
        then obtain st2 where s2: "map_one pg st1 (f + 1, 0, word_of_int nl) = Ok st2"
          "piece_map_loop pg (f + 2) nls 0 (?len - word_of_int nl) st2 = Ok st'"
          using prems(1) 3 False s by (auto simp: rbind_eq_Ok Let_def)
        have "unat (word_of_int nl :: u32) \<le> unat ?len" using part_length [of 0 nl ?len] 2 nl by simp
        note j = map_inv_one [OF i(1) s2(1) this i(2) prems(6)]
        show ?thesis using "2.IH"(6) [OF _ _ _ False s(1)] s2 2 3 False s j nl prems by (auto split: if_splits)
      next
        case 3
        then have "uint len = fl - off" using part_length(1) [of off fl len] c3 prems(3) by simp
        then show ?thesis using c3(3) by simp
      next
        case 4
        then have "map_one pg st1 (f + 1, 0, ?len) = Ok st'" using prems(1) 3 False s by (auto simp: Let_def split: if_splits)
        then show ?thesis using map_inv_one(1) [OF i(1) _ _ i(2) prems(6)] by blast
      qed
    qed
  next
    case 4
    note c = this
    consider "off < fl" "len = 0" | "off < fl" "len \<noteq> 0" | "\<not> off < fl" by blast
    then show ?thesis
    proof cases
      case 1
      then show ?thesis using "2.IH"(8) c prems by (auto split: if_splits)
    next
      case 2
      then have "map_one pg st (f, off, len) = Ok st'" using prems(1) c by (auto split: if_splits)
      then show ?thesis using one by blast
    next
      case 3
      then show ?thesis using "2.IH"(9) c prems by (auto split: if_splits)
    qed
  qed
qed simp

lemma piece_map_same:
  assumes "torrent_piece_map pg tpp (t, dk) = Ok (tpp', t', dk')" "files_ok t"
  shows "map_inv (unat (tpp_len tpp)) t (tpp_index tpp) (tpp', t', dk')"
proof (cases "ttype t")
  case MULTIFILE
  then obtain tpp1 where "piece_map_loop pg 0 (map file_length (files t)) (uint (piece_length t) * uint (tpp_index tpp)) (tpp_len tpp)
      (tpp\<lparr>tpp_len := 0\<rparr>, t, dk) = Ok (tpp1, t', dk')" "tpp' = tpp1\<lparr>tpp_flags := tpp_flags tpp1 OR TORRENT_PIECE_MAPPED\<rparr>"
    using assms(1) by (auto simp: torrent_piece_map_def Let_def rmap_eq_Ok)
  moreover from map_loop_same [OF this(1), of "unat (tpp_len tpp)" t "tpp_index tpp"] have "map_inv (unat (tpp_len tpp)) t (tpp_index tpp) (tpp1, t', dk')"
    using assms(2) unsigned_less [of "tpp_len tpp", where 'a = nat] by (simp add: map_inv_def files_ok_def)
  ultimately show ?thesis by (simp add: map_inv_def)
next
  case SINGLEFILE
  then show ?thesis
    using assms(1) mmap_create_same(1) by (fastforce simp: torrent_piece_map_def Let_def rmap_eq_Ok rbind_eq_Ok map_inv_def)
qed

lemma healthy_tp:
  assumes "healthy e sc" "torrent_ok t" "files_ok t" "num_pieces t = num_pieces (tp sc)"
  shows "healthy e (sc\<lparr>tp := t, dsk := dk\<rparr>)" "rx_same sc (sc\<lparr>tp := t, dsk := dk\<rparr>)"
proof -
  have "quiet sc (sc\<lparr>tp := t, dsk := dk\<rparr>)" by (simp add: quiet_def)
  moreover have "bits_ok t x" if "peer_at sc p = Some x" for p x
    using sched_okD(2) [OF goodD(3) [OF assms(1)] that] assms(4) by (simp add: bits_ok_def bitfield_len_def)
  ultimately show "healthy e (sc\<lparr>tp := t, dsk := dk\<rparr>)" using quiet_good [OF assms(1), of "sc\<lparr>tp := t, dsk := dk\<rparr>"] assms(2-4) by simp
  show "rx_same sc (sc\<lparr>tp := t, dsk := dk\<rparr>)" by (simp add: rx_same_def assms(4))
qed

lemma files_ok_same: "same_files t t' \<Longrightarrow> files_ok t' = files_ok t"
proof -
  assume "same_files t t'"
  then have "num_pieces t' = num_pieces t" "map file_length (files t') = map file_length (files t)" by (auto simp: same_files_def)
  moreover from this(2) have "file_length ` set (files t') = file_length ` set (files t)" by (metis set_map)
  then have "(\<forall>n \<in> file_length ` set (files t'). 0 \<le> n) = (\<forall>n \<in> file_length ` set (files t). 0 \<le> n)" by (simp only:)
  ultimately show ?thesis by (simp add: files_ok_def)
qed

text \<open>A piece of the torrent is replaced by one that is not longer.\<close>

lemma torrent_ok_update:
  assumes "torrent_ok t" "unat idx < unat (num_pieces t)" "same_files t t'" "tpp_index tpp = idx"
    "unat (tpp_len tpp) \<le> unat (tpp_len (piece_array t ! unat idx))"
  shows "torrent_ok (update_piece t' idx tpp)"
proof -
  have "num_pieces t' = num_pieces t" "piece_array t' = piece_array t" using assms(3) by (auto simp: same_files_def)
  then show ?thesis using assms
    by (auto simp: torrent_ok_def pieces_ok_def update_piece_def nth_list_update) (metis word_unat_eq_iff)+
qed

lemma files_ok_update: "files_ok t \<Longrightarrow> same_files t t' \<Longrightarrow> files_ok (update_piece t' idx tpp)"
  using files_ok_same [of t t'] by (simp add: files_ok_def update_piece_def)

lemma healthy_piece:
  assumes "healthy e sc" "unat idx < unat (num_pieces (tp sc))" "same_files (tp sc) t'" "tpp_index tpp = idx"
    "unat (tpp_len tpp) \<le> unat (tpp_len (piece_array (tp sc) ! unat idx))"
  shows "healthy e (sc\<lparr>tp := update_piece t' idx tpp, dsk := dk\<rparr>)" "rx_same sc (sc\<lparr>tp := update_piece t' idx tpp, dsk := dk\<rparr>)"
proof -
  have "num_pieces (update_piece t' idx tpp) = num_pieces (tp sc)" using assms(3) by (auto simp: same_files_def update_piece_def)
  then show "healthy e (sc\<lparr>tp := update_piece t' idx tpp, dsk := dk\<rparr>)" "rx_same sc (sc\<lparr>tp := update_piece t' idx tpp, dsk := dk\<rparr>)"
    using healthy_tp [OF assms(1)] torrent_ok_update [OF goodD(4) [OF assms(1)] assms(2-5)] files_ok_update [OF goodD(5) [OF assms(1)] assms(3)]
    by blast+
qed

lemma keep_any: "keep e UNIV sc (Fault f)"
  by simp

lemma keep_pure_any: "(\<And>y. m = Ok y \<Longrightarrow> keep e UNIV sc (f y)) \<Longrightarrow> keep e UNIV sc (rbind m f)"
  by (rule keep_pure) simp_all

lemma broadcast_keep:
  assumes "healthy e sc"
  shows "keep e UNIV sc (broadcast m sc)"
proof (cases "broadcast m sc")
  case (Ok sc')
  then have "rarity_array sc' = rarity_array sc" "last_rarity sc' = last_rarity sc"
    by (auto simp: broadcast_def rbind_eq_Ok rmap_eq_Ok split: option.splits)
  then show ?thesis using fields_good [OF assms, of sc'] Ok quiet_broadcast [OF Ok] broadcast_tp [OF Ok] by simp
qed simp

lemma announce_keep:
  assumes "healthy e sc"
  shows "keep e UNIV sc (rmap snd (announce t fd ev sc))"
proof (cases "announce t fd ev sc")
  case (Ok r)
  have "peer_at (snd r) = peer_at sc \<and> quiet sc (snd r) \<and> tp (snd r) = tp sc \<and> rarity_array (snd r) = rarity_array sc
      \<and> last_rarity (snd r) = last_rarity sc"
    using Ok by (auto simp: announce_def Let_def quiet_def elim!: rbind_OkE split: if_split_asm option.split_asm prod.splits)
  then show ?thesis using Ok fields_good [OF assms, of "snd r"] by simp
qed simp

lemma read_piece_keep:
  assumes "healthy e sc" "p \<in> set (peers sc)" "unat idx < unat (num_pieces (tp sc))"
  shows "keep e UNIV sc (network_peer_read_piece e p idx off len data sc)"
  unfolding network_peer_read_piece_def
proof (rule keep_piece [OF assms(1,3)], rule keep_dl_find [OF assms(1)])
  fix d pd
  assume d: "dl_at sc d = Some pd"
  let ?y = "pd\<lparr>pd_bytes := pd_bytes pd + len\<rparr>"
  let ?s = "\<lambda>dk. set_dl (sc\<lparr>dsk := dk\<rparr>) d ?y"
  let ?u = "\<lambda>dk. (?s dk)\<lparr>tp := (tp sc)\<lparr>downloaded := downloaded (tp sc) + uint len\<rparr>\<rparr>"
  have h: "healthy e (?u dk)" "rx_same sc (?u dk)" for dk
  proof -
    have 1: "healthy e (sc\<lparr>dsk := dk\<rparr>)" "rx_same sc (sc\<lparr>dsk := dk\<rparr>)" using fields_good [OF assms(1), of "sc\<lparr>dsk := dk\<rparr>"] by simp_all
    have 2: "healthy e (?s dk)" "rx_same (sc\<lparr>dsk := dk\<rparr>) (?s dk)" using set_dl_good [OF 1(1), of d pd ?y] d by (simp_all add: dl_key_def)
    let ?t = "(tp sc)\<lparr>downloaded := downloaded (tp sc) + uint len\<rparr>"
    have "torrent_ok ?t" "files_ok ?t" using goodD(4,5) [OF assms(1)] by (simp_all add: torrent_ok_def pieces_ok_def files_ok_def)
    then have 3: "healthy e ((?s dk)\<lparr>tp := ?t, dsk := dk\<rparr>)" "rx_same (?s dk) ((?s dk)\<lparr>tp := ?t, dsk := dk\<rparr>)"
      using healthy_tp [OF 2(1), of ?t dk] by (simp_all add: set_dl_def)
    moreover have "(?s dk)\<lparr>tp := ?t, dsk := dk\<rparr> = ?u dk" by (simp add: set_dl_def)
    ultimately show "healthy e (?u dk)" "rx_same sc (?u dk)"
      using rx_same_trans [OF rx_same_trans [OF 1(2) 2(2)] 3(2)] by simp_all
  qed
  have k: "keep e UNIV sc (rbind (get_peer (?u dk) p) (\<lambda>x.
      ctl_server_notify_bytes (downloaded (tp (?u dk))) (set_peer (?u dk) p (x\<lparr>totalrx := totalrx x + ucast len\<rparr>))))" for dk
  proof (rule keep_from [OF h(2)], rule keep_get_peer [OF h(1)])
    fix x
    assume x: "peer_at (?u dk) p = Some x"
    let ?v = "set_peer (?u dk) p (x\<lparr>totalrx := totalrx x + ucast len\<rparr>)"
    have "keep e UNIV (?u dk) (Ok ?v)" by (rule keep_set_peer [OF h(1) x]) (simp_all add: rx_of_def)
    then show "keep e UNIV (?u dk) (ctl_server_notify_bytes (downloaded (tp (?u dk))) ?v)"
      using keep_from [of "?u dk" ?v] broadcast_keep [of e ?v] by (simp add: ctl_server_notify_bytes_def)
  qed (use assms(2) in \<open>simp add: set_dl_def\<close>)
  show "keep e UNIV sc (case Some d of
         None \<Rightarrow> Ok sc
       | Some d \<Rightarrow>
           rbind (torrent_block_write (piece_array (tp sc) ! unat idx) (uint off) len data (dsk sc)) (\<lambda>dk.
           rbind (get_dl sc d) (\<lambda>pd.
           let sc = set_dl (sc\<lparr>dsk := dk\<rparr>) d (pd\<lparr>pd_bytes := pd_bytes pd + len\<rparr>);
               sc = sc\<lparr>tp := (tp sc)\<lparr>downloaded := downloaded (tp sc) + uint len\<rparr>\<rparr>
           in rbind (get_peer sc p) (\<lambda>x.
                ctl_server_notify_bytes (downloaded (tp sc)) (set_peer sc p (x\<lparr>totalrx := totalrx x + ucast len\<rparr>))))))"
    using d by (simp add: get_dl_def Let_def) (rule keep_pure_any, use k in \<open>simp add: set_dl_def\<close>)
qed (use assms in simp_all)

text \<open>Reads of a healthy session are not allowed to fail, but a run over storage is.\<close>

lemma unmap_same: "torrent_piece_unmap tpp t = (tpp', t') \<Longrightarrow> same_files t t' \<and> tpp_index tpp' = tpp_index tpp \<and> tpp_len tpp' = tpp_len tpp"
proof -
  have "same_files t (fold (\<lambda>m t. t\<lparr>files := (files t)[mm_file m := unref (files t ! mm_file m)]\<rparr>) ms t)" for ms
  proof (induction ms arbitrary: t)
    case (Cons m ms)
    have "same_files t (t\<lparr>files := (files t)[mm_file m := unref (files t ! mm_file m)], isnew := isnew t\<rparr>)"
      by (rule same_filesI, rule map_update_same) (simp add: unref_def Let_def)
    then show ?case using same_files_trans [OF _ Cons] by simp
  qed simp
  then show "torrent_piece_unmap tpp t = (tpp', t') \<Longrightarrow> same_files t t' \<and> tpp_index tpp' = tpp_index tpp \<and> tpp_len tpp' = tpp_len tpp"
    by (auto simp: torrent_piece_unmap_def)
qed

lemma checkhash_same: "torrent_piece_checkhash t tpp dk = Ok (r, tpp') \<Longrightarrow> tpp_index tpp' = tpp_index tpp \<and> tpp_len tpp' = tpp_len tpp"
  by (auto simp: torrent_piece_checkhash_def Let_def elim!: rbind_OkE split: if_split_asm option.split_asm prod.splits)

lemma piece_done_keep:
  assumes "healthy e sc"
  shows "keep e UNIV sc (piece_done e idx len offs sc)"
  unfolding piece_done_def
proof (rule keep_pure_any)
  fix c
  let ?sc = "sc\<lparr>resume_file := Some c, tp := (tp sc)\<lparr>good_pieces := good_pieces (tp sc) + 1, left := left (tp sc) - uint len\<rparr>\<rparr>"
  let ?t = "(tp sc)\<lparr>good_pieces := good_pieces (tp sc) + 1, left := left (tp sc) - uint len\<rparr>"
  have 1: "healthy e (sc\<lparr>resume_file := Some c\<rparr>)" "rx_same sc (sc\<lparr>resume_file := Some c\<rparr>)"
    using fields_good [OF assms, of "sc\<lparr>resume_file := Some c\<rparr>"] by simp_all
  have "torrent_ok ?t" "files_ok ?t" using goodD(4,5) [OF assms] by (simp_all add: torrent_ok_def pieces_ok_def files_ok_def)
  then have h: "healthy e ?sc" "rx_same sc ?sc"
    using healthy_tp [OF 1(1), of ?t "dsk sc"] rx_same_trans [OF 1(2)] by simp_all
  have k: "keep e UNIV ?sc (if good_pieces (tp ?sc) = num_pieces (tp ?sc)
            then if \<not> e_seed e then Fault (Exit ''download complete'')
                 else if \<not> announce_underway ?sc then rmap snd (announce (e_now e) (e_tracker e) (Some (cstr (str ''completed''))) ?sc)
                 else Ok ?sc
            else Ok ?sc)"
    using announce_keep [OF h(1)] h(1)
    by (simp only: if_split [of "keep e UNIV ?sc"] keep_Ok keep_Fault rx_same_refl UNIV_I simp_thms)
  have w: "keep e UNIV sc' (rbind (rfold (\<lambda>sc q. network_peer_write_have (e_now e) q idx sc) sc' (peers sc')) (\<lambda>sc.
     rbind (ctl_server_notify_pieces sc) (\<lambda>sc. rfold (free_block idx) sc offs)))" if "healthy e sc'" for sc'
  proof (rule keep_bind)
    show "keep e UNIV sc' (rfold (\<lambda>sc q. network_peer_write_have (e_now e) q idx sc) sc' (peers sc'))"
      by (rule keep_rfold [OF that]) (simp add: writes_keep rx_same_peers)
    show "keep e UNIV sc1 (rbind (ctl_server_notify_pieces sc1) (\<lambda>sc. rfold (free_block idx) sc offs))" if "healthy e sc1" for sc1
      using that by (intro keep_bind keep_rfold) (simp_all add: ctl_server_notify_pieces_def broadcast_keep free_block_keep)
  qed
  show "keep e UNIV sc (let sc = ?sc in
     rbind (if good_pieces (tp sc) = num_pieces (tp sc)
            then if \<not> e_seed e then Fault (Exit ''download complete'')
                 else if \<not> announce_underway sc then rmap snd (announce (e_now e) (e_tracker e) (Some (cstr (str ''completed''))) sc)
                 else Ok sc
            else Ok sc) (\<lambda>sc.
     rbind (rfold (\<lambda>sc q. network_peer_write_have (e_now e) q idx sc) sc (peers sc)) (\<lambda>sc.
     rbind (ctl_server_notify_pieces sc) (\<lambda>sc. rfold (free_block idx) sc offs))))"
    unfolding Let_def by (rule keep_from [OF h(2)], rule keep_bind [OF k]) (rule w)
qed

lemma finish_piece_keep:
  assumes "healthy e sc" "unat idx < unat (num_pieces (tp sc))"
  shows "keep e UNIV sc (finish_piece e idx offs sc)"
  unfolding finish_piece_def
proof (rule keep_piece [OF assms], rule keep_pure_any)
  fix y
  let ?tpp = "piece_array (tp sc) ! unat idx"
  assume y: "torrent_piece_checkhash (tp sc) ?tpp (dsk sc) = Ok y"
  obtain res tpp1 tpp2 t2 where s: "y = (res, tpp1)" "torrent_piece_unmap tpp1 (tp sc) = (tpp2, t2)" by (metis prod.exhaust)
  let ?sc = "sc\<lparr>tp := update_piece t2 idx tpp2\<rparr>"
  have i: "tpp_index ?tpp = idx" using torrent_ok_piece(2) [OF goodD(4) [OF assms(1)] assms(2)] .
  have "same_files (tp sc) t2" "tpp_index tpp2 = idx" "tpp_len tpp2 = tpp_len ?tpp"
    using unmap_same [OF s(2)] checkhash_same y s(1) i by auto
  then have h: "healthy e ?sc" "rx_same sc ?sc" using healthy_piece [OF assms, of t2 tpp2 "dsk sc"] by simp_all
  then show "keep e UNIV sc (case y of (res, tpp) \<Rightarrow> let (tpp, t) = torrent_piece_unmap tpp (tp sc); sc = sc\<lparr>tp := update_piece t idx tpp\<rparr> in
     if res = 0 then piece_done e idx (tpp_len tpp) offs sc else rfold (free_block idx) sc offs)"
    using keep_from [OF h(2) piece_done_keep [OF h(1)]]
      keep_from [OF h(2) keep_rfold [OF h(1), of offs UNIV "free_block idx"]] free_block_keep [of e _ UNIV idx]
    by (simp add: s Let_def)
qed

lemma take_piece_keep:
  assumes "healthy e sc" "p \<in> set (peers sc)" "unat idx < unat (num_pieces (tp sc))"
  shows "keep e UNIV sc (take_piece e p idx off len data sc)"
  unfolding take_piece_def
proof (rule keep_get_peer [OF assms(1,2)])
  fix x
  assume x: "peer_at sc p = Some x"
  let ?sc = "set_peer sc p (x\<lparr>dl_queue_len := dl_queue_len x - 1\<rparr>)" and ?tpp = "piece_array (tp sc) ! unat idx"
  let ?run = "\<lambda>sc. rbind (network_peer_read_piece e p idx off len data sc) (\<lambda>sc.
     rbind (torrent_piece_find (tp sc) idx) (\<lambda>tpp.
     rbind (block_offs (tpp_len tpp)) (\<lambda>offs.
     rbind (blocks_loop sc p idx offs) (\<lambda>found.
       if found then finish_piece e idx offs sc else Ok sc))))"
  let ?map = "if tpp_flags ?tpp AND TORRENT_PIECE_MAPPED = 0
            then rmap (\<lambda>(tpp, t, dk). ?sc\<lparr>tp := update_piece t idx tpp, dsk := dk\<rparr>) (torrent_piece_map (e_page e) ?tpp (tp ?sc, dsk ?sc))
            else Ok ?sc"
  have "keep e UNIV sc (Ok ?sc)" by (rule keep_set_peer [OF assms(1) x]) (simp_all add: rx_of_def)
  then have h: "healthy e ?sc" "rx_same sc ?sc" by simp_all
  have i: "tpp_index ?tpp = idx" using torrent_ok_piece(2) [OF goodD(4) [OF assms(1)] assms(3)] .
  have f: "torrent_piece_find (tp ?sc) idx = Ok ?tpp" using torrent_ok_piece(1) [OF goodD(4) [OF assms(1)] assms(3)] by simp
  have "keep e UNIV ?sc (Ok (?sc\<lparr>tp := update_piece t idx tpp, dsk := dk\<rparr>))"
    if "torrent_piece_map (e_page e) ?tpp (tp ?sc, dsk ?sc) = Ok (tpp, t, dk)" for tpp t dk
    using piece_map_same [OF that goodD(5) [OF h(1)]] healthy_piece [OF h(1), of idx t tpp dk] assms(3) i
    by (simp add: map_inv_def)
  then have m: "keep e UNIV ?sc ?map"
    using h(1) by (cases "torrent_piece_map (e_page e) ?tpp (tp ?sc, dsk ?sc)") auto
  have r: "keep e UNIV sc1 (?run sc1)" if h1: "healthy e sc1" "rx_same ?sc sc1" for sc1
  proof (rule keep_bind)
    have n: "unat idx < unat (num_pieces (tp sc1))" "p \<in> set (peers sc1)" using assms(2,3) h1(2) by (simp_all add: rx_same_num rx_same_peers)
    show "keep e UNIV sc1 (network_peer_read_piece e p idx off len data sc1)" by (rule read_piece_keep [OF h1(1) n(2,1)])
    show "keep e UNIV sc2 (rbind (torrent_piece_find (tp sc2) idx) (\<lambda>tpp.
     rbind (block_offs (tpp_len tpp)) (\<lambda>offs. rbind (blocks_loop sc2 p idx offs) (\<lambda>found.
       if found then finish_piece e idx offs sc2 else Ok sc2))))" if "healthy e sc2" "rx_same sc1 sc2" for sc2
      using finish_piece_keep [OF that(1), of idx] n(1) that by (intro keep_pure_any) (simp add: rx_same_num)
  qed
  show "keep e UNIV sc (let sc = ?sc in rbind (torrent_piece_find (tp sc) idx) (\<lambda>tpp.
     rbind (if tpp_flags tpp AND TORRENT_PIECE_MAPPED = 0
            then rmap (\<lambda>(tpp, t, dk). sc\<lparr>tp := update_piece t idx tpp, dsk := dk\<rparr>) (torrent_piece_map (e_page e) tpp (tp sc, dsk sc))
            else Ok sc) ?run))"
    unfolding Let_def f rbind.simps by (rule keep_from [OF h(2)], rule keep_bind [OF m]) (rule r)
qed

lemma process_piece_keep:
  assumes "healthy e sc" "p \<in> set (peers sc)"
  shows "keep e UNIV sc (process_piece e p m sc)"
proof -
  have s: "keep e UNIV sc' (rbind (get_peer sc' p) (\<lambda>x. Ok (set_peer sc' p (x\<lparr>lastrecv := e_now e\<rparr>))))"
    if "healthy e sc'" "rx_same sc sc'" for sc'
    by (rule keep_get_peer [OF that(1)], use that(2) assms(2) in \<open>simp add: rx_same_peers\<close>, rule keep_set_peer [OF that(1)])
      (simp_all add: rx_of_def)
  have "keep e UNIV sc (rbind (if tpp_flags tpp AND TORRENT_PIECE_CKSUMOK = 0 then take_piece e p idx off len data sc else Ok sc) (\<lambda>sc.
               rbind (get_peer sc p) (\<lambda>x. Ok (set_peer sc p (x\<lparr>lastrecv := e_now e\<rparr>)))))"
    if "unat idx < unat (num_pieces (tp sc))" for tpp idx off len data
    by (rule keep_bind) (use s take_piece_keep [OF assms that] assms(1) in simp_all)
  note take = this
  have "keep e UNIV sc (rbind (network_piece_dl_find sc (Some p) idx off) (\<lambda>r. case r of
           None \<Rightarrow> kill_peer p sc
         | Some d \<Rightarrow> rbind (get_dl sc d) (\<lambda>pd. rbind (get_peer sc p) (\<lambda>x.
             if (ucast (rxmsglen x) - 9 :: u64) \<noteq> ucast (pd_len pd) then Ok sc
             else rbind (if tpp_flags tpp AND TORRENT_PIECE_CKSUMOK = 0 then take_piece e p idx off (rxmsglen x - 9) (drop 9 m) sc else Ok sc) (\<lambda>sc.
               rbind (get_peer sc p) (\<lambda>x. Ok (set_peer sc p (x\<lparr>lastrecv := e_now e\<rparr>))))))))"
    if "unat idx < unat (num_pieces (tp sc))" for tpp idx off
    by (rule keep_dl_find [OF assms(1)]) (simp_all add: assms kill_keep keep_pure_any take [OF that])
  note core = this
  show ?thesis
    unfolding process_piece_def
    by (intro keep_field keep_index keep_piece assms(1) disjI1 refl, assumption, rule keep_if, simp add: assms(1), rule core, assumption)
qed

section \<open>Every message\<close>

text \<open>The message has the fields that its handler reads.\<close>

definition has_fields :: "u8 \<Rightarrow> bytes \<Rightarrow> bool" where
  "has_fields mid m \<longleftrightarrow> m \<noteq> []
     \<and> (mid \<in> {PEER_MSG_ID_HAVE, PEER_MSG_ID_ALLOWEDFAST, PEER_MSG_ID_SUGGEST} \<longrightarrow> 5 \<le> length m)
     \<and> (mid \<in> {PEER_MSG_ID_REQUEST, PEER_MSG_ID_CANCEL, PEER_MSG_ID_REJECT} \<longrightarrow> 13 \<le> length m)"

lemma process_message_keep:
  assumes "healthy e sc" "p \<in> set (peers sc)" "\<And>x. peer_at sc p = Some x \<Longrightarrow> unat (rxmsglen x) = length m" "m \<noteq> []"
    and "F = UNIV \<or> has_fields mid m \<and> mid \<noteq> PEER_MSG_ID_PIECE"
  shows "keep e F sc (network_peer_process_message e mid p m sc)"
proof -
  note b = assms(1,2)
  have n: "F = UNIV \<or> 5 \<le> length m" if "mid \<in> {PEER_MSG_ID_HAVE, PEER_MSG_ID_ALLOWEDFAST, PEER_MSG_ID_SUGGEST}"
    using assms(5) that by (auto simp: has_fields_def)
  have l: "F = UNIV \<or> 13 \<le> length m" if "mid \<in> {PEER_MSG_ID_REQUEST, PEER_MSG_ID_CANCEL, PEER_MSG_ID_REJECT}"
    using assms(5) that by (auto simp: has_fields_def)
  have pc: "keep e F sc (process_piece e p m sc)" if "mid = PEER_MSG_ID_PIECE"
    using process_piece_keep [OF b] assms(5) that by auto
  have su: "keep e F sc (process_suggest m sc)" if "mid = PEER_MSG_ID_ALLOWEDFAST \<or> mid = PEER_MSG_ID_SUGGEST"
    unfolding process_suggest_def by (rule keep_rmap, rule keep_field) (use n that b(1) in auto)
  show ?thesis
    unfolding network_peer_process_message_def
    using process_choke_keep [OF b] change_state_keep [OF b] process_have_keep [OF b n] process_bitfield_keep [OF b assms(3,4)]
      process_request_keep [OF b l] pc process_cancel_keep [OF b l] process_reject_keep [OF b l] process_haveall_keep [OF b] su b(1)
    by (intro keep_if) simp_all
qed

end
