(* ===== verification/Network_Rx.thy ===== *)
theory Network_Rx
  imports Network_Msg
begin

text \<open>
  Receiving: how the bytes of a peer are cut into pieces by the network makes no difference, and the
  session stays healthy whatever a peer sends.
\<close>

declare network_handle_peer_response.simps [simp del]

section \<open>The receive buffer of a peer\<close>

definition rx_buf :: "peer \<Rightarrow> bool" where
  "rx_buf x \<longleftrightarrow> (rxpending x \<noteq> 0 \<longrightarrow> (\<exists>m. rxmsg x = Some m \<and> length m = unat (rxmsglen x) \<and> rxpending x \<le> rxmsglen x))"

definition rx_fine :: "peer \<Rightarrow> bool" where
  "rx_fine x \<longleftrightarrow> state x AND PEER_STATE_SENDBITFIELD = 0 \<and> rx_buf x"

lemma rx_fineD: "rx_fine x \<Longrightarrow> rx_buf x"
  by (simp add: rx_fine_def)

lemma set_peer_twice [simp]: "set_peer (set_peer sc p x) p y = set_peer sc p y"
  by (simp add: set_peer_def)

lemma rx_begin_fine:
  assumes "rx_fine x"
  shows "rx_fine (rx_begin t x)" "rx_of (rx_begin t x) = rx_of x \<or> rxpending x = 0"
    "peer_piece_dls (rx_begin t x) = peer_piece_dls x" "bitfield (rx_begin t x) = bitfield x"
proof -
  have "(s AND NOT PEER_STATE_GOTLEN) AND PEER_STATE_SENDBITFIELD = 0" if "s AND PEER_STATE_SENDBITFIELD = 0" for s
  proof -
    have "(s AND NOT PEER_STATE_GOTLEN) AND PEER_STATE_SENDBITFIELD = (s AND PEER_STATE_SENDBITFIELD) AND NOT PEER_STATE_GOTLEN"
      by (simp add: and.assoc and.commute and.left_commute)
    then show ?thesis using that by simp
  qed
  then show "rx_fine (rx_begin t x)" using assms by (auto simp: rx_fine_def rx_buf_def rx_begin_def BT_INITIAL_LEN_def LENGTH_FIELD_def)
qed (simp_all add: rx_begin_def)

lemma rx_begin_buf:
  assumes "rx_buf x"
  shows "rx_buf (rx_begin t x)" "peer_piece_dls (rx_begin t x) = peer_piece_dls x" "bitfield (rx_begin t x) = bitfield x"
  using assms by (auto simp: rx_buf_def rx_begin_def BT_INITIAL_LEN_def LENGTH_FIELD_def)

text \<open>One read into a started buffer.\<close>

lemma rx_read_run:
  assumes "rx_buf y" "rxpending y \<noteq> 0"
  obtains m where "rxmsg y = Some m" "length m = unat (rxmsglen y)" "unat (rxpending y) \<le> unat (rxmsglen y)"
    "rx_read input y = Ok (y\<lparr>rxmsg := Some (mwrite m (unat (rxmsglen y) - unat (rxpending y)) (take (unat (rxpending y)) input)),
       totalrx := totalrx y + of_nat (length (take (unat (rxpending y)) input)),
       rxpending := rxpending y - of_nat (length (take (unat (rxpending y)) input))\<rparr>)"
proof -
  obtain m where m: "rxmsg y = Some m" "length m = unat (rxmsglen y)" "unat (rxpending y) \<le> unat (rxmsglen y)"
    using assms by (auto simp: rx_buf_def word_le_nat_alt)
  moreover have "unat (rxmsglen y - rxpending y) = unat (rxmsglen y) - unat (rxpending y)"
    using m(3) by (simp add: unat_sub word_le_nat_alt)
  ultimately show ?thesis using that [OF m] by (simp add: rx_read_def Let_def)
qed

text \<open>A read that does not complete the pending part.\<close>

lemma rx_read_short:
  assumes "rx_fine y" "length a < unat (rxpending y)" "b \<noteq> []"
  shows "\<exists>z. rx_read a y = Ok z \<and> rxpending z \<noteq> 0 \<and> rx_fine z \<and> unat (rxpending z) = unat (rxpending y) - length a
    \<and> rx_read (a @ b) y = rx_read b z \<and> peer_piece_dls z = peer_piece_dls y \<and> bitfield z = bitfield y"
proof -
  have p: "rxpending y \<noteq> 0" using assms(2) by auto
  obtain m where m: "rxmsg y = Some m" "length m = unat (rxmsglen y)" "unat (rxpending y) \<le> unat (rxmsglen y)"
    using rx_read_run [OF rx_fineD [OF assms(1)] p] by metis
  let ?base = "unat (rxmsglen y) - unat (rxpending y)"
  have "length a < 2 ^ 32" using assms(2) unsigned_less [of "rxpending y", where 'a = nat] by simp
  then have u: "unat (of_nat (length a) :: u32) = length a" by (simp add: unat_of_nat)
  then have r: "unat (rxpending y - of_nat (length a)) = unat (rxpending y) - length a"
    using assms(2) by (simp add: unat_sub word_le_nat_alt)
  define z where "z = y\<lparr>rxmsg := Some (mwrite m ?base a), totalrx := totalrx y + of_nat (length a), rxpending := rxpending y - of_nat (length a)\<rparr>"
  have ra: "rx_read a y = Ok z"
    using rx_read_run [OF rx_fineD [OF assms(1)] p, of a] m assms(2) by (auto simp: z_def)
  have zp: "unat (rxpending z) = unat (rxpending y) - length a" using r by (simp add: z_def)
  then have z0: "rxpending z \<noteq> 0" using assms(2) by auto
  have zf: "rx_fine z"
    using assms(1,2) m zp by (auto simp: rx_fine_def rx_buf_def z_def mwrite_def word_le_nat_alt)
  have "rx_read (a @ b) y = rx_read b z"
  proof -
    let ?c = "take (unat (rxpending z)) b"
    have zm: "rxmsg z = Some (mwrite m ?base a)" "rxmsglen z = rxmsglen y" by (simp_all add: z_def)
    obtain mz where mz: "rxmsg z = Some mz" "rx_read b z = Ok (z\<lparr>rxmsg := Some (mwrite mz (unat (rxmsglen z) - unat (rxpending z)) ?c),
        totalrx := totalrx z + of_nat (length ?c), rxpending := rxpending z - of_nat (length ?c)\<rparr>)"
      using rx_read_run [OF rx_fineD [OF zf] z0, of b] by metis
    have tk: "take (unat (rxpending y)) (a @ b) = a @ ?c" using assms(2) by (simp add: zp)
    have w: "mwrite (mwrite m ?base a) (?base + length a) ?c = mwrite m ?base (a @ ?c)"
      using m assms(2) zp by (intro mwrite_mwrite_next) simp
    have e: "unat (rxmsglen z) - unat (rxpending z) = ?base + length a" using zp zm(2) assms(2) m(3) by simp
    have "rx_read (a @ b) y = Ok (y\<lparr>rxmsg := Some (mwrite m ?base (a @ ?c)), totalrx := totalrx y + of_nat (length (a @ ?c)),
        rxpending := rxpending y - of_nat (length (a @ ?c))\<rparr>)"
      using rx_read_run [OF rx_fineD [OF assms(1)] p, of "a @ b"] m(1) unfolding tk by auto
    moreover have "mz = mwrite m ?base a" using mz(1) zm(1) by simp
    then have "rx_read b z = Ok (z\<lparr>rxmsg := Some (mwrite m ?base (a @ ?c)),
        totalrx := totalrx z + of_nat (length ?c), rxpending := rxpending z - of_nat (length ?c)\<rparr>)"
      unfolding mz(2) e using w by simp
    ultimately show ?thesis by (simp add: z_def add.assoc diff_diff_eq)
  qed
  then show ?thesis using ra zp z0 zf by (auto simp: z_def)
qed

section \<open>One call of the handler\<close>

lemma set_peer_again [simp]: "set_peer (set_peer sc p x) p = set_peer sc p"
  by (rule ext) simp

lemma rx_frame_set_peer [simp]: "rx_frame e p x (set_peer sc p z) = rx_frame e p x sc"
  by (simp add: rx_frame_def split: option.splits)

lemma rmap_rbind: "rmap g (rbind m f) = rbind m (\<lambda>x. rmap g (f x))"
  and rmap_rmap: "rmap g (rmap h m) = rmap (\<lambda>x. g (h x)) m"
  by (cases m; simp)+

lemma step_short:
  assumes "peer_at sc p = Some x" "rx_fine x" "length a < unat (rxpending (rx_begin (e_now e) x))" "b \<noteq> []"
  shows "\<exists>z. rx_step e p a sc = Ok ([], set_peer sc p z) \<and> rx_fine z \<and> rx_step e p (a @ b) sc = rx_step e p b (set_peer sc p z)
    \<and> peer_piece_dls z = peer_piece_dls x \<and> bitfield z = bitfield x"
proof -
  let ?y = "rx_begin (e_now e) x"
  note y = rx_begin_fine [OF assms(2), of "e_now e"]
  obtain z where z: "rx_read a ?y = Ok z" "rxpending z \<noteq> 0" "rx_fine z" "unat (rxpending z) = unat (rxpending ?y) - length a"
    "rx_read (a @ b) ?y = rx_read b z" "peer_piece_dls z = peer_piece_dls ?y" "bitfield z = bitfield ?y"
    using rx_read_short [OF y(1) assms(3,4)] by blast
  have f: "rx_frame e p z sc = Ok (set_peer sc p z)" using z(2) by (simp add: rx_frame_def)
  have s: "send_bitfield e p (set_peer sc p z) = Ok (set_peer sc p z)"
    using z(3) by (simp add: send_bitfield_def get_peer_def rx_fine_def)
  have b: "rx_begin (e_now e) z = z" using z(2) by (simp add: rx_begin_def)
  have "rx_step e p a sc = Ok ([], set_peer sc p z)"
    using assms(1,3) z(1) f s by (simp add: rx_step_def get_peer_def Let_def)
  moreover have "rx_step e p (a @ b) sc = rx_step e p b (set_peer sc p z)"
    using assms(1,3) z(4,5) b by (simp add: rx_step_def get_peer_def Let_def)
  ultimately show ?thesis using z(3,6,7) y(3,4) by auto
qed

lemma step_long:
  assumes "peer_at sc p = Some x" "unat (rxpending (rx_begin (e_now e) x)) \<le> length a"
  shows "rx_step e p (a @ b) sc = rmap (\<lambda>(rest, sc). (rest @ b, sc)) (rx_step e p a sc)"
proof -
  let ?y = "rx_begin (e_now e) x"
  have "rx_read (a @ b) ?y = rx_read a ?y" using assms(2) by (simp add: rx_read_def Let_def cong: option.case_cong)
  then have "rx_step e p (a @ b) sc = rbind (rx_read a ?y) (\<lambda>x. rbind (rx_frame e p x sc) (\<lambda>sc.
      rmap (\<lambda>sc. (drop (unat (rxpending ?y)) a @ b, sc)) (send_bitfield e p sc)))"
    using assms by (simp add: rx_step_def get_peer_def Let_def)
  also have "\<dots> = rmap (\<lambda>(rest, sc). (rest @ b, sc)) (rbind (rx_read a ?y) (\<lambda>x. rbind (rx_frame e p x sc) (\<lambda>sc.
      rmap (\<lambda>sc. (drop (unat (rxpending ?y)) a, sc)) (send_bitfield e p sc))))"
    by (simp add: rmap_rbind rmap_rmap)
  finally show ?thesis using assms(1) by (simp add: rx_step_def get_peer_def Let_def)
qed


section \<open>A call keeps the session healthy\<close>

definition rx_ready :: "sysenv \<Rightarrow> nat \<Rightarrow> session \<Rightarrow> bool" where
  "rx_ready e p sc \<longleftrightarrow> healthy e sc \<and> p \<in> set (peers sc) \<and> (\<exists>x. peer_at sc p = Some x \<and> rx_fine x)"

definition rx_mid :: "sysenv \<Rightarrow> nat \<Rightarrow> session \<Rightarrow> bool" where
  "rx_mid e p sc \<longleftrightarrow> healthy e sc \<and> p \<in> set (peers sc) \<and> (\<exists>x. peer_at sc p = Some x \<and> rx_buf x)"

lemma mid_set_peer:
  assumes "healthy e sc" "p \<in> set (peers sc)" "peer_at sc p = Some x" "peer_piece_dls y = peer_piece_dls x" "bitfield y = bitfield x" "rx_buf y"
  shows "rx_mid e p (set_peer sc p y)"
  using set_peer_good [OF assms(1,3,4)] bits_ok_cong [OF assms(5)] sched_okD(2) [OF goodD(3) [OF assms(1)] assms(3)] assms(2,6)
  by (simp add: rx_mid_def)

lemma rx_same_peer: "rx_same sc sc' \<Longrightarrow> peer_at sc p = Some x \<Longrightarrow> \<exists>y. peer_at sc' p = Some y \<and> rx_of y = rx_of x"
  unfolding rx_same_def by (drule conjunct2, drule conjunct2, drule spec [of _ p]) auto

lemma mid_rx_same: "rx_mid e p sc \<Longrightarrow> healthy e sc' \<Longrightarrow> rx_same sc sc' \<Longrightarrow> rx_mid e p sc'"
proof -
  assume a: "rx_mid e p sc" "healthy e sc'" "rx_same sc sc'"
  then obtain x where x: "peer_at sc p = Some x" "rx_buf x" by (auto simp: rx_mid_def)
  then obtain y where "peer_at sc' p = Some y" "rx_of y = rx_of x" using rx_same_peer [OF a(3)] by blast
  moreover from this x(2) have "rx_buf y" by (simp add: rx_of_def rx_buf_def)
  ultimately show "rx_mid e p sc'" using a by (auto simp: rx_mid_def rx_same_def)
qed

lemma keep_mid: "rx_mid e p sc \<Longrightarrow> keep e F sc (Ok sc') \<Longrightarrow> rx_mid e p sc'"
  using mid_rx_same by simp

lemma ready_mid: "rx_ready e p sc \<Longrightarrow> rx_mid e p sc"
  by (auto simp: rx_ready_def rx_mid_def rx_fine_def)

text \<open>The receive buffers of the other peers are not touched.\<close>

definition rx_others :: "nat \<Rightarrow> session \<Rightarrow> session \<Rightarrow> bool" where
  "rx_others p sc sc' \<longleftrightarrow> (\<forall>q. q \<noteq> p \<longrightarrow> map_option rx_of (peer_at sc' q) = map_option rx_of (peer_at sc q))"

lemma rx_others_simps: "rx_same sc sc' \<Longrightarrow> rx_others p sc sc'" "rx_others p sc (set_peer sc p x)"
  "rx_others p a b \<Longrightarrow> rx_others p b c \<Longrightarrow> rx_others p a c"
  by (simp_all add: rx_others_def rx_same_def set_peer_def)

text \<open>The parts of the framing change the buffer and the state only.\<close>

lemmas run_simps = rbind_eq_Ok rmap_eq_Ok Let_def

definition same_rest :: "peer \<Rightarrow> peer \<Rightarrow> bool" where
  "same_rest x y \<longleftrightarrow> rx_buf y \<and> peer_piece_dls y = peer_piece_dls x \<and> bitfield y = bitfield x"

lemma handshake1_rest:
  assumes "rxpending x = 0" "rx_handshake1 m x = Ok y"
  shows "same_rest x y"
proof -
  obtain l plain where "(if plain
       then Ok (x\<lparr>pstrlen := l, rxpending := 8 + 20 + 20, rxmsglen := 8 + 20 + 20, rxmsg := Some (replicate (8 + 20 + 20) 0),
              state := (state (x\<lparr>pstrlen := l\<rparr>) AND NOT PEER_STATE_HANDSHAKE1) OR PEER_STATE_HANDSHAKE2\<rparr>)
       else Ok (x\<lparr>pstrlen := l, state := 0 OR PEER_STATE_DEAD\<rparr>)) = Ok y"
    using assms(2) unfolding rx_handshake1_def rbind_eq_Ok Let_def by blast
  then show ?thesis using assms(1) by (cases plain) (auto simp: same_rest_def rx_buf_def)
qed

lemma handshake2_rest:
  assumes "rxpending x = 0" "rx_handshake2 t m x = Ok y"
  shows "same_rest x y"
proof -
  obtain h i and fs :: bytes where "(let x = x\<lparr>peer_hash := h, peer_id := i\<rparr>; x = (if hd fs AND 4 \<noteq> 0 then x\<lparr>state := state x OR PEER_STATE_FAST\<rparr> else x)
     in if length (info_hash t) < 20 then Fault (Undef ''info_hash'')
        else if h \<noteq> take 20 (info_hash t) then Ok (x\<lparr>state := 0 OR PEER_STATE_DEAD\<rparr>)
        else Ok (x\<lparr>rxmsg := None, rxpending := 0,
               state := ((state x OR PEER_STATE_BITFIELD) OR PEER_STATE_SENDBITFIELD) AND NOT PEER_STATE_HANDSHAKE2\<rparr>)) = Ok y"
    using assms(2) unfolding rx_handshake2_def rbind_eq_Ok by blast
  then show ?thesis using assms(1) unfolding Let_def
    by (cases "hd fs AND 4 \<noteq> 0"; cases "length (info_hash t) < 20"; cases "h \<noteq> take 20 (info_hash t)") (auto simp: same_rest_def rx_buf_def)
qed

lemma length_rest: "rxpending x = 0 \<Longrightarrow> rx_length m x = Ok y \<Longrightarrow> same_rest x y"
  by (auto simp: rx_length_def run_simps same_rest_def rx_buf_def split: if_splits)

lemma rx_frame_mid:
  assumes "healthy e sc" "p \<in> set (peers sc)" "peer_at sc p = Some x" "peer_piece_dls y = peer_piece_dls x" "bitfield y = bitfield x" "rx_buf y"
    and "rxmsg y = Some m" "length m = unat (rxmsglen y)" "m \<noteq> []" "rx_frame e p y sc = Ok sc'"
  shows "rx_mid e p sc' \<and> rx_others p sc sc'"
proof -
  have set: "rx_mid e p (set_peer sc p z)" if "same_rest y z" for z
    using mid_set_peer [OF assms(1-3), of z] that assms(4,5) by (simp add: same_rest_def)
  note o = rx_others_simps
  have y: "rx_mid e p (set_peer sc p y)" using set [of y] assms(6) by (simp add: same_rest_def)
  show ?thesis
  proof (cases "rxpending y = 0 \<and> state y AND PEER_STATE_HANDSHAKE1 = 0 \<and> state y AND PEER_STATE_HANDSHAKE2 = 0 \<and> state y AND PEER_STATE_GOTLEN \<noteq> 0")
    case False
    then show ?thesis using assms(7,10) handshake1_rest [of y] handshake2_rest [of y] length_rest [of y] set y
      by (auto simp: rx_frame_def rmap_eq_Ok o(2) split: if_splits)
  next
    case True
    then obtain b s where s: "msg_bytes m 0 1 = Ok b" "network_peer_process_message e (hd b) p m (set_peer sc p y) = Ok s"
      "rbind (get_peer s p) (\<lambda>x. Ok (set_peer s p (x\<lparr>rxmsg := None\<rparr>))) = Ok sc'"
      using assms(7,10) by (auto simp: rx_frame_def rx_message_def rbind_eq_Ok)
    have "keep e UNIV (set_peer sc p y) (network_peer_process_message e (hd b) p m (set_peer sc p y))"
      using y assms(2,8,9) by (intro process_message_keep) (auto simp: rx_mid_def)
    then have h: "healthy e s" "rx_same (set_peer sc p y) s" using s(2) by simp_all
    then obtain z where z: "peer_at s p = Some z" "rx_of z = rx_of y" using rx_same_peer [OF h(2), of p y] by auto
    have "rx_buf (z\<lparr>rxmsg := None\<rparr>)" using z(2) True by (simp add: rx_of_def rx_buf_def)
    then have "rx_mid e p sc'" using mid_set_peer [OF h(1) _ z(1), of "z\<lparr>rxmsg := None\<rparr>"] s(3) z(1) h(2) assms(2)
      by (auto simp: rx_same_def get_peer_def)
    moreover have "rx_others p sc s" using o(3) [OF o(2) o(1) [OF h(2)]] .
    moreover have "rx_others p s sc'" using s(3) z(1) o(2) [of p s] by (auto simp: get_peer_def)
    ultimately show ?thesis using o(3) by blast
  qed
qed


lemma send_bitfield_mid:
  assumes "rx_mid e p sc" "send_bitfield e p sc = Ok sc'"
  shows "rx_ready e p sc' \<and> rx_same sc sc'"
proof -
  obtain x where x: "healthy e sc" "p \<in> set (peers sc)" "peer_at sc p = Some x" "rx_buf x" using assms(1) by (auto simp: rx_mid_def)
  have flag: "(s AND NOT PEER_STATE_SENDBITFIELD) AND PEER_STATE_SENDBITFIELD = 0" for s
    by (simp add: PEER_STATE_SENDBITFIELD_def and.assoc)
  have out: "rx_ready e p sc' \<and> rx_same s sc'" if m: "rx_mid e p s" "change_state p (\<lambda>s. s AND NOT PEER_STATE_SENDBITFIELD) s = Ok sc'" for s
  proof -
    obtain y where y: "healthy e s" "p \<in> set (peers s)" "peer_at s p = Some y" using m(1) by (auto simp: rx_mid_def)
    have "keep e UNIV s (Ok sc')" using change_state_keep [OF y(1,2), of UNIV] m(2) by metis
    then have "rx_mid e p sc'" "rx_same s sc'" using keep_mid [OF m(1)] by auto
    moreover have "peer_at sc' p = Some (y\<lparr>state := state y AND NOT PEER_STATE_SENDBITFIELD\<rparr>)"
      using m(2) y(3) by (auto simp: change_state_def get_peer_def)
    ultimately show ?thesis using flag by (auto simp: rx_mid_def rx_ready_def rx_fine_def)
  qed
  show ?thesis
  proof (cases "state x AND PEER_STATE_SENDBITFIELD = 0")
    case True
    then show ?thesis using assms(2) x by (auto simp: send_bitfield_def get_peer_def rx_ready_def rx_fine_def)
  next
    case False
    have bf: "keep e UNIV sc (network_peer_write_bitfield t p sc)" for t
      unfolding network_peer_write_bitfield_def Let_def by (rule keep_pure) (use peer_write_keep [OF x(1,2)] in simp_all)
    obtain em where em: "torrent_empty (tp sc) = Ok em"
      using assms(2) x(3) False by (auto simp: send_bitfield_def get_peer_def rbind_eq_Ok)
    define r where "r = (if state x AND PEER_STATE_FAST \<noteq> 0
        then if em then network_peer_write_havenone (e_now e) p sc
             else if good_pieces (tp sc) = num_pieces (tp sc) then network_peer_write_haveall (e_now e) p sc
             else network_peer_write_bitfield (e_now e) p sc
        else if \<not> em then network_peer_write_bitfield (e_now e) p sc else Ok sc)"
    have "keep e UNIV sc r" using bf [of "e_now e"] writes_keep(4,5) [OF x(1,2), of UNIV "e_now e"] x(1) by (simp add: r_def)
    moreover have "rbind r (change_state p (\<lambda>s. s AND NOT PEER_STATE_SENDBITFIELD)) = Ok sc'"
      using assms(2) x(3) False by (simp add: send_bitfield_def get_peer_def em r_def)
    ultimately show ?thesis using out keep_mid [OF assms(1), of UNIV] rx_same_trans by (cases r) auto
  qed
qed

lemma rx_read_len:
  assumes "rx_buf y" "rxpending y \<noteq> 0" "rx_read input y = Ok z"
  shows "\<exists>m. rxmsg z = Some m \<and> length m = unat (rxmsglen z) \<and> m \<noteq> [] \<and> rx_buf z
    \<and> peer_piece_dls z = peer_piece_dls y \<and> bitfield z = bitfield y"
proof -
  let ?new = "take (unat (rxpending y)) input"
  obtain m where m: "rxmsg y = Some m" "length m = unat (rxmsglen y)" "unat (rxpending y) \<le> unat (rxmsglen y)"
    and z: "z = y\<lparr>rxmsg := Some (mwrite m (unat (rxmsglen y) - unat (rxpending y)) ?new),
       totalrx := totalrx y + of_nat (length ?new), rxpending := rxpending y - of_nat (length ?new)\<rparr>"
    using rx_read_run [OF assms(1,2), of input] assms(3) by (metis res.inject(1))
  have n: "length ?new \<le> unat (rxpending y)" by simp
  have p: "rxpending z \<le> rxpending y"
    using z n by (simp add: word_le_nat_alt unat_sub unat_of_nat word_sub_le)
  have "length m > 0" using m(2,3) assms(2) unat_eq_zero [of "rxpending y"] by linarith
  then show ?thesis using z m n p by (auto simp: rx_buf_def mwrite_def word_le_nat_alt)
qed

lemma step_mid:
  assumes "rx_mid e p sc" "rx_step e p input sc = Ok (rest, sc')"
  shows "rx_ready e p sc' \<and> rx_others p sc sc'"
proof -
  obtain x where x: "healthy e sc" "p \<in> set (peers sc)" "peer_at sc p = Some x" "rx_buf x" using assms(1) by (auto simp: rx_mid_def)
  note b = rx_begin_buf [OF x(4), of "e_now e"]
  obtain z s where s: "rx_read input (rx_begin (e_now e) x) = Ok z" "rx_frame e p z sc = Ok s" "send_bitfield e p s = Ok sc'"
    using assms(2) x(3) by (auto simp: rx_step_def get_peer_def run_simps)
  obtain m where m: "rxmsg z = Some m" "length m = unat (rxmsglen z)" "m \<noteq> []" "rx_buf z"
    "peer_piece_dls z = peer_piece_dls x" "bitfield z = bitfield x"
    using rx_read_len [OF b(1) rx_begin_pending s(1)] b(2,3) by auto
  have "rx_mid e p s" "rx_others p sc s" using rx_frame_mid [OF x(1-3) m(5,6,4,1,2,3) s(2)] by simp_all
  then show ?thesis using send_bitfield_mid [OF _ s(3)] rx_others_simps(1,3) by blast
qed

lemma step_ready: "rx_ready e p sc \<Longrightarrow> rx_step e p input sc = Ok (rest, sc') \<Longrightarrow> rx_ready e p sc'"
  using step_mid [OF ready_mid] by blast

lemma response_mid:
  "rx_mid e p sc \<Longrightarrow> network_handle_peer_response e p input sc = Ok sc' \<Longrightarrow> rx_ready e p sc' \<and> rx_others p sc sc'"
proof (induction e p input sc rule: network_handle_peer_response.induct)
  case (1 e p input sc)
  obtain rest s where s: "rx_step e p input sc = Ok (rest, s)" "(if rest \<noteq> [] then network_handle_peer_response e p rest s else Ok s) = Ok sc'"
    using 1(3) by (subst (asm) network_handle_peer_response.simps) (auto simp: rbind_eq_Ok)
  have r: "rx_ready e p s" "rx_others p sc s" using step_mid [OF 1(2) s(1)] by simp_all
  then show ?case using 1(1) [OF s(1) refl] s(2) ready_mid rx_others_simps(3) by (cases "rest = []") auto
qed

lemma response_ready: "rx_ready e p sc \<Longrightarrow> network_handle_peer_response e p input sc = Ok sc' \<Longrightarrow> rx_ready e p sc'"
  using response_mid [OF ready_mid] by blast

section \<open>The cuts of the network\<close>

lemma response_split:
  assumes "rx_ready e p sc" "a \<noteq> []" "b \<noteq> []"
  shows "network_handle_peer_response e p (a @ b) sc
    = rbind (network_handle_peer_response e p a sc) (network_handle_peer_response e p b)"
  using assms
proof (induction e p a sc rule: network_handle_peer_response.induct)
  case (1 e p a sc)
  obtain x where x: "peer_at sc p = Some x" "rx_fine x" using 1(2) by (auto simp: rx_ready_def)
  note unfold = network_handle_peer_response.simps
  show ?case
  proof (cases "length a < unat (rxpending (rx_begin (e_now e) x))")
    case True
    then obtain z where "rx_step e p a sc = Ok ([], set_peer sc p z)" "rx_step e p (a @ b) sc = rx_step e p b (set_peer sc p z)"
      using step_short [OF x] 1(4) by blast
    then show ?thesis by (simp add: unfold [of e p a] unfold [of e p "a @ b"] unfold [of e p b "set_peer sc p z"])
  next
    case False
    then have l: "rx_step e p (a @ b) sc = rmap (\<lambda>(rest, sc). (rest @ b, sc)) (rx_step e p a sc)"
      using step_long [OF x(1)] by simp
    show ?thesis
    proof (cases "rx_step e p a sc")
      case (Ok r)
      obtain rest s where r: "r = (rest, s)" by (cases r)
      have "rx_ready e p s" using step_ready [OF 1(2)] Ok r by simp
      then have "rest \<noteq> [] \<Longrightarrow> network_handle_peer_response e p (rest @ b) s
          = rbind (network_handle_peer_response e p rest s) (network_handle_peer_response e p b)"
        using 1(1) [OF Ok [unfolded r] refl] 1(4) by (simp)
      then show ?thesis using l Ok r 1(4) by (simp add: unfold [of e p a sc] unfold [of e p "a @ b" sc])
    qed (simp add: l unfold [of e p a] unfold [of e p "a @ b"])
  qed
qed


section \<open>Properties\<close>

text \<open>A session of two established peers, and a system around it.\<close>

definition example_env :: sysenv where
  "example_env = \<lparr>e_now = 100, e_rnd = \<lambda>k. 7, e_page = 4096, e_seed = False, e_tracker = 5, e_connect = \<lambda>p. 6,
     e_gai = \<lambda>h p. None, e_listen = 4\<rparr>"

lemma two_peers_ready: "healthy example_env two_peers" "rx_ready example_env 0 two_peers"
proof -
  have "files_ok (tp two_peers)" "rarity_ready (e_now example_env) two_peers"
    by (simp_all add: files_ok_def two_peers_def example_session_def small_torrent_def example_torrent_def
        rarity_ready_def example_env_def RARITY_AGE_def)
  then show h: "healthy example_env two_peers" using two_peers_ok by (simp add: healthy_def)
  have "rx_fine (bits_peer 128)"
    by (simp add: rx_fine_def rx_buf_def bits_peer_def new_peer_def PEER_STATE_ESTABLISHED_def PEER_STATE_SENDBITFIELD_def)
  then show "rx_ready example_env 0 two_peers" using h by (simp add: rx_ready_def two_peers_def)
qed

text \<open>
  (C15) However the network cuts the bytes a peer sends into reads, \<^verbatim>\<open>network_handle_peer_response\<close> does the same:
  handling the parts one after the other, none of them empty, gives the result of handling all the bytes at once, faults
  included. The bytes may end anywhere in a handshake, a length or a message.
\<close>

theorem response_fragments:
  assumes "rx_ready e p sc" "cs \<noteq> []" "\<forall>c \<in> set cs. c \<noteq> []"
  shows "rfold (\<lambda>sc c. network_handle_peer_response e p c sc) sc cs = network_handle_peer_response e p (concat cs) sc"
  using assms
proof (induction cs arbitrary: sc)
  case (Cons c cs)
  note unfold = network_handle_peer_response.simps
  show ?case
  proof (cases "cs = []")
    case False
    then have c: "c \<noteq> []" "concat cs \<noteq> []" using Cons.prems(3) by (auto simp: neq_Nil_conv)
    have "rfold (\<lambda>sc c. network_handle_peer_response e p c sc) sc' cs = network_handle_peer_response e p (concat cs) sc'"
      if "network_handle_peer_response e p c sc = Ok sc'" for sc'
      using Cons.IH [OF response_ready [OF Cons.prems(1) that] False] Cons.prems(3) by simp
    then show ?thesis using response_split [OF Cons.prems(1) c]
      by (cases "network_handle_peer_response e p c sc") (simp_all)
  qed (cases "network_handle_peer_response e p c sc", simp_all)
qed simp

theorem response_fragments_witness:
  "rfold (\<lambda>sc c. network_handle_peer_response example_env 0 c sc) two_peers [[0, 0], [0, 1, 2], [0]]
    = network_handle_peer_response example_env 0 [0, 0, 0, 1, 2, 0] two_peers"
  using response_fragments [OF two_peers_ready(2), of "[[0, 0], [0, 1, 2], [0]]"] by simp

text \<open>
  (C16) Whatever bytes a peer sends, a call of \<^verbatim>\<open>network_handle_peer_response\<close> that returns leaves the session healthy:
  the downloads, the index and the peers still agree, the scheduler and the torrent keep their invariants, the peer is still
  listed and its receive buffer has room for every byte that is pending.
\<close>

theorem response_invariant:
  assumes "rx_ready e p sc" "network_handle_peer_response e p input sc = Ok sc'"
  shows "rx_ready e p sc' \<and> session_ok {} sc' \<and> sched_ok sc'"
  using response_ready [OF assms] by (simp add: rx_ready_def healthy_def)

text \<open>One byte that says INTERESTED, after its length.\<close>

lemma interested_run:
  "\<exists>sc'. network_handle_peer_response example_env 0 [0, 0, 0, 1, 2] two_peers = Ok sc'"
proof -
  let ?x = "bits_peer 128"
  have p: "peer_at two_peers 0 = Some ?x" by (simp add: two_peers_def)
  have s: "state ?x = PEER_STATE_ESTABLISHED" "rxpending ?x = 0" by (simp_all add: bits_peer_def new_peer_def)
  have f: "PEER_STATE_ESTABLISHED AND PEER_STATE_HANDSHAKE1 = 0" "PEER_STATE_ESTABLISHED AND PEER_STATE_HANDSHAKE2 = 0"
    "PEER_STATE_ESTABLISHED AND PEER_STATE_GOTLEN = 0" "PEER_STATE_ESTABLISHED AND PEER_STATE_SENDBITFIELD = 0"
    "PEER_STATE_ESTABLISHED AND NOT PEER_STATE_GOTLEN = PEER_STATE_ESTABLISHED"
    "PEER_STATE_ESTABLISHED OR PEER_STATE_GOTLEN = 260" "260 AND PEER_STATE_HANDSHAKE1 = 0" "260 AND PEER_STATE_HANDSHAKE2 = 0"
    "260 AND PEER_STATE_GOTLEN \<noteq> 0" "260 AND PEER_STATE_SENDBITFIELD = 0" "(260 OR PEER_STATE_INTERESTED) AND PEER_STATE_SENDBITFIELD = 0"
    by (simp_all add: peer_state_defs)
  have r: "replicate 4 (0 :: u8) = [0, 0, 0, 0]" by (simp add: eval_nat_numeral)
  let ?y = "?x\<lparr>state := PEER_STATE_ESTABLISHED, rxmsglen := 4, totalrx := totalrx ?x + 4, rxmsg := Some [0, 0, 0, 1], rxpending := 0\<rparr>"
  let ?z = "?y\<lparr>rxmsglen := 1, state := 260, rxmsg := Some [0], rxpending := 1\<rparr>"
  have "rx_read [0, 0, 0, 1, 2] (rx_begin 100 ?x) = Ok ?y" "rxpending (rx_begin 100 ?x) = 4"
    by (simp_all add: rx_begin_def rx_read_def s f LENGTH_FIELD_def mwrite_def r)
  moreover have "msg_u32 [0, 0, 0, 1] 0 = Ok 1"
    by (simp add: msg_u32_def mread_def u32_mem_def mem_u32_def ntohl_def)
  then have "rx_length [0, 0, 0, 1] ?y = Ok ?z" by (simp add: rx_length_def MAX_MESSAGE_LEN_def f)
  ultimately have 1: "rx_step example_env 0 [0, 0, 0, 1, 2] two_peers = Ok ([2], set_peer two_peers 0 ?z)"
    by (simp add: rx_step_def p example_env_def rx_frame_def f send_bitfield_def get_peer_def)
  have "rx_read [2] ?z = Ok (?z\<lparr>totalrx := totalrx ?x + 5, rxmsg := Some [2], rxpending := 0\<rparr>)"
    by (simp add: rx_read_def mwrite_def)
  then have "\<exists>sc. rx_step example_env 0 [2] (set_peer two_peers 0 ?z) = Ok ([], sc)"
    by (simp add: rx_step_def rx_begin_def get_peer_def rx_frame_def f rx_message_def msg_bytes_def mread_def
        network_peer_process_message_def change_state_def msg_id_defs send_bitfield_def)
  then show ?thesis using 1
    by (auto simp: network_handle_peer_response.simps [of _ _ "[0, 0, 0, 1, 2]"] network_handle_peer_response.simps [of _ _ "[2]"])
qed

theorem response_invariant_witness:
  "\<exists>sc'. network_handle_peer_response example_env 0 [0, 0, 0, 1, 2] two_peers = Ok sc' \<and> rx_ready example_env 0 sc'"
  using interested_run response_invariant [OF two_peers_ready(2)] by blast

text \<open>
  (C18) In a healthy session a message that has all its fields and is not a block is handled without a fault, whatever the
  values of the fields: indexes out of range, offsets, lengths, requests of unknown blocks, bit fields of the wrong size.
  The session is healthy afterwards, its list of peers and their receive buffers are as they were.
\<close>

theorem message_no_fault:
  assumes "healthy e sc" "peer_at sc p = Some x" "unat (rxmsglen x) = length m" "has_fields mid m" "mid \<noteq> PEER_MSG_ID_PIECE"
  shows "\<exists>sc'. network_peer_process_message e mid p m sc = Ok sc' \<and> healthy e sc' \<and> rx_same sc sc'"
proof -
  have "keep e {} sc (network_peer_process_message e mid p m sc)"
    using assms goodD(8) [OF assms(1,2)] by (intro process_message_keep) (auto simp: has_fields_def)
  then show ?thesis by (cases "network_peer_process_message e mid p m sc") simp_all
qed

theorem message_no_fault_witness:
  "\<exists>sc'. network_peer_process_message example_env PEER_MSG_ID_REQUEST 0 [6, 255, 255, 255, 255, 0, 0, 0, 0, 0, 0, 64, 0]
      (set_peer two_peers 0 ((bits_peer 128)\<lparr>rxmsglen := 13\<rparr>)) = Ok sc' \<and> healthy example_env sc'"
proof -
  let ?x = "(bits_peer 128)\<lparr>rxmsglen := 13\<rparr>" and ?m = "[6, 255, 255, 255, 255, 0, 0, 0, 0, 0, 0, 64, 0] :: bytes"
  have x: "peer_at two_peers 0 = Some (bits_peer 128)" by (simp add: two_peers_def)
  have "bits_ok (tp two_peers) ?x"
    using sched_okD(2) [OF two_peers_ok(2) x] by (simp add: bits_ok_def)
  then have "healthy example_env (set_peer two_peers 0 ?x)"
    by (intro set_peer_good [OF two_peers_ready(1) x]) simp_all
  then show ?thesis
    using message_no_fault [of example_env "set_peer two_peers 0 ?x" 0 ?x ?m PEER_MSG_ID_REQUEST]
    by (auto simp: has_fields_def msg_id_defs)
qed

text \<open>
  (C38) The lengths of messages are not checked before their fields are read: a message shorter than five bytes that claims to
  be HAVE, REQUEST, PIECE, CANCEL, ALLOWED FAST or SUGGEST makes the handler read past the end of the receive buffer.
\<close>

theorem short_message_overread:
  assumes "length m < 5" "mid \<in> {PEER_MSG_ID_HAVE, PEER_MSG_ID_REQUEST, PEER_MSG_ID_PIECE, PEER_MSG_ID_CANCEL,
      PEER_MSG_ID_ALLOWEDFAST, PEER_MSG_ID_SUGGEST}"
  shows "network_peer_process_message e mid p m sc = Fault (Undef ''rxmsg'')"
proof -
  have "msg_u32 m 1 = Fault (Undef ''rxmsg'')" using assms(1) by (simp add: msg_u32_def)
  then show ?thesis using assms(2)
    by (elim insertE emptyE) (simp_all add: network_peer_process_message_def msg_id_defs process_have_def process_request_def process_piece_def
        process_cancel_def process_suggest_def)
qed

theorem short_message_overread_witness:
  "network_peer_process_message example_env PEER_MSG_ID_HAVE 0 [PEER_MSG_ID_HAVE] two_peers = Fault (Undef ''rxmsg'')"
  by (rule short_message_overread) simp_all

end
