(* ===== verification/Sched_Choke.thy ===== *)
theory Sched_Choke
  imports Scheduler Network_Rx
begin

text \<open>
  The choking algorithm of \<^verbatim>\<open>scheduler.c\<close>: it cannot fail in a healthy session and leaves at most four peers
  unchoked. The walk that should find a random interested peer is stuck at the head of the list as soon as the
  fastest peer is interested.
\<close>

section \<open>Flags that are written with a message\<close>

lemma write_flag_run:
  assumes "peer_at sc q = Some x"
  shows "\<exists>sc'. write_flag t q mid f sc = Ok sc' \<and> peer_at sc' = (peer_at sc)(q \<mapsto> x\<lparr>state := f (state x), lastsend := t\<rparr>)
    \<and> peers sc' = peers sc \<and> num_peers sc' = num_peers sc"
  using assms by (simp add: write_flag_def network_peer_write_def get_peer_def set_peer_def)

definition amchoking :: "peer \<Rightarrow> bool" where "amchoking x \<longleftrightarrow> state x AND PEER_STATE_AMCHOKING \<noteq> 0"
definition interested :: "peer \<Rightarrow> bool" where "interested x \<longleftrightarrow> state x AND PEER_STATE_INTERESTED \<noteq> 0"

definition unchoked :: "session \<Rightarrow> nat set" where
  "unchoked sc = {q \<in> set (peers sc). \<exists>x. peer_at sc q = Some x \<and> \<not> amchoking x}"

definition interested_in :: "session \<Rightarrow> nat set" where
  "interested_in sc = {q \<in> set (peers sc). \<exists>x. peer_at sc q = Some x \<and> interested x}"

lemma flag_words:
  "(s AND NOT PEER_STATE_AMCHOKING) AND PEER_STATE_AMCHOKING = 0" "(s OR PEER_STATE_AMCHOKING) AND PEER_STATE_AMCHOKING \<noteq> 0"
  "(s AND NOT PEER_STATE_AMCHOKING) AND PEER_STATE_INTERESTED = s AND PEER_STATE_INTERESTED"
  "(s OR PEER_STATE_AMCHOKING) AND PEER_STATE_INTERESTED = s AND PEER_STATE_INTERESTED"
proof -
  have i: "NOT PEER_STATE_AMCHOKING AND PEER_STATE_INTERESTED = PEER_STATE_INTERESTED" "PEER_STATE_AMCHOKING AND PEER_STATE_INTERESTED = 0"
    "NOT PEER_STATE_AMCHOKING AND PEER_STATE_AMCHOKING = 0" "PEER_STATE_AMCHOKING \<noteq> 0"
    by (simp_all add: peer_state_defs)
  show "(s AND NOT PEER_STATE_AMCHOKING) AND PEER_STATE_AMCHOKING = 0" "(s AND NOT PEER_STATE_AMCHOKING) AND PEER_STATE_INTERESTED = s AND PEER_STATE_INTERESTED"
    by (simp_all only: and.assoc i and_zero_eq)
  show "(s OR PEER_STATE_AMCHOKING) AND PEER_STATE_INTERESTED = s AND PEER_STATE_INTERESTED"
    by (simp only: bit.conj_disj_distrib2 i or.right_neutral)
  have "(s OR PEER_STATE_AMCHOKING) AND PEER_STATE_AMCHOKING = PEER_STATE_AMCHOKING"
    by (simp only: bit.conj_disj_distrib2 and.idem) (simp add: bit_eq_iff bit_simps)
  then show "(s OR PEER_STATE_AMCHOKING) AND PEER_STATE_AMCHOKING \<noteq> 0" using i(4) by simp
qed

lemma amchoking_flag [simp]: "PEER_STATE_AMCHOKING \<noteq> 0" by (simp add: PEER_STATE_AMCHOKING_def)

lemma unchoke_run:
  assumes "healthy e sc" "q \<in> set (peers sc)"
  shows "\<exists>sc'. network_peer_write_unchoke t q sc = Ok sc' \<and> healthy e sc' \<and> rx_same sc sc'
    \<and> unchoked sc' = insert q (unchoked sc) \<and> interested_in sc' = interested_in sc"
proof -
  obtain x where x: "peer_at sc q = Some x" using good_peer [OF assms] by blast
  obtain sc' where r: "network_peer_write_unchoke t q sc = Ok sc'" "peers sc' = peers sc"
    "peer_at sc' = (peer_at sc)(q \<mapsto> x\<lparr>state := state x AND NOT PEER_STATE_AMCHOKING, lastsend := t\<rparr>)"
    using write_flag_run [OF x] unfolding network_peer_write_unchoke_def by blast
  moreover have "healthy e sc'" "rx_same sc sc'" using writes_keep(8) [OF assms, of "{}" t] r(1) by simp_all
  moreover have "unchoked sc' = insert q (unchoked sc)" "interested_in sc' = interested_in sc"
    using x assms(2) by (auto simp: unchoked_def interested_in_def amchoking_def interested_def r flag_words split: if_splits)
  ultimately show ?thesis by blast
qed

lemma choke_run:
  assumes "healthy e sc" "q \<in> set (peers sc)"
  shows "\<exists>sc'. network_peer_write_choke t q sc = Ok sc' \<and> healthy e sc' \<and> rx_same sc sc'
    \<and> unchoked sc' = unchoked sc - {q} \<and> interested_in sc' = interested_in sc"
proof -
  obtain x where x: "peer_at sc q = Some x" using good_peer [OF assms] by blast
  obtain sc' where r: "network_peer_write_choke t q sc = Ok sc'" "peers sc' = peers sc"
    "peer_at sc' = (peer_at sc)(q \<mapsto> x\<lparr>state := state x OR PEER_STATE_AMCHOKING, lastsend := t\<rparr>)"
    using write_flag_run [OF x] unfolding network_peer_write_choke_def by blast
  moreover have "healthy e sc'" "rx_same sc sc'" using writes_keep(9) [OF assms, of "{}" t] r(1) by simp_all
  moreover have "unchoked sc' = unchoked sc - {q}" "interested_in sc' = interested_in sc"
    using x assms(2) by (auto simp: unchoked_def interested_in_def amchoking_def interested_def r flag_words split: if_splits)
  ultimately show ?thesis by blast
qed

section \<open>The steps of the algorithm\<close>

lemma unchoke_fast_run:
  assumes "healthy e sc" "set qs \<subseteq> set (peers sc)"
  shows "\<exists>sc'. rfold (unchoke_fast e) sc qs = Ok sc' \<and> healthy e sc' \<and> rx_same sc sc'
    \<and> unchoked sc' = unchoked sc \<union> (set qs \<inter> interested_in sc) \<and> interested_in sc' = interested_in sc"
  using assms
proof (induction qs arbitrary: sc)
  case (Cons q qs)
  have q: "q \<in> set (peers sc)" using Cons.prems(2) by simp
  obtain x where x: "get_peer sc q = Ok x" "peer_at sc q = Some x" using good_peer [OF Cons.prems(1) q] by blast
  have "\<exists>s. unchoke_fast e sc q = Ok s \<and> healthy e s \<and> rx_same sc s \<and> unchoked s = unchoked sc \<union> ({q} \<inter> interested_in sc)
      \<and> interested_in s = interested_in sc"
  proof (cases "amchoking x \<and> interested x")
    case True
    moreover from this have "q \<in> interested_in sc" using q x by (simp add: interested_in_def)
    ultimately show ?thesis using unchoke_run [OF Cons.prems(1) q, of "e_now e"] x(1)
      by (auto simp: get_peer_def unchoke_fast_def amchoking_def interested_def)
  next
    case False
    moreover from this have "q \<in> unchoked sc \<or> q \<notin> interested_in sc" using q x by (auto simp: interested_in_def unchoked_def)
    ultimately show ?thesis using x Cons.prems(1) by (auto simp: get_peer_def unchoke_fast_def amchoking_def interested_def)
  qed
  then obtain s where s: "unchoke_fast e sc q = Ok s" "healthy e s" "rx_same sc s" "unchoked s = unchoked sc \<union> ({q} \<inter> interested_in sc)"
    "interested_in s = interested_in sc" by blast
  have "set qs \<subseteq> set (peers s)" using Cons.prems(2) s(3) by (simp add: rx_same_peers)
  from Cons.IH [OF s(2) this] show ?case using s rx_same_trans [OF s(3)] by auto
qed simp

lemma choke_rest_run:
  assumes "healthy e sc" "set qs \<subseteq> set (peers sc)" "fast \<noteq> []"
  shows "\<exists>sc'. rfold (choke_rest e fast p2) sc qs = Ok sc' \<and> healthy e sc' \<and> rx_same sc sc'
    \<and> unchoked sc' = unchoked sc - (set qs - set fast - set_option p2) \<and> interested_in sc' = interested_in sc"
  using assms(1,2)
proof (induction qs arbitrary: sc)
  case (Cons q qs)
  have q: "q \<in> set (peers sc)" using Cons.prems(2) by simp
  obtain x where x: "get_peer sc q = Ok x" "peer_at sc q = Some x" using good_peer [OF Cons.prems(1) q] by blast
  have "\<exists>s. choke_rest e fast p2 sc q = Ok s \<and> healthy e s \<and> rx_same sc s \<and> unchoked s = unchoked sc - ({q} - set fast - set_option p2)
      \<and> interested_in s = interested_in sc"
  proof (cases "q \<in> set fast \<or> p2 = Some q")
    case True
    then show ?thesis using assms(3) Cons.prems(1) by (auto simp: choke_rest_def)
  next
    case out: False
    show ?thesis
    proof (cases "amchoking x")
      case True
      moreover from this have "q \<notin> unchoked sc" using x by (simp add: unchoked_def)
      ultimately show ?thesis using out x Cons.prems(1) by (auto simp: get_peer_def choke_rest_def amchoking_def)
    next
      case False
      then show ?thesis using choke_run [OF Cons.prems(1) q, of "e_now e"] out x by (auto simp: get_peer_def choke_rest_def amchoking_def)
    qed
  qed
  then obtain s where s: "choke_rest e fast p2 sc q = Ok s" "healthy e s" "rx_same sc s" "unchoked s = unchoked sc - ({q} - set fast - set_option p2)"
    "interested_in s = interested_in sc" by blast
  have "set qs \<subseteq> set (peers s)" using Cons.prems(2) s(3) by (simp add: rx_same_peers)
  from Cons.IH [OF s(2) this] show ?case using s rx_same_trans [OF s(3)] by auto
qed simp

text \<open>The ranking lists every peer once.\<close>

lemma speedrank_run:
  assumes "healthy e sc" "length (peers sc) < 2 ^ 32"
  shows "\<exists>pcs. scheduler_peer_speedrank t sc = Ok pcs \<and> mset (map ppeer pcs) = mset (peers sc)"
proof -
  have n: "unat (num_peers sc) = length (peers sc)"
    using goodD(1) [OF assms(1)] assms(2) by (simp add: session_ok_def unat_of_nat)
  have "\<exists>ps. rfold (\<lambda>ps p. if length ps \<ge> unat (num_peers sc) then Fault (Undef ''peers[i]'')
                          else rmap (\<lambda>e. ps @ [e]) (speed_entry t sc p)) acc qs = Ok ps \<and> map ppeer ps = map ppeer acc @ qs"
    if "set qs \<subseteq> set (peers sc)" "length acc + length qs \<le> length (peers sc)" for acc qs
    using that
  proof (induction qs arbitrary: acc)
    case (Cons q qs)
    obtain x where "get_peer sc q = Ok x" using good_peer [OF assms(1)] Cons.prems(1) by fastforce
    then obtain en where en: "speed_entry t sc q = Ok en" "ppeer en = q" by (simp add: speed_entry_def)
    then show ?case using Cons.IH [of "acc @ [en]"] Cons.prems by (auto simp: n)
  qed simp
  from this [of "peers sc" "[]"] obtain ps where ps: "rfold (\<lambda>ps p. if length ps \<ge> unat (num_peers sc) then Fault (Undef ''peers[i]'')
                          else rmap (\<lambda>e. ps @ [e]) (speed_entry t sc p)) [] (peers sc) = Ok ps" "map ppeer ps = peers sc" by auto
  moreover have "length ps = length (peers sc)" using ps(2) by (metis length_map)
  ultimately have "scheduler_peer_speedrank t sc = Ok (qsort scheduler_peer_cmp ps)" using n by (simp add: scheduler_peer_speedrank_def)
  moreover have "mset (map ppeer (qsort scheduler_peer_cmp ps)) = mset (map ppeer ps)" by (simp add: qsort_mset)
  ultimately show ?thesis using ps(2) by metis
qed

text \<open>
  The speed by which a peer is ranked: its download rate, at least 1, or 0 for a peer that is not interested. The
  difference of two rates is cut to an \<^verbatim>\<open>int\<close>, so the order is the right one for rates below \<open>2 ^ 31\<close>.
\<close>

definition peer_speed :: "int \<Rightarrow> session \<Rightarrow> nat \<Rightarrow> nat" where
  "peer_speed t sc q = (case peer_at sc q of None \<Rightarrow> 0 | Some x \<Rightarrow> if interested x then max 1 (unat (network_peer_rxrate t x)) else 0)"

lemma speed_entry_Ok:
  assumes "speed_entry t sc q = Ok c"
  shows "ppeer c = q" "unat (prate c) = peer_speed t sc q"
proof -
  obtain x where x: "peer_at sc q = Some x" "c = \<lparr>prate = (if state x AND PEER_STATE_INTERESTED \<noteq> 0
      then let r = network_peer_rxrate t x in if r = 0 then 1 else r else 0), ppeer = q\<rparr>"
    using assms by (auto simp: speed_entry_def get_peer_def split: option.splits)
  have "max 1 (unat (network_peer_rxrate t x)) = unat (network_peer_rxrate t x)" if "network_peer_rxrate t x \<noteq> 0"
    using that by (simp add: max_def unsigned_eq_0_iff Suc_le_eq flip: neq0_conv)
  then show "ppeer c = q" "unat (prate c) = peer_speed t sc q" using x by (simp_all add: peer_speed_def interested_def Let_def)
qed

lemma ucast_sub_u32: "(ucast (a - b) :: u32) = ucast a - ucast (b :: u64)"
proof -
  have "uint (a - b) mod 2 ^ 32 = (uint a - uint b) mod 2 ^ 32"
    by (simp add: uint_word_ariths mod_mod_cancel)
  then have "uint (ucast (a - b) :: u32) = uint (ucast a - ucast b :: u32)"
    by (simp add: unsigned_ucast_eq take_bit_eq_mod uint_word_ariths mod_diff_eq)
  then show ?thesis by (rule word_uint_eqI)
qed

lemma peer_cmp_order:
  assumes "unat (prate x) < 2 ^ 31" "unat (prate y) < 2 ^ 31"
  shows "scheduler_peer_cmp x y \<le> 0 \<longleftrightarrow> - int (unat (prate x)) \<le> - int (unat (prate y))"
proof -
  have u: "uint (ucast (prate c) :: u32) = int (unat (prate c)) \<and> ucast (prate c) < (2 ^ 31 :: u32)"
    if "unat (prate c) < 2 ^ 31" for c
  proof -
    have b: "uint (prate c) < 2 ^ 31" using that by (metis of_nat_less_iff of_nat_numeral of_nat_power uint_nat)
    then have "uint (prate c) mod 2 ^ 32 = uint (prate c)" by (intro mod_pos_pos_trivial) simp_all
    then have "uint (ucast (prate c) :: u32) = uint (prate c)" by (simp add: unsigned_ucast_eq take_bit_eq_mod)
    then show ?thesis using b by (simp add: word_less_def)
  qed
  from sint_diff [OF conjunct2 [OF u [OF assms(2)]] conjunct2 [OF u [OF assms(1)]]] have "scheduler_peer_cmp x y = int (unat (prate y)) - int (unat (prate x))"
    using u [OF assms(1)] u [OF assms(2)] by (simp add: scheduler_peer_cmp_def ucast_sub_u32)
  then show ?thesis by linarith
qed

lemma speedrank_Ok:
  assumes "scheduler_peer_speedrank t sc = Ok pcs"
  shows "mset (map ppeer pcs) = mset (peers sc)" "unat (num_peers sc) = length pcs"
    "\<forall>q \<in> set (peers sc). peer_speed t sc q < 2 ^ 31 \<Longrightarrow>
       sorted_wrt (\<lambda>a b. peer_speed t sc b \<le> peer_speed t sc a) (map ppeer pcs)"
proof -
  let ?run = "rfold (\<lambda>ps p. if length ps \<ge> unat (num_peers sc) then Fault (Undef ''peers[i]'')
                          else rmap (\<lambda>e. ps @ [e]) (speed_entry t sc p)) [] (peers sc)"
  obtain ps where run: "?run = Ok ps" using assms by (cases ?run) (simp_all add: scheduler_peer_speedrank_def)
  then have "length ps = unat (num_peers sc) \<and> pcs = qsort scheduler_peer_cmp ps"
    using assms by (simp add: scheduler_peer_speedrank_def split: if_splits)
  with run have ps: "?run = Ok ps" "unat (num_peers sc) = length ps" "pcs = qsort scheduler_peer_cmp ps" by simp_all
  have "\<exists>cs. ps = acc @ cs \<and> map ppeer cs = qs \<and> (\<forall>c \<in> set cs. unat (prate c) = peer_speed t sc (ppeer c))"
    if "rfold (\<lambda>ps p. if length ps \<ge> unat (num_peers sc) then Fault (Undef ''peers[i]'')
                          else rmap (\<lambda>e. ps @ [e]) (speed_entry t sc p)) acc qs = Ok ps" for acc qs
    using that
  proof (induction qs arbitrary: acc)
    case (Cons q qs)
    then obtain c where c: "speed_entry t sc q = Ok c" "rfold (\<lambda>ps p. if length ps \<ge> unat (num_peers sc) then Fault (Undef ''peers[i]'')
                          else rmap (\<lambda>e. ps @ [e]) (speed_entry t sc p)) (acc @ [c]) qs = Ok ps"
      by (auto simp: rbind_eq_Ok rmap_eq_Ok split: if_splits)
    obtain cs where "ps = (acc @ [c]) @ cs" "map ppeer cs = qs" "\<forall>c \<in> set cs. unat (prate c) = peer_speed t sc (ppeer c)"
      using Cons.IH [OF c(2)] by blast
    then show ?case using speed_entry_Ok [OF c(1)] by (intro exI [of _ "c # cs"]) simp
  qed simp
  from this [OF ps(1)] have e: "map ppeer ps = peers sc" "\<forall>c \<in> set ps. unat (prate c) = peer_speed t sc (ppeer c)" by auto
  then show "mset (map ppeer pcs) = mset (peers sc)" "unat (num_peers sc) = length pcs"
    using ps(2,3) by (simp_all add: qsort_mset flip: e(1))
  assume b: "\<forall>q \<in> set (peers sc). peer_speed t sc q < 2 ^ 31"
  have "\<forall>c \<in> set ps. unat (prate c) < 2 ^ 31" using b e(2) by (simp flip: e(1))
  then have "sorted (map (\<lambda>c. - int (unat (prate c))) pcs)" unfolding ps(3) by (intro qsort_sorted) (meson peer_cmp_order)
  then have "sorted_wrt (\<lambda>a b. unat (prate b) \<le> unat (prate a)) pcs"
    unfolding sorted_map by (rule sorted_wrt_mono_rel [rotated]) linarith
  then show "sorted_wrt (\<lambda>a b. peer_speed t sc b \<le> peer_speed t sc a) (map ppeer pcs)"
    unfolding sorted_wrt_map by (rule sorted_wrt_mono_rel [rotated]) (use e(2) ps(3) in simp)
qed

text \<open>The first \<open>k\<close> of a ranking are those that few others surpass.\<close>

lemma rank_take:
  fixes s :: "'a \<Rightarrow> nat"
  assumes "distinct xs" "sorted_wrt (\<lambda>a b. s b \<le> s a) xs"
  shows "q \<in> set xs \<Longrightarrow> card {r \<in> set xs. r \<noteq> q \<and> s q \<le> s r} < k \<Longrightarrow> q \<in> set (take k xs)"
    "q \<in> set (take k xs) \<Longrightarrow> card {r \<in> set xs. s q < s r} < k"
proof -
  have before: "s (xs ! j) \<le> s (xs ! i)" if "i < j" "j < length xs" for i j
    using sorted_wrt_nth_less [OF assms(2) that] .
  have card: "card (set (take m xs)) = m" if "m \<le> length xs" for m
    using that distinct_card [OF distinct_take [OF assms(1)], of m] by simp
  show "q \<in> set (take k xs)" if "q \<in> set xs" "card {r \<in> set xs. r \<noteq> q \<and> s q \<le> s r} < k"
  proof -
    obtain m where m: "m < length xs" "xs ! m = q" using \<open>q \<in> set xs\<close> by (auto simp: in_set_conv_nth)
    have "set (take m xs) \<subseteq> {r \<in> set xs. r \<noteq> q \<and> s q \<le> s r}"
    proof
      fix r assume "r \<in> set (take m xs)"
      then obtain i where i: "i < m" "r = xs ! i" by (auto simp: in_set_conv_nth)
      then have "s q \<le> s r" "r \<noteq> q" using before [of i m] m nth_eq_iff_index_eq [OF assms(1), of i m] by auto
      then show "r \<in> {r \<in> set xs. r \<noteq> q \<and> s q \<le> s r}" using i m(1) by simp
    qed
    then have "card (set (take m xs)) \<le> card {r \<in> set xs. r \<noteq> q \<and> s q \<le> s r}" by (intro card_mono) simp_all
    then have "m < k" using that(2) card [of m] m(1) by simp
    then show ?thesis using m by (auto simp: in_set_conv_nth intro!: exI [of _ m])
  qed
  show "card {r \<in> set xs. s q < s r} < k" if q: "q \<in> set (take k xs)"
  proof -
    obtain m where m: "m < k" "m < length xs" "xs ! m = q" using q by (auto simp: in_set_conv_nth)
    have "r \<in> set (take m xs)" if r: "r \<in> set xs" "s q < s r" for r
    proof -
      obtain n where n: "n < length xs" "xs ! n = r" using r(1) by (auto simp: in_set_conv_nth)
      then have "n < m" using before [of m n] r(2) m by (metis linorder_neqE_nat not_le order_less_irrefl)
      then show ?thesis using n by (auto simp: in_set_conv_nth)
    qed
    then have "card {r \<in> set xs. s q < s r} \<le> card (set (take m xs))" by (intro card_mono) auto
    then show ?thesis using card [of m] m by simp
  qed
qed

text \<open>The walk takes a step only while the fastest peer is not interested.\<close>

lemma walk_run:
  assumes "get_peer sc f = Ok x" "j \<le> length qs"
  shows "walk sc f j qs = Ok (if interested x then qs else drop j qs)"
  using assms(2)
proof (induction j arbitrary: qs)
  case (Suc j)
  then show ?case using assms(1) by (cases qs) (auto simp: get_peer_def interested_def)
qed simp

lemma count_interested_run:
  assumes "healthy e sc" "set qs \<subseteq> set (peers sc)"
  shows "rfold (count_interested sc) n qs = Ok (n + length (filter (\<lambda>q. q \<in> interested_in sc) qs))"
  using assms(2)
proof (induction qs arbitrary: n)
  case (Cons q qs)
  obtain x where "get_peer sc q = Ok x" "peer_at sc q = Some x" using good_peer [OF assms(1)] Cons.prems by fastforce
  then show ?case using Cons by (auto simp: get_peer_def count_interested_def interested_in_def interested_def)
qed simp

lemma opportunistic_run:
  assumes "healthy e sc" "mset (map ppeer pcs) = mset (peers sc)"
  shows "\<exists>p2 sc'. opportunistic e pcs sc = Ok (p2, sc') \<and> healthy e sc' \<and> rx_same sc sc'
    \<and> unchoked sc' = unchoked sc \<union> set_option p2 \<and> interested_in sc' = interested_in sc \<and> (p2 \<noteq> None \<longrightarrow> e_now e mod 30 = 0)"
proof -
  let ?n = "length (filter (\<lambda>q. q \<in> interested_in sc) (peers sc))"
  let ?j = "e_rnd e (fresh_peer sc * unat MAX_REQUESTS) mod ?n"
  note c = count_interested_run [OF assms(1) subset_refl, of 0]
  show ?thesis
  proof (cases "e_now e mod 30 \<noteq> 0 \<or> ?n = 0")
    case True
    then show ?thesis using assms(1) c by (auto simp: opportunistic_def)
  next
    case False
    then have "peers sc \<noteq> []" by auto
    then have "pcs \<noteq> []" using assms(2) by auto
    then have "ppeer (hd pcs) \<in> set (peers sc)" using mset_eq_setD [OF assms(2)] by (cases pcs) auto
    then obtain x where x: "get_peer sc (ppeer (hd pcs)) = Ok x" using good_peer [OF assms(1)] by blast
    have j: "?j < length (peers sc)" using False length_filter_le [of _ "peers sc"] mod_less_divisor [of ?n] by (metis bot_nat_0.not_eq_extremum order_less_le_trans)
    then obtain q qs where w: "walk sc (ppeer (hd pcs)) ?j (peers sc) = Ok (q # qs)" "q \<in> set (peers sc)"
      using walk_run [OF x, of ?j "peers sc"] \<open>peers sc \<noteq> []\<close>
      by (cases "interested x") (auto simp: neq_Nil_conv Cons_nth_drop_Suc [OF j, symmetric])
    then show ?thesis using unchoke_run [OF assms(1) w(2), of "e_now e"] False c
      by (fastforce simp: opportunistic_def Let_def)
  qed
qed


lemma choke_algorithm_run:
  assumes "healthy e sc" "scheduler_peer_speedrank (e_now e) sc = Ok pcs" "e_now e mod 10 = 0"
  shows "\<exists>sc'. scheduler_choke_algorithm e sc = Ok sc' \<and> healthy e sc' \<and> rx_same sc sc'
    \<and> card (unchoked sc') \<le> 4 \<and> set (take 3 (map ppeer pcs)) \<inter> interested_in sc \<subseteq> unchoked sc'
    \<and> (\<exists>p2. unchoked sc' \<subseteq> set (take 3 (map ppeer pcs)) \<union> set_option p2 \<and> (p2 \<noteq> None \<longrightarrow> e_now e mod 30 = 0))"
proof -
  note pcs = assms(2) speedrank_Ok(1,2) [OF assms(2)]
  have "take (unat (min 3 (num_peers sc))) pcs = take 3 pcs" using pcs(3) by (auto simp: min_def word_le_nat_alt)
  then obtain fast where fast: "fast = take 3 (map ppeer pcs)" "fast = map ppeer (take (unat (min 3 (num_peers sc))) pcs)" by (simp add: take_map)
  have sub: "set fast \<subseteq> set (peers sc)" using mset_eq_setD [OF pcs(2)] set_take_subset [of 3 "map ppeer pcs"] by (simp add: fast(1))
  obtain s1 where s1: "rfold (unchoke_fast e) sc fast = Ok s1" "healthy e s1" "rx_same sc s1"
    "unchoked s1 = unchoked sc \<union> (set fast \<inter> interested_in sc)" using unchoke_fast_run [OF assms(1) sub] by blast
  have p1: "peers s1 = peers sc" using rx_same_peers [OF s1(3)] .
  obtain p2 s2 where s2: "opportunistic e pcs s1 = Ok (p2, s2)" "healthy e s2" "rx_same s1 s2" "unchoked s2 = unchoked s1 \<union> set_option p2"
    "p2 \<noteq> None \<longrightarrow> e_now e mod 30 = 0"
    using opportunistic_run [OF s1(2), of pcs] pcs(2) p1 by auto
  have p2: "peers s2 = peers sc" using rx_same_peers [OF s2(3)] p1 by simp
  have "\<exists>s3. rfold (choke_rest e fast p2) s2 (peers s2) = Ok s3 \<and> healthy e s3 \<and> rx_same s2 s3
      \<and> unchoked s3 = unchoked s2 - (set (peers s2) - set fast - set_option p2)"
  proof (cases "fast = []")
    case True
    then have "peers sc = []" using pcs(2) fast(1) by auto
    then show ?thesis using s2(2) p2 by simp
  next
    case False
    then show ?thesis using choke_rest_run [OF s2(2) subset_refl False, of p2] by blast
  qed
  then obtain s3 where s3: "rfold (choke_rest e fast p2) s2 (peers s2) = Ok s3" "healthy e s3" "rx_same s2 s3"
    "unchoked s3 = unchoked s2 - (set (peers s2) - set fast - set_option p2)" by blast
  have sub3: "unchoked s3 \<subseteq> set fast \<union> set_option p2" using s3(4) by (auto simp: unchoked_def)
  then have "card (unchoked s3) \<le> card (set fast \<union> set_option p2)" by (rule card_mono [rotated]) simp
  also have "\<dots> \<le> card (set fast) + card (set_option p2)" by (rule card_Un_le)
  also have "\<dots> \<le> 3 + 1" using card_length [of fast] fast(1) by (intro add_mono) (auto split: option.splits intro: order_trans, cases p2, auto)
  finally have "card (unchoked s3) \<le> 4" by simp
  moreover have "set fast \<inter> interested_in sc \<subseteq> unchoked s3" using s3(4) s2(4) s1(4) by auto
  moreover have "scheduler_choke_algorithm e sc = Ok s3"
    using assms(3) pcs(1) s1(1) s2(1) s3(1) by (simp add: scheduler_choke_algorithm_def flip: fast(2))
  moreover have "rx_same sc s3" using rx_same_trans [OF s1(3) rx_same_trans [OF s2(3) s3(3)]] .
  ultimately show ?thesis using s3(2) sub3 s2(5) unfolding fast(1) by (intro exI [of _ s3] conjI exI [of _ p2]) assumption+
qed

section \<open>Properties\<close>

text \<open>
  (C20) Choking: in a healthy session, every tenth second, \<^verbatim>\<open>scheduler_choke_algorithm\<close> returns and leaves at most four
  peers unchoked; the session stays healthy and the list of peers is as it was. When the speeds of all peers are below
  \<open>2 ^ 31\<close> (beyond, the comparison of the ranking overflows), it is the fastest that are served: the ranking is in
  descending order of speed, every interested peer that fewer than three others equal or surpass is unchoked, and of
  the peers left unchoked at most one, the opportunistic unchoke of every thirtieth second, has three or more peers
  that are faster.
\<close>

theorem choke_at_most_four:
  assumes "healthy e sc" "length (peers sc) < 2 ^ 32" "e_now e mod 10 = 0"
  shows "\<exists>pcs sc'. scheduler_peer_speedrank (e_now e) sc = Ok pcs \<and> mset (map ppeer pcs) = mset (peers sc)
    \<and> scheduler_choke_algorithm e sc = Ok sc' \<and> healthy e sc' \<and> peers sc' = peers sc
    \<and> card (unchoked sc') \<le> 4 \<and> set (take 3 (map ppeer pcs)) \<inter> interested_in sc \<subseteq> unchoked sc'
    \<and> ((\<forall>q \<in> set (peers sc). peer_speed (e_now e) sc q < 2 ^ 31) \<longrightarrow>
        sorted_wrt (\<lambda>a b. peer_speed (e_now e) sc b \<le> peer_speed (e_now e) sc a) (map ppeer pcs)
        \<and> (\<forall>q \<in> interested_in sc. card {r \<in> set (peers sc). r \<noteq> q \<and> peer_speed (e_now e) sc q \<le> peer_speed (e_now e) sc r} < 3
             \<longrightarrow> q \<in> unchoked sc')
        \<and> (\<exists>p2. (p2 \<noteq> None \<longrightarrow> e_now e mod 30 = 0) \<and> (\<forall>q \<in> unchoked sc'. Some q \<noteq> p2 \<longrightarrow>
             card {r \<in> set (peers sc). peer_speed (e_now e) sc q < peer_speed (e_now e) sc r} < 3)))"
proof -
  obtain pcs where pcs: "scheduler_peer_speedrank (e_now e) sc = Ok pcs" "mset (map ppeer pcs) = mset (peers sc)"
    using speedrank_run [OF assms(1,2)] by blast
  obtain sc' p2 where c: "scheduler_choke_algorithm e sc = Ok sc'" "healthy e sc'" "peers sc' = peers sc" "card (unchoked sc') \<le> 4"
    "set (take 3 (map ppeer pcs)) \<inter> interested_in sc \<subseteq> unchoked sc'"
    "unchoked sc' \<subseteq> set (take 3 (map ppeer pcs)) \<union> set_option p2" "p2 \<noteq> None \<longrightarrow> e_now e mod 30 = 0"
    using choke_algorithm_run [OF assms(1) pcs(1) assms(3)] by (auto simp: rx_same_def)
  have "distinct (peers sc)" using goodD(1) [OF assms(1)] by (simp add: session_ok_def)
  then have d: "distinct (map ppeer pcs)" and s: "set (map ppeer pcs) = set (peers sc)"
    using mset_eq_imp_distinct_iff [OF pcs(2)] mset_eq_setD [OF pcs(2)] by simp_all
  have fast: "sorted_wrt (\<lambda>a b. peer_speed (e_now e) sc b \<le> peer_speed (e_now e) sc a) (map ppeer pcs)
        \<and> (\<forall>q \<in> interested_in sc. card {r \<in> set (peers sc). r \<noteq> q \<and> peer_speed (e_now e) sc q \<le> peer_speed (e_now e) sc r} < 3
             \<longrightarrow> q \<in> unchoked sc')
        \<and> (\<exists>p2. (p2 \<noteq> None \<longrightarrow> e_now e mod 30 = 0) \<and> (\<forall>q \<in> unchoked sc'. Some q \<noteq> p2 \<longrightarrow>
             card {r \<in> set (peers sc). peer_speed (e_now e) sc q < peer_speed (e_now e) sc r} < 3))"
    if "\<forall>q \<in> set (peers sc). peer_speed (e_now e) sc q < 2 ^ 31"
  proof -
    note o = speedrank_Ok(3) [OF pcs(1) that]
    note r = rank_take [OF d o, unfolded s]
    have "q \<in> unchoked sc'" if "q \<in> interested_in sc"
        "card {r \<in> set (peers sc). r \<noteq> q \<and> peer_speed (e_now e) sc q \<le> peer_speed (e_now e) sc r} < 3" for q
      using r(1) [OF _ that(2)] that(1) c(5) by (auto simp: interested_in_def)
    moreover have "card {r \<in> set (peers sc). peer_speed (e_now e) sc q < peer_speed (e_now e) sc r} < 3"
      if "q \<in> unchoked sc'" "Some q \<noteq> p2" for q
      using r(2) [of q 3] that c(6) by (auto simp: subset_iff)
    ultimately show ?thesis using c(7) by (intro conjI o ballI impI exI [of _ p2]) simp_all
  qed
  show ?thesis using c(1-5) pcs fast by (intro exI [of _ pcs] exI [of _ sc'] conjI impI) blast+
qed

text \<open>Two peers of which the second is interested: it is unchoked.\<close>

definition one_interested :: session where
  "one_interested = set_peer two_peers 1 ((bits_peer 192)\<lparr>state := PEER_STATE_ESTABLISHED OR PEER_STATE_INTERESTED\<rparr>)"

lemma one_interested_healthy: "t mod 10 = 0 \<Longrightarrow> t > 50 \<Longrightarrow> healthy (example_env\<lparr>e_now := t\<rparr>) one_interested"
proof -
  assume "t > 50"
  then have "rarity_ready t two_peers" by (simp add: rarity_ready_def two_peers_def example_session_def RARITY_AGE_def)
  then have h: "healthy (example_env\<lparr>e_now := t\<rparr>) two_peers" using two_peers_ready(1) by (simp add: healthy_def)
  have x: "peer_at two_peers 1 = Some (bits_peer 192)" by (simp add: two_peers_def)
  have "bits_ok (tp two_peers) (bits_peer 192)" using sched_okD(2) [OF two_peers_ok(2) x] .
  then show "healthy (example_env\<lparr>e_now := t\<rparr>) one_interested" unfolding one_interested_def
    by (intro set_peer_good [OF h x]) (simp_all add: bits_ok_def)
qed

lemma one_interested_facts: "peers one_interested = [0, 1]" "interested_in one_interested = {1}"
  "peer_at one_interested 0 = Some (bits_peer 128)"
  "peer_at one_interested 1 = Some ((bits_peer 192)\<lparr>state := PEER_STATE_ESTABLISHED OR PEER_STATE_INTERESTED\<rparr>)"
  by (auto simp: interested_in_def interested_def one_interested_def two_peers_def bits_peer_def peer_state_defs set_peer_def)

theorem choke_at_most_four_witness:
  "\<exists>sc'. scheduler_choke_algorithm (example_env\<lparr>e_now := 100\<rparr>) one_interested = Ok sc' \<and> card (unchoked sc') \<le> 4 \<and> 1 \<in> unchoked sc'"
proof -
  let ?e = "example_env\<lparr>e_now := 100\<rparr>"
  have "peer_speed 100 one_interested q < 2 ^ 31" if "q \<in> set (peers one_interested)" for q
    using that by (auto simp: peer_speed_def one_interested_facts network_peer_rxrate_def bits_peer_def new_peer_def simp del: One_nat_def)
  moreover have "card {r \<in> set (peers one_interested). r \<noteq> 1 \<and> peer_speed 100 one_interested 1 \<le> peer_speed 100 one_interested r} < 3"
    by (rule le_less_trans [OF card_mono [of "{0, 1}"]]) (auto simp: one_interested_facts)
  moreover have "length (peers one_interested) < 2 ^ 32" "e_now ?e mod 10 = 0" "1 \<in> interested_in one_interested"
    by (simp_all add: one_interested_facts)
  ultimately show ?thesis using choke_at_most_four [OF one_interested_healthy [of 100]] by auto
qed

text \<open>
  (C37) The opportunistic unchoke: when the fastest peer is interested, the loop that walks to a random interested peer
  does not move, because it tests the state of the fastest peer and not of the one it stands on. The peer that is
  unchoked is the first of the list, whatever the random number and whether or not it is interested.
\<close>

theorem opportunistic_first_peer:
  assumes "healthy e sc" "e_now e mod 30 = 0" "ppeer (hd pcs) \<in> interested_in sc"
  shows "opportunistic e pcs sc = rmap (\<lambda>sc'. (Some (hd (peers sc)), sc')) (network_peer_write_unchoke (e_now e) (hd (peers sc)) sc)"
proof -
  let ?n = "length (filter (\<lambda>q. q \<in> interested_in sc) (peers sc))"
  let ?j = "e_rnd e (fresh_peer sc * unat MAX_REQUESTS) mod ?n"
  have f: "ppeer (hd pcs) \<in> set (peers sc)" using assms(3) by (simp add: interested_in_def)
  then have n: "?n \<noteq> 0" using assms(3) by (auto simp: filter_empty_conv)
  obtain x where x: "get_peer sc (ppeer (hd pcs)) = Ok x" "interested x" using assms(3) by (auto simp: interested_in_def)
  have "?j \<le> length (peers sc)" using length_filter_le [of _ "peers sc"] n mod_less_divisor [of ?n] by (meson less_imp_le_nat le_trans not_gr_zero)
  then have "walk sc (ppeer (hd pcs)) ?j (peers sc) = Ok (peers sc)" using walk_run [OF x(1)] x(2) by simp
  then show ?thesis using count_interested_run [OF assms(1) subset_refl, of 0] assms(2) n f
    by (cases "peers sc") (simp_all add: opportunistic_def Let_def)
qed

text \<open>Peer 1 is the fastest and interested; peer 0 is unchoked, and it is not interested.\<close>

theorem opportunistic_first_peer_witness:
  "opportunistic (example_env\<lparr>e_now := 120\<rparr>) [\<lparr>prate = 1, ppeer = 1\<rparr>, \<lparr>prate = 0, ppeer = 0\<rparr>] one_interested
    = rmap (\<lambda>sc'. (Some 0, sc')) (network_peer_write_unchoke 120 0 one_interested) \<and> 0 \<notin> interested_in one_interested"
  using opportunistic_first_peer [OF one_interested_healthy, of 120 "[\<lparr>prate = 1, ppeer = 1\<rparr>, \<lparr>prate = 0, ppeer = 0\<rparr>]"]
  by (simp add: one_interested_facts)

end
