(* ===== verification/Sched_Inv.thy ===== *)
theory Sched_Inv
  imports Sched_Choke
begin

text \<open>
  The scheduler of \<^verbatim>\<open>scheduler.c\<close> keeps the session healthy: the requests of one peer and how many they are,
  the reaping of dead peers, the uploads, the endgame, and a whole run.
\<close>

section \<open>Requests\<close>

lemma only_rarity_good:
  assumes "healthy e sc" "only_rarity sc sc1" "sched_ok sc1" "rarity_ready (e_now e) sc1"
  shows "healthy e sc1"
  using assms quiet_ok [OF only_rarity_same(5) [OF assms(2)], of "{}"] only_rarity_same(3) [OF assms(2)] by (simp add: healthy_def)

definition queue_of :: "session \<Rightarrow> nat \<Rightarrow> u32" where
  "queue_of sc p = (case peer_at sc p of None \<Rightarrow> 0 | Some x \<Rightarrow> dl_queue_len x)"

lemma gimme_run:
  assumes "healthy e sc" "p \<in> set (peers sc)"
  shows "\<exists>r hint sc'. scheduler_piece_gimme (e_now e) rnd p nocreate sc = Ok (r, hint, sc') \<and> healthy e sc' \<and> rx_same sc sc'
    \<and> outbox sc' = outbox sc \<and> queue_of sc' p = queue_of sc p \<and> (\<forall>d. r = Some d \<longrightarrow> (\<exists>pd. dl_at sc' d = Some pd \<and> pc pd = Some p))"
proof -
  obtain x where x: "peer_at sc p = Some x" using good_peer [OF assms] by blast
  note g = goodD [OF assms(1)]
  obtain r hint sc1 sc' where s: "scheduler_piece_gimme (e_now e) rnd p nocreate sc = Ok (r, hint, sc')" "links_ok sc'" "only_rarity sc sc1"
    "frame sc1 sc'" "sched_ok sc'" "rarity_ready (e_now e) sc'"
    "\<forall>d. r = Some d \<longrightarrow> (\<exists>idx. wanted sc idx \<and> handed sc p idx (piece_len (tp sc) idx) (offs_of (tp sc) idx) d sc')"
    using gimme_ok [OF g(2,3) x g(7), of "e_now e" rnd nocreate] g(6) unfolding rarity_ready_def by blast
  note o = only_rarity_same [OF s(3)] and f = frame_fields [OF s(4)]
  have "session_ok {} sc'" using frame_session_ok [OF quiet_ok [OF o(5) g(1)] s(4,2)] .
  then have h: "healthy e sc'" using s(5,6) g(5) by (simp add: healthy_def f o)
  have "map_option rx_of (peer_at sc' q) = map_option rx_of (peer_at sc q)" for q
    using frame_peer [OF s(4), of q] frame_None [OF s(4), of q] o(4) by (cases "peer_at sc q") (auto simp: rx_of_def)
  then have "rx_same sc sc'" by (simp add: rx_same_def f o)
  moreover have "queue_of sc' p = queue_of sc p" using frame_peer [OF s(4), of p x] x o(4) by (auto simp: queue_of_def)
  moreover have "outbox sc' = outbox sc" by (simp add: f o)
  ultimately show ?thesis using s(1,7) h by (fastforce simp: handed_def)
qed

lemma request_run:
  assumes "healthy e sc" "p \<in> set (peers sc)"
  shows "\<exists>sc'. rbind (network_peer_request_block t p idx off len sc) (\<lambda>sc.
             rbind (get_peer sc p) (\<lambda>x. Ok (set_peer sc p (x\<lparr>dl_queue_len := dl_queue_len x + 1\<rparr>)))) = Ok sc'
    \<and> healthy e sc' \<and> rx_same sc sc' \<and> length (outbox sc') = length (outbox sc) + 1 \<and> queue_of sc' p = queue_of sc p + 1"
proof -
  obtain x where x: "peer_at sc p = Some x" using good_peer [OF assms] by blast
  obtain s where s: "network_peer_request_block t p idx off len sc = Ok s" "peer_at s p = Some (x\<lparr>lastsend := t\<rparr>)"
    "length (outbox s) = length (outbox sc) + 1"
    using x by (simp add: network_peer_request_block_def network_peer_write_def get_peer_def set_peer_def Let_def)
  have h: "healthy e s" "rx_same sc s" using writes_keep(2) [OF assms, of "{}" t idx off len] s(1) by simp_all
  let ?y = "x\<lparr>lastsend := t, dl_queue_len := dl_queue_len x + 1\<rparr>"
  have "keep e {} s (Ok (set_peer s p ?y))" by (rule keep_set_peer [OF h(1) s(2)]) (simp_all add: rx_of_def)
  then have "healthy e (set_peer s p ?y)" "rx_same sc (set_peer s p ?y)" using rx_same_trans [OF h(2)] by simp_all
  moreover have "queue_of (set_peer s p ?y) p = queue_of sc p + 1" using x by (simp add: queue_of_def)
  moreover have "outbox (set_peer s p ?y) = outbox s" by (simp add: set_peer_def)
  ultimately show ?thesis using s by (simp add: get_peer_def)
qed

lemma fill_turn_run:
  assumes "healthy e sc" "p \<in> set (peers sc)"
  shows "\<exists>sc' k. fill_turn e p sc i = Ok sc' \<and> healthy e sc' \<and> rx_same sc sc' \<and> k \<le> 1
    \<and> length (outbox sc') = length (outbox sc) + k \<and> queue_of sc' p = queue_of sc p + of_nat k"
proof -
  obtain r hint s where s: "scheduler_piece_gimme (e_now e) (e_rnd e (p * unat MAX_REQUESTS + i)) p False sc = Ok (r, hint, s)"
    "healthy e s" "rx_same sc s" "outbox s = outbox sc" "queue_of s p = queue_of sc p"
    "\<forall>d. r = Some d \<longrightarrow> (\<exists>pd. dl_at s d = Some pd \<and> pc pd = Some p)"
    using gimme_run [OF assms] by blast
  show ?thesis
  proof (cases r)
    case None
    then show ?thesis using s by (intro exI [of _ s] exI [of _ 0]) (simp add: fill_turn_def)
  next
    case (Some d)
    then obtain pd where pd: "dl_at s d = Some pd" "pc pd = Some p" using s(6) by blast
    have "p \<in> set (peers s)" using assms(2) rx_same_peers [OF s(3)] by simp
    from request_run [OF s(2) this, of "e_now e" "pd_idx pd" "pd_off pd" "pd_len pd"]
    obtain s' where s': "fill_turn e p sc i = Ok s'" "healthy e s'" "rx_same s s'" "length (outbox s') = length (outbox s) + 1" "queue_of s' p = queue_of s p + 1"
      using s(1) Some pd by (auto simp: fill_turn_def get_dl_def)
    then show ?thesis using s(4,5) rx_same_trans [OF s(3)] by (intro exI [of _ s'] exI [of _ 1]) simp
  qed
qed

lemma fill_loop_run:
  assumes "healthy e sc" "p \<in> set (peers sc)"
  shows "\<exists>sc' k. rfold (fill_turn e p) sc is = Ok sc' \<and> healthy e sc' \<and> rx_same sc sc' \<and> k \<le> length is
    \<and> length (outbox sc') = length (outbox sc) + k \<and> queue_of sc' p = queue_of sc p + of_nat k"
  using assms
proof (induction "is" arbitrary: sc)
  case Nil
  then show ?case by (intro exI [of _ sc] exI [of _ 0]) simp
next
  case (Cons i "is")
  obtain s k where s: "fill_turn e p sc i = Ok s" "healthy e s" "rx_same sc s" "k \<le> 1" "length (outbox s) = length (outbox sc) + k"
    "queue_of s p = queue_of sc p + of_nat k" using fill_turn_run [OF Cons.prems, of i] by blast
  have "p \<in> set (peers s)" using Cons.prems(2) rx_same_peers [OF s(3)] by simp
  then obtain s' k' where "rfold (fill_turn e p) s is = Ok s'" "healthy e s'" "rx_same s s'" "k' \<le> length is"
    "length (outbox s') = length (outbox s) + k'" "queue_of s' p = queue_of s p + of_nat k'" using Cons.IH [OF s(2)] by blast
  then show ?case using s rx_same_trans [OF s(3)] by (intro exI [of _ s'] exI [of _ "k + k'"]) (simp add: add.assoc)
qed

lemma requests_wanted_bound:
  "unat (dl_queue_len x) + unat (requests_wanted t x) \<le> max (unat (dl_queue_len x)) 100" "unat (requests_wanted t x) \<le> 100"
proof -
  have "\<exists>q. unat q \<le> 100 \<and> requests_wanted t x = (if q < dl_queue_len x then 0 else q - dl_queue_len x)"
    unfolding requests_wanted_def Let_def MAX_REQUESTS_def by (rule exI, rule conjI [rotated], rule refl) (simp add: word_less_nat_alt)
  then obtain q where "unat q \<le> 100" "requests_wanted t x = (if q < dl_queue_len x then 0 else q - dl_queue_len x)" by blast
  then show "unat (dl_queue_len x) + unat (requests_wanted t x) \<le> max (unat (dl_queue_len x)) 100" "unat (requests_wanted t x) \<le> 100"
    by (auto simp: word_less_nat_alt unat_sub_if')
qed


lemma fill_requests_run:
  assumes "healthy e sc" "peer_at sc p = Some x"
  shows "\<exists>sc' k. scheduler_fill_requests e p sc = Ok sc' \<and> healthy e sc' \<and> rx_same sc sc' \<and> k \<le> unat (requests_wanted (e_now e) x)
    \<and> length (outbox sc') = length (outbox sc) + k \<and> queue_of sc' p = dl_queue_len x + of_nat k"
proof (cases "state x AND PEER_STATE_CHOKED = 0 \<and> num_pieces (tp sc) - good_pieces (tp sc) > 0")
  case True
  moreover have "queue_of sc p = dl_queue_len x" using assms(2) by (simp add: queue_of_def)
  ultimately show ?thesis
    using fill_loop_run [OF assms(1) goodD(8) [OF assms], of "[0..<unat (requests_wanted (e_now e) x)]"] assms(2)
    by (simp add: scheduler_fill_requests_def get_peer_def)
next
  case False
  then show ?thesis using assms by (intro exI [of _ sc] exI [of _ 0]) (auto simp: scheduler_fill_requests_def get_peer_def Let_def queue_of_def)
qed

section \<open>Reaping\<close>

text \<open>Every peer of the second session was in the first and has the same receive buffer.\<close>

definition rx_sub :: "session \<Rightarrow> session \<Rightarrow> bool" where
  "rx_sub sc sc' \<longleftrightarrow> (\<forall>q y. peer_at sc' q = Some y \<longrightarrow> (\<exists>x. peer_at sc q = Some x \<and> rx_of y = rx_of x))"

lemma rx_sub_refl [simp]: "rx_sub sc sc"
  and rx_sub_trans: "rx_sub a b \<Longrightarrow> rx_sub b c \<Longrightarrow> rx_sub a c"
  by (auto simp: rx_sub_def) fastforce

lemma rx_same_sub:
  assumes "rx_same sc sc'"
  shows "rx_sub sc sc'"
  unfolding rx_sub_def
proof (intro allI impI)
  fix q y
  assume "peer_at sc' q = Some y"
  moreover have "map_option rx_of (peer_at sc' q) = map_option rx_of (peer_at sc q)" using assms by (simp add: rx_same_def)
  ultimately show "\<exists>x. peer_at sc q = Some x \<and> rx_of y = rx_of x" by (cases "peer_at sc q") auto
qed

text \<open>A listed peer is taken out of the list and freed.\<close>

lemma unlist_run:
  assumes "healthy e sc" "peer_at sc p = Some x"
  shows "\<exists>s sc'. tailq_remove p (peers sc) = Ok (remove1 p (peers sc)) \<and> network_peer_free p (sc\<lparr>peers := remove1 p (peers sc)\<rparr>) = Ok s
    \<and> sc' = s\<lparr>num_peers := num_peers s - 1\<rparr> \<and> healthy e sc' \<and> rx_sub sc sc' \<and> peers sc' = remove1 p (peers sc)
    \<and> peer_at sc' p = None \<and> (\<forall>d. dl_at sc' d = Option.bind (dl_at sc d) (after_free p))"
proof -
  note g = goodD [OF assms(1)]
  have p: "p \<in> set (peers sc)" using g(8) assms(2) .
  let ?s = "sc\<lparr>peers := remove1 p (peers sc)\<rparr>"
  have l: "links_ok ?s" using g(2) links_ok_cong [of ?s sc] by simp
  obtain s1 where s1: "network_peer_free p ?s = Ok (s1\<lparr>peer_at := (peer_at s1)(p := None)\<rparr>)" "frame ?s s1"
    "links_ok (s1\<lparr>peer_at := (peer_at s1)(p := None)\<rparr>)" using peer_free_ok [OF l, of p x] assms(2) by auto
  let ?r = "s1\<lparr>peer_at := (peer_at s1)(p := None), num_peers := num_peers sc - 1\<rparr>"
  note f = frame_fields [OF s1(2)]
  have t: "dl_at s1 d = Option.bind (dl_at sc d) (after_free p)" for d using peer_free_table [OF l s1(1), of d] by simp
  have "num_peers sc - 1 = of_nat (length (remove1 p (peers sc)))"
    using g(1) p by (cases "length (peers sc)") (auto simp: session_ok_def length_remove1)
  moreover have "links_ok ?r" using s1(3) links_ok_cong [of ?r "s1\<lparr>peer_at := (peer_at s1)(p := None)\<rparr>"] by simp
  ultimately have so: "session_ok {} ?r" using g(1) frame_dom [OF s1(2)] by (auto simp: session_ok_def f)
  have b: "\<exists>z. peer_at sc q = Some z \<and> bitfield y = bitfield z \<and> rx_of y = rx_of z" if y: "peer_at ?r q = Some y" for q y
  proof -
    obtain z where z: "peer_at sc q = Some z" using frame_None [OF s1(2), of q] y by (cases "peer_at sc q") (auto split: if_splits)
    then show ?thesis using frame_peer [OF s1(2), of q z] y by (auto simp: rx_of_def split: if_splits)
  qed
  have d: "unat (pd_idx pd) < unat (num_pieces (tp sc))" if "dl_at ?r d = Some pd" for d pd
    using that sched_okD(3) [OF g(3), of d] by (auto simp: t after_free_def bind_eq_Some_conv split: if_splits)
  have "bits_ok (tp sc) y" if "peer_at ?r q = Some y" for q y using b [OF that] sched_okD(2) [OF g(3)] by (auto simp: bits_ok_def)
  then have "sched_ok ?r" using g(3) d unfolding sched_ok_def by (simp add: f)
  then have "healthy e ?r" using so g(5,6) by (simp add: healthy_def f rarity_ready_def)
  moreover have "rx_sub sc ?r" unfolding rx_sub_def using b by blast
  moreover have "tailq_remove p (peers sc) = Ok (remove1 p (peers sc))" using p by (simp add: tailq_remove_def)
  ultimately show ?thesis using s1(1)
    by (intro exI [of _ "s1\<lparr>peer_at := (peer_at s1)(p := None)\<rparr>"] exI [of _ ?r]) (simp add: f t)
qed

lemma reap_run:
  assumes "healthy e sc" "peer_at sc p = Some x" "state x AND PEER_STATE_DEAD \<noteq> 0"
  shows "\<exists>sc'. scheduler_reap_dead p sc = Ok (True, sc') \<and> healthy e sc' \<and> rx_sub sc sc' \<and> peers sc' = remove1 p (peers sc)
    \<and> peer_at sc' p = None \<and> (\<forall>d. dl_at sc' d = Option.bind (dl_at sc d) (after_free p))"
  using unlist_run [OF assms(1,2)] assms(2,3) by (auto simp: scheduler_reap_dead_def get_peer_def)

section \<open>Uploads\<close>

lemma find_range: "files_ok t \<Longrightarrow> torrent_piece_find t idx = Ok tpp \<Longrightarrow> unat idx < unat (num_pieces t)"
  using in_range by (auto simp: torrent_piece_find_def split: if_splits)

lemma write_piece_keep:
  assumes "healthy e sc" "p \<in> set (peers sc)"
  shows "keep e UNIV sc (network_peer_write_piece pg t p idx off len sc)"
  unfolding network_peer_write_piece_def
proof (rule keep_pure_any)
  fix tpp
  assume tpp: "torrent_piece_find (tp sc) idx = Ok tpp"
  let ?map = "if tpp_flags tpp AND TORRENT_PIECE_MAPPED = 0
      then rmap (\<lambda>(tpp, t, dk). (tpp, sc\<lparr>tp := update_piece t idx tpp, dsk := dk\<rparr>)) (torrent_piece_map pg tpp (tp sc, dsk sc)) else Ok (tpp, sc)"
  let ?send = "\<lambda>(tpp, sc). rbind (torrent_block_read tpp (uint off) len (dsk sc)) (\<lambda>r. case r of
         None \<Rightarrow> Ok sc
       | Some (block, hint) \<Rightarrow> rbind (block_bytes block) (\<lambda>data.
           let msglen = size4 + size1 + size4 + size4 + len; msglen2 = htonl (msglen - size4) in
           if uint msglen < 13 + uint len then Fault (Undef ''memcpy'')
           else rbind (network_peer_write t p
               (mem_u32 msglen2 @ [PEER_MSG_ID_PIECE] @ mem_u32 (htonl idx) @ mem_u32 (htonl off) @ data) sc) (\<lambda>sc.
             rbind (get_peer sc p) (\<lambda>x.
               Ok (set_peer sc p (x\<lparr>totaltx := totaltx x + ucast msglen\<rparr>))))))"
  note i = find_range [OF goodD(5) [OF assms(1)] tpp]
  have tp: "tpp = piece_array (tp sc) ! unat idx" using torrent_ok_piece(1) [OF goodD(4) [OF assms(1)] i] tpp by simp
  have m: "healthy e s \<and> rx_same sc s" if ms: "?map = Ok (tpp', s)" for tpp' s
  proof (cases "tpp_flags tpp AND TORRENT_PIECE_MAPPED = 0")
    case True
    then obtain t' dk where "torrent_piece_map pg tpp (tp sc, dsk sc) = Ok (tpp', t', dk)" "s = sc\<lparr>tp := update_piece t' idx tpp', dsk := dk\<rparr>"
      using ms by (auto simp: rmap_eq_Ok)
    then show ?thesis using piece_map_same [OF _ goodD(5) [OF assms(1)], of pg tpp] healthy_piece [OF assms(1) i]
        torrent_ok_piece(2) [OF goodD(4) [OF assms(1)] i] tp by (fastforce simp: map_inv_def)
  qed (use ms assms(1) in auto)
  have k: "keep e UNIV s (rbind (get_peer s p) (\<lambda>x. Ok (set_peer s p (x\<lparr>totaltx := totaltx x + n\<rparr>))))" if "healthy e s" "p \<in> set (peers s)" for s n
    by (rule keep_get_peer [OF that], rule keep_set_peer [OF that(1)]) (simp_all add: rx_of_def)
  have send: "keep e UNIV s (?send (tpp', s))" if s: "healthy e s" "rx_same sc s" for tpp' s
  proof -
    have ps: "p \<in> set (peers s)" using assms(2) rx_same_peers [OF s(2)] by simp
    have w: "keep e UNIV s (rbind (network_peer_write t p msg s) (\<lambda>sc. rbind (get_peer sc p) (\<lambda>x.
               Ok (set_peer sc p (x\<lparr>totaltx := totaltx x + n\<rparr>)))))" for msg n
      by (rule keep_bind [OF peer_write_keep [OF s(1) ps]], rule k) (use ps in \<open>simp_all add: rx_same_peers\<close>)
    have "keep e UNIV s (Ok s)" using s(1) by simp
    then show ?thesis unfolding prod.case by (intro keep_pure_any) (auto simp: Let_def simp del: keep_Ok intro!: keep_pure_any w keep_any split: option.splits)
  qed
  show "keep e UNIV sc (rbind ?map ?send)"
  proof (rule keep_pure_any)
    fix y
    assume y: "?map = Ok y"
    then have "healthy e (snd y)" "rx_same sc (snd y)" using m [of "fst y" "snd y"] by simp_all
    from keep_from [OF this(2) send [OF this, of "fst y"]] show "keep e UNIV sc (?send y)" by (simp add: split_beta)
  qed
qed

lemma dequeue_uploads_keep:
  assumes "healthy e sc" "p \<in> set (peers sc)"
  shows "keep e UNIV sc (scheduler_dequeue_uploads e p sc)"
proof -
  obtain x where x: "peer_at sc p = Some x" using good_peer [OF assms] by blast
  show ?thesis
  proof (cases "peer_piece_uls x")
    case Nil
    then show ?thesis using x assms(1) by (simp add: scheduler_dequeue_uploads_def network_piece_ul_dequeue_def get_peer_def)
  next
    case (Cons pu uls)
    let ?s = "set_peer sc p (x\<lparr>peer_piece_uls := uls\<rparr>)"
    have "keep e UNIV sc (Ok ?s)" by (rule keep_set_peer [OF assms(1) x]) (simp_all add: rx_of_def)
    then have "keep e UNIV sc (network_peer_write_piece (e_page e) (e_now e) p (pu_idx pu) (pu_off pu) (pu_len pu) ?s)"
      using keep_from [of sc ?s] write_piece_keep [of e ?s p] assms(2) by simp
    then show ?thesis using x Cons by (simp add: scheduler_dequeue_uploads_def network_piece_ul_dequeue_def get_peer_def)
  qed
qed


section \<open>The endgame\<close>

lemma endgame_block_keep:
  assumes "healthy e sc" "p \<in> set (peers sc)" "unat i < unat (num_pieces (tp sc))"
  shows "keep e F sc (endgame_block e p i len sc off)"
proof -
  obtain x where x: "peer_at sc p = Some x" using good_peer [OF assms(1,2)] by blast
  note g = goodD [OF assms(1)]
  let ?pd = "\<lparr>pc = Some p, pd_idx = i, pd_off = off, pd_len = block_len len off, pd_bytes = 0\<rparr>"
  obtain s where s: "network_piece_dl_create p i off (block_len len off) sc = Ok (fresh_dl sc, s)" "links_ok s" "frame sc s"
    "dl_at s = (dl_at sc)(fresh_dl sc \<mapsto> ?pd)" using dl_create_ok [OF g(2) x, of i off "block_len len off"] by blast
  have "unat (pd_idx pd) < unat (num_pieces (tp sc))" if "dl_at s d = Some pd" for d pd
    using that s(4) assms(3) sched_okD(3) [OF g(3), of d pd] by (auto split: if_splits)
  then have h: "healthy e s" "rx_same sc s" using frame_good [OF assms(1) s(3,2)] by blast+
  have "p \<in> set (peers s)" using assms(2) rx_same_peers [OF h(2)] by simp
  then have r: "keep e F s (rbind (network_peer_request_block (e_now e) p i off (block_len len off) s) (\<lambda>sc.
         rbind (get_peer sc p) (\<lambda>x. Ok (set_peer sc p (x\<lparr>dl_queue_len := dl_queue_len x + 1\<rparr>)))))"
    using request_run [OF h(1), of p "e_now e" i off "block_len len off"] by auto
  show ?thesis unfolding endgame_block_def
  proof (rule keep_get_peer [OF assms(1,2)], rule keep_pure)
    fix y g
    assume y: "peer_at sc p = Some y" "find_dl sc (peer_piece_dls y) i off = Fault g"
    have "\<forall>d \<in> set (peer_piece_dls y). dl_at sc d \<noteq> None" using linkedD [OF links_okD(1) [OF g(2)], of _ p] y(1) by (fastforce simp: dls_of_def)
    then show "g \<in> F" using find_dl_ok [of "peer_piece_dls y" sc i off] y(2) by simp
  next
    fix y found
    show "keep e F sc (if found \<noteq> None then Ok sc else rbind (network_piece_dl_create p i off (block_len len off) sc) (\<lambda>(d, sc).
         rbind (network_peer_request_block (e_now e) p i off (block_len len off) sc) (\<lambda>sc.
         rbind (get_peer sc p) (\<lambda>x. Ok (set_peer sc p (x\<lparr>dl_queue_len := dl_queue_len x + 1\<rparr>))))))"
      using keep_from [OF h(2) r] s(1) assms(1) by simp
  qed
qed

lemma endgame_peer_keep:
  assumes "healthy e sc" "p \<in> set (peers sc)" "unat i < unat (num_pieces (tp sc))" "block_offs len = Ok offs"
  shows "keep e F sc (endgame_peer e i len sc p)"
  unfolding endgame_peer_def
proof (rule keep_get_peer [OF assms(1,2)], rule keep_pure)
  fix x g
  assume x: "peer_at sc p = Some x" "(case bitfield x of None \<Rightarrow> Ok True | Some bf \<Rightarrow> util_getbit bf i) = Fault g"
  show "g \<in> F" using getbit_in [OF goodD(4) [OF assms(1)] _ assms(3)] sched_okD(2) [OF goodD(3) [OF assms(1)] x(1)] x(2)
    by (fastforce simp: bits_ok_def split: option.splits)
next
  fix x skip
  show "keep e F sc (if skip \<or> state x AND PEER_STATE_CHOKED \<noteq> 0 then Ok sc
       else rbind (block_offs len) (rfold (endgame_block e p i len) sc))"
    unfolding assms(4) rbind.simps
    by (rule keep_if, use assms(1) in simp, rule keep_rfold [OF assms(1)], rule endgame_block_keep)
      (use assms(2,3) in \<open>simp_all add: rx_same_peers rx_same_num\<close>)
qed

lemma endgame_keep:
  assumes "healthy e sc"
  shows "keep e F sc (scheduler_endgame_algorithm e sc)"
  unfolding scheduler_endgame_algorithm_def
proof (rule keep_rfold [OF assms])
  fix s i
  assume s: "i \<in> set (piece_indexes (tp sc))" "healthy e s" "rx_same sc s"
  have i: "unat i < unat (num_pieces (tp s))" using s(1) rx_same_num [OF s(3)] by (simp add: piece_indexes_in)
  note t = torrent_ok_piece [OF goodD(4) [OF s(2)] i]
  have "keep e F s (rfold (endgame_peer e i (tpp_len (piece_array (tp s) ! unat i))) s (peers s))"
    by (rule keep_rfold [OF s(2)], rule endgame_peer_keep) (use i t in \<open>simp_all add: rx_same_peers rx_same_num\<close>)
  then show "keep e F s (endgame_piece e s i)" using s(2) t(1) by (simp add: endgame_piece_def)
qed

lemma is_endgame_Ok:
  assumes "healthy e sc"
  shows "\<exists>b. scheduler_is_endgame sc = Ok b"
proof -
  have "\<exists>b. endgame_loop sc is = Ok b" if "\<forall>i \<in> set is. unat i < unat (num_pieces (tp sc))" for "is"
    using that
  proof (induction "is")
    case (Cons i "is")
    then have i: "unat i < unat (num_pieces (tp sc))" by simp
    show ?case using Cons torrent_ok_piece(1) [OF goodD(4) [OF assms] i] assigned_ok [OF goodD(2,4) [OF assms] i]
      by (cases "\<forall>off \<in> set (offs_of (tp sc) i). busy sc i off") auto
  qed (rule exI [of _ True], simp)
  then show ?thesis by (simp add: scheduler_is_endgame_def piece_indexes_in)
qed

section \<open>A run of the scheduler\<close>

lemma choke_keep:
  assumes "healthy e sc"
  shows "keep e UNIV sc (scheduler_choke_algorithm e sc)"
proof (cases "e_now e mod 10 = 0")
  case True
  show ?thesis
  proof (cases "scheduler_peer_speedrank (e_now e) sc")
    case (Ok pcs)
    then show ?thesis using choke_algorithm_run [OF assms Ok True] by auto
  qed (simp add: scheduler_choke_algorithm_def True)
qed (simp add: scheduler_choke_algorithm_def assms)

text \<open>One peer: it may be reaped; the others stay.\<close>

lemma scheduler_peer_run:
  assumes "healthy e sc" "p \<in> set (peers sc)" "scheduler_peer e sc p = Ok sc'"
  shows "healthy e sc' \<and> rx_sub sc sc' \<and> set (peers sc) - {p} \<subseteq> set (peers sc')"
proof -
  obtain x where x: "peer_at sc p = Some x" using good_peer [OF assms(1,2)] by blast
  have d: "distinct (peers sc)" using goodD(1) [OF assms(1)] by (simp add: session_ok_def)
  show ?thesis
  proof (cases "state x AND PEER_STATE_DEAD = 0")
    case False
    then show ?thesis using reap_run [OF assms(1) x] assms(3) d by (auto simp: scheduler_peer_def)
  next
    case True
    have u: "keep e UNIV sc (rbind (scheduler_dequeue_uploads e p sc) (scheduler_fill_requests e p))"
    proof (rule keep_bind [OF dequeue_uploads_keep [OF assms(1,2)]])
      fix s
      assume s: "healthy e s" "rx_same sc s"
      then have "p \<in> set (peers s)" using assms(2) by (simp add: rx_same_peers)
      then obtain y where "peer_at s p = Some y" using good_peer [OF s(1)] by blast
      from fill_requests_run [OF s(1) this] show "keep e UNIV s (scheduler_fill_requests e p s)" by auto
    qed
    have "keep e UNIV sc (scheduler_peer e sc p)"
      using u True x kill_keep [OF assms(1,2), of UNIV]
      by (cases "kill_peer p sc") (simp_all add: scheduler_peer_def scheduler_reap_dead_def scheduler_threshold_kill_def get_peer_def)
    then show ?thesis using assms(3) rx_same_sub rx_same_peers by auto
  qed
qed

lemma scheduler_peers_run:
  assumes "healthy e sc" "distinct ps" "set ps \<subseteq> set (peers sc)" "rfold (scheduler_peer e) sc ps = Ok sc'"
  shows "healthy e sc' \<and> rx_sub sc sc'"
  using assms
proof (induction ps arbitrary: sc)
  case (Cons p ps)
  obtain s where s: "scheduler_peer e sc p = Ok s" "rfold (scheduler_peer e) s ps = Ok sc'" using Cons.prems(4) by (auto simp: rbind_eq_Ok)
  have "healthy e s" "rx_sub sc s" "set (peers sc) - {p} \<subseteq> set (peers s)" using scheduler_peer_run [OF Cons.prems(1) _ s(1)] Cons.prems(3) by auto
  moreover from this have "set ps \<subseteq> set (peers s)" using Cons.prems(2,3) by auto
  ultimately show ?case using Cons.IH [OF _ _ _ s(2)] Cons.prems(2) rx_sub_trans by (metis distinct.simps(2))
qed simp


lemma scheduler_run:
  assumes "healthy e sc" "scheduler e sc = Ok sc'"
  shows "healthy e sc'" "rx_sub sc sc'"
proof -
  obtain s1 s2 en where s: "rfold (scheduler_peer e) sc (peers sc) = Ok s1" "scheduler_choke_algorithm e s1 = Ok s2"
    "scheduler_is_endgame s2 = Ok en"
    and rest: "rbind (if en then scheduler_endgame_algorithm e s2 else Ok s2) (\<lambda>s.
        if num_peers s < PEERS_WANTED \<and> num_pieces (tp sc) - good_pieces (tp sc) > 0 \<and> \<not> announce_underway s
          \<and> e_now e - last_announce s > MIN_ANNOUNCE_INTERVAL
        then rmap snd (announce (e_now e) (e_tracker e) None s) else Ok s) = Ok sc'"
    using assms(2) unfolding scheduler_def Let_def rbind_eq_Ok by blast
  have h1: "healthy e s1" "rx_sub sc s1"
    using scheduler_peers_run [OF assms(1) _ subset_refl s(1)] goodD(1) [OF assms(1)] by (simp_all add: session_ok_def)
  have h2: "healthy e s2" "rx_same s1 s2" using choke_keep [OF h1(1)] s(2) by simp_all
  have "keep e UNIV s2 (if en then scheduler_endgame_algorithm e s2 else Ok s2)" using endgame_keep [OF h2(1)] h2(1) by simp
  then have "keep e UNIV s2 (rbind (if en then scheduler_endgame_algorithm e s2 else Ok s2) (\<lambda>s.
        if num_peers s < PEERS_WANTED \<and> num_pieces (tp sc) - good_pieces (tp sc) > 0 \<and> \<not> announce_underway s
          \<and> e_now e - last_announce s > MIN_ANNOUNCE_INTERVAL
        then rmap snd (announce (e_now e) (e_tracker e) None s) else Ok s))"
    by (rule keep_bind, intro keep_if announce_keep) simp_all
  then have "healthy e sc' \<and> rx_same s2 sc'" using rest by simp
  then show "healthy e sc'" "rx_sub sc sc'" using h1(2) h2(2) rx_same_sub rx_sub_trans by blast+
qed

section \<open>Properties\<close>

text \<open>
  (C17) A run of the scheduler that returns leaves the session healthy, whatever the peers, their flags, the clock and the random
  numbers are: dead peers are reaped, uploads served, blocks requested, peers choked, the endgame played and the tracker
  asked without breaking the links between downloads, index and peers.
\<close>

theorem scheduler_invariant:
  assumes "healthy e sc" "scheduler e sc = Ok sc'"
  shows "session_ok {} sc' \<and> sched_ok sc' \<and> healthy e sc'"
  using scheduler_run(1) [OF assms] by (simp add: healthy_def)

text \<open>The same two peers when all pieces are there: nothing is requested.\<close>

definition seeding :: session where
  "seeding = two_peers\<lparr>tp := (tp two_peers)\<lparr>good_pieces := 2\<rparr>, dsk := dsk two_peers\<rparr>"

lemma seeding_run: "healthy example_env seeding" "\<exists>sc'. scheduler example_env seeding = Ok sc'"
proof -
  note g = goodD [OF two_peers_ready(1)]
  have "torrent_ok ((tp two_peers)\<lparr>good_pieces := 2\<rparr>)" "files_ok ((tp two_peers)\<lparr>good_pieces := 2\<rparr>)"
    using g(4,5) by (simp_all add: torrent_ok_def pieces_ok_def files_ok_def)
  then show h: "healthy example_env seeding" unfolding seeding_def using healthy_tp(1) [OF two_peers_ready(1)] by fastforce
  have p: "peers seeding = [0, 1]" "num_pieces (tp seeding) - good_pieces (tp seeding) = 0" "e_now example_env mod 10 = 0"
    "peer_at seeding 0 = Some (bits_peer 128)" "peer_at seeding 1 = Some (bits_peer 192)"
    by (simp_all add: seeding_def two_peers_def example_session_def small_torrent_def example_env_def)
  have "scheduler_peer example_env seeding q = Ok seeding" if "peer_at seeding q = Some (bits_peer b)" for q b
  proof -
    have "state (bits_peer b) = PEER_STATE_ESTABLISHED" "peer_piece_uls (bits_peer b) = []" "lastrecv (bits_peer b) = 0"
      by (simp_all add: bits_peer_def new_peer_def)
    moreover have "PEER_STATE_ESTABLISHED AND PEER_STATE_DEAD = 0" by (simp add: peer_state_defs)
    ultimately show ?thesis using that p(2)
      by (simp add: scheduler_peer_def scheduler_reap_dead_def scheduler_threshold_kill_def scheduler_dequeue_uploads_def
          network_piece_ul_dequeue_def scheduler_fill_requests_def get_peer_def network_peer_lastcomms_def example_env_def PEER_COMMS_THRESHOLD_def)
  qed
  then have 1: "rfold (scheduler_peer example_env) seeding (peers seeding) = Ok seeding" using p(4,5) by (simp add: p(1))
  obtain pcs where "scheduler_peer_speedrank (e_now example_env) seeding = Ok pcs"
    using speedrank_run [OF h] p(1) by force
  then obtain s where s: "scheduler_choke_algorithm example_env seeding = Ok s" "healthy example_env s"
    using choke_algorithm_run [OF h _ p(3)] by blast
  obtain b where b: "scheduler_is_endgame s = Ok b" using is_endgame_Ok [OF s(2)] by blast
  have "keep example_env {} s (scheduler_endgame_algorithm example_env s)" by (rule endgame_keep [OF s(2)])
  then obtain s' where "(if b then scheduler_endgame_algorithm example_env s else Ok s) = Ok s'"
    by (cases b; cases "scheduler_endgame_algorithm example_env s") auto
  then show "\<exists>sc'. scheduler example_env seeding = Ok sc'" using 1 s(1) b p(2) by (simp add: scheduler_def Let_def)
qed

theorem scheduler_invariant_witness:
  "\<exists>sc'. scheduler example_env seeding = Ok sc' \<and> session_ok {} sc' \<and> healthy example_env sc'"
  using seeding_run scheduler_invariant [OF seeding_run(1)] by blast

text \<open>
  (C21) Requests: in a healthy session \<^verbatim>\<open>scheduler_fill_requests\<close> returns for every peer of the session. It sends at most 100
  messages, the queue length of the peer grows by exactly the number of messages sent, without wrapping around, and never
  above 100 unless it was above already. The session stays healthy.
\<close>

theorem fill_requests_bounds:
  assumes "healthy e sc" "peer_at sc p = Some x"
  shows "\<exists>sc' y k. scheduler_fill_requests e p sc = Ok sc' \<and> healthy e sc' \<and> peers sc' = peers sc
    \<and> length (outbox sc') = length (outbox sc) + k \<and> k \<le> 100
    \<and> peer_at sc' p = Some y \<and> unat (dl_queue_len y) = unat (dl_queue_len x) + k
    \<and> unat (dl_queue_len y) \<le> max (unat (dl_queue_len x)) 100"
proof -
  obtain sc' k where s: "scheduler_fill_requests e p sc = Ok sc'" "healthy e sc'" "rx_same sc sc'" "k \<le> unat (requests_wanted (e_now e) x)"
    "length (outbox sc') = length (outbox sc) + k" "queue_of sc' p = dl_queue_len x + of_nat k"
    using fill_requests_run [OF assms] by blast
  obtain y where y: "peer_at sc' p = Some y" using rx_same_peer [OF s(3) assms(2)] by blast
  note b = requests_wanted_bound [where x = x and t = "e_now e"]
  have m: "unat (dl_queue_len x) + k \<le> max (unat (dl_queue_len x)) 100" using s(4) b(1) by linarith
  then have "unat (dl_queue_len x) + k < 2 ^ 32" using unsigned_less [of "dl_queue_len x", where 'a = nat] by (auto simp: max_def split: if_splits)
  then have "unat (dl_queue_len x + of_nat k) = unat (dl_queue_len x) + k" by (simp add: unat_word_ariths unat_of_nat)
  then have "unat (dl_queue_len y) = unat (dl_queue_len x) + k" using s(6) y by (simp add: queue_of_def)
  then show ?thesis using s y m b(2) by (intro exI [of _ sc'] exI [of _ y] exI [of _ k]) (simp add: rx_same_peers)
qed

theorem fill_requests_bounds_witness:
  "\<exists>sc' k. scheduler_fill_requests example_env 0 two_peers = Ok sc' \<and> k \<le> 100 \<and> length (outbox sc') = length (outbox two_peers) + k"
proof -
  have "peer_at two_peers 0 = Some (bits_peer 128)" by (simp add: two_peers_def)
  from fill_requests_bounds [OF two_peers_ready(1) this] show ?thesis by blast
qed

text \<open>
  (C19) A peer that is marked dead is gone after its turn in the scheduler: \<^verbatim>\<open>scheduler_peer\<close> returns, the peer is freed and
  out of the list, the other peers stay in their order, every download it had is freed unless all
  its bytes have arrived, and then it is left without a peer, and the session is healthy.
\<close>

theorem dead_peer_reaped:
  assumes "healthy e sc" "peer_at sc p = Some x" "state x AND PEER_STATE_DEAD \<noteq> 0"
  shows "\<exists>sc'. scheduler_peer e sc p = Ok sc' \<and> healthy e sc' \<and> peers sc' = remove1 p (peers sc) \<and> p \<notin> set (peers sc')
    \<and> peer_at sc' p = None \<and> (\<forall>d. dl_at sc' d = Option.bind (dl_at sc d) (after_free p)) \<and> (\<forall>d pd. dl_at sc' d = Some pd \<longrightarrow> pc pd \<noteq> Some p)"
proof -
  obtain sc' where s: "scheduler_reap_dead p sc = Ok (True, sc')" "healthy e sc'" "peers sc' = remove1 p (peers sc)" "peer_at sc' p = None"
    "\<forall>d. dl_at sc' d = Option.bind (dl_at sc d) (after_free p)" using reap_run [OF assms] by blast
  have "distinct (peers sc)" using goodD(1) [OF assms(1)] by (simp add: session_ok_def)
  moreover have "pc pd \<noteq> Some p" if "dl_at sc' d = Some pd" for d pd
    using that s(5) by (auto simp: after_free_def bind_eq_Some_conv split: if_splits dest: arg_cong [of _ _ pc])
  ultimately show ?thesis using s by (auto simp: scheduler_peer_def)
qed

theorem dead_peer_reaped_witness:
  "\<exists>sc'. scheduler_peer example_env (set_peer two_peers 0 ((bits_peer 128)\<lparr>state := PEER_STATE_DEAD\<rparr>)) 0 = Ok sc' \<and> peers sc' = [1]"
proof -
  let ?x = "(bits_peer 128)\<lparr>state := PEER_STATE_DEAD\<rparr>"
  have x: "peer_at two_peers 0 = Some (bits_peer 128)" by (simp add: two_peers_def)
  have "bits_ok (tp two_peers) ?x" using sched_okD(2) [OF two_peers_ok(2) x] by (simp add: bits_ok_def)
  then have "healthy example_env (set_peer two_peers 0 ?x)" by (intro set_peer_good [OF two_peers_ready(1) x]) simp_all
  moreover have "peers two_peers = [0, 1]" by (simp add: two_peers_def)
  moreover have "state ?x AND PEER_STATE_DEAD \<noteq> 0" by (simp add: peer_state_defs)
  ultimately show ?thesis using dead_peer_reaped [of example_env "set_peer two_peers 0 ?x" 0 ?x] by auto
qed

end
