(* ===== verification/Tailq.thy ===== *)
theory Tailq
  imports Session
begin

text \<open>
  The tail queues of \<^verbatim>\<open>openbsd-compat/sys/queue.h\<close>, at the level of their pointers. The links of the elements are in a
  table, \<open>None\<close> for an object that is not allocated. A pointer to a pointer, as \<^verbatim>\<open>tqh_last\<close> and \<^verbatim>\<open>tqe_prev\<close> hold, names a
  \<open>slot\<close>: the field \<^verbatim>\<open>tqh_first\<close> of the head or the field \<^verbatim>\<open>tqe_next\<close> of an element. The macros keep a queue that
  represents a list, and do to it what the model of the session does to lists.
\<close>

section \<open>The macros\<close>

datatype slot = First | Next nat

record tailq_entry =
  tqe_next :: "nat option"
  tqe_prev :: slot

record tailq =
  tqh_first :: "nat option"
  tqh_last :: slot
  entry_at :: "nat \<Rightarrow> tailq_entry option"

definition links :: "tailq \<Rightarrow> nat \<Rightarrow> tailq_entry res" where
  "links q a = (case entry_at q a of None \<Rightarrow> Fault (Undef ''tqe'') | Some l \<Rightarrow> Ok l)"

definition set_next :: "nat \<Rightarrow> nat option \<Rightarrow> tailq \<Rightarrow> tailq res" where
  "set_next a v q = rbind (links q a) (\<lambda>l. Ok (q\<lparr>entry_at := (entry_at q)(a \<mapsto> l\<lparr>tqe_next := v\<rparr>)\<rparr>))"

definition set_prev :: "nat \<Rightarrow> slot \<Rightarrow> tailq \<Rightarrow> tailq res" where
  "set_prev a s q = rbind (links q a) (\<lambda>l. Ok (q\<lparr>entry_at := (entry_at q)(a \<mapsto> l\<lparr>tqe_prev := s\<rparr>)\<rparr>))"

text \<open>\<^verbatim>\<open>*p = v\<close>, \<^verbatim>\<open>*p\<close>, and \<^verbatim>\<open>((struct headname *)p)->tqh_last\<close>, which reads the second field of the object the slot begins.\<close>

definition store :: "slot \<Rightarrow> nat option \<Rightarrow> tailq \<Rightarrow> tailq res" where
  "store s v q = (case s of First \<Rightarrow> Ok (q\<lparr>tqh_first := v\<rparr>) | Next a \<Rightarrow> set_next a v q)"

definition load :: "slot \<Rightarrow> tailq \<Rightarrow> nat option res" where
  "load s q = (case s of First \<Rightarrow> Ok (tqh_first q) | Next a \<Rightarrow> rmap tqe_next (links q a))"

definition second :: "slot \<Rightarrow> tailq \<Rightarrow> slot res" where
  "second s q = (case s of First \<Rightarrow> Ok (tqh_last q) | Next a \<Rightarrow> rmap tqe_prev (links q a))"

definition TAILQ_FIRST :: "tailq \<Rightarrow> nat option" where
  "TAILQ_FIRST q = tqh_first q"

definition TAILQ_NEXT :: "nat \<Rightarrow> tailq \<Rightarrow> nat option res" where
  "TAILQ_NEXT a q = rmap tqe_next (links q a)"

definition TAILQ_LAST :: "tailq \<Rightarrow> nat option res" where
  "TAILQ_LAST q = rbind (second (tqh_last q) q) (\<lambda>s. load s q)"

definition TAILQ_PREV :: "nat \<Rightarrow> tailq \<Rightarrow> nat option res" where
  "TAILQ_PREV a q = rbind (links q a) (\<lambda>l. rbind (second (tqe_prev l) q) (\<lambda>s. load s q))"

definition TAILQ_EMPTY :: "tailq \<Rightarrow> bool" where
  "TAILQ_EMPTY q \<longleftrightarrow> TAILQ_FIRST q = None"

definition TAILQ_INIT :: "tailq \<Rightarrow> tailq" where
  "TAILQ_INIT q = q\<lparr>tqh_first := None, tqh_last := First\<rparr>"

definition TAILQ_INSERT_HEAD :: "nat \<Rightarrow> tailq \<Rightarrow> tailq res" where
  "TAILQ_INSERT_HEAD elm q =
     rbind (set_next elm (tqh_first q) q) (\<lambda>q.
     rbind (case tqh_first q of
              Some f \<Rightarrow> set_prev f (Next elm) q
            | None \<Rightarrow> Ok (q\<lparr>tqh_last := Next elm\<rparr>)) (\<lambda>q.
     set_prev elm First (q\<lparr>tqh_first := Some elm\<rparr>)))"

definition TAILQ_INSERT_TAIL :: "nat \<Rightarrow> tailq \<Rightarrow> tailq res" where
  "TAILQ_INSERT_TAIL elm q =
     rbind (set_next elm None q) (\<lambda>q.
     rbind (set_prev elm (tqh_last q) q) (\<lambda>q.
     rbind (store (tqh_last q) (Some elm) q) (\<lambda>q. Ok (q\<lparr>tqh_last := Next elm\<rparr>))))"

definition TAILQ_INSERT_AFTER :: "nat \<Rightarrow> nat \<Rightarrow> tailq \<Rightarrow> tailq res" where
  "TAILQ_INSERT_AFTER listelm elm q =
     rbind (links q listelm) (\<lambda>l.
     rbind (set_next elm (tqe_next l) q) (\<lambda>q.
     rbind (case tqe_next l of
              Some f \<Rightarrow> set_prev f (Next elm) q
            | None \<Rightarrow> Ok (q\<lparr>tqh_last := Next elm\<rparr>)) (\<lambda>q.
     rbind (set_next listelm (Some elm) q) (set_prev elm (Next listelm)))))"

definition TAILQ_INSERT_BEFORE :: "nat \<Rightarrow> nat \<Rightarrow> tailq \<Rightarrow> tailq res" where
  "TAILQ_INSERT_BEFORE listelm elm q =
     rbind (links q listelm) (\<lambda>l.
     rbind (set_prev elm (tqe_prev l) q) (\<lambda>q.
     rbind (set_next elm (Some listelm) q) (\<lambda>q.
     rbind (store (tqe_prev l) (Some elm) q) (set_prev listelm (Next elm)))))"

text \<open>\<^verbatim>\<open>_Q_INVALIDATE\<close> does nothing without \<^verbatim>\<open>QUEUE_MACRO_DEBUG\<close>: the removed element keeps its links.\<close>

definition TAILQ_REMOVE :: "nat \<Rightarrow> tailq \<Rightarrow> tailq res" where
  "TAILQ_REMOVE elm q =
     rbind (links q elm) (\<lambda>l.
     rbind (case tqe_next l of
              Some f \<Rightarrow> set_prev f (tqe_prev l) q
            | None \<Rightarrow> Ok (q\<lparr>tqh_last := tqe_prev l\<rparr>)) (\<lambda>q.
     rbind (links q elm) (\<lambda>l. store (tqe_prev l) (tqe_next l) q)))"

definition TAILQ_REPLACE :: "nat \<Rightarrow> nat \<Rightarrow> tailq \<Rightarrow> tailq res" where
  "TAILQ_REPLACE elm elm2 q =
     rbind (links q elm) (\<lambda>l.
     rbind (set_next elm2 (tqe_next l) q) (\<lambda>q.
     rbind (case tqe_next l of
              Some f \<Rightarrow> set_prev f (Next elm2) q
            | None \<Rightarrow> Ok (q\<lparr>tqh_last := Next elm2\<rparr>)) (\<lambda>q.
     rbind (set_prev elm2 (tqe_prev l) q) (store (tqe_prev l) (Some elm2)))))"

text \<open>\<^verbatim>\<open>TAILQ_FOREACH\<close> visits the elements in turn; the loop is run for at most \<open>n\<close> elements, \<open>None\<close> when it has not ended then.\<close>

fun foreach :: "nat \<Rightarrow> nat option \<Rightarrow> tailq \<Rightarrow> nat list option res" where
  "foreach n None q = Ok (Some [])"
| "foreach 0 (Some a) q = Ok None"
| "foreach (Suc n) (Some a) q = rbind (TAILQ_NEXT a q) (\<lambda>v. rmap (map_option (Cons a)) (foreach n v q))"

definition TAILQ_FOREACH :: "nat \<Rightarrow> tailq \<Rightarrow> nat list option res" where
  "TAILQ_FOREACH n q = foreach n (TAILQ_FIRST q) q"

section \<open>The list a queue represents\<close>

fun first_of :: "nat list \<Rightarrow> nat option \<Rightarrow> nat option" where
  "first_of [] v = v"
| "first_of (x # xs) v = Some x"

fun end_of :: "slot \<Rightarrow> nat list \<Rightarrow> slot" where
  "end_of s [] = s"
| "end_of s (x # xs) = end_of (Next x) xs"

text \<open>\<open>chain E s xs v\<close>: from the slot \<open>s\<close> on, the links are those of the elements \<open>xs\<close>, and the last one points to \<open>v\<close>.\<close>

fun chain :: "(nat \<Rightarrow> tailq_entry option) \<Rightarrow> slot \<Rightarrow> nat list \<Rightarrow> nat option \<Rightarrow> bool" where
  "chain E s [] v \<longleftrightarrow> True"
| "chain E s (x # xs) v \<longleftrightarrow> (\<exists>l. E x = Some l \<and> tqe_prev l = s \<and> tqe_next l = first_of xs v) \<and> chain E (Next x) xs v"

definition represents :: "tailq \<Rightarrow> nat list \<Rightarrow> bool" where
  "represents q xs \<longleftrightarrow> distinct xs \<and> tqh_first q = first_of xs None \<and> tqh_last q = end_of First xs \<and> chain (entry_at q) First xs None"

lemma first_of_append [simp]: "first_of (xs @ ys) v = first_of xs (first_of ys v)"
  by (cases xs) simp_all

lemma end_of_append [simp]: "end_of s (xs @ ys) = end_of (end_of s xs) ys"
  by (induction xs arbitrary: s) simp_all

lemma chain_append [simp]: "chain E s (xs @ ys) v \<longleftrightarrow> chain E s xs (first_of ys v) \<and> chain E (end_of s xs) ys v"
  by (induction xs arbitrary: s) auto

lemma chain_upd [simp]: "a \<notin> set xs \<Longrightarrow> chain (E(a := l)) s xs v = chain E s xs v"
  by (induction xs arbitrary: s) auto

lemma end_of_cases: "xs = [] \<and> end_of s xs = s \<or> (\<exists>ys y. xs = ys @ [y] \<and> end_of s xs = Next y)"
  by (cases xs rule: rev_cases) simp_all

text \<open>What an element of the queue has before and after it.\<close>

lemma represents_split:
  assumes "represents q xs" "a \<in> set xs"
  obtains ys zs l where "xs = ys @ a # zs" "a \<notin> set ys" "a \<notin> set zs" "entry_at q a = Some l" "tqe_prev l = end_of First ys"
    "tqe_next l = first_of zs None"
proof -
  obtain ys zs where "xs = ys @ a # zs" using assms(2) by (auto simp: in_set_conv_decomp)
  then show ?thesis using assms(1) that [of ys zs] by (auto simp: represents_def)
qed


lemmas link_defs = set_next_def set_prev_def store_def load_def second_def links_def

lemma init_represents: "represents (TAILQ_INIT q) []"
  by (simp add: represents_def TAILQ_INIT_def)

lemma insert_tail_represents:
  assumes "represents q xs" "a \<notin> set xs" "entry_at q a \<noteq> None"
  shows "\<exists>q'. TAILQ_INSERT_TAIL a q = Ok q' \<and> represents q' (xs @ [a]) \<and> (\<forall>b. entry_at q' b = None \<longleftrightarrow> entry_at q b = None)"
proof (cases xs rule: rev_cases)
  case Nil
  then show ?thesis using assms by (auto simp: represents_def TAILQ_INSERT_TAIL_def link_defs)
next
  case (snoc ys y)
  then show ?thesis using assms by (auto simp: represents_def TAILQ_INSERT_TAIL_def link_defs)
qed

lemma insert_head_represents:
  assumes "represents q xs" "a \<notin> set xs" "entry_at q a \<noteq> None"
  shows "\<exists>q'. TAILQ_INSERT_HEAD a q = Ok q' \<and> represents q' (a # xs) \<and> (\<forall>b. entry_at q' b = None \<longleftrightarrow> entry_at q b = None)"
  using assms by (cases xs) (auto simp: represents_def TAILQ_INSERT_HEAD_def link_defs)

lemma remove_represents:
  assumes "represents q xs" "a \<in> set xs"
  shows "\<exists>q'. TAILQ_REMOVE a q = Ok q' \<and> represents q' (remove1 a xs) \<and> (\<forall>b. entry_at q' b = None \<longleftrightarrow> entry_at q b = None)"
proof -
  obtain ys zs l where s: "xs = ys @ a # zs" "a \<notin> set ys" "a \<notin> set zs" "entry_at q a = Some l" "tqe_prev l = end_of First ys"
    "tqe_next l = first_of zs None" using represents_split [OF assms] .
  have r: "remove1 a xs = ys @ zs" using s(1-3) by (simp add: remove1_append)
  have "distinct xs" using assms(1) by (simp add: represents_def)
  then show ?thesis unfolding r using assms(1) s(4-6) unfolding s(1)
    by (cases ys rule: rev_cases; cases zs) (auto simp: represents_def TAILQ_REMOVE_def link_defs)
qed


lemma insert_after_represents:
  assumes "represents q xs" "b \<in> set xs" "a \<notin> set xs" "entry_at q a \<noteq> None"
  shows "\<exists>ys zs q'. xs = ys @ b # zs \<and> TAILQ_INSERT_AFTER b a q = Ok q' \<and> represents q' (ys @ b # a # zs)
    \<and> (\<forall>b. entry_at q' b = None \<longleftrightarrow> entry_at q b = None)"
proof -
  obtain ys zs l where s: "xs = ys @ b # zs" "b \<notin> set ys" "b \<notin> set zs" "entry_at q b = Some l" "tqe_prev l = end_of First ys"
    "tqe_next l = first_of zs None" using represents_split [OF assms(1,2)] .
  have "\<exists>q'. TAILQ_INSERT_AFTER b a q = Ok q' \<and> represents q' (ys @ b # a # zs) \<and> (\<forall>b. entry_at q' b = None \<longleftrightarrow> entry_at q b = None)"
    using assms(1,3,4) s(2-6) unfolding s(1)
    by (cases ys rule: rev_cases; cases zs) (auto simp: represents_def TAILQ_INSERT_AFTER_def link_defs)
  then show ?thesis using s(1) by blast
qed

lemma insert_before_represents:
  assumes "represents q xs" "b \<in> set xs" "a \<notin> set xs" "entry_at q a \<noteq> None"
  shows "\<exists>ys zs q'. xs = ys @ b # zs \<and> TAILQ_INSERT_BEFORE b a q = Ok q' \<and> represents q' (ys @ a # b # zs)
    \<and> (\<forall>b. entry_at q' b = None \<longleftrightarrow> entry_at q b = None)"
proof -
  obtain ys zs l where s: "xs = ys @ b # zs" "b \<notin> set ys" "b \<notin> set zs" "entry_at q b = Some l" "tqe_prev l = end_of First ys"
    "tqe_next l = first_of zs None" using represents_split [OF assms(1,2)] .
  have "\<exists>q'. TAILQ_INSERT_BEFORE b a q = Ok q' \<and> represents q' (ys @ a # b # zs) \<and> (\<forall>b. entry_at q' b = None \<longleftrightarrow> entry_at q b = None)"
    using assms(1,3,4) s(2-6) unfolding s(1)
    by (cases ys rule: rev_cases; cases zs) (auto simp: represents_def TAILQ_INSERT_BEFORE_def link_defs)
  then show ?thesis using s(1) by blast
qed

lemma replace_represents:
  assumes "represents q xs" "b \<in> set xs" "a \<notin> set xs" "entry_at q a \<noteq> None"
  shows "\<exists>ys zs q'. xs = ys @ b # zs \<and> TAILQ_REPLACE b a q = Ok q' \<and> represents q' (ys @ a # zs)
    \<and> (\<forall>b. entry_at q' b = None \<longleftrightarrow> entry_at q b = None)"
proof -
  obtain ys zs l where s: "xs = ys @ b # zs" "b \<notin> set ys" "b \<notin> set zs" "entry_at q b = Some l" "tqe_prev l = end_of First ys"
    "tqe_next l = first_of zs None" using represents_split [OF assms(1,2)] .
  have "\<exists>q'. TAILQ_REPLACE b a q = Ok q' \<and> represents q' (ys @ a # zs) \<and> (\<forall>b. entry_at q' b = None \<longleftrightarrow> entry_at q b = None)"
    using assms(1,3,4) s(2-6) unfolding s(1)
    by (cases ys rule: rev_cases; cases zs) (auto simp: represents_def TAILQ_REPLACE_def link_defs)
  then show ?thesis using s(1) by blast
qed

text \<open>Reading a queue.\<close>

lemma load_end:
  assumes "chain (entry_at q) First xs v" "tqh_first q = first_of xs v"
  shows "load (end_of First xs) q = Ok v"
  using assms by (cases xs rule: rev_cases) (auto simp: load_def links_def)

lemma second_next: "entry_at q y = Some l \<Longrightarrow> second (Next y) q = Ok (tqe_prev l)"
  by (simp add: second_def links_def)

lemma last_represents:
  assumes "represents q xs"
  shows "TAILQ_LAST q = Ok (if xs = [] then None else Some (last xs))"
proof (cases xs rule: rev_cases)
  case Nil
  then show ?thesis using assms by (simp add: represents_def TAILQ_LAST_def second_def load_def)
next
  case (snoc ys y)
  then show ?thesis using assms load_end [of q ys "Some y"] by (auto simp: represents_def TAILQ_LAST_def second_next)
qed

lemma prev_represents:
  assumes "represents q (ys @ a # zs)"
  shows "TAILQ_PREV a q = Ok (if ys = [] then None else Some (last ys))"
proof (cases ys rule: rev_cases)
  case Nil
  then show ?thesis using assms load_end [of q "a # zs" None] by (auto simp: represents_def TAILQ_PREV_def links_def second_def)
next
  case (snoc xs y)
  then show ?thesis using assms load_end [of q xs "Some y"] by (auto simp: represents_def TAILQ_PREV_def links_def second_next)
qed

lemma foreach_chain:
  assumes "chain (entry_at q) s xs None" "length xs \<le> n"
  shows "foreach n (first_of xs None) q = Ok (Some xs)"
  using assms
proof (induction xs arbitrary: s n)
  case (Cons x xs)
  then obtain k where "n = Suc k" by (cases n) auto
  then show ?case using Cons by (auto simp: TAILQ_NEXT_def links_def)
qed simp

lemma foreach_represents: "represents q xs \<Longrightarrow> length xs \<le> n \<Longrightarrow> TAILQ_FOREACH n q = Ok (Some xs)"
  using foreach_chain [of q First xs n] by (simp add: represents_def TAILQ_FOREACH_def TAILQ_FIRST_def)

lemma first_represents: "represents q xs \<Longrightarrow> TAILQ_FIRST q = first_of xs None \<and> (TAILQ_EMPTY q \<longleftrightarrow> xs = [])"
  by (cases xs) (simp_all add: represents_def TAILQ_FIRST_def TAILQ_EMPTY_def)

section \<open>Runs of operations\<close>

datatype queue_op = Head nat | Tail nat | After nat nat | Before nat nat | Remove nat | Replace nat nat

definition tailq_op :: "tailq \<Rightarrow> queue_op \<Rightarrow> tailq res" where
  "tailq_op q c = (case c of Head a \<Rightarrow> TAILQ_INSERT_HEAD a q | Tail a \<Rightarrow> TAILQ_INSERT_TAIL a q | After b a \<Rightarrow> TAILQ_INSERT_AFTER b a q
     | Before b a \<Rightarrow> TAILQ_INSERT_BEFORE b a q | Remove a \<Rightarrow> TAILQ_REMOVE a q | Replace b a \<Rightarrow> TAILQ_REPLACE b a q)"

text \<open>The same operations on lists; an element is inserted at most once, and a neighbour must be in the list.\<close>

definition fresh :: "nat \<Rightarrow> nat list \<Rightarrow> nat list res \<Rightarrow> nat list res" where
  "fresh a xs r = (if a \<in> set xs then Fault (Undef ''queued twice'') else r)"

definition around :: "nat \<Rightarrow> nat list \<Rightarrow> (nat list \<Rightarrow> nat list \<Rightarrow> nat list) \<Rightarrow> nat list res" where
  "around b xs f = (if b \<in> set xs then Ok (f (takeWhile (\<lambda>c. c \<noteq> b) xs) (tl (dropWhile (\<lambda>c. c \<noteq> b) xs))) else Fault (Undef ''listelm''))"

definition list_op :: "nat list \<Rightarrow> queue_op \<Rightarrow> nat list res" where
  "list_op xs c = (case c of
       Head a \<Rightarrow> fresh a xs (Ok (a # xs))
     | Tail a \<Rightarrow> fresh a xs (Ok (xs @ [a]))
     | After b a \<Rightarrow> fresh a xs (around b xs (\<lambda>ys zs. ys @ b # a # zs))
     | Before b a \<Rightarrow> fresh a xs (around b xs (\<lambda>ys zs. ys @ a # b # zs))
     | Remove a \<Rightarrow> tailq_remove a xs
     | Replace b a \<Rightarrow> fresh a xs (around b xs (\<lambda>ys zs. ys @ a # zs)))"

fun op_elem :: "queue_op \<Rightarrow> nat" where
  "op_elem (Head a) = a" | "op_elem (Tail a) = a" | "op_elem (After b a) = a" | "op_elem (Before b a) = a"
| "op_elem (Remove a) = a" | "op_elem (Replace b a) = a"

lemma around_split:
  assumes "distinct (ys @ b # zs)"
  shows "around b (ys @ b # zs) f = Ok (f ys zs)"
proof -
  have "takeWhile (\<lambda>c. c \<noteq> b) (ys @ b # zs) = ys" "dropWhile (\<lambda>c. c \<noteq> b) (ys @ b # zs) = b # zs"
    using assms by (auto simp: takeWhile_append dropWhile_append takeWhile_eq_all_conv)
  then show ?thesis by (simp add: around_def)
qed

lemma fresh_Ok [simp]: "fresh a xs r = Ok ys \<longleftrightarrow> a \<notin> set xs \<and> r = Ok ys"
  by (simp add: fresh_def)

lemma around_Ok: "around b xs f = Ok ys \<Longrightarrow> b \<in> set xs"
  by (simp add: around_def split: if_splits)

lemma op_represents:
  assumes "represents q xs" "list_op xs c = Ok ys" "entry_at q (op_elem c) \<noteq> None"
  shows "\<exists>q'. tailq_op q c = Ok q' \<and> represents q' ys \<and> (\<forall>b. entry_at q' b = None \<longleftrightarrow> entry_at q b = None)"
proof -
  have d: "distinct xs" using assms(1) by (simp add: represents_def)
  have near: "\<exists>q'. op = Ok q' \<and> represents q' ys \<and> (\<forall>b. entry_at q' b = None \<longleftrightarrow> entry_at q b = None)"
    if r: "around b xs f = Ok ys" and n: "b \<in> set xs \<Longrightarrow> \<exists>ys zs q'. xs = ys @ b # zs \<and> op = Ok q' \<and> represents q' (f ys zs)
      \<and> (\<forall>b. entry_at q' b = None \<longleftrightarrow> entry_at q b = None)" for b op f
  proof -
    obtain us zs q' where s: "xs = us @ b # zs" "op = Ok q'" "represents q' (f us zs)" "\<forall>b. entry_at q' b = None \<longleftrightarrow> entry_at q b = None"
      using n [OF around_Ok [OF r]] by blast
    then show ?thesis using around_split [of us b zs f] d r by simp
  qed
  show ?thesis
  proof (cases c)
    case (Head a)
    then show ?thesis using insert_head_represents [OF assms(1)] assms(2,3) by (auto simp: list_op_def tailq_op_def)
  next
    case (Tail a)
    then show ?thesis using insert_tail_represents [OF assms(1)] assms(2,3) by (auto simp: list_op_def tailq_op_def)
  next
    case (After b a)
    then show ?thesis using near [of b "\<lambda>ys zs. ys @ b # a # zs" "TAILQ_INSERT_AFTER b a q"] insert_after_represents [OF assms(1), of b a] assms(2,3)
      by (simp add: list_op_def tailq_op_def)
  next
    case (Before b a)
    then show ?thesis using near [of b "\<lambda>ys zs. ys @ a # b # zs" "TAILQ_INSERT_BEFORE b a q"] insert_before_represents [OF assms(1), of b a] assms(2,3)
      by (simp add: list_op_def tailq_op_def)
  next
    case (Remove a)
    then show ?thesis using remove_represents [OF assms(1)] assms(2,3) by (auto simp: list_op_def tailq_op_def tailq_remove_def split: if_splits)
  next
    case (Replace b a)
    then show ?thesis using near [of b "\<lambda>ys zs. ys @ a # zs" "TAILQ_REPLACE b a q"] replace_represents [OF assms(1), of b a] assms(2,3)
      by (simp add: list_op_def tailq_op_def)
  qed
qed

lemma run_represents:
  assumes "represents q xs" "rfold list_op xs cs = Ok ys" "\<forall>c \<in> set cs. entry_at q (op_elem c) \<noteq> None"
  shows "\<exists>q'. rfold tailq_op q cs = Ok q' \<and> represents q' ys"
  using assms
proof (induction cs arbitrary: q xs)
  case (Cons c cs)
  obtain zs where z: "list_op xs c = Ok zs" "rfold list_op zs cs = Ok ys" using Cons.prems(2) by (auto simp: rbind_eq_Ok)
  obtain q' where q': "tailq_op q c = Ok q'" "represents q' zs" "\<forall>b. entry_at q' b = None \<longleftrightarrow> entry_at q b = None"
    using op_represents [OF Cons.prems(1) z(1)] Cons.prems(3) by auto
  then show ?case using Cons.IH [OF q'(2) z(2)] Cons.prems(3) by auto
qed auto

text \<open>
  (C27) The tail queues of \<^verbatim>\<open>queue.h\<close> implement lists: starting from an initialised queue, every sequence of insertions,
  removals and replacements that is possible on a list, with elements that are allocated, runs on the pointers without
  touching memory that is not allocated; the walk of \<^verbatim>\<open>TAILQ_FOREACH\<close> then visits the elements of the list in order and ends, the
  first and the last element are those of the list, and the queue is empty exactly when the list is.
\<close>

theorem tailq_implements_lists:
  assumes "rfold list_op [] cs = Ok ys" "\<forall>c \<in> set cs. entry_at q (op_elem c) \<noteq> None"
  shows "\<exists>q'. rfold tailq_op (TAILQ_INIT q) cs = Ok q' \<and> TAILQ_FOREACH (length ys) q' = Ok (Some ys)
    \<and> TAILQ_FIRST q' = (if ys = [] then None else Some (hd ys)) \<and> TAILQ_LAST q' = Ok (if ys = [] then None else Some (last ys))
    \<and> (TAILQ_EMPTY q' \<longleftrightarrow> ys = [])"
proof -
  have "entry_at (TAILQ_INIT q) = entry_at q" by (simp add: TAILQ_INIT_def)
  then obtain q' where "rfold tailq_op (TAILQ_INIT q) cs = Ok q'" "represents q' ys"
    using run_represents [OF init_represents [of q] assms(1)] assms(2) by auto
  then show ?thesis using foreach_represents [of q' ys] first_represents [of q' ys] last_represents [of q' ys] by (cases ys) auto
qed

theorem tailq_implements_lists_witness:
  "\<exists>q'. rfold tailq_op (TAILQ_INIT \<lparr>tqh_first = None, tqh_last = First, entry_at = \<lambda>a. Some \<lparr>tqe_next = None, tqe_prev = First\<rparr>\<rparr>)
      [Tail 1, Tail 2, Head 3, After 1 4, Remove 2, Replace 3 2] = Ok q' \<and> TAILQ_FOREACH 3 q' = Ok (Some [2, 1, 4])"
proof -
  let ?cs = "[Tail 1, Tail 2, Head 3, After 1 4, Remove 2, Replace 3 2]"
  have "rfold list_op [] ?cs = Ok [2, 1, 4]" by (simp add: list_op_def around_def fresh_def tailq_remove_def)
  from tailq_implements_lists [OF this, of "\<lparr>tqh_first = None, tqh_last = First, entry_at = \<lambda>a. Some \<lparr>tqe_next = None, tqe_prev = First\<rparr>\<rparr>"]
  show ?thesis by (auto simp: numeral_3_eq_3)
qed

end
