(* ===== verification/Floats.thy ===== *)
theory Floats
  imports Complex_Main "HOL-Library.Log_Nat"
begin

text \<open>
  The arithmetic of \<^verbatim>\<open>float\<close> and \<^verbatim>\<open>double\<close>, as far as the program uses it: a result is the exact one, rounded to 24 or 53
  binary digits, to the nearest and halves to the even neighbour. The numbers of the program are far from the largest and smallest
  exponents, which are left out. A conversion to an integer cuts the fraction off.
\<close>

text \<open>The \<open>k\<close> with \<open>2 ^ k \<le> x < 2 ^ (k + 1)\<close>.\<close>

definition binade :: "rat \<Rightarrow> int" where
  "binade x = (let (a, b) = quotient_of x; k = bitlen a - bitlen b in if 2 powi k \<le> x then k else k - 1)"

definition nearest :: "rat \<Rightarrow> int" where
  "nearest m = (let f = \<lfloor>m\<rfloor>; d = m - of_int f in if d < 1 / 2 then f else if d > 1 / 2 then f + 1 else if even f then f else f + 1)"

definition fl :: "nat \<Rightarrow> rat \<Rightarrow> rat" where
  "fl p x = (if x = 0 then 0
     else let e = binade \<bar>x\<bar> - (int p - 1) in sgn x * of_int (nearest (\<bar>x\<bar> / 2 powi e)) * 2 powi e)"

abbreviation float32 :: "rat \<Rightarrow> rat" where "float32 \<equiv> fl 24"
abbreviation float64 :: "rat \<Rightarrow> rat" where "float64 \<equiv> fl 53"

definition trunc :: "rat \<Rightarrow> int" where
  "trunc x = (if x < 0 then - \<lfloor>- x\<rfloor> else \<lfloor>x\<rfloor>)"

section \<open>Rounding\<close>

lemma bitlen_powi:
  assumes "0 < a"
  shows "2 powi (bitlen a - 1) \<le> (of_int a :: rat)" "(of_int a :: rat) < 2 powi bitlen a"
proof -
  have p: "0 < bitlen a" using assms bitlen_eq_zero_iff [of a] bitlen_nonneg [of a] by linarith
  have "2 ^ nat (bitlen a - 1) \<le> a" "a < 2 ^ nat (bitlen a)" using bitlen_bounds [OF assms] by auto
  then have "(of_int (2 ^ nat (bitlen a - 1)) :: rat) \<le> of_int a" "(of_int a :: rat) < of_int (2 ^ nat (bitlen a))" by (simp_all only: of_int_le_iff of_int_less_iff)
  then show "2 powi (bitlen a - 1) \<le> (of_int a :: rat)" "(of_int a :: rat) < 2 powi bitlen a" using p by (simp_all add: power_int_def)
qed

lemma binade_bounds:
  assumes "0 < x"
  shows "2 powi binade x \<le> x" "x < 2 powi (binade x + 1)"
proof -
  obtain a b where q: "quotient_of x = (a, b)" by (cases "quotient_of x")
  have x: "x = of_int a / of_int b" and b: "0 < b" using quotient_of_div [OF q] quotient_of_denom_pos [OF q] by auto
  have a: "0 < a" using assms x b by (simp add: zero_less_divide_iff)
  let ?k = "bitlen a - bitlen b"
  have "2 powi (bitlen a - 1) / 2 powi bitlen b \<le> x"
    unfolding x using bitlen_powi [OF a] bitlen_powi [OF b] b a by (intro frac_le) auto
  moreover have "2 powi (bitlen a - 1) / 2 powi bitlen b = (2 :: rat) powi (?k - 1)" by (simp add: power_int_diff)
  ultimately have lo: "2 powi (?k - 1) \<le> x" by simp
  have "x < 2 powi bitlen a / 2 powi (bitlen b - 1)"
    unfolding x using bitlen_powi [OF a] bitlen_powi [OF b] b a by (intro frac_less) auto
  moreover have "2 powi bitlen a / 2 powi (bitlen b - 1) = (2 :: rat) powi (?k + 1)" by (simp add: power_int_diff power_int_add)
  ultimately have hi: "x < 2 powi (?k + 1)" by simp
  have "binade x = (if 2 powi ?k \<le> x then ?k else ?k - 1)" by (simp add: binade_def q Let_def)
  then show "2 powi binade x \<le> x" "x < 2 powi (binade x + 1)" using lo hi by (simp_all split: if_splits)
qed

lemma nearest_mono: "x \<le> y \<Longrightarrow> nearest x \<le> nearest y"
proof -
  assume xy: "x \<le> y"
  then have f: "\<lfloor>x\<rfloor> \<le> \<lfloor>y\<rfloor>" by (rule floor_mono)
  show ?thesis
  proof (cases "\<lfloor>x\<rfloor> = \<lfloor>y\<rfloor>")
    case True
    then show ?thesis using xy by (auto simp: nearest_def Let_def)
  next
    case False
    then have "\<lfloor>x\<rfloor> + 1 \<le> \<lfloor>y\<rfloor>" using f by simp
    then show ?thesis by (auto simp: nearest_def Let_def)
  qed
qed

lemma nearest_int [simp]: "nearest (of_int k) = k"
  by (simp add: nearest_def)

lemma nearest_le: "x \<le> of_int k \<Longrightarrow> nearest x \<le> k"
  using nearest_mono [of x "of_int k"] by simp

lemma nearest_ge: "of_int k \<le> x \<Longrightarrow> k \<le> nearest x"
  using nearest_mono [of "of_int k" x] by simp

text \<open>A bound that has a representation in the binade of the number bounds the rounded number as well.\<close>

definition on_grid :: "int \<Rightarrow> rat \<Rightarrow> bool" where
  "on_grid e c \<longleftrightarrow> (\<exists>k. c = of_int k * 2 powi e)"

lemma fl_le:
  assumes "0 < x" "x \<le> c" "on_grid (binade x - (int p - 1)) c"
  shows "fl p x \<le> c"
proof -
  let ?e = "binade x - (int p - 1)"
  obtain k where c: "c = of_int k * 2 powi ?e" using assms(3) by (auto simp: on_grid_def)
  have "x / 2 powi ?e \<le> of_int k" using assms(2) c by (simp add: divide_le_eq)
  then have "of_int (nearest (x / 2 powi ?e)) \<le> (of_int k :: rat)" using nearest_le by simp
  then have "of_int (nearest (x / 2 powi ?e)) * 2 powi ?e \<le> (of_int k * 2 powi ?e :: rat)" by (intro mult_right_mono) simp_all
  then show ?thesis using assms(1) c by (simp add: fl_def Let_def)
qed

lemma fl_nonneg: "0 \<le> x \<Longrightarrow> 0 \<le> fl p x"
  using nearest_ge [of 0 "\<bar>x\<bar> / 2 powi (binade \<bar>x\<bar> - (int p - 1))"] by (auto simp: fl_def Let_def)

lemma fl_ge:
  assumes "0 < x" "c \<le> x" "on_grid (binade x - (int p - 1)) c"
  shows "c \<le> fl p x"
proof -
  let ?e = "binade x - (int p - 1)"
  obtain k where c: "c = of_int k * 2 powi ?e" using assms(3) by (auto simp: on_grid_def)
  have "of_int k \<le> x / 2 powi ?e" using assms(2) c by (simp add: le_divide_eq)
  then have "of_int k \<le> (of_int (nearest (x / 2 powi ?e)) :: rat)" using nearest_ge by simp
  then have "of_int k * 2 powi ?e \<le> (of_int (nearest (x / 2 powi ?e)) * 2 powi ?e :: rat)" by (intro mult_right_mono) simp_all
  then show ?thesis using assms(1) c by (simp add: fl_def Let_def)
qed

lemma grid_powi: "e \<le> n \<Longrightarrow> on_grid e (2 powi n)"
proof -
  assume "e \<le> n"
  then have "(2 :: rat) powi n = of_int (2 ^ nat (n - e)) * 2 powi e" using power_int_add [of "2 :: rat" "n - e" e] by (simp add: power_int_def [of _ "n - e"])
  then show ?thesis unfolding on_grid_def by blast
qed

lemma grid_int: "e \<le> 0 \<Longrightarrow> on_grid e (of_int m)"
proof -
  assume "e \<le> 0"
  then obtain k where "(1 :: rat) = of_int k * 2 powi e" using grid_powi [of e 0] by (auto simp: on_grid_def)
  then have "(of_int m :: rat) = of_int (m * k) * 2 powi e" by (metis mult.assoc mult.right_neutral of_int_mult)
  then show ?thesis unfolding on_grid_def by blast
qed

lemma fl_binade:
  assumes "0 < x" "0 < p"
  shows "2 powi binade x \<le> fl p x" "fl p x \<le> 2 powi (binade x + 1)"
proof -
  let ?e = "binade x - (int p - 1)"
  show "2 powi binade x \<le> fl p x" using binade_bounds(1) [OF assms(1)] assms by (intro fl_ge [OF assms(1)] grid_powi) auto
  show "fl p x \<le> 2 powi (binade x + 1)" using binade_bounds(2) [OF assms(1)] assms by (intro fl_le [OF assms(1)] grid_powi) auto
qed

lemma binade_less: "0 < x \<Longrightarrow> x < 2 powi k \<Longrightarrow> binade x < k"
proof -
  assume "0 < x" "x < 2 powi k"
  then have "(2 :: rat) powi binade x < 2 powi k" using binade_bounds(1) [of x] by simp
  then show ?thesis by (metis linorder_not_le one_le_numeral power_int_increasing)
qed

lemma fl_mono:
  assumes "0 < x" "x \<le> y" "0 < p"
  shows "fl p x \<le> fl p y"
proof (cases "binade x = binade y")
  case True
  let ?e = "binade y - (int p - 1)"
  have "x / 2 powi ?e \<le> y / 2 powi ?e" using assms(2) by (intro divide_right_mono) simp_all
  then have "of_int (nearest (x / 2 powi ?e)) \<le> (of_int (nearest (y / 2 powi ?e)) :: rat)" using nearest_mono by simp
  then have "of_int (nearest (x / 2 powi ?e)) * 2 powi ?e \<le> (of_int (nearest (y / 2 powi ?e)) * 2 powi ?e :: rat)" by (intro mult_right_mono) simp_all
  then show ?thesis using assms True by (simp add: fl_def Let_def)
next
  case False
  have "binade x < binade y + 1" using binade_less [of x "binade y + 1"] binade_bounds(2) [of y] assms by simp
  then have "(2 :: rat) powi (binade x + 1) \<le> 2 powi binade y" using False by (intro power_int_increasing) auto
  then show ?thesis using fl_binade(2) [OF assms(1,3)] fl_binade(1) [of y p] assms by simp
qed

text \<open>The quotient of two whole numbers, as a percentage in single precision.\<close>

definition float_percent :: "nat \<Rightarrow> nat \<Rightarrow> int" where
  "float_percent g n = trunc (float32 (float32 (float32 (of_nat g) / float32 (of_nat n)) * 100))"

lemma trunc_bounds: "0 \<le> x \<Longrightarrow> x \<le> of_int k \<Longrightarrow> 0 \<le> trunc x \<and> trunc x \<le> k"
  using floor_mono [of x "of_int k"] by (simp add: trunc_def)

lemma float_percent_bounds:
  assumes "g \<le> n" "0 < n"
  shows "0 \<le> float_percent g n \<and> float_percent g n \<le> 100"
proof (cases "g = 0")
  case True
  then show ?thesis by (simp add: float_percent_def fl_def trunc_def)
next
  case False
  let ?g = "float32 (of_nat g)" and ?n = "float32 (of_nat n)"
  have "(0::rat) < of_nat g" using False by simp
  then have g: "0 < ?g" "?g \<le> ?n" using fl_binade(1) [of "of_nat g" 24] fl_mono [of "of_nat g" "of_nat n" 24] assms(1)
    by (auto intro: less_le_trans [of 0 "2 powi binade (of_nat g)"])
  then have r: "0 < ?g / ?n" "?g / ?n \<le> 1" by (simp_all add: divide_le_eq)
  have "binade (?g / ?n) < 1" using binade_less [of "?g / ?n" 1] r by simp
  then have "float32 (?g / ?n) \<le> 1" using r grid_int [of "binade (?g / ?n) - 23" 1] by (intro fl_le [of "?g / ?n"]) auto
  moreover have pos: "0 < float32 (?g / ?n)" using fl_binade(1) [OF r(1), of 24] by (auto intro: less_le_trans [of 0 "2 powi binade (?g / ?n)"])
  ultimately have y: "0 < float32 (?g / ?n) * 100" "float32 (?g / ?n) * 100 \<le> 100" by simp_all
  let ?b = "binade (float32 (?g / ?n) * 100)"
  have "?b < 7" using binade_less [of "float32 (?g / ?n) * 100" 7] y by simp
  then have "on_grid (?b - 23) 100" using grid_int [of "?b - 23" 100] by simp
  then have "float32 (float32 (?g / ?n) * 100) \<le> 100" using y by (intro fl_le [of "float32 (?g / ?n) * 100"]) auto
  then show ?thesis using fl_nonneg [of "float32 (?g / ?n) * 100" 24] y trunc_bounds [of _ 100] by (simp add: float_percent_def)
qed

end
