(* ===== verification/Util.thy ===== *)
theory Util
  imports Cstring
begin

text \<open>
  The rest of \<^verbatim>\<open>util.c\<close>: making a directory with its parents, and writing all bytes to a descriptor. What the operating
  system answers is an argument. Paths are byte lists without the terminating NUL.
\<close>

section \<open>Directories\<close>

abbreviation slash :: byte where "slash \<equiv> 47"

definition strip_slashes :: "bytes \<Rightarrow> bytes" where
  "strip_slashes p = rev (dropWhile (\<lambda>c. c = slash) (rev p))"

text \<open>\<^verbatim>\<open>dirname\<close> of the C library: the path without its last component.\<close>

definition dirname :: "bytes \<Rightarrow> bytes" where
  "dirname p =
     (let q = strip_slashes p; r = rev (dropWhile (\<lambda>c. c \<noteq> slash) (rev q)); d = strip_slashes r in
      if p = [] then str ''.'' else if q = [] then str ''/'' else if r = [] then str ''.'' else if d = [] then str ''/'' else d)"

datatype mkdir_answer = Made | EEXIST | Refused

lemma strip_shorter: "length (strip_slashes p) \<le> length p"
  unfolding strip_slashes_def length_rev using length_dropWhile_le [of _ "rev p"] by simp

lemma dirname_shorter: "dirname p = str ''.'' \<or> dirname p = str ''/'' \<or> length (dirname p) < length p"
proof -
  let ?q = "strip_slashes p"
  let ?r = "rev (dropWhile (\<lambda>c. c \<noteq> slash) (rev ?q))"
  have "length (strip_slashes ?r) < length p" if ne: "?q \<noteq> []"
  proof -
    have "last ?q \<noteq> slash" using ne hd_dropWhile [of "\<lambda>c. c = slash" "rev p"] by (simp add: strip_slashes_def last_rev)
    moreover obtain ys y where q: "?q = ys @ [y]" using append_butlast_last_id [OF ne] by metis
    ultimately have "length ?r = length (dropWhile (\<lambda>c. c \<noteq> slash) (rev ys))" by simp
    then have "length ?r < length ?q" using q length_dropWhile_le [of "\<lambda>c. c \<noteq> slash" "rev ys"] by simp
    then show ?thesis using strip_shorter [of ?r] strip_shorter [of p] by linarith
  qed
  then show ?thesis by (auto simp: dirname_def Let_def)
qed

text \<open>
  \<^verbatim>\<open>mkpath\<close>: when the call for the parent returns -1, \<^verbatim>\<open>errno\<close> is that of a refused \<^verbatim>\<open>mkdir\<close>, not \<^verbatim>\<open>EEXIST\<close>.
\<close>

function mkpath :: "(bytes \<Rightarrow> 'fs \<Rightarrow> mkdir_answer \<times> 'fs) \<Rightarrow> bytes \<Rightarrow> 'fs \<Rightarrow> int \<times> 'fs" where
  "mkpath mkdir s fs =
     (if s = str ''.'' \<or> s = str ''/'' then (0, fs)
      else case mkpath mkdir (dirname s) fs of (rv, fs) \<Rightarrow>
        if rv = -1 then (-1, fs)
        else case mkdir s fs of (a, fs) \<Rightarrow> (if a = Refused then -1 else 0, fs))"
  by pat_completeness auto

termination
proof (relation "measure (\<lambda>(mkdir, s, fs). if s = str ''.'' \<or> s = str ''/'' then 0 else Suc (length s))")
  show "wf (measure (\<lambda>(mkdir, s, fs). if s = str ''.'' \<or> s = str ''/'' then 0 else Suc (length s)))" by simp
next
  fix mkdir :: "bytes \<Rightarrow> 'fs \<Rightarrow> mkdir_answer \<times> 'fs" and s fs
  assume "\<not> (s = str ''.'' \<or> s = str ''/'')"
  then show "((mkdir, dirname s, fs), mkdir, s, fs) \<in> measure (\<lambda>(mkdir, s, fs). if s = str ''.'' \<or> s = str ''/'' then 0 else Suc (length s))"
    using dirname_shorter [of s] by auto
qed

declare mkpath.simps [simp del]

section \<open>Writing all bytes\<close>

text \<open>
  \<^verbatim>\<open>atomicio (vwrite, fd, s, n)\<close>: the answers of \<^verbatim>\<open>write\<close> are a list, each at most the number of bytes asked for; \<open>None\<close> when the
  call waits for one more. The result is the value returned and the bytes that reached the descriptor.
\<close>

datatype io_answer = EINTR_or_EAGAIN | Failed | Moved nat

fun atomicio :: "io_answer list \<Rightarrow> bytes \<Rightarrow> nat \<Rightarrow> nat \<Rightarrow> (nat \<times> bytes) option" where
  "atomicio ans s n pos =
     (if n > pos
      then case ans of
          [] \<Rightarrow> None
        | EINTR_or_EAGAIN # ans \<Rightarrow> atomicio ans s n pos
        | Failed # ans \<Rightarrow> Some (0, take pos s)
        | Moved res # ans \<Rightarrow> if res = 0 then Some (pos, take pos s) else atomicio ans s n (pos + min res (n - pos))
      else Some (pos, take pos s))"

declare atomicio.simps [simp del]

text \<open>What is written is always a beginning of the buffer, and all of it when \<open>n\<close> is returned.\<close>

lemma atomicio_sent: "atomicio ans s n pos = Some (r, out) \<Longrightarrow> \<exists>k. out = take k s \<and> (0 < r \<longrightarrow> r = k)"
  by (induction ans s n pos rule: atomicio.induct) (subst (asm) (3) atomicio.simps, auto split: if_splits list.splits io_answer.splits)

section \<open>The directories of a path\<close>

definition component :: "bytes \<Rightarrow> bool" where
  "component c \<longleftrightarrow> c \<noteq> [] \<and> slash \<notin> set c"

fun slashed :: "bytes list \<Rightarrow> bytes" where
  "slashed [] = []"
| "slashed [c] = c"
| "slashed (c # cs) = c @ slash # slashed cs"

lemma slashed_snoc: "slashed (cs @ [c]) = (if cs = [] then c else slashed cs @ slash # c)"
  by (induction cs rule: slashed.induct) auto

lemma strip_component: "component c \<Longrightarrow> strip_slashes (p @ c) = p @ c"
  by (cases c rule: rev_cases) (auto simp: strip_slashes_def component_def)

lemma dirname_component:
  assumes "component c"
  shows "dirname c = str ''.''" "dirname (q @ slash # c) = (if strip_slashes q = [] then str ''/'' else strip_slashes q)"
proof -
  have d: "dropWhile (\<lambda>x. x \<noteq> slash) (rev c @ xs) = dropWhile (\<lambda>x. x \<noteq> slash) xs" for xs
    using assms by (auto simp: component_def dropWhile_append)
  have "c \<noteq> []" using assms by (simp add: component_def)
  then show "dirname c = str ''.''" using strip_component [OF assms, of "[]"] d [of "[]"] by (simp add: dirname_def)
  show "dirname (q @ slash # c) = (if strip_slashes q = [] then str ''/'' else strip_slashes q)"
    using strip_component [OF assms, of "q @ [slash]"] d [of "slash # rev q"] \<open>c \<noteq> []\<close> by (simp add: dirname_def) (simp add: strip_slashes_def)
qed

lemma slashed_strip:
  assumes "list_all component cs" "cs \<noteq> []"
  shows "strip_slashes (p @ slashed cs) = p @ slashed cs" "slashed cs \<noteq> []"
proof -
  obtain ds d where "cs = ds @ [d]" using assms(2) rev_exhaust by blast
  then obtain q where "slashed cs = q @ d" "component d" using assms(1) by (cases "ds = []") (auto simp: slashed_snoc intro: that [of "[]"] that [of "slashed ds @ [slash]"])
  then show "strip_slashes (p @ slashed cs) = p @ slashed cs" "slashed cs \<noteq> []" using strip_component [of d "p @ q"] by (auto simp: component_def)
qed

text \<open>A path with the given components, relative to the current directory or absolute.\<close>

definition path_of :: "bool \<Rightarrow> bytes list \<Rightarrow> bytes" where
  "path_of absolute cs = (if cs = [] then (if absolute then str ''/'' else str ''.'') else (if absolute then str ''/'' else []) @ slashed cs)"

lemma str_chars: "str ''/'' = [slash]" "str ''.'' = [46]"
  by (simp_all add: str_def)

lemma dirname_path:
  assumes "list_all component cs" "component c"
  shows "dirname (path_of absolute (cs @ [c])) = path_of absolute cs"
proof (cases "cs = []")
  case True
  then show ?thesis using dirname_component(1) [OF assms(2)] dirname_component(2) [OF assms(2), of "[]"] by (auto simp: path_of_def slashed_snoc str_chars strip_slashes_def)
next
  case False
  then show ?thesis
    using dirname_component(2) [OF assms(2), of "(if absolute then str ''/'' else []) @ slashed cs"] slashed_strip [OF assms(1) False]
    by (simp add: path_of_def slashed_snoc)
qed

fun make_all :: "(bytes \<Rightarrow> 'fs \<Rightarrow> mkdir_answer \<times> 'fs) \<Rightarrow> bytes list \<Rightarrow> 'fs \<Rightarrow> int \<times> 'fs" where
  "make_all mkdir [] fs = (0, fs)"
| "make_all mkdir (p # ps) fs = (case mkdir p fs of (a, fs) \<Rightarrow> if a = Refused then (-1, fs) else make_all mkdir ps fs)"

definition paths_down :: "'a list \<Rightarrow> 'a list list" where
  "paths_down cs = map (\<lambda>k. take k cs) [1..<Suc (length cs)]"

lemma paths_down_snoc: "paths_down (cs @ [c]) = paths_down cs @ [cs @ [c]]"
  by (auto simp: paths_down_def)

lemma make_all_append:
  "make_all mkdir (ps @ qs) fs = (case make_all mkdir ps fs of (r, fs) \<Rightarrow> if r = -1 then (r, fs) else make_all mkdir qs fs)"
  by (induction ps arbitrary: fs) (auto split: prod.split)

lemma make_all_result: "fst (make_all mkdir ps fs) = -1 \<or> fst (make_all mkdir ps fs) = 0"
  by (induction ps arbitrary: fs) (auto split: prod.split)

lemma path_not_base:
  assumes "list_all component (cs @ [c])" "absolute \<or> hd (cs @ [c]) \<noteq> str ''.''"
  shows "path_of absolute (cs @ [c]) \<noteq> str ''.'' \<and> path_of absolute (cs @ [c]) \<noteq> str ''/''"
proof -
  have ne: "slashed (cs @ [c]) \<noteq> []" using slashed_strip(2) [OF assms(1)] by simp
  have "slashed (cs @ [c]) \<noteq> [46] \<and> slashed (cs @ [c]) \<noteq> [slash]" if "hd (cs @ [c]) \<noteq> [46]"
    using assms(1) that by (auto simp: slashed_snoc component_def append_eq_Cons_conv)
  then show ?thesis using ne assms(2) by (auto simp: path_of_def str_chars)
qed

lemma mkpath_all:
  "list_all component cs \<Longrightarrow> cs \<noteq> [] \<longrightarrow> absolute \<or> hd cs \<noteq> str ''.''
    \<Longrightarrow> mkpath mkdir (path_of absolute cs) fs = make_all mkdir (map (path_of absolute) (paths_down cs)) fs"
proof (induction cs rule: rev_induct)
  case Nil
  show ?case by (subst mkpath.simps) (simp add: path_of_def paths_down_def)
next
  case (snoc c cs)
  have ih: "mkpath mkdir (path_of absolute cs) fs = make_all mkdir (map (path_of absolute) (paths_down cs)) fs"
    using snoc by (cases "cs = []") simp_all
  have "path_of absolute (cs @ [c]) \<noteq> str ''.'' \<and> path_of absolute (cs @ [c]) \<noteq> str ''/''" using path_not_base snoc.prems by simp
  then show ?case
    using dirname_path [of cs c absolute] snoc.prems(1) make_all_result [of mkdir "map (path_of absolute) (paths_down cs)" fs]
    by (subst mkpath.simps) (auto simp: ih paths_down_snoc make_all_append split: prod.split)
qed

text \<open>
  (C39) \<^verbatim>\<open>mkpath\<close> on a path makes the directories on the way to it and the path itself, each by one call of \<^verbatim>\<open>mkdir\<close>, from the outermost
  inwards, whatever the operating system answers: it goes on when a directory exists and stops with -1 at the first refusal.
\<close>

theorem mkpath_makes_parents:
  assumes "list_all component cs" "cs \<noteq> []" "absolute \<or> hd cs \<noteq> str ''.''"
  shows "mkpath mkdir (path_of absolute cs) fs = make_all mkdir (map (path_of absolute) (paths_down cs)) fs"
  by (rule mkpath_all [OF assms(1)]) (use assms(3) in simp)

theorem mkpath_makes_parents_witness:
  "mkpath (\<lambda>p fs. (Made, fs @ [p])) (str ''/ab/c'') [] = (0, [str ''/ab'', str ''/ab/c''])"
proof -
  have "list_all component [str ''ab'', str ''c'']" by (simp add: str_def component_def)
  from mkpath_makes_parents [OF this, of True "\<lambda>p fs. (Made, fs @ [p])" "[]"] show ?thesis
    by (simp add: path_of_def paths_down_def str_def upt_rec)
qed

end
