(* ===== verification/Progress.thy ===== *)
theory Progress
  imports Floats Util
begin

text \<open>
  The progress meter of \<^verbatim>\<open>progressmeter.c\<close>: its state, the texts of its fields and the line it builds in a buffer on the stack. The
  counter and the number of good pieces, which the meter reads through pointers, are arguments, as are the time, the width of the
  window and the bytes that the buffer holds before it is written.
\<close>

section \<open>Numbers\<close>

text \<open>Division and remainder of C, towards zero; the value of an \<^verbatim>\<open>int\<close>.\<close>

definition tdiv :: "int \<Rightarrow> int \<Rightarrow> int" where
  "tdiv a b = (if (a < 0) = (b < 0) then \<bar>a\<bar> div \<bar>b\<bar> else - (\<bar>a\<bar> div \<bar>b\<bar>))"

definition tmod :: "int \<Rightarrow> int \<Rightarrow> int" where
  "tmod a b = a - b * tdiv a b"

definition to_int :: "int \<Rightarrow> int" where
  "to_int x = sint (word_of_int x :: 32 word)"

text \<open>A double outside the range of the type it is converted to is undefined.\<close>

definition double_to_int :: "rat \<Rightarrow> int res" where
  "double_to_int x = (if - (2 ^ 31) \<le> trunc x \<and> trunc x < 2 ^ 31 then Ok (trunc x) else Fault (Undef ''double to int''))"

text \<open>The formats \<^verbatim>\<open>%3d\<close> and \<^verbatim>\<open>%02d\<close>.\<close>

definition space_pad :: "nat \<Rightarrow> bytes \<Rightarrow> bytes" where
  "space_pad k s = replicate (k - length s) 32 @ s"

definition zero_pad :: "nat \<Rightarrow> int \<Rightarrow> bytes" where
  "zero_pad k i = (let s = dec_nat (nat \<bar>i\<bar>); sg = (if i < 0 then [45] else []) in sg @ replicate (k - length s - length sg) 48 @ s)"

section \<open>The meter\<close>

record meter =
  m_start :: int
  last_update :: int
  m_file :: bytes
  end_pos :: int
  cur_pos :: int
  stalled :: int
  bytes_per_second :: int
  win_size :: int
  m_num_pieces :: nat
  win_resized :: bool
  started :: int

definition DEFAULT_WINSIZE :: int where "DEFAULT_WINSIZE = 80"
definition MAX_WINSIZE :: int where "MAX_WINSIZE = 512"
definition STALL_TIME :: int where "STALL_TIME = 5"

definition unit_chars :: bytes where "unit_chars = str '' KMGT''"

function scale :: "int \<Rightarrow> nat \<Rightarrow> int \<Rightarrow> nat \<times> int" where
  "scale limit i bytes = (if bytes \<ge> limit \<and> i < 4 then scale limit (i + 1) (tdiv (bytes + 512) 1024) else (i, bytes))"
  by pat_completeness auto

termination
  by (relation "measure (\<lambda>(limit, i, bytes). 4 - i)") auto

declare scale.simps [simp del]

definition unit_text :: "nat \<Rightarrow> bytes" where
  "unit_text i = [unit_chars ! i] @ (if i \<noteq> 0 then str ''B'' else str '' '')"

definition format_rate :: "int \<Rightarrow> bytes" where
  "format_rate bytes =
     (let (i, bytes) = scale (100 * 1000) 0 (bytes * 100);
          (i, bytes) = (if i = 0 then (1, tdiv (bytes + 512) 1024) else (i, bytes))
      in space_pad 3 (dec_int (tdiv (bytes + 5) 100)) @ str ''.'' @ dec_int (tmod (tdiv (bytes + 5) 10) 10) @ unit_text i)"

definition format_size :: "int \<Rightarrow> bytes" where
  "format_size bytes = (let (i, bytes) = scale 10000 0 bytes in str ''rx: '' @ space_pad 4 (dec_int bytes) @ unit_text i)"

text \<open>\<open>cols\<close> is the answer of the window size request, \<open>None\<close> when it fails.\<close>

definition setscreensize :: "nat option \<Rightarrow> meter \<Rightarrow> meter" where
  "setscreensize cols m = m\<lparr>win_size := 1 + (case cols of
       None \<Rightarrow> DEFAULT_WINSIZE
     | Some c \<Rightarrow> if c = 0 then DEFAULT_WINSIZE else if int c > MAX_WINSIZE then MAX_WINSIZE else int c)\<rparr>"

text \<open>
  The speed: the bytes of the last interval, or of the whole transfer when it is complete; then the moving average. The result is what
  was transferred, what is left, the time and the new average.
\<close>

definition AGE_FACTOR :: rat where "AGE_FACTOR = float64 (9 / 10)"

definition meter_speed :: "int \<Rightarrow> int \<Rightarrow> meter \<Rightarrow> (int \<times> int \<times> int \<times> int) res" where
  "meter_speed now counter m =
     (let bytes_left = end_pos m - counter;
          (elapsed, transferred, bps) = (if bytes_left > 0 then (now - last_update m, counter - cur_pos m, bytes_per_second m)
            else (now - m_start m, end_pos m, 0))
      in rbind (if elapsed \<noteq> 0 then double_to_int (float64 (float64 (of_int transferred) / float64 (of_int elapsed))) else Ok (to_int transferred)) (\<lambda>cur_speed.
         rmap (\<lambda>bps. (transferred, bytes_left, elapsed, bps))
           (if bps \<noteq> 0 then double_to_int (float64 (float64 (of_int bps * AGE_FACTOR) + float64 (of_int cur_speed * float64 (1 - AGE_FACTOR))))
            else Ok cur_speed)))"

definition meter_stalled :: "int \<Rightarrow> int \<Rightarrow> meter \<Rightarrow> int" where
  "meter_stalled transferred elapsed m = (if transferred = 0 then trunc (float64 (of_int (stalled m) + of_int elapsed)) else 0)"

text \<open>Without pieces the quotient is no number.\<close>

definition meter_percent :: "nat \<Rightarrow> meter \<Rightarrow> int res" where
  "meter_percent good m = (if end_pos m = 0 then Ok 100 else if m_num_pieces m = 0 then Fault (Undef ''float to int'')
     else Ok (float_percent good (m_num_pieces m)))"

text \<open>
  The remaining or elapsed time is stored in an \<^verbatim>\<open>int\<close>: the model wraps, where the conversion from \<^verbatim>\<open>double\<close> of a time
  outside the range of \<^verbatim>\<open>int\<close> is undefined.
\<close>

definition eta_text :: "int \<Rightarrow> int \<Rightarrow> int \<Rightarrow> int \<Rightarrow> bytes list" where
  "eta_text st bytes_left elapsed bps =
     (if st \<ge> STALL_TIME then [str ''- stalled -'']
      else if bps = 0 \<and> bytes_left \<noteq> 0 then [str ''  --:-- ETA'']
      else let seconds = to_int (if bytes_left > 0 then tdiv bytes_left bps else elapsed);
               hours = tdiv seconds 3600; seconds = seconds - hours * 3600;
               minutes = tdiv seconds 60; seconds = seconds - minutes * 60
           in [if hours \<noteq> 0 then dec_int hours @ str '':'' @ zero_pad 2 minutes @ str '':'' @ zero_pad 2 seconds
               else str ''  '' @ zero_pad 2 minutes @ str '':'' @ zero_pad 2 seconds,
               if bytes_left > 0 then str '' ETA'' else str ''    ''])"

section \<open>The line\<close>

definition snprintf_at :: "bytes \<Rightarrow> nat \<Rightarrow> nat \<Rightarrow> bytes \<Rightarrow> bytes res" where
  "snprintf_at buf d siz out =
     (if siz = 0 then Ok buf
      else let w = take (siz - 1) out @ [0] in if d + length w \<le> length buf then Ok (mwrite buf d w) else Fault (Undef ''snprintf''))"

text \<open>\<^verbatim>\<open>snprintf (buf + strlen (buf), win_size - strlen (buf), ...)\<close>; the size is a \<^verbatim>\<open>size_t\<close>.\<close>

definition append_print :: "nat \<Rightarrow> bytes \<Rightarrow> bytes \<Rightarrow> bytes res" where
  "append_print win out buf = rbind (strlen buf) (\<lambda>n. snprintf_at buf n (if n \<le> win then win - n else 2 ^ 64 - (n - win)) out)"

definition append_cat :: "nat \<Rightarrow> bytes \<Rightarrow> bytes \<Rightarrow> bytes res" where
  "append_cat win s buf = rmap snd (strlcat buf (cstr s) win)"

text \<open>The name of the file, padded with spaces.\<close>

definition name_field :: "int \<Rightarrow> bytes \<Rightarrow> bytes \<Rightarrow> bytes res" where
  "name_field file_len file buf =
     (let buf = buf[0 := 0] in
      if file_len > 0
      then let out = 13 # file; len = min (length out) (nat file_len) in
           rbind (snprintf_at buf 0 (nat file_len + 1) out) (\<lambda>buf.
           if nat file_len < length buf then Ok ((mwrite buf len (replicate (nat file_len - len) 32))[nat file_len := 0])
           else Fault (Undef ''buf''))
      else Ok buf)"

definition refresh_progress_meter :: "int \<Rightarrow> int \<Rightarrow> nat \<Rightarrow> bytes \<Rightarrow> meter \<Rightarrow> (bytes \<times> meter) res" where
  "refresh_progress_meter now counter good buf m =
     rbind (meter_speed now counter m) (\<lambda>(transferred, bytes_left, elapsed, bps).
     let win = nat (win_size m) in
     rbind (name_field (win_size m - 47) (m_file m) buf) (\<lambda>buf.
     rbind (meter_percent good m) (\<lambda>percent.
     rbind (append_print win (str ''hash ok: '' @ space_pad 3 (dec_int percent) @ str ''% '') buf) (\<lambda>buf.
     rbind (append_print win (format_size (counter + started m)) buf) (\<lambda>buf.
     rbind (append_cat win (str '' '') buf) (\<lambda>buf.
     rbind (append_print win (format_rate bps) buf) (\<lambda>buf.
     rbind (append_cat win (str ''/s '') buf) (\<lambda>buf.
     let st = meter_stalled transferred elapsed m in
     rbind (case eta_text st bytes_left elapsed bps of
          [t] \<Rightarrow> append_cat win t buf
        | [t, u] \<Rightarrow> rbind (append_print win t buf) (append_cat win u)
        | _ \<Rightarrow> Ok buf) (\<lambda>buf.
     Ok (mread buf 0 (win - 1), m\<lparr>cur_pos := counter, bytes_per_second := bps, stalled := st, last_update := now\<rparr>))))))))))"

section \<open>Starting and stopping\<close>

text \<open>\<open>output\<close> says whether the process may write to the terminal. The results are the lines written.\<close>

definition start_progress_meter :: "bytes \<Rightarrow> int \<Rightarrow> nat \<Rightarrow> int \<Rightarrow> int \<Rightarrow> int \<Rightarrow> nat \<Rightarrow> nat option \<Rightarrow> bool \<Rightarrow> bytes \<Rightarrow> (bytes list \<times> meter) res" where
  "start_progress_meter file filesize np st now counter good cols output buf =
     (let m = setscreensize cols \<lparr>m_start = now, last_update = now, m_file = file, end_pos = filesize, cur_pos = 0, stalled = 0,
          bytes_per_second = 0, win_size = 0, m_num_pieces = np, win_resized = False, started = st\<rparr>
      in if output then rmap (\<lambda>(l, m). ([l], m)) (refresh_progress_meter now counter good buf m) else Ok ([], m))"

definition update_progress_meter :: "int \<Rightarrow> int \<Rightarrow> nat \<Rightarrow> nat option \<Rightarrow> bool \<Rightarrow> bytes \<Rightarrow> meter \<Rightarrow> (bytes list \<times> meter) res" where
  "update_progress_meter now counter good cols output buf m =
     (let m = (if win_resized m then (setscreensize cols m)\<lparr>win_resized := False\<rparr> else m)
      in if output then rmap (\<lambda>(l, m). ([l], m)) (refresh_progress_meter now counter good buf m) else Ok ([], m))"

definition sig_winch :: "meter \<Rightarrow> meter" where
  "sig_winch m = m\<lparr>win_resized := True\<rparr>"

definition stop_progress_meter :: "int \<Rightarrow> int \<Rightarrow> nat \<Rightarrow> bool \<Rightarrow> bytes \<Rightarrow> meter \<Rightarrow> (bytes list \<times> meter) res" where
  "stop_progress_meter now counter good output buf m =
     (if \<not> output then Ok ([], m)
      else rmap (\<lambda>(ls, m). (ls @ [[10]], m))
        (if cur_pos m \<noteq> end_pos m then rmap (\<lambda>(l, m). ([l], m)) (refresh_progress_meter now counter good buf m) else Ok ([], m)))"

section \<open>What the line holds\<close>

text \<open>The buffer holds the string \<open>s\<close>, which is shorter than the window.\<close>

definition holds :: "nat \<Rightarrow> bytes \<Rightarrow> bytes \<Rightarrow> bool" where
  "holds win buf s \<longleftrightarrow> (\<exists>r. buf = s @ 0 # r) \<and> nonul s \<and> length s < win \<and> win \<le> length buf"

lemma nonul_take: "nonul s \<Longrightarrow> nonul (take k s)"
  by (auto simp: nonul_def dest: in_set_takeD)

lemma nonul_simps [simp]: "nonul []" "nonul (c # s) \<longleftrightarrow> c \<noteq> 0 \<and> nonul s" "nonul (s @ t) \<longleftrightarrow> nonul s \<and> nonul t"
  by (auto simp: nonul_def)

lemma holds_extend:
  assumes "holds win (s @ 0 # r) s" "nonul t"
  shows "holds win (mwrite (s @ 0 # r) (length s) (take (win - length s - 1) t @ [0])) (take (win - 1) (s @ t))"
proof -
  let ?w = "take (win - length s - 1) t"
  have h: "length s < win" "win \<le> length (s @ 0 # r)" "nonul s" using assms(1) by (simp_all add: holds_def)
  have t: "take (win - 1) (s @ t) = s @ ?w" using h(1) by simp
  have "mwrite (s @ 0 # r) (length s) (?w @ [0]) = (s @ ?w) @ 0 # drop (length s + length (?w @ [0])) (s @ 0 # r)" by (simp add: mwrite_def)
  moreover have "length (mwrite (s @ 0 # r) (length s) (?w @ [0])) = length (s @ 0 # r)" using h by (intro length_mwrite) simp
  moreover have "nonul (s @ ?w)" using h(3) nonul_take [OF assms(2)] by simp
  moreover have "length (s @ ?w) < win" using h(1) by simp
  ultimately show ?thesis unfolding holds_def t using h(2) by (metis (no_types))
qed

lemma append_print_run:
  assumes "holds win buf s" "nonul t"
  shows "\<exists>buf'. append_print win t buf = Ok buf' \<and> holds win buf' (take (win - 1) (s @ t)) \<and> length buf' = length buf"
proof -
  obtain r where b: "buf = s @ 0 # r" and h: "nonul s" "length s < win" "win \<le> length buf" using assms(1) by (auto simp: holds_def)
  have fit: "length s + length (take (win - length s - 1) t @ [0]) \<le> length buf" using h by simp
  have "append_print win t buf = Ok (mwrite buf (length s) (take (win - length s - 1) t @ [0]))"
    using fit h strlen_nul [OF h(1)] by (simp add: append_print_def snprintf_at_def b)
  then show ?thesis using holds_extend [of win s r t] assms b fit length_mwrite by auto
qed

lemma append_cat_run:
  assumes "holds win buf s" "nonul t"
  shows "\<exists>buf'. append_cat win t buf = Ok buf' \<and> holds win buf' (take (win - 1) (s @ t)) \<and> length buf' = length buf"
proof -
  obtain r where b: "buf = s @ 0 # r" and h: "nonul s" "length s < win" "win \<le> length buf" using assms(1) by (auto simp: holds_def)
  have fit: "length s + length (take (win - length s - 1) t @ [0]) \<le> length buf" using h by simp
  have "append_cat win t buf = Ok (mwrite buf (length s) (take (win - length s - 1) t @ [0]))"
    using strlcat_spec [OF h(1) assms(2), of win r "[]"] h b by (simp add: append_cat_def cstr_def)
  then show ?thesis using holds_extend [of win s r t] assms b fit length_mwrite by auto
qed

definition name_text :: "int \<Rightarrow> bytes \<Rightarrow> bytes" where
  "name_text file_len file = (let o1 = take (nat file_len) (13 # file) in if file_len > 0 then o1 @ replicate (nat file_len - length o1) 32 else [])"

lemma length_name_text: "length (name_text file_len file) = nat file_len"
  by (auto simp: name_text_def Let_def)

lemma name_field_run:
  assumes "nonul file" "file_len < int win" "0 < win" "win \<le> length buf"
  shows "\<exists>buf'. name_field file_len file buf = Ok buf' \<and> holds win buf' (name_text file_len file) \<and> length buf' = length buf"
proof (cases "file_len > 0")
  case False
  obtain b bs where "buf = b # bs" using assms(3,4) by (cases buf) auto
  then show ?thesis using False assms by (auto simp: name_field_def name_text_def holds_def nonul_def)
next
  case True
  let ?f = "nat file_len"
  let ?o = "take ?f (13 # file)"
  let ?k = "?f - length ?o"
  have f: "?f < win" "?f < length buf" using assms True by linarith+
  have len: "min (length (13 # file)) ?f = length ?o" by simp
  have tm: "take (min (Suc (length file)) ?f) (13 # file) = ?o" by (simp add: min_def)
  let ?b = "buf[0 := 0]"
  have b1: "snprintf_at ?b 0 (?f + 1) (13 # file) = Ok (?o @ 0 # drop (length ?o + 1) ?b)"
    using f by (simp add: snprintf_at_def mwrite_def)
  let ?b1 = "?o @ 0 # drop (length ?o + 1) ?b"
  have lo: "length ?o \<le> ?f" by simp
  have l1: "length ?b1 = length buf" using f lo by simp
  have "mwrite ?b1 (length ?o) (replicate ?k 32) = (?o @ replicate ?k 32) @ drop ?f ?b1" using lo tm by (simp add: mwrite_def)
  moreover have "(xs @ ys)[length xs := (0 :: byte)] = xs @ 0 # tl ys" if "ys \<noteq> []" for xs ys using that by (cases ys) simp_all
  moreover have "length (?o @ replicate ?k 32) = ?f" by simp
  moreover have "drop ?f ?b1 \<noteq> []" using l1 f(2) by simp
  ultimately have "(mwrite ?b1 (length ?o) (replicate ?k 32))[?f := 0] = (?o @ replicate ?k 32) @ 0 # tl (drop ?f ?b1)" by metis
  then have run: "name_field file_len file buf = Ok ((?o @ replicate ?k 32) @ 0 # tl (drop ?f ?b1))"
    using True b1 l1 f(2) len by (simp add: name_field_def Let_def)
  have nt: "name_text file_len file = ?o @ replicate ?k 32" using True by (simp add: name_text_def Let_def)
  have "nonul (name_text file_len file)" unfolding nt using nonul_take [of "13 # file" ?f] assms(1) by (auto simp: nonul_def)
  moreover have "length ((?o @ replicate ?k 32) @ 0 # tl (drop ?f ?b1)) = length buf" using l1 f(2) lo by simp
  moreover have "length (name_text file_len file) < win" using f(1) by (simp add: length_name_text)
  ultimately have "holds win ((?o @ replicate ?k 32) @ 0 # tl (drop ?f ?b1)) (name_text file_len file)" using assms(4) unfolding holds_def nt by (intro conjI exI [of _ "tl (drop ?f ?b1)"]) simp_all
  then show ?thesis using run \<open>length ((?o @ replicate ?k 32) @ 0 # tl (drop ?f ?b1)) = length buf\<close> by blast
qed

section \<open>The widths of the fields\<close>

lemma length_space_pad: "k \<le> length (space_pad k s)" by (simp add: space_pad_def)

lemma dec_int_nonempty: "1 \<le> length (dec_int i)"
  by (cases "dec_nat (nat i)") (auto simp: dec_int_def)

lemma length_zero_pad: "2 \<le> length (zero_pad 2 i)"
  by (cases "dec_nat (nat \<bar>i\<bar>)") (auto simp: zero_pad_def Let_def)

lemma length_unit_text: "length (unit_text i) = 2" by (simp add: unit_text_def)

lemma nonul_space_pad: "nonul s \<Longrightarrow> nonul (space_pad k s)"
  by (simp add: space_pad_def nonul_def)

lemma nonul_zero_pad: "nonul (zero_pad k i)"
  using nonul_dec_nat [of "nat \<bar>i\<bar>"] by (simp add: zero_pad_def nonul_def Let_def)

lemma nonul_unit_text: "i \<le> 4 \<Longrightarrow> nonul (unit_text i)"
proof -
  assume "i \<le> 4"
  then have "i \<in> {0, 1, 2, 3, 4}" by auto
  then show ?thesis by (auto simp: unit_text_def unit_chars_def str_def nonul_def)
qed

lemma scale_index: "i \<le> 4 \<Longrightarrow> fst (scale limit i b) \<le> 4"
  by (induction limit i b rule: scale.induct) (subst scale.simps, simp)

lemma format_rate_width: "7 \<le> length (format_rate b)" "nonul (format_rate b)"
proof -
  obtain i c where s: "scale (100 * 1000) 0 (b * 100) = (i, c)" by (cases "scale (100 * 1000) 0 (b * 100)")
  have i: "i \<le> 4" using scale_index [of 0 "100 * 1000" "b * 100"] s by simp
  obtain j d where j: "(if i = 0 then (1, tdiv (c + 512) 1024) else (i, c)) = (j, d)" "j \<le> 4" using i by (cases "i = 0") auto
  have f: "format_rate b = space_pad 3 (dec_int (tdiv (d + 5) 100)) @ str ''.'' @ dec_int (tmod (tdiv (d + 5) 10) 10) @ unit_text j"
    using s j(1) by (simp add: format_rate_def)
  show "7 \<le> length (format_rate b)"
    unfolding f using length_space_pad [of 3 "dec_int (tdiv (d + 5) 100)"] dec_int_nonempty [of "tmod (tdiv (d + 5) 10) 10"] length_unit_text [of j]
    by simp
  show "nonul (format_rate b)" unfolding f using nonul_unit_text [OF j(2)] by (simp add: nonul_dec_int nonul_space_pad)
qed

lemma format_size_width: "10 \<le> length (format_size b)" "nonul (format_size b)"
proof -
  obtain i c where s: "scale 10000 0 b = (i, c)" by (cases "scale 10000 0 b")
  have i: "i \<le> 4" using scale_index [of 0 10000 b] s by simp
  have f: "format_size b = str ''rx: '' @ space_pad 4 (dec_int c) @ unit_text i" using s by (simp add: format_size_def)
  show "10 \<le> length (format_size b)" unfolding f using length_space_pad [of 4 "dec_int c"] length_unit_text [of i] by (simp add: str_def)
  show "nonul (format_size b)" unfolding f using nonul_unit_text [OF i] by (simp add: nonul_dec_int nonul_space_pad)
qed

lemma eta_cases:
  obtains t where "eta_text st l el bps = [t]" "nonul t" "11 \<le> length t"
  | t u where "eta_text st l el bps = [t, u]" "nonul t" "nonul u" "11 \<le> length t + length u"
proof -
  have w: "7 \<le> length (dec_int h @ str '':'' @ zero_pad 2 m @ str '':'' @ zero_pad 2 s)" "7 \<le> length (str ''  '' @ zero_pad 2 m @ str '':'' @ zero_pad 2 s)" for h m s
    using dec_int_nonempty [of h] length_zero_pad [of m] length_zero_pad [of s] by (simp_all add: str_def)
  show thesis
  proof (cases "st \<ge> STALL_TIME \<or> bps = 0 \<and> l \<noteq> 0")
    case True
    then show ?thesis by (intro that(1) [of "if st \<ge> STALL_TIME then str ''- stalled -'' else str ''  --:-- ETA''"]) (auto simp: eta_text_def str_def)
  next
    case False
    define s0 where "s0 = to_int (if l > 0 then tdiv l bps else el)"
    define h where "h = tdiv s0 3600"
    define m where "m = tdiv (s0 - h * 3600) 60"
    define s where "s = s0 - h * 3600 - m * 60"
    let ?t = "if h \<noteq> 0 then dec_int h @ str '':'' @ zero_pad 2 m @ str '':'' @ zero_pad 2 s else str ''  '' @ zero_pad 2 m @ str '':'' @ zero_pad 2 s"
    let ?u = "if l > 0 then str '' ETA'' else str ''    ''"
    have "eta_text st l el bps = [?t, ?u]" using False unfolding eta_text_def Let_def s_def m_def h_def s0_def by auto
    moreover have "nonul ?t" "nonul ?u" by (simp_all add: nonul_zero_pad nonul_dec_int)
    moreover have "length ?u = 4" by (cases "l > 0") (simp_all add: str_def)
    moreover have "7 \<le> length ?t" using w(1) [of h m s] w(2) [of m s] by (cases "h = 0") (simp_all only: if_True if_False simp_thms)
    ultimately show ?thesis using that(2) by simp
  qed
qed

section \<open>Properties\<close>

text \<open>The fields of a line one after the other, before they are cut to the window.\<close>

definition meter_fields :: "meter \<Rightarrow> int \<Rightarrow> int \<Rightarrow> int \<Rightarrow> bytes list \<Rightarrow> bytes" where
  "meter_fields m counter percent bps eta = name_text (win_size m - 47) (m_file m) @ str ''hash ok: '' @ space_pad 3 (dec_int percent) @ str ''% ''
     @ format_size (counter + started m) @ str '' '' @ format_rate bps @ str ''/s '' @ concat eta"

lemma meter_fields_width: "win_size m - 1 \<le> int (length (meter_fields m counter percent bps (eta_text st l el bps')))"
proof (cases rule: eta_cases [of st l el bps'])
  case (1 t)
  then show ?thesis using length_space_pad [of 3 "dec_int percent"] format_size_width(1) [of "counter + started m"] format_rate_width(1) [of bps]
    by (simp add: meter_fields_def length_name_text)
next
  case (2 t u)
  then show ?thesis using length_space_pad [of 3 "dec_int percent"] format_size_width(1) [of "counter + started m"] format_rate_width(1) [of bps]
    by (simp add: meter_fields_def length_name_text)
qed

lemma take_append_take: "take n (take n a @ b) = take n (a @ b)"
  by (simp add: min_def)

lemma eta_run:
  assumes "holds win buf s"
  shows "\<exists>buf'. (case eta_text st l el bps of [t] \<Rightarrow> append_cat win t buf | [t, u] \<Rightarrow> rbind (append_print win t buf) (append_cat win u) | _ \<Rightarrow> Ok buf) = Ok buf'
    \<and> holds win buf' (take (win - 1) (s @ concat (eta_text st l el bps)))"
proof (cases rule: eta_cases [of st l el bps])
  case (1 t)
  then show ?thesis using append_cat_run [OF assms, of t] by auto
next
  case (2 t u)
  obtain b where b: "append_print win t buf = Ok b" "holds win b (take (win - 1) (s @ t))" using append_print_run [OF assms 2(2)] by blast
  obtain b' where "append_cat win u b = Ok b'" "holds win b' (take (win - 1) ((s @ t) @ u))"
    using append_cat_run [OF b(2) 2(3)] unfolding take_append_take by blast
  then show ?thesis using b(1) 2(1) by simp
qed

text \<open>
  (C26) The progress meter writes exactly one full line of the window, whatever the window size request answered: it stays inside its buffer,
  every byte it writes comes from its fields and none from the uninitialised buffer, although it builds the line by formatted
  appends and then writes a fixed number of bytes. The speed has to fit an \<^verbatim>\<open>int\<close>.
\<close>

theorem meter_line_full:
  assumes "length buf = 513" "nonul (m_file m)" "win_size m = win_size (setscreensize cols m0)"
    "meter_speed now counter m = Ok (transferred, l, el, bps)" "meter_percent good m = Ok percent"
  shows "\<exists>line m'. refresh_progress_meter now counter good buf m = Ok (line, m')
    \<and> line = take (nat (win_size m) - 1) (meter_fields m counter percent bps (eta_text (meter_stalled transferred el m) l el bps))
    \<and> length line = nat (win_size m) - 1 \<and> nonul line"
proof -
  let ?win = "nat (win_size m)" and ?st = "meter_stalled transferred el m"
  have win: "2 \<le> win_size m" "win_size m \<le> 513" using assms(3) by (auto simp: setscreensize_def DEFAULT_WINSIZE_def MAX_WINSIZE_def split: option.splits)
  have h: "nonul (str ''hash ok: '' @ space_pad 3 (dec_int percent) @ str ''% '')" "nonul (str '' '')" "nonul (str ''/s '')"
    by (simp_all add: nonul_dec_int nonul_space_pad)
  obtain b0 where b0: "name_field (win_size m - 47) (m_file m) buf = Ok b0" "holds ?win b0 (name_text (win_size m - 47) (m_file m))"
  proof -
    have "win_size m - 47 < int ?win" "0 < ?win" "?win \<le> length buf" using win assms(1) by linarith+
    then show ?thesis using name_field_run [OF assms(2)] that by blast
  qed
  obtain b1 where b1: "append_print ?win (str ''hash ok: '' @ space_pad 3 (dec_int percent) @ str ''% '') b0 = Ok b1"
    "holds ?win b1 (take (?win - 1) (name_text (win_size m - 47) (m_file m) @ str ''hash ok: '' @ space_pad 3 (dec_int percent) @ str ''% ''))"
    using append_print_run [OF b0(2) h(1)] by blast
  note b2 = append_print_run [OF b1(2) format_size_width(2) [of "counter + started m"], unfolded take_append_take append_assoc]
  then obtain b2 where b2: "append_print ?win (format_size (counter + started m)) b1 = Ok b2"
    "holds ?win b2 (take (?win - 1) (name_text (win_size m - 47) (m_file m) @ str ''hash ok: '' @ space_pad 3 (dec_int percent) @ str ''% '' @ format_size (counter + started m)))"
    by blast
  obtain b3 where b3: "append_cat ?win (str '' '') b2 = Ok b3"
    "holds ?win b3 (take (?win - 1) (name_text (win_size m - 47) (m_file m) @ str ''hash ok: '' @ space_pad 3 (dec_int percent) @ str ''% '' @ format_size (counter + started m) @ str '' ''))"
    using append_cat_run [OF b2(2) h(2), unfolded take_append_take append_assoc] by blast
  obtain b4 where b4: "append_print ?win (format_rate bps) b3 = Ok b4"
    "holds ?win b4 (take (?win - 1) (name_text (win_size m - 47) (m_file m) @ str ''hash ok: '' @ space_pad 3 (dec_int percent) @ str ''% '' @ format_size (counter + started m) @ str '' '' @ format_rate bps))"
    using append_print_run [OF b3(2) format_rate_width(2) [of bps], unfolded take_append_take append_assoc] by blast
  obtain b5 where b5: "append_cat ?win (str ''/s '') b4 = Ok b5"
    "holds ?win b5 (take (?win - 1) (name_text (win_size m - 47) (m_file m) @ str ''hash ok: '' @ space_pad 3 (dec_int percent) @ str ''% '' @ format_size (counter + started m) @ str '' '' @ format_rate bps @ str ''/s ''))"
    using append_cat_run [OF b4(2) h(3), unfolded take_append_take append_assoc] by blast
  obtain b6 where b6: "(case eta_text ?st l el bps of [t] \<Rightarrow> append_cat ?win t b5 | [t, u] \<Rightarrow> rbind (append_print ?win t b5) (append_cat ?win u) | _ \<Rightarrow> Ok b5) = Ok b6"
    "holds ?win b6 (take (?win - 1) (meter_fields m counter percent bps (eta_text ?st l el bps)))"
    using eta_run [OF b5(2), of ?st l el bps, unfolded take_append_take append_assoc, folded meter_fields_def] by blast
  let ?line = "take (?win - 1) (meter_fields m counter percent bps (eta_text ?st l el bps))"
  have "win_size m - 1 \<le> int (length (meter_fields m counter percent bps (eta_text ?st l el bps)))" by (rule meter_fields_width)
  then have len: "length ?line = ?win - 1" by simp
  then have "mread b6 0 (?win - 1) = ?line" using b6(2) by (auto simp: holds_def mread_def)
  then have "refresh_progress_meter now counter good buf m = Ok (?line, m\<lparr>cur_pos := counter, bytes_per_second := bps, stalled := ?st, last_update := now\<rparr>)"
    using assms(4,5) b0(1) b1(1) b2(1) b3(1) b4(1) b5(1) b6(1) unfolding refresh_progress_meter_def Let_def by (simp only: rbind.simps prod.case)
  then show ?thesis using len b6(2) by (auto simp: holds_def)
qed

definition idle_meter :: meter where
  "idle_meter = setscreensize (Some 60) \<lparr>m_start = 5, last_update = 5, m_file = str ''a'', end_pos = 0, cur_pos = 0, stalled = 0,
     bytes_per_second = 0, win_size = 0, m_num_pieces = 1, win_resized = False, started = 0\<rparr>"

theorem meter_line_full_witness:
  "\<exists>line m'. refresh_progress_meter 5 0 0 (replicate 513 0) idle_meter = Ok (line, m') \<and> length line = 60 \<and> nonul line"
proof -
  have "meter_speed 5 0 idle_meter = Ok (0, 0, 0, 0)" by (simp add: meter_speed_def idle_meter_def setscreensize_def to_int_def)
  moreover have "meter_percent 0 idle_meter = Ok 100" by (simp add: meter_percent_def idle_meter_def setscreensize_def)
  moreover have "win_size idle_meter = win_size (setscreensize (Some 60) idle_meter)" "nonul (m_file idle_meter)" "nat (win_size idle_meter) - 1 = 60"
    by (simp_all add: idle_meter_def setscreensize_def MAX_WINSIZE_def)
  ultimately show ?thesis using meter_line_full [of "replicate 513 0" idle_meter "Some 60" idle_meter 5 0 0 0 0 0 0 100] by auto
qed

end
