(* ===== verification/Hash_Check.thy ===== *)
theory Hash_Check
  imports Torrent_Check
begin

text \<open>
  The hash check of \<^verbatim>\<open>main.c\<close>: at the start every piece is mapped, checked and unmapped again. The display of the
  progress is left out.
\<close>

section \<open>The check\<close>

text \<open>\<open>tpp\<close> points into the array of pieces: its changes are stored back there.\<close>

definition check_piece :: "int \<Rightarrow> torrent \<times> disk \<Rightarrow> u32 \<Rightarrow> (torrent \<times> disk) res" where
  "check_piece pg s i = (case s of (tp, dk) \<Rightarrow>
     rbind (torrent_piece_find tp i) (\<lambda>tpp.
     if tpp_index tpp \<noteq> i then Fault (Exit ''main: something went wrong'')
     else rbind (torrent_piece_map pg tpp (tp, dk)) (\<lambda>(tpp, tp, dk).
          rbind (if \<not> isnew tp
                 then rmap (\<lambda>(j, tpp). (tpp, if j = 0 then tp\<lparr>good_pieces := good_pieces tp + 1, downloaded := downloaded tp + uint (tpp_len tpp)\<rparr> else tp))
                        (torrent_piece_checkhash tp tpp dk)
                 else Ok (tpp, tp)) (\<lambda>(tpp, tp).
          let (tpp, tp) = torrent_piece_unmap tpp tp in Ok (update_piece tp i tpp, dk)))))"

definition hash_check :: "int \<Rightarrow> torrent \<times> disk \<Rightarrow> (torrent \<times> disk) res" where
  "hash_check pg s = rfold (check_piece pg) s (piece_indexes (fst s))"

section \<open>What it finds\<close>

text \<open>
  A torrent whose numbers fit together: the pieces cover the content, there is a hash for each, and the files are as
  \<open>Torrent_Map\<close> needs them.
\<close>

definition files_fit :: "torrent \<Rightarrow> u32 \<Rightarrow> bool" where
  "files_fit tp i \<longleftrightarrow> (case ttype tp of
       SINGLEFILE \<Rightarrow> length (files tp) = 1
     | MULTIFILE \<Rightarrow> total_length tp = sum_list (map file_length (files tp)) \<and> (\<forall>fl \<in> set (map file_length (files tp)). 0 < fl)
         \<and> (\<forall>k < length (files tp). sum_list (take (Suc k) (map file_length (files tp))) = piece_start tp i
              \<longrightarrow> uint (tpp_len (piece_create tp i)) \<le> map file_length (files tp) ! k))"

definition well_cut :: "torrent \<Rightarrow> bool" where
  "well_cut tp \<longleftrightarrow> uint (piece_length tp) * (uint (num_pieces tp) - 1) < content_length tp
     \<and> content_length tp \<le> uint (piece_length tp) * uint (num_pieces tp) \<and> 0 < piece_length tp
     \<and> length (pieces tp) = 20 * unat (num_pieces tp) \<and> 20 * unat (num_pieces tp) < 2 ^ 32
     \<and> (\<forall>i. unat i < unat (num_pieces tp) \<longrightarrow> files_fit tp i)"

text \<open>The bytes of a piece on the disk have the hash that the metainfo file gives.\<close>

definition piece_good :: "torrent \<Rightarrow> disk \<Rightarrow> u32 \<Rightarrow> bool" where
  "piece_good tp dk i \<longleftrightarrow>
     sha1_spec (mread (stream tp dk) (nat (piece_start tp i)) (unat (tpp_len (piece_create tp i)))) = mread (pieces tp) (20 * unat i) 20"

lemma create_fields [simp]: "tpp_index (piece_create tp i) = i" "tpp_mmaps (piece_create tp i) = []" "tpp_flags (piece_create tp i) = 0"
  by (simp_all add: piece_create_def Let_def)

lemma good_files:
  fixes i :: u32
  assumes "well_cut tp" "unat i < unat (num_pieces tp)"
  shows "content_length tp = sum_list (map file_length (files tp))"
proof -
  have "files_fit tp i" using assms by (simp add: well_cut_def)
  then show ?thesis by (cases "ttype tp"; cases "files tp") (auto simp: files_fit_def content_length_def)
qed

lemma stream_length:
  fixes i :: u32
  assumes "well_cut tp" "can_map tp dk" "unat i < unat (num_pieces tp)"
  shows "int (length (stream tp dk)) = content_length tp"
proof -
  have u: "int (unat (num_pieces tp)) = uint (num_pieces tp)" by simp
  have "0 \<le> uint (num_pieces tp) - 1" using assms(3) u by linarith
  then have "0 \<le> uint (piece_length tp) * (uint (num_pieces tp) - 1)" by (intro mult_nonneg_nonneg) simp_all
  then have pos: "0 \<le> content_length tp" using assms(1) by (simp add: well_cut_def)
  have "length (stream tp dk) = sum_list (map nat (map file_length (files tp)))"
    using padded_lengths [OF assms(2)] by (simp add: stream_def length_concat)
  moreover have "int (sum_list (map nat xs)) = sum_list xs" if "\<forall>x \<in> set xs. 0 \<le> x" for xs :: "int list" using that by (induction xs) auto
  moreover have "\<forall>x \<in> set (map file_length (files tp)). 0 \<le> x"
  proof (cases "ttype tp")
    case SINGLEFILE
    then have "length (files tp) = 1" using assms(1,3) by (auto simp: well_cut_def files_fit_def)
    then show ?thesis using pos SINGLEFILE by (cases "files tp") (auto simp: content_length_def)
  next
    case MULTIFILE
    then show ?thesis using assms(1,3) by (auto simp: well_cut_def files_fit_def intro: less_imp_le)
  qed
  ultimately show ?thesis using good_files [OF assms(1,3)] by (simp del: map_map)
qed

lemma piece_inside:
  fixes i :: u32
  assumes "well_cut tp" "unat i < unat (num_pieces tp)"
  shows "0 < uint (tpp_len (piece_create tp i))" "piece_start tp i + uint (tpp_len (piece_create tp i)) \<le> content_length tp"
proof -
  have u: "int (unat i) = uint i" "int (unat (num_pieces tp)) = uint (num_pieces tp)" by simp_all
  have "uint i \<le> uint (num_pieces tp) - 1" using assms(2) u by linarith
  then have "piece_start tp i \<le> uint (piece_length tp) * (uint (num_pieces tp) - 1)" unfolding piece_start_def by (intro mult_left_mono) simp_all
  then have "piece_start tp i < content_length tp" using assms(1) by (simp add: well_cut_def)
  moreover have "uint (tpp_len (piece_create tp i)) = min (uint (piece_length tp)) (content_length tp - piece_start tp i)"
    using create_length [OF assms(2)] assms(1) by (simp add: well_cut_def)
  moreover have "0 < uint (piece_length tp)" using assms(1) by (simp add: well_cut_def word_less_def)
  ultimately show "0 < uint (tpp_len (piece_create tp i))" "piece_start tp i + uint (tpp_len (piece_create tp i)) \<le> content_length tp" by auto
qed

lemma mapped_piece:
  assumes "well_cut tp" "can_map tp dk" "unat i < unat (num_pieces tp)"
    "tpp_index tpp = i" "tpp_len tpp = tpp_len (piece_create tp i)" "tpp_mmaps tpp = []"
  shows "\<exists>tpp' tp' dk'. torrent_piece_map pg tpp (tp, dk) = Ok (tpp', tp', dk')
    \<and> mapped_to (tpp', tp', dk') tpp (mread (stream tp dk) (nat (piece_start tp i)) (unat (tpp_len tpp)))
    \<and> grown (tp, dk) (tp', dk') \<and> place tpp' = cover 0 (map file_length (files tp)) (piece_start tp i) (uint (tpp_len tpp))"
proof -
  note ix = assms(4,6)
  have pos: "0 < uint (tpp_len tpp)" and fit: "piece_start tp i + uint (tpp_len tpp) \<le> content_length tp"
    using piece_inside [OF assms(1,3)] assms(5) by simp_all
  have ff: "files_fit tp i" using assms(1,3) by (simp add: well_cut_def)
  have "\<exists>st. torrent_piece_map pg tpp (tp, dk) = Ok st
      \<and> mapped_to st tpp (mread (stream tp dk) (nat (piece_start tp (tpp_index tpp))) (unat (tpp_len tpp))) \<and> grown (tp, dk) (snd st)
      \<and> place (fst st) = cover 0 (map file_length (files tp)) (piece_start tp (tpp_index tpp)) (uint (tpp_len tpp))"
  proof (cases "ttype tp")
    case SINGLEFILE
    then obtain f where f: "files tp = [f]" "piece_start tp i + uint (tpp_len tpp) \<le> file_length f"
      using ff fit by (auto simp: files_fit_def content_length_def length_Suc_conv)
    then have "cover 0 (map file_length (files tp)) (piece_start tp i) (uint (tpp_len tpp)) = [(0, piece_start tp i, uint (tpp_len tpp))]"
      using pos by (simp add: Let_def)
    then show ?thesis using single_map [OF SINGLEFILE _ assms(2) ix(2), of pg] f ix(1) by (simp del: cover.simps)
  next
    case MULTIFILE
    then have f: "\<forall>f \<in> set (files tp). 0 < file_length f"
      "piece_start tp (tpp_index tpp) + uint (tpp_len tpp) \<le> sum_list (map file_length (files tp))"
      "\<forall>k < length (files tp). sum_list (take (Suc k) (map file_length (files tp))) = piece_start tp (tpp_index tpp) \<longrightarrow> uint (tpp_len tpp) \<le> file_length (files tp ! k)"
      using ff fit by (auto simp: files_fit_def content_length_def ix(1) assms(5))
    show ?thesis by (rule multi_map [OF MULTIFILE assms(2) ix(2) pos f])
  qed
  then show ?thesis using ix(1) by auto
qed

text \<open>What the check keeps of a torrent.\<close>

definition same_cut :: "torrent \<Rightarrow> torrent \<Rightarrow> bool" where
  "same_cut tp tp' \<longleftrightarrow> ttype tp' = ttype tp \<and> piece_length tp' = piece_length tp \<and> num_pieces tp' = num_pieces tp
     \<and> total_length tp' = total_length tp \<and> pieces tp' = pieces tp \<and> map file_length (files tp') = map file_length (files tp)"

lemma same_cut_simps:
  assumes "same_cut tp tp'"
  shows "piece_create tp' = piece_create tp" "piece_start tp' = piece_start tp" "well_cut tp' = well_cut tp"
proof -
  have l: "length (files tp') = length (files tp)" using assms map_eq_imp_length_eq by (auto simp: same_cut_def)
  then have hd: "file_length (hd (files tp')) = file_length (hd (files tp))" using assms by (cases "files tp"; cases "files tp'") (auto simp: same_cut_def)
  show c: "piece_create tp' = piece_create tp" using assms hd by (auto simp: piece_create_def same_cut_def fun_eq_iff Let_def split: ttype.splits)
  show s: "piece_start tp' = piece_start tp" using assms by (simp add: piece_start_def fun_eq_iff same_cut_def)
  have "content_length tp' = content_length tp" "files_fit tp' = files_fit tp"
    using assms hd c s l by (cases "ttype tp"; simp add: same_cut_def content_length_def files_fit_def fun_eq_iff)+
  then show "well_cut tp' = well_cut tp" using assms by (simp add: well_cut_def same_cut_def)
qed

lemma unmap_lengths:
  obtains F where "torrent_piece_unmap tpp tp = (tpp\<lparr>tpp_mmaps := [], tpp_flags := tpp_flags tpp AND NOT TORRENT_PIECE_MAPPED\<rparr>, tp\<lparr>files := F\<rparr>)"
    "map file_length F = map file_length (files tp)"
proof -
  have "\<exists>F. fold (\<lambda>m tp. tp\<lparr>files := (files tp)[mm_file m := unref (files tp ! mm_file m)]\<rparr>) ms tp = tp\<lparr>files := F\<rparr>
      \<and> map file_length F = map file_length (files tp)" for ms
  proof (induction ms arbitrary: tp)
    case (Nil tp)
    have "tp = tp\<lparr>files := files tp\<rparr>" by simp
    then show ?case by (intro exI [of _ "files tp"] conjI) simp_all
  next
    case (Cons m ms)
    have "map file_length ((files tp)[mm_file m := unref (files tp ! mm_file m)]) = map file_length (files tp)"
      by (cases "mm_file m < length (files tp)") (simp_all add: map_update unref_def Let_def list_update_same_conv list_update_beyond)
    then show ?case using Cons [of "tp\<lparr>files := (files tp)[mm_file m := unref (files tp ! mm_file m)]\<rparr>"] by auto
  qed
  then show thesis using that by (auto simp: torrent_piece_unmap_def)
qed

definition fresh_pieces :: "torrent \<Rightarrow> bool" where
  "fresh_pieces tp \<longleftrightarrow> piece_array tp = map (\<lambda>i. piece_create tp (of_nat i)) [0..<unat (num_pieces tp)] \<and> good_pieces tp = 0 \<and> downloaded tp = 0"

definition checked :: "torrent \<Rightarrow> disk \<Rightarrow> nat \<Rightarrow> u32 set \<Rightarrow> torrent \<times> disk \<Rightarrow> bool" where
  "checked tp dk k I s \<longleftrightarrow> (case s of (tp', dk') \<Rightarrow>
     same_cut tp tp' \<and> length dk' = length (files tp') \<and> padded tp' dk' = padded tp dk \<and> marked tp I tp'
     \<and> I \<subseteq> {i. unat i < k \<and> piece_good tp dk i}
     \<and> (full_files tp dk \<and> \<not> isnew tp \<longrightarrow> I = {i. unat i < k \<and> piece_good tp dk i} \<and> \<not> isnew tp' \<and> dk' = dk))"

lemma unmapped_flags: "(0 OR TORRENT_PIECE_MAPPED) AND NOT TORRENT_PIECE_MAPPED = 0"
  "(0 OR TORRENT_PIECE_MAPPED OR TORRENT_PIECE_CKSUMOK) AND NOT TORRENT_PIECE_MAPPED = 0 OR TORRENT_PIECE_CKSUMOK"
  "(0 OR TORRENT_PIECE_MAPPED) AND TORRENT_PIECE_MAPPED \<noteq> 0"
  by (simp_all add: TORRENT_PIECE_MAPPED_def TORRENT_PIECE_CKSUMOK_def)

text \<open>The result of one turn, before the piece is stored back.\<close>

lemma check_turn:
  assumes "well_cut tp" "can_map tp dk" "unat i < unat (num_pieces tp)" "torrent_piece_find tp i = Ok (piece_create tp i)"
  shows "\<exists>F new dk'. let good = piece_good tp dk i \<and> \<not> new; tpp = piece_create tp i in
      check_piece pg (tp, dk) i = Ok (update_piece (if good then tp\<lparr>files := F, isnew := new, good_pieces := good_pieces tp + 1,
          downloaded := downloaded tp + uint (tpp_len tpp)\<rparr> else tp\<lparr>files := F, isnew := new\<rparr>) i
          (if good then tpp\<lparr>tpp_flags := 0 OR TORRENT_PIECE_CKSUMOK\<rparr> else tpp), dk')
      \<and> map file_length F = map file_length (files tp) \<and> length dk' = length F \<and> padded (tp\<lparr>files := F\<rparr>) dk' = padded tp dk
      \<and> (full_files tp dk \<longrightarrow> new = isnew tp \<and> dk' = dk)"
proof -
  let ?tpp = "piece_create tp i" and ?bs = "mread (stream tp dk) (nat (piece_start tp i)) (unat (tpp_len (piece_create tp i)))"
  obtain tpp1 tp1 dk1 where m: "torrent_piece_map pg ?tpp (tp, dk) = Ok (tpp1, tp1, dk1)" "mapped_to (tpp1, tp1, dk1) ?tpp ?bs" "grown (tp, dk) (tp1, dk1)"
    using mapped_piece [OF assms(1-3), of ?tpp pg] by auto
  have p0: "tpp_flags ?tpp = 0" "tpp_index ?tpp = i" "tpp_mmaps ?tpp = []" by (simp_all add: piece_create_def Let_def)
  have p1: "piece_ok tpp1 dk1" "piece_bytes tpp1 dk1 = ?bs" "tpp_len tpp1 = tpp_len ?tpp" "tpp_index tpp1 = i" "tpp_flags tpp1 = 0 OR TORRENT_PIECE_MAPPED"
    "tpp_blocks tpp1 = tpp_blocks ?tpp" using m(2) p0 by (simp_all add: mapped_to_def)
  have g: "tp1 = tp\<lparr>files := files tp1, isnew := isnew tp1\<rparr>" "map file_length (files tp1) = map file_length (files tp)" "can_map tp1 dk1"
    "padded tp1 dk1 = padded tp dk" "full_files tp dk \<longrightarrow> isnew tp1 = isnew tp \<and> dk1 = dk" using m(3) by (auto simp: grown_def)
  have pc: "pieces tp1 = pieces tp" using arg_cong [OF g(1), of pieces] by simp
  have fit: "length ?bs = unat (tpp_len tpp1)"
  proof -
    have "int (length (stream tp dk)) = content_length tp" using stream_length [OF assms(1-3)] .
    then have "nat (piece_start tp i) + unat (tpp_len ?tpp) \<le> length (stream tp dk)"
    proof -
      have "int (unat (tpp_len ?tpp)) = uint (tpp_len ?tpp)" "0 \<le> piece_start tp i" by (simp_all add: piece_start_def)
      then show ?thesis using piece_inside(2) [OF assms(1,3)] \<open>int (length (stream tp dk)) = content_length tp\<close> by linarith
    qed
    then show ?thesis using p1(3) by simp
  qed
  have "\<exists>res. torrent_piece_checkhash tp1 tpp1 dk1 = Ok (res, if res = 0 then tpp1\<lparr>tpp_flags := tpp_flags tpp1 OR TORRENT_PIECE_CKSUMOK\<rparr> else tpp1)
    \<and> (res = 0 \<longleftrightarrow> sha1_spec (piece_bytes tpp1 dk1) = mread (pieces tp1) (20 * unat (tpp_index tpp1)) 20)"
    using assms(1,3) p1 fit unmapped_flags(3) by (intro checkhash_run) (auto simp: well_cut_def pc)
  then obtain res where res: "torrent_piece_checkhash tp1 tpp1 dk1 = Ok (res, if res = 0 then tpp1\<lparr>tpp_flags := tpp_flags tpp1 OR TORRENT_PIECE_CKSUMOK\<rparr> else tpp1)"
    "res = 0 \<longleftrightarrow> piece_good tp dk i" using p1 pc by (auto simp: piece_good_def)
  let ?good = "piece_good tp dk i \<and> \<not> isnew tp1"
  let ?t = "if ?good then tp1\<lparr>good_pieces := good_pieces tp1 + 1, downloaded := downloaded tp1 + uint (tpp_len tpp1)\<rparr> else tp1"
  let ?q = "if ?good then tpp1\<lparr>tpp_flags := tpp_flags tpp1 OR TORRENT_PIECE_CKSUMOK\<rparr> else tpp1"
  obtain F where F: "torrent_piece_unmap ?q ?t = (?q\<lparr>tpp_mmaps := [], tpp_flags := tpp_flags ?q AND NOT TORRENT_PIECE_MAPPED\<rparr>, ?t\<lparr>files := F\<rparr>)"
    "map file_length F = map file_length (files ?t)" by (rule unmap_lengths)
  have q: "?q\<lparr>tpp_mmaps := [], tpp_flags := tpp_flags ?q AND NOT TORRENT_PIECE_MAPPED\<rparr> = (if ?good then ?tpp\<lparr>tpp_flags := 0 OR TORRENT_PIECE_CKSUMOK\<rparr> else ?tpp)"
    using p0 p1 unmapped_flags by (cases tpp1; cases ?tpp) auto
  have "check_piece pg (tp, dk) i = Ok (update_piece (?t\<lparr>files := F\<rparr>) i (if ?good then ?tpp\<lparr>tpp_flags := 0 OR TORRENT_PIECE_CKSUMOK\<rparr> else ?tpp), dk1)"
  proof -
    have "(if \<not> isnew tp1 then rmap (\<lambda>(j, tpp). (tpp, if j = 0 then tp1\<lparr>good_pieces := good_pieces tp1 + 1, downloaded := downloaded tp1 + uint (tpp_len tpp)\<rparr> else tp1))
        (torrent_piece_checkhash tp1 tpp1 dk1) else Ok (tpp1, tp1)) = Ok (?q, ?t)" using res by simp
    then show ?thesis using assms(4) m(1) F(1) unfolding q by (simp only: check_piece_def rbind.simps prod.case p0(2) not_True_eq_False if_False simp_thms Let_def)
  qed
  moreover have "?t\<lparr>files := F\<rparr> = (if ?good then tp\<lparr>files := F, isnew := isnew tp1, good_pieces := good_pieces tp + 1,
          downloaded := downloaded tp + uint (tpp_len ?tpp)\<rparr> else tp\<lparr>files := F, isnew := isnew tp1\<rparr>)"
    using g(1) p1(3) by (cases tp; cases tp1) auto
  moreover have fl: "map file_length F = map file_length (files tp)" using F(2) g(2) by (simp split: if_splits)
  moreover have "length dk1 = length F" using g(3) arg_cong [OF g(2), of length] arg_cong [OF fl, of length] by (simp add: can_map_def)
  moreover have "padded (tp\<lparr>files := F\<rparr>) dk1 = padded tp dk" using g(2,4) fl by (simp add: padded_def)
  ultimately show ?thesis using g(5) by (intro exI [of _ F] exI [of _ "isnew tp1"] exI [of _ dk1]) (simp add: Let_def)
qed

lemma marked_at:
  assumes "marked tp I tp'" "unat i < unat (num_pieces tp)" "i \<notin> I"
  shows "piece_array tp' ! unat i = piece_array tp ! unat i"
proof -
  have "piece_array tp' ! unat i = (piece_array tp ! unat i)\<lparr>tpp_flags := tpp_flags (piece_array tp ! unat i)\<rparr>" using assms by (simp add: marked_def)
  then show ?thesis by simp
qed

lemma marked_next:
  assumes "marked tp I t" "i \<notin> I" "unat i < length (piece_array tp)" "num_pieces t' = num_pieces t"
    and "piece_array t' = (piece_array t)[unat i := (if b then (piece_array tp ! unat i)\<lparr>tpp_flags := tpp_flags (piece_array tp ! unat i) OR TORRENT_PIECE_CKSUMOK\<rparr>
        else piece_array tp ! unat i)]"
    and "good_pieces t' = (if b then good_pieces t + 1 else good_pieces t)"
    and "downloaded t' = (if b then downloaded t + uint (tpp_len (piece_array tp ! unat i)) else downloaded t)"
  shows "marked tp (if b then insert i I else I) t'"
proof -
  have "finite I" by simp
  have ne: "unat i = unat j \<longleftrightarrow> i = j" for j :: u32 by (simp add: word_unat_eq_iff)
  show ?thesis
  proof (cases b)
    case True
    then show ?thesis using assms \<open>finite I\<close> by (auto simp: marked_def nth_list_update ne)
  next
    case False
    then show ?thesis using assms by (auto simp: marked_def nth_list_update ne)
  qed
qed

lemma check_step:
  assumes "well_cut tp" "fresh_pieces tp" "checked tp dk k I (tp', dk')" "k < unat (num_pieces tp)"
  shows "\<exists>I' s. check_piece pg (tp', dk') (of_nat k) = Ok s \<and> checked tp dk (Suc k) I' s"
proof -
  let ?i = "of_nat k :: u32"
  have c: "same_cut tp tp'" "length dk' = length (files tp')" "padded tp' dk' = padded tp dk" "marked tp I tp'" "I \<subseteq> {i. unat i < k \<and> piece_good tp dk i}"
    "full_files tp dk \<and> \<not> isnew tp \<longrightarrow> I = {i. unat i < k \<and> piece_good tp dk i} \<and> \<not> isnew tp' \<and> dk' = dk"
    using assms(3) by (auto simp: checked_def)
  note sc = same_cut_simps [OF c(1)]
  have n: "num_pieces tp' = num_pieces tp" using c(1) by (simp add: same_cut_def)
  have k: "unat ?i = k" using assms(4) unsigned_less [of "num_pieces tp", where 'a = nat] by (simp add: unat_of_nat)
  have pk: "unat (num_pieces tp) + 7 < 2 ^ 32" using assms(1) by (simp add: well_cut_def)
  have ok: "pieces_ok tp'" using c(4) assms(2) pk n by (simp add: pieces_ok_def marked_def fresh_pieces_def)
  have ni: "?i \<notin> I" using c(5) k by auto
  have a0: "piece_array tp ! k = piece_create tp ?i" using assms(2,4) by (simp add: fresh_pieces_def)
  then have "piece_array tp' ! unat ?i = piece_create tp' ?i" using marked_at [OF c(4) _ ni] assms(4) k sc(1) by simp
  then have fd: "torrent_piece_find tp' ?i = Ok (piece_create tp' ?i)" using piece_find_in [OF ok] n k assms(4) by simp
  have "finite I" by simp
  have "card I \<le> k"
  proof -
    have "unat ` I \<subseteq> {..<k}" using c(5) by auto
    then have "card (unat ` I) \<le> k" using card_mono [of "{..<k}"] by fastforce
    then show ?thesis by (simp add: card_image inj_on_def word_unat_eq_iff)
  qed
  moreover have "good_pieces tp' = of_nat (card I)" using c(4) assms(2) by (simp add: marked_def fresh_pieces_def)
  ultimately have "unat (good_pieces tp') < unat (num_pieces tp')" using assms(4) n pk by (simp add: unat_of_nat)
  then have "good_pieces tp' \<noteq> num_pieces tp'" by auto
  then have cm: "can_map tp' dk'" using c(2) by (simp add: can_map_def)
  have st: "stream tp' dk' = stream tp dk" using c(3) by (simp add: stream_def)
  have pg: "piece_good tp' dk' = piece_good tp dk" using c(1) st sc by (simp add: piece_good_def fun_eq_iff same_cut_def)
  obtain F new dk2 where r: "check_piece pg (tp', dk') ?i = Ok (update_piece (if piece_good tp dk ?i \<and> \<not> new then tp'\<lparr>files := F, isnew := new, good_pieces := good_pieces tp' + 1,
          downloaded := downloaded tp' + uint (tpp_len (piece_create tp ?i))\<rparr> else tp'\<lparr>files := F, isnew := new\<rparr>) ?i
          (if piece_good tp dk ?i \<and> \<not> new then (piece_create tp ?i)\<lparr>tpp_flags := 0 OR TORRENT_PIECE_CKSUMOK\<rparr> else piece_create tp ?i), dk2)"
      "map file_length F = map file_length (files tp')" "length dk2 = length F" "padded (tp'\<lparr>files := F\<rparr>) dk2 = padded tp' dk'"
      "full_files tp' dk' \<longrightarrow> new = isnew tp' \<and> dk2 = dk'"
    using check_turn [OF _ cm, of ?i pg] assms(1,4) sc fd k n pg by (auto simp: Let_def)
  let ?good = "piece_good tp dk ?i \<and> \<not> new"
  let ?I = "if ?good then insert ?i I else I"
  obtain s where s: "check_piece pg (tp', dk') ?i = Ok s" using r(1) by blast
  have s': "s = (update_piece (if ?good then tp'\<lparr>files := F, isnew := new, good_pieces := good_pieces tp' + 1,
          downloaded := downloaded tp' + uint (tpp_len (piece_create tp ?i))\<rparr> else tp'\<lparr>files := F, isnew := new\<rparr>) ?i
          (if ?good then (piece_create tp ?i)\<lparr>tpp_flags := 0 OR TORRENT_PIECE_CKSUMOK\<rparr> else piece_create tp ?i), dk2)"
    using s r(1) by simp
  have "k < length (piece_array tp)" using assms(2,4) by (simp add: fresh_pieces_def)
  then have "marked tp ?I (fst s)" unfolding s' using a0 k
    by (intro marked_next [OF c(4) ni]) (simp_all add: update_piece_def)
  moreover have "same_cut tp (fst s)" using c(1) r(2) by (simp add: s' same_cut_def update_piece_def)
  moreover have "length (snd s) = length (files (fst s))" using r(3) by (simp add: s' update_piece_def)
  moreover have "padded (fst s) (snd s) = padded tp dk" using r(4) c(3) by (simp add: s' padded_def update_piece_def)
  moreover have "?I \<subseteq> {i. unat i < Suc k \<and> piece_good tp dk i}" using c(5) k by auto
  moreover have "?I = {i. unat i < Suc k \<and> piece_good tp dk i} \<and> \<not> isnew (fst s) \<and> snd s = dk" if full: "full_files tp dk" "\<not> isnew tp"
  proof -
    have f: "I = {i. unat i < k \<and> piece_good tp dk i}" "\<not> isnew tp'" "dk' = dk" using c(6) full by auto
    have "full_files tp' dk'" using full(1) f(3) c(1) by (simp add: full_files_def same_cut_def)
    then have nn: "\<not> new" "dk2 = dk" using r(5) f by simp_all
    have "unat i = k \<longleftrightarrow> i = ?i" for i :: u32 using k by (metis word_unat_eq_iff)
    then have "{i. unat i < Suc k \<and> piece_good tp dk i} = {i. (unat i < k \<or> i = ?i) \<and> piece_good tp dk i}" by (simp add: less_Suc_eq)
    then have "{i. unat i < Suc k \<and> piece_good tp dk i} = (if piece_good tp dk ?i then insert ?i I else I)" unfolding f(1) by auto
    then show ?thesis using nn by (simp add: s' update_piece_def)
  qed
  ultimately have "checked tp dk (Suc k) ?I s" by (auto simp: checked_def split: prod.split)
  then show ?thesis using s by blast
qed

lemma check_run:
  assumes "well_cut tp" "fresh_pieces tp" "length dk = length (files tp)"
  shows "k \<le> unat (num_pieces tp) \<Longrightarrow> \<exists>I s. rfold (check_piece pg) (tp, dk) (map of_nat [0..<k]) = Ok s \<and> checked tp dk k I s"
proof (induction k)
  case 0
  have "checked tp dk 0 {} (tp, dk)" using assms(3) by (simp add: checked_def same_cut_def marked_def)
  then show ?case by auto
next
  case (Suc k)
  then obtain I s where s: "rfold (check_piece pg) (tp, dk) (map of_nat [0..<k]) = Ok s" "checked tp dk k I s" by auto
  then show ?case using check_step [OF assms(1,2), of dk k I "fst s" "snd s" pg] Suc.prems by (simp add: rfold_append)
qed

lemma hash_run:
  assumes "well_cut tp" "fresh_pieces tp" "length dk = length (files tp)"
  shows "\<exists>I tp' dk'. hash_check pg (tp, dk) = Ok (tp', dk') \<and> checked tp dk (unat (num_pieces tp)) I (tp', dk')"
  using check_run [OF assms, of "unat (num_pieces tp)" pg] by (auto simp: hash_check_def piece_indexes_def)

lemma fresh_create:
  assumes "good_pieces tp = 0" "downloaded tp = 0"
  shows "fresh_pieces (torrent_pieces_create tp)"
proof -
  have "piece_create (torrent_pieces_create tp) = piece_create tp" by (rule same_cut_simps) (simp add: same_cut_def torrent_pieces_create_def)
  then show ?thesis using assms unfolding fresh_pieces_def by (simp add: torrent_pieces_create_def)
qed

lemma well_cut_create: "well_cut (torrent_pieces_create tp) = well_cut tp"
  by (rule same_cut_simps) (simp add: same_cut_def torrent_pieces_create_def)

lemma hash_check_result:
  fixes tp :: torrent
  assumes "well_cut tp" "good_pieces tp = 0" "downloaded tp = 0" "length dk = length (files tp)"
  defines "t \<equiv> torrent_pieces_create tp"
  shows "\<exists>tp' dk'. hash_check pg (t, dk) = Ok (tp', dk') \<and> num_pieces tp' = num_pieces tp \<and> stream tp' dk' = stream tp dk
    \<and> (\<forall>i. unat i < unat (num_pieces tp) \<longrightarrow> have_piece tp' i \<longrightarrow> piece_good tp dk i)
    \<and> (full_files tp dk \<and> \<not> isnew tp \<longrightarrow> dk' = dk \<and> (\<forall>i. unat i < unat (num_pieces tp) \<longrightarrow> (have_piece tp' i \<longleftrightarrow> piece_good tp dk i)))
    \<and> good_pieces tp' = of_nat (card {i. unat i < unat (num_pieces tp) \<and> have_piece tp' i})
    \<and> downloaded tp' = (\<Sum>i | unat i < unat (num_pieces tp) \<and> have_piece tp' i. uint (tpp_len (piece_create tp i)))"
proof -
  have sc: "same_cut tp t" by (simp add: t_def same_cut_def torrent_pieces_create_def)
  have fr: "fresh_pieces t" using fresh_create assms(2,3) by (simp add: t_def)
  have t: "num_pieces t = num_pieces tp" "isnew t = isnew tp" "good_pieces t = 0" "downloaded t = 0" "padded t = padded tp" "full_files t = full_files tp"
    "length dk = length (files t)" using assms(2-4) by (simp_all add: t_def torrent_pieces_create_def padded_def full_files_def fun_eq_iff)
  obtain I tp' dk' where r: "hash_check pg (t, dk) = Ok (tp', dk')" "checked t dk (unat (num_pieces tp)) I (tp', dk')"
    using hash_run [OF _ fr t(7), of pg] assms(1) well_cut_create [of tp] t(1) by (auto simp: t_def)
  have pg: "piece_good t dk = piece_good tp dk" using same_cut_simps [OF sc] sc t(5) by (simp add: piece_good_def fun_eq_iff same_cut_def stream_def)
  have np: "num_pieces tp' = num_pieces tp" using r(2) t(1) by (simp add: checked_def same_cut_def)
  have c: "padded tp' dk' = padded tp dk" "marked t I tp'" "I \<subseteq> {i. unat i < unat (num_pieces tp) \<and> piece_good tp dk i}"
    "full_files tp dk \<and> \<not> isnew tp \<longrightarrow> I = {i. unat i < unat (num_pieces tp) \<and> piece_good tp dk i} \<and> dk' = dk"
    using r(2) t pg by (auto simp: checked_def)
  have at: "piece_array t ! unat i = piece_create tp i" if "unat i < unat (num_pieces tp)" for i
    using fr that t(1) same_cut_simps(1) [OF sc] by (simp add: fresh_pieces_def)
  have hv: "have_piece tp' i \<longleftrightarrow> i \<in> I" if i: "unat i < unat (num_pieces tp)" for i
    using marked_have [OF c(2), of i] i t(1) at [OF i] by (simp add: have_piece_def)
  then have I: "I = {i. unat i < unat (num_pieces tp) \<and> have_piece tp' i}" using c(3) by auto
  have "downloaded tp' = (\<Sum>i \<in> I. uint (tpp_len (piece_array t ! unat i)))" "good_pieces tp' = of_nat (card I)" using c(2) t by (simp_all add: marked_def)
  moreover have "(\<Sum>i \<in> I. uint (tpp_len (piece_array t ! unat i))) = (\<Sum>i \<in> I. uint (tpp_len (piece_create tp i)))" using at c(3) by (intro sum.cong) auto
  ultimately show ?thesis using r(1) np c hv I by (auto simp: stream_def)
qed

section \<open>Properties\<close>

text \<open>
  (C25) The hash check at the start returns for every content of the disk, does not change the content, and marks only pieces
  whose bytes have the hash of the metainfo file; \<^verbatim>\<open>good_pieces\<close> and \<^verbatim>\<open>downloaded\<close> count exactly the marked pieces and their bytes. When no
  file of the torrent is too short, it marks all of them and leaves the files as they are.
\<close>

theorem hash_check_correct:
  fixes tp :: torrent
  assumes "well_cut tp" "good_pieces tp = 0" "downloaded tp = 0" "length dk = length (files tp)"
  defines "t \<equiv> torrent_pieces_create tp"
  shows "\<exists>tp' dk'. hash_check pg (t, dk) = Ok (tp', dk') \<and> stream tp' dk' = stream tp dk
    \<and> (\<forall>i. unat i < unat (num_pieces tp) \<longrightarrow> have_piece tp' i \<longrightarrow> piece_good tp dk i)
    \<and> (full_files tp dk \<and> \<not> isnew tp \<longrightarrow> dk' = dk \<and> (\<forall>i. unat i < unat (num_pieces tp) \<longrightarrow> (have_piece tp' i \<longleftrightarrow> piece_good tp dk i)))
    \<and> good_pieces tp' = of_nat (card {i. unat i < unat (num_pieces tp) \<and> have_piece tp' i})
    \<and> downloaded tp' = (\<Sum>i | unat i < unat (num_pieces tp) \<and> have_piece tp' i. uint (tpp_len (piece_create tp i)))"
  using hash_check_result [OF assms(1-4), of pg] unfolding t_def by blast

definition hashed_torrent :: torrent where
  "hashed_torrent = (example_torrent 0)\<lparr>pieces := sha1_spec [1, 2, 3, 4, 5, 6, 7, 8] @ replicate 20 0\<rparr>"

lemma hashed_torrent_cut: "well_cut hashed_torrent"
proof -
  have "length (sha1_spec [1, 2, 3, 4, 5, 6, 7, 8]) = 20" by (rule length_sha1_spec)
  then show ?thesis by (simp add: hashed_torrent_def well_cut_def example_torrent_def content_length_def files_fit_def)
qed

theorem hash_check_correct_witness:
  "\<exists>tp' dk'. hash_check 4096 (torrent_pieces_create hashed_torrent, [[1, 2, 3, 4, 5, 6, 7, 8, 9, 10, 11, 12]]) = Ok (tp', dk') \<and> have_piece tp' 0"
proof -
  let ?dk = "[[1, 2, 3, 4, 5, 6, 7, 8, 9, 10, 11, 12]] :: disk"
  have f: "full_files hashed_torrent ?dk" "\<not> isnew hashed_torrent" "length ?dk = length (files hashed_torrent)" "good_pieces hashed_torrent = 0" "downloaded hashed_torrent = 0"
    "unat (0 :: u32) < unat (num_pieces hashed_torrent)"
    by (simp_all add: hashed_torrent_def example_torrent_def full_files_def)
  have l: "length (sha1_spec [1, 2, 3, 4, 5, 6, 7, 8]) = 20" by (rule length_sha1_spec)
  have "tpp_len (piece_create hashed_torrent 0) = 8" by (simp add: piece_create_def hashed_torrent_def example_torrent_def)
  moreover have "mread (stream hashed_torrent ?dk) 0 8 = [1, 2, 3, 4, 5, 6, 7, 8]"
    by (simp add: stream_def padded_def pad_def hashed_torrent_def example_torrent_def mread_def)
  ultimately have "piece_good hashed_torrent ?dk 0" using l by (simp add: piece_good_def piece_start_def hashed_torrent_def mread_def)
  then show ?thesis using hash_check_correct [OF hashed_torrent_cut f(4,5,3), of 4096] f(1,2,6) by blast
qed

end
