(* ===== verification/Startup.thy ===== *)
theory Startup
  imports Hash_Check Tracker Metainfo Progress
begin

text \<open>
  The start of the program, \<^verbatim>\<open>main.c\<close>: the options of the command line, the metainfo file, the state of the content on the disk and
  the start of the torrent, with the lines the hash check displays. Arguments are byte lists without the terminating NUL. Signal
  handlers are left out.
\<close>

section \<open>The command line\<close>

record options =
  unworkable_trace :: "bytes option"
  gui_port :: "bytes option"
  user_port :: "bytes option"
  seed :: bool

definition no_options :: options where
  "no_options = \<lparr>unworkable_trace = None, gui_port = None, user_port = None, seed = False\<rparr>"

abbreviation usage :: fault where "usage \<equiv> Exit ''usage''"

definition set_option :: "byte \<Rightarrow> bytes \<Rightarrow> options \<Rightarrow> options" where
  "set_option c arg opts =
     (if c = of_char (CHR ''t'') then opts\<lparr>unworkable_trace := Some arg\<rparr>
      else if c = of_char (CHR ''g'') then opts\<lparr>gui_port := Some arg\<rparr>
      else opts\<lparr>user_port := Some arg\<rparr>)"

text \<open>
  The loop around \<^verbatim>\<open>getopt (argc, argv, "sg:t:p:")\<close>: \<open>cs\<close> are the letters left of the argument that is being read, \<open>args\<close> the
  arguments after it. Options end at the first argument without a dash, at a single dash, and after two dashes.
  This is the order of POSIX and of OpenBSD; that of GNU also takes options from behind other arguments.
\<close>

function getopt_loop :: "bytes \<Rightarrow> bytes list \<Rightarrow> options \<Rightarrow> (options \<times> bytes list) res" where
  "getopt_loop [] [] opts = Ok (opts, [])"
| "getopt_loop [] (a # args) opts =
     (if a = [] \<or> hd a \<noteq> 45 \<or> tl a = [] then Ok (opts, a # args)
      else if a = [45, 45] then Ok (opts, args)
      else getopt_loop (tl a) args opts)"
| "getopt_loop (c # cs) args opts =
     (if c = of_char (CHR ''s'') then getopt_loop cs args (opts\<lparr>seed := True\<rparr>)
      else if c = of_char (CHR ''t'') \<or> c = of_char (CHR ''g'') \<or> c = of_char (CHR ''p'')
      then if cs \<noteq> [] then getopt_loop [] args (set_option c cs opts)
           else case args of
               [] \<Rightarrow> Fault usage
             | arg # args \<Rightarrow> getopt_loop [] args (set_option c arg opts)
      else Fault usage)"
  by pat_completeness auto

termination
proof (relation "measure (\<lambda>(cs, args, opts). length cs + sum_list (map (\<lambda>a. Suc (length a)) args))", goal_cases)
  case (2 a args opts)
  then show ?case by (cases a) auto
qed auto

section \<open>The display of the hash check\<close>

definition MESSAGE :: bytes where "MESSAGE = str ''hash check''"
definition METER :: bytes where "METER = [124, 47, 45, 92]"

definition window_size :: "nat option \<Rightarrow> int" where
  "window_size cols = 1 + (case cols of
       None \<Rightarrow> DEFAULT_WINSIZE
     | Some c \<Rightarrow> if c \<noteq> 0 then if int c > MAX_WINSIZE then MAX_WINSIZE else int c else DEFAULT_WINSIZE)"

text \<open>The line after piece \<open>i\<close> of \<open>n\<close>, and what is written of it; \<open>n\<close> is not 0 inside the loop.\<close>

definition check_line :: "nat option \<Rightarrow> nat \<Rightarrow> nat \<Rightarrow> bytes \<Rightarrow> (bytes \<times> bytes) res" where
  "check_line cols i n blurb =
     rbind (snprintf_at blurb 0 (nat MAX_WINSIZE + 1)
        ([13] @ MESSAGE @ str '' ['' @ space_pad 3 (dec_int (float_percent i n)) @ str ''%] '' @ [METER ! (i mod 3)])) (\<lambda>blurb.
     if nat (window_size cols - 1) \<le> length blurb then Ok (mread blurb 0 (nat (window_size cols - 1)), blurb) else Fault (Undef ''blurb''))"

lemma dec_int_percent: "0 \<le> k \<Longrightarrow> k \<le> 100 \<Longrightarrow> length (space_pad 3 (dec_int k)) = 3"
  by (auto simp: space_pad_def dec_int_def dec_nat.simps [of "nat k"] dec_nat.simps [of "nat k div 10"] dec_nat.simps [of "nat k div 10 div 10"])

text \<open>The line stays inside its buffer and the text in it has 20 characters, whatever piece and window.\<close>

lemma check_line_run:
  assumes "i < n" "length blurb = 513"
  shows "\<exists>out blurb'. check_line cols i n blurb = Ok (out, blurb') \<and> length blurb' = 513 \<and> length out = nat (window_size cols - 1)
    \<and> take 21 blurb' = [13] @ MESSAGE @ str '' ['' @ space_pad 3 (dec_int (float_percent i n)) @ str ''%] '' @ [METER ! (i mod 3)] @ [0]"
proof -
  let ?out = "[13] @ MESSAGE @ str '' ['' @ space_pad 3 (dec_int (float_percent i n)) @ str ''%] '' @ [METER ! (i mod 3)]"
  have "length (space_pad 3 (dec_int (float_percent i n))) = 3" using float_percent_bounds [of i n] assms(1) dec_int_percent by simp
  then have l: "length ?out = 20" by (simp add: MESSAGE_def)
  have w: "window_size cols \<le> 513" "0 \<le> window_size cols - 1" by (auto simp: window_size_def MAX_WINSIZE_def DEFAULT_WINSIZE_def split: option.splits)
  have "snprintf_at blurb 0 (nat MAX_WINSIZE + 1) ?out = Ok (mwrite blurb 0 (?out @ [0]))"
    using l assms(2) by (simp add: snprintf_at_def MAX_WINSIZE_def)
  moreover have "length (mwrite blurb 0 (?out @ [0])) = 513" using l assms(2) by simp
  moreover have "take 21 (mwrite blurb 0 (out @ [0])) = out @ [0]" if "length out = 20" for out :: bytes using that by (simp add: mwrite_def)
  ultimately show ?thesis using w l unfolding check_line_def by (simp del: append.simps append_assoc add: mread_def nat_le_iff)
qed

section \<open>The content\<close>

datatype start_result = Complete | Announced int session

text \<open>From the parsed metainfo file on: \<open>resume\<close> is the contents of the fast-resume file, \<open>fds\<close> the limit of descriptors.\<close>

definition start_content :: "sysenv \<Rightarrow> u64 \<Rightarrow> options \<Rightarrow> bytes option \<Rightarrow> torrent \<Rightarrow> disk \<Rightarrow> start_result res" where
  "start_content e fds opts resume t dk =
     rbind (torrent_fastresume_load (torrent_pieces_create t) resume) (\<lambda>(r, t).
     rbind (if r = -1 then hash_check (e_page e) (t, dk) else Ok (t, dk)) (\<lambda>(t, dk).
     if \<not> seed opts \<and> good_pieces t = num_pieces t then Ok Complete
     else rmap (\<lambda>(r, sc). Announced r sc)
            (network_start_torrent (e\<lparr>e_seed := seed opts\<rparr>) (map_option cstr (user_port opts)) (gui_port opts \<noteq> None) fds t dk)))"

definition main_prog :: "sysenv \<Rightarrow> u64 \<Rightarrow> bytes list \<Rightarrow> file_io \<Rightarrow> file_io \<Rightarrow> bytes option \<Rightarrow> disk \<Rightarrow> start_result res option" where
  "main_prog e fds args io1 io2 resume dk = (case getopt_loop [] args no_options of
       Fault f \<Rightarrow> Some (Fault f)
     | Ok (opts, []) \<Rightarrow> Some (Fault usage)
     | Ok (opts, file # _) \<Rightarrow> map_option (\<lambda>r. rbind r (\<lambda>t. start_content e fds opts resume t dk)) (torrent_parse_file (cstr file) io1 io2))"

section \<open>Signals\<close>

text \<open>
  \<^verbatim>\<open>SIGTERM\<close> and \<^verbatim>\<open>SIGINT\<close>, which libevent delivers between two other events: the fast-resume file of \<^verbatim>\<open>mytorrent\<close>, which \<^verbatim>\<open>main\<close>
  sets when the metainfo file is read, is written, and the program ends. The result is what is written, if anything.
\<close>

definition terminate_handler :: "torrent option \<Rightarrow> bytes option res" where
  "terminate_handler mytorrent = (case mytorrent of None \<Rightarrow> Ok None | Some t \<Rightarrow> rmap Some (torrent_fastresume_dump t))"

section \<open>Properties\<close>

text \<open>The options as the user gives them.\<close>

datatype flag = Seed | Trace bytes | Gui bytes | Port bytes

fun flag_args :: "flag \<Rightarrow> bytes list" where
  "flag_args Seed = [str ''-s'']"
| "flag_args (Trace a) = [str ''-t'', a]"
| "flag_args (Gui a) = [str ''-g'', a]"
| "flag_args (Port a) = [str ''-p'', a]"

fun apply_flag :: "flag \<Rightarrow> options \<Rightarrow> options" where
  "apply_flag Seed opts = opts\<lparr>seed := True\<rparr>"
| "apply_flag (Trace a) opts = opts\<lparr>unworkable_trace := Some a\<rparr>"
| "apply_flag (Gui a) opts = opts\<lparr>gui_port := Some a\<rparr>"
| "apply_flag (Port a) opts = opts\<lparr>user_port := Some a\<rparr>"

text \<open>
  (C40) The options of the command line are read back, in any number and order, with any argument, and the rest starts at the name of the
  metainfo file; of an option given twice the last one counts.
\<close>

theorem options_roundtrip:
  assumes "file = [] \<or> hd file \<noteq> 45"
  shows "getopt_loop [] (concat (map flag_args flags) @ file # rest) opts = Ok (fold apply_flag flags opts, file # rest)"
proof (induction flags arbitrary: opts)
  case Nil
  then show ?case using assms by auto
next
  case (Cons f flags)
  then show ?case by (cases f) (simp_all add: set_option_def)
qed

theorem options_roundtrip_witness:
  "getopt_loop [] [str ''-p'', str ''6881'', str ''-s'', str ''x.torrent''] no_options
     = Ok (no_options\<lparr>seed := True, user_port := Some (str ''6881'')\<rparr>, [str ''x.torrent''])"
  using options_roundtrip [of "str ''x.torrent''" "[Port (str ''6881''), Seed]" "[]" no_options] by (simp add: no_options_def)

lemma card_all: "card {i :: u32. unat i < n \<and> P i} = n \<longleftrightarrow> (\<forall>i. unat i < n \<longrightarrow> P i)" if "n \<le> 2 ^ 32"
proof -
  have inj: "inj_on (unat :: u32 \<Rightarrow> nat) A" for A by (simp add: inj_on_def word_unat_eq_iff)
  have "unat ` {i :: u32. unat i < n} = {..<n}"
  proof (intro equalityI subsetI)
    fix k assume "k \<in> {..<n}"
    then have "unat (of_nat k :: u32) = k" using that by (simp add: unat_of_nat)
    then show "k \<in> unat ` {i :: u32. unat i < n}" using \<open>k \<in> {..<n}\<close> by (intro image_eqI [of _ _ "of_nat k"]) simp_all
  qed auto
  then have n: "card {i :: u32. unat i < n} = n" using card_image [OF inj, of "{i. unat i < n}"] by simp
  have "card {i :: u32. unat i < n \<and> P i} = card {i :: u32. unat i < n} \<longleftrightarrow> {i :: u32. unat i < n \<and> P i} = {i. unat i < n}"
    using card_subset_eq [of "{i :: u32. unat i < n}" "{i. unat i < n \<and> P i}"] by auto
  then show ?thesis unfolding n by blast
qed

lemma good_all:
  assumes "well_cut t" "good_pieces t = 0" "downloaded t = 0" "length dk = length (files t)" "full_files t dk" "\<not> isnew t"
  shows "\<exists>t'. hash_check pg (torrent_pieces_create t, dk) = Ok (t', dk) \<and> num_pieces t' = num_pieces t
    \<and> (good_pieces t' = num_pieces t \<longleftrightarrow> (\<forall>i. unat i < unat (num_pieces t) \<longrightarrow> piece_good t dk i))"
proof -
  obtain t' dk' where r: "hash_check pg (torrent_pieces_create t, dk) = Ok (t', dk')" "num_pieces t' = num_pieces t" "dk' = dk"
    "\<forall>i. unat i < unat (num_pieces t) \<longrightarrow> (have_piece t' i \<longleftrightarrow> piece_good t dk i)"
    "good_pieces t' = of_nat (card {i. unat i < unat (num_pieces t) \<and> have_piece t' i})"
    using hash_check_result [OF assms(1-4), of pg] assms(5,6) by blast
  let ?n = "unat (num_pieces t)" and ?c = "card {i. unat i < unat (num_pieces t) \<and> have_piece t' i}"
  have n: "?n < 2 ^ 32" using unsigned_less [of "num_pieces t", where 'a = nat] by simp
  have "?c \<le> ?n" using card_all [of ?n "\<lambda>i. True"] n card_mono [of "{i. unat i < ?n}" "{i. unat i < ?n \<and> have_piece t' i}"] by auto
  then have "good_pieces t' = num_pieces t \<longleftrightarrow> ?c = ?n" using n r(5) by (simp add: word_unat_eq_iff unat_of_nat)
  also have "\<dots> \<longleftrightarrow> (\<forall>i. unat i < ?n \<longrightarrow> have_piece t' i)" using card_all [of ?n "have_piece t'"] n by simp
  finally show ?thesis using r(1-4) by auto
qed

text \<open>
  (C24) Without a fast-resume file and without the option to seed, the program ends with the message that the download is complete exactly
  when every piece of the content on the disk has the hash of the metainfo file, if no file is too short.
\<close>

theorem complete_at_start:
  assumes "well_cut t" "good_pieces t = 0" "downloaded t = 0" "length dk = length (files t)" "full_files t dk" "\<not> isnew t"
    "resume_name t ''torrent_fastresume_load: snprintf truncation'' = Ok ()" "\<not> seed opts"
  shows "start_content e fds opts None t dk = Ok Complete \<longleftrightarrow> (\<forall>i. unat i < unat (num_pieces t) \<longrightarrow> piece_good t dk i)"
proof -
  have "resume_name (torrent_pieces_create t) = resume_name t" by (simp add: fun_eq_iff resume_name_def torrent_pieces_create_def)
  then have "torrent_fastresume_load (torrent_pieces_create t) None = Ok (-1, torrent_pieces_create t)" using assms(7) by (simp add: torrent_fastresume_load_def)
  moreover have "rmap (\<lambda>(r, sc). Announced r sc) r \<noteq> Ok Complete" for r by (cases r) auto
  ultimately show ?thesis using good_all [OF assms(1-6), of "e_page e"] assms(8) by (auto simp: start_content_def)
qed

definition whole_torrent :: torrent where
  "whole_torrent = (example_torrent 0)\<lparr>pieces := sha1_spec [1, 2, 3, 4, 5, 6, 7, 8] @ sha1_spec [9, 10, 11, 12]\<rparr>"

definition plain_env :: sysenv where
  "plain_env = \<lparr>e_now = 0, e_rnd = \<lambda>n. 0, e_page = 4096, e_seed = False, e_tracker = 3, e_connect = \<lambda>n. -1, e_gai = \<lambda>h p. None, e_listen = 4\<rparr>"

theorem complete_at_start_witness:
  "start_content plain_env 64 no_options None whole_torrent [[1, 2, 3, 4, 5, 6, 7, 8, 9, 10, 11, 12]] = Ok Complete"
proof -
  let ?t = whole_torrent and ?dk = "[[1, 2, 3, 4, 5, 6, 7, 8, 9, 10, 11, 12]] :: disk"
  have l: "length (sha1_spec [1, 2, 3, 4, 5, 6, 7, 8]) = 20" "length (sha1_spec [9, 10, 11, 12]) = 20" by (rule length_sha1_spec)+
  have f: "well_cut ?t" "good_pieces ?t = 0" "downloaded ?t = 0" "length ?dk = length (files ?t)" "full_files ?t ?dk" "\<not> isnew ?t"
    "resume_name ?t ''torrent_fastresume_load: snprintf truncation'' = Ok ()" "\<not> seed no_options"
    using l by (simp_all add: whole_torrent_def well_cut_def example_torrent_def content_length_def files_fit_def full_files_def
        resume_name_def cstr_def MAXPATHLEN_def no_options_def)
  have s: "stream ?t ?dk = [1, 2, 3, 4, 5, 6, 7, 8, 9, 10, 11, 12]" by (simp add: stream_def padded_def pad_def whole_torrent_def example_torrent_def)
  have "piece_good ?t ?dk i" if "unat i < unat (num_pieces ?t)" for i
  proof -
    have "unat i = 0 \<or> unat i = 1" using that by (auto simp: whole_torrent_def example_torrent_def)
    then have "i = 0 \<or> i = 1" by (simp add: word_unat_eq_iff)
    then show ?thesis using l unfolding piece_good_def s
      by (auto simp: piece_start_def piece_create_def whole_torrent_def example_torrent_def mread_def)
  qed
  then show ?thesis using complete_at_start [OF f(1-8)] by blast
qed

end
