(* ===== verification/Peer_List.thy ===== *)
theory Peer_List
  imports Sched_Inv Tracker
begin

text \<open>
  The peer list of \<^verbatim>\<open>network.c\<close> keeps the session in order: new peers from the tracker and from incoming connections, and
  the connections to them. A peer is allocated before it is listed: the invariant says which peers are in between.
\<close>

section \<open>The invariant with peers that are not listed\<close>

definition rx_all :: "session \<Rightarrow> bool" where
  "rx_all sc \<longleftrightarrow> (\<forall>q x. peer_at sc q = Some x \<longrightarrow> rx_buf x)"

definition alive :: "nat set \<Rightarrow> sysenv \<Rightarrow> session \<Rightarrow> bool" where
  "alive E e sc \<longleftrightarrow> session_ok E sc \<and> sched_ok sc \<and> files_ok (tp sc) \<and> rarity_ready (e_now e) sc \<and> rx_all sc"

lemma alive_iff: "alive {} e sc \<longleftrightarrow> healthy e sc \<and> rx_all sc"
  by (auto simp: alive_def healthy_def)

lemma aliveD: "alive E e sc \<Longrightarrow> peer_at sc p = Some x \<Longrightarrow> bits_ok (tp sc) x \<and> rx_buf x"
  by (auto simp: alive_def sched_ok_def rx_all_def)

lemma rx_buf_cong: "rx_of y = rx_of x \<Longrightarrow> rx_buf y = rx_buf x"
  by (simp add: rx_of_def rx_buf_def)

lemma rx_all_sub: "rx_all sc \<Longrightarrow> rx_sub sc sc' \<Longrightarrow> rx_all sc'"
  unfolding rx_all_def rx_sub_def using rx_buf_cong by blast

lemma alive_keep: "alive {} e sc \<Longrightarrow> keep e UNIV sc r \<Longrightarrow> r = Ok sc' \<Longrightarrow> alive {} e sc'"
  using rx_all_sub rx_same_sub by (auto simp: alive_iff)

text \<open>A session whose peers and bookkeeping are in order, with the torrent of another.\<close>

lemma aliveI:
  assumes "alive E0 e sc" "session_ok E sc'" "tp sc' = tp sc" "rarity_array sc' = rarity_array sc" "last_rarity sc' = last_rarity sc"
    and "\<And>q y. peer_at sc' q = Some y \<Longrightarrow> bits_ok (tp sc) y \<and> rx_buf y"
    and "\<And>d pd. dl_at sc' d = Some pd \<Longrightarrow> \<exists>pd0. dl_at sc d = Some pd0 \<and> pd_idx pd0 = pd_idx pd"
  shows "alive E e sc'"
  using assms unfolding alive_def sched_ok_def rx_all_def rarity_ready_def by (metis (no_types, lifting))

lemma alive_create:
  assumes "alive E e sc" "network_peer_create sc = (p, sc')"
  shows "alive (insert p E) e sc'" "peer_at sc' p = Some new_peer" "p \<notin> E"
proof -
  have s: "session_ok E sc" using assms(1) by (simp add: alive_def)
  have c: "p = fresh_peer sc" "session_ok (insert p E) sc'" "peer_at sc' = (peer_at sc)(p \<mapsto> new_peer)" "tp sc' = tp sc" "p \<notin> E"
    using peer_create_ok [OF s] unfolding assms(2) by auto
  have f: "rarity_array sc' = rarity_array sc" "last_rarity sc' = last_rarity sc" "dl_at sc' = dl_at sc"
    using assms(2) by (auto simp: network_peer_create_def set_peer_def)
  have "bits_ok (tp sc) y \<and> rx_buf y" if "peer_at sc' q = Some y" for q y
    using that aliveD [OF assms(1), of q y] by (cases "q = p") (auto simp: c(3) bits_ok_def rx_buf_def new_peer_def)
  then show "alive (insert p E) e sc'" using f by (intro aliveI [OF assms(1) c(2,4) f(1,2)]) auto
  show "peer_at sc' p = Some new_peer" "p \<notin> E" using c(3,5) by simp_all
qed

lemma alive_set_peer:
  assumes "alive E e sc" "peer_at sc p = Some x" "peer_piece_dls y = peer_piece_dls x" "bitfield y = bitfield x" "rx_of y = rx_of x"
  shows "alive E e (set_peer sc p y)"
proof (rule aliveI [OF assms(1)])
  show "session_ok E (set_peer sc p y)" using assms(1) set_peer_ok [OF _ assms(2,3)] by (simp add: alive_def)
  show "bits_ok (tp sc) z \<and> rx_buf z" if "peer_at (set_peer sc p y) q = Some z" for q z
    using that aliveD [OF assms(1,2)] aliveD [OF assms(1), of q z] bits_ok_cong [OF assms(4)] rx_buf_cong [OF assms(5)]
    by (cases "q = p") (auto simp: set_peer_def)
qed (auto simp: set_peer_def)

lemma alive_list:
  assumes "alive (insert p E) e sc" "p \<notin> E"
  shows "alive E e (sc\<lparr>peers := peers sc @ [p], num_peers := num_peers sc + 1\<rparr>)"
proof (rule aliveI [OF assms(1)])
  let ?sc = "sc\<lparr>peers := peers sc @ [p], num_peers := num_peers sc + 1\<rparr>"
  have "links_ok ?sc = links_ok sc" by (rule links_ok_cong) simp_all
  then show "session_ok E ?sc" using assms by (auto simp: alive_def session_ok_def)
qed (use aliveD [OF assms(1)] in auto)

lemma alive_free:
  assumes "alive (insert p E) e sc" "p \<notin> E"
  shows "\<exists>sc'. network_peer_free p sc = Ok sc' \<and> alive E e sc' \<and> peers sc' = peers sc"
proof -
  have s: "session_ok (insert p E) sc" "links_ok sc" using assms(1) by (auto simp: alive_def session_ok_def)
  obtain sc' where sc': "network_peer_free p sc = Ok sc'" "session_ok E sc'" "peers sc' = peers sc" "tp sc' = tp sc"
    "\<forall>q. q \<noteq> p \<longrightarrow> peer_at sc' q = peer_at sc q" using peer_free_session [OF s(1) assms(2)] by blast
  obtain x where x: "peer_at sc p = Some x" using s(1) by (auto simp: session_ok_def)
  obtain sc1 where "sc' = sc1\<lparr>peer_at := (peer_at sc1)(p := None)\<rparr>" "frame sc sc1" using peer_free_ok [OF s(2) x] sc'(1) by auto
  then have f: "peer_at sc' p = None" "rarity_array sc' = rarity_array sc" "last_rarity sc' = last_rarity sc" by (simp_all add: frame_fields)
  have "alive E e sc'"
  proof (rule aliveI [OF assms(1) sc'(2,4) f(2,3)])
    show "bits_ok (tp sc) y \<and> rx_buf y" if "peer_at sc' q = Some y" for q y
      using that sc'(5) f(1) aliveD [OF assms(1), of q y] by (cases "q = p") auto
    show "\<exists>pd0. dl_at sc d = Some pd0 \<and> pd_idx pd0 = pd_idx pd" if "dl_at sc' d = Some pd" for d pd
      using that peer_free_table [OF s(2) sc'(1), of d] by (auto simp: after_free_def bind_eq_Some_conv split: if_splits)
  qed
  then show ?thesis using sc'(1,3) by blast
qed

lemma alive_fields:
  assumes "alive {} e sc" "peer_at sc' = peer_at sc" "quiet sc sc'" "tp sc' = tp sc" "rarity_array sc' = rarity_array sc"
    "last_rarity sc' = last_rarity sc"
  shows "alive {} e sc'"
  using assms fields_good [of e sc sc'] by (simp add: alive_iff rx_all_def)

section \<open>Peers from the tracker\<close>

lemma add_address_alive:
  assumes "alive {} e sc" "add_address pid a prt sc = Ok sc'"
  shows "alive {} e sc'"
proof -
  obtain p s where c: "network_peer_create sc = (p, s)" by fastforce
  note a = alive_create [OF assms(1) c]
  let ?x = "new_peer\<lparr>peer_id := pid, sin_addr := a, sin_port := prt\<rparr>"
  have s: "alive {p} e (set_peer s p ?x)" using alive_set_peer [OF a(1,2), of ?x] by (simp add: rx_of_def)
  have run: "network_peerlist_add_peer p (set_peer s p ?x) = Ok sc'" using assms(2) a(2) by (simp add: add_address_def c get_peer_def)
  then consider "network_peer_free p (set_peer s p ?x) = Ok sc'"
    | "sc' = (set_peer s p ?x)\<lparr>peers := peers (set_peer s p ?x) @ [p], num_peers := num_peers (set_peer s p ?x) + 1\<rparr>"
    by (auto simp: network_peerlist_add_peer_def rbind_eq_Ok split: if_splits)
  then show ?thesis using alive_free [OF s] alive_list [OF s] by cases auto
qed

lemma rfold_alive:
  assumes "alive {} e sc" "rfold f sc xs = Ok sc'" "\<And>s x s'. alive {} e s \<Longrightarrow> f s x = Ok s' \<Longrightarrow> alive {} e s'"
  shows "alive {} e sc'"
  using assms(1,2)
proof (induction xs arbitrary: sc)
  case (Cons x xs)
  then show ?case using assms(3) by (auto simp: rbind_eq_Ok)
qed simp

lemma listed: "alive {} e sc \<Longrightarrow> peer_at sc p = Some x \<Longrightarrow> p \<in> set (peers sc)"
  using goodD(8) by (auto simp: alive_iff)

lemma handshake_alive:
  assumes "alive {} e sc" "network_peer_handshake t p sc = Ok sc'"
  shows "alive {} e sc'"
proof -
  obtain x where x: "peer_at sc p = Some x" using assms(2) by (cases "peer_at sc p") (simp_all add: network_peer_handshake_def get_peer_def)
  let ?s = "set_peer sc p (x\<lparr>connected := t\<rparr>)"
  have s: "alive {} e ?s" using alive_set_peer [OF assms(1) x, of "x\<lparr>connected := t\<rparr>"] by (simp add: rx_of_def)
  have l: "p \<in> set (peers ?s)" using listed [OF assms(1) x] by simp
  obtain m where "network_peer_write t p m ?s = Ok sc'"
    using assms(2) x by (auto simp: network_peer_handshake_def get_peer_def Let_def split: if_splits)
  then show ?thesis using alive_keep [OF s peer_write_keep [OF _ l]] s by (auto simp: alive_iff)
qed

lemma connect_turn_alive:
  assumes "alive {} e sc" "connect_turn e sc p = Ok sc'"
  shows "alive {} e sc'"
proof (cases "peer_at sc p")
  case None
  then show ?thesis using assms(2) by (simp add: connect_turn_def get_peer_def)
next
  case (Some x)
  let ?x = "x\<lparr>state := state x OR PEER_STATE_HANDSHAKE1, connfd := e_connect e p\<rparr>"
  have s: "alive {} e (set_peer sc p ?x)" using alive_set_peer [OF assms(1) Some, of ?x] by (simp add: rx_of_def)
  have h: "healthy e (set_peer sc p ?x)" "rx_all (set_peer sc p ?x)" using s by (simp_all add: alive_iff)
  define full where "full \<longleftrightarrow> ucast (num_peers sc) \<ge> maxfds sc - 5"
  define d where "d = rbind (tailq_remove p (peers (set_peer sc p ?x))) (\<lambda>ps.
            rbind (network_peer_free p ((set_peer sc p ?x)\<lparr>peers := ps\<rparr>)) (\<lambda>sc. Ok (sc\<lparr>num_peers := num_peers sc - 1\<rparr>)))"
  define h' where "h' = network_peer_handshake (e_now e) p (set_peer sc p ?x)"
  have run: "connect_turn e sc p = (if full
     then rbind (network_peer_free p sc) (\<lambda>sc. Fault (Undef ''TAILQ_REMOVE of a freed peer'')) else if connfd x \<noteq> 0 then Ok sc
     else if e_connect e p = -1 then d else h')"
    using Some by (simp add: full_def d_def h'_def connect_turn_def network_connect_peer_def get_peer_def Let_def)
  have n: "rbind m (\<lambda>sc. Fault f) = Ok sc' \<longleftrightarrow> False" for m :: "session res" and f by (cases m) simp_all
  have "sc' = sc \<or> d = Ok sc' \<or> h' = Ok sc'"
    using assms(2) n unfolding run by (cases full; cases "connfd x = 0"; cases "e_connect e p = -1") simp_all
  then consider "sc' = sc" | "d = Ok sc'" | "h' = Ok sc'" by blast
  then show ?thesis
  proof cases
    case 2
    obtain s1 where "tailq_remove p (peers (set_peer sc p ?x)) = Ok (remove1 p (peers (set_peer sc p ?x)))"
      "network_peer_free p ((set_peer sc p ?x)\<lparr>peers := remove1 p (peers (set_peer sc p ?x))\<rparr>) = Ok s1"
      "healthy e (s1\<lparr>num_peers := num_peers s1 - 1\<rparr>)" "rx_sub (set_peer sc p ?x) (s1\<lparr>num_peers := num_peers s1 - 1\<rparr>)"
      using unlist_run [OF h(1), of p ?x] by auto
    then show ?thesis using 2 rx_all_sub [OF h(2)] by (simp add: alive_iff d_def)
  qed (use assms(1) handshake_alive [OF s] in \<open>auto simp: h'_def\<close>)
qed

lemma peerlist_connect_alive: "alive {} e sc \<Longrightarrow> network_peerlist_connect e sc = Ok sc' \<Longrightarrow> alive {} e sc'"
  using rfold_alive [of e sc "connect_turn e" "peers sc" sc'] connect_turn_alive [of e] unfolding network_peerlist_connect_def by blast

lemma dict_peer_add: "dict_peer e sc d = Ok sc' \<Longrightarrow> \<exists>pid a prt. add_address pid a prt sc = Ok sc'"
  by (auto simp: dict_peer_def Let_def elim!: rbind_OkE split: if_split_asm option.split_asm prod.splits) blast

lemma dict_peer_alive: "alive {} e sc \<Longrightarrow> dict_peer e sc d = Ok sc' \<Longrightarrow> alive {} e sc'"
  using dict_peer_add add_address_alive by metis

lemma peerlist_update_alive:
  assumes "alive {} e sc" "network_peerlist_update e n sc = Ok sc'"
  shows "alive {} e sc'"
proof -
  obtain s where s: "(if nflags n AND BSTRING \<noteq> 0 then rbind (body_string (nbody n)) (\<lambda>v. network_peerlist_update_string e v sc)
      else network_peerlist_update_dict e n sc) = Ok s" "ctl_server_notify_peers s = Ok sc'"
    using assms(2) by (auto simp: network_peerlist_update_def rbind_eq_Ok)
  have a: "alive {} e s"
  proof (cases "nflags n AND BSTRING = 0")
    case True
    then obtain s1 where s1: "rfold (dict_peer e) sc (nchildren n) = Ok s1" "network_peerlist_connect e s1 = Ok s"
      using s(1) unfolding network_peerlist_update_dict_def by (auto simp: rbind_eq_Ok split: if_splits)
    then show ?thesis using rfold_alive [OF assms(1) s1(1)] dict_peer_alive peerlist_connect_alive by blast
  next
    case False
    then obtain l len where "network_peerlist_update_string e (l, len) sc = Ok s" using s(1) by (auto simp: rbind_eq_Ok)
    then obtain s1 where s1: "rfold (\<lambda>sc i. if i + 6 > length l then Fault (Undef ''peerlist'')
         else add_address (replicate 20 0) (mread l i 4) (mread l (i + 4) 2) sc) sc (filter (\<lambda>i. i mod 6 = 0) [0..<len]) = Ok s1"
      "network_peerlist_connect e s1 = Ok s" unfolding network_peerlist_update_string_def prod.case rbind_eq_Ok by blast
    have "alive {} e s1" by (rule rfold_alive [OF assms(1) s1(1)]) (auto split: if_splits dest: add_address_alive [rotated])
    then show ?thesis using peerlist_connect_alive s1(2) by blast
  qed
  then show ?thesis using alive_keep [OF a broadcast_keep] s(2) by (auto simp: ctl_server_notify_peers_def alive_iff)
qed

text \<open>An incoming connection.\<close>

lemma peer_connect_alive:
  assumes "alive {} e sc" "network_handle_peer_connect e err fd a prt sc = Ok sc'"
  shows "alive {} e sc'"
proof -
  obtain p s where c: "network_peer_create sc = (p, s)" by fastforce
  note a = alive_create [OF assms(1) c]
  let ?y = "new_peer\<lparr>connfd := fd\<rparr>"
  let ?x = "?y\<lparr>sin_addr := a, sin_port := prt, state := state new_peer OR PEER_STATE_HANDSHAKE1\<rparr>"
  have s: "alive {p} e (set_peer s p ?x)" "alive {p} e (set_peer s p ?y)"
    using alive_set_peer [OF a(1,2), of ?x] alive_set_peer [OF a(1,2), of ?y] by (simp_all add: rx_of_def)
  consider "network_peer_free p (set_peer s p ?y) = Ok sc'"
    | "network_peer_handshake (e_now e) p ((set_peer s p ?x)\<lparr>peers := peers (set_peer s p ?x) @ [p], num_peers := num_peers (set_peer s p ?x) + 1\<rparr>) = Ok sc'"
    using assms(2) a(2) by (auto simp: network_handle_peer_connect_def c get_peer_def Let_def split: if_splits)
  then show ?thesis
  proof cases
    case 1
    then show ?thesis using alive_free [OF s(2)] by auto
  next
    case 2
    then show ?thesis using handshake_alive [OF alive_list [OF s(1)]] by simp
  qed
qed

end
