(* ===== verification/Event_Loop.thy ===== *)
theory Event_Loop
  imports Startup Peer_List
begin

text \<open>
  The whole program: from the start, \<^verbatim>\<open>event_dispatch\<close> calls the handlers that the program registered, one after the other, in any order
  and with any input. The theorem of this theory joins the parts: the metainfo file, the storage, the session, the messages,
  the scheduler and the tracker.
\<close>

section \<open>Events\<close>

datatype event =
    Peer_Input nat bytes | Peer_Error nat "ev_error list" | Peer_Keepalive nat | Peer_Connect "ev_error list" int bytes bytes
  | Every_Second | Tracker_Input bytes | Tracker_Error "ev_error list" bytes | Announce_Timer
  | Gui_Connect "ev_error list" int | Gui_Error nat

text \<open>The handler of each event. The result is \<open>None\<close> only where that of the parser is, which \<open>Parse_Safe\<close> excludes.\<close>

definition handle :: "sysenv \<Rightarrow> event \<Rightarrow> session \<Rightarrow> session res option" where
  "handle e ev sc = (case ev of
       Peer_Input p input \<Rightarrow> Some (network_handle_peer_response e p input sc)
     | Peer_Error p err \<Rightarrow> Some (network_handle_peer_error err p sc)
     | Peer_Keepalive p \<Rightarrow> Some (network_peer_keepalive e p sc)
     | Peer_Connect err fd a prt \<Rightarrow> Some (network_handle_peer_connect e err fd a prt sc)
     | Every_Second \<Rightarrow> Some (scheduler e sc)
     | Tracker_Input input \<Rightarrow> Some (case http_res sc of
           None \<Rightarrow> Fault (Undef ''res'')
         | Some res \<Rightarrow> Ok (sc\<lparr>http_res := Some (snd (handle_announce_response input res))\<rparr>))
     | Tracker_Error err input \<Rightarrow> handle_announce_error e err input sc
     | Announce_Timer \<Rightarrow> Some (announce_update e sc)
     | Gui_Connect err fd \<Rightarrow> Some (ctl_server_handle_connect err fd sc)
     | Gui_Error csc \<Rightarrow> Some (ctl_server_handle_conn_error csc sc))"

text \<open>What the program can reach from \<open>sc0\<close> at time \<open>t0\<close>. The clock does not run backwards; all else the system answers may change.\<close>

inductive runs :: "int \<Rightarrow> session \<Rightarrow> int \<Rightarrow> session \<Rightarrow> bool" for t0 sc0 where
  start: "runs t0 sc0 t0 sc0"
| event: "runs t0 sc0 t sc \<Longrightarrow> t \<le> e_now e \<Longrightarrow> handle e ev sc = Some (Ok sc') \<Longrightarrow> runs t0 sc0 (e_now e) sc'"

section \<open>Every event keeps the invariant\<close>

lemma alive_later: "alive E e sc \<Longrightarrow> e_now e \<le> e_now e' \<Longrightarrow> alive E e' sc"
  by (auto simp: alive_def rarity_ready_def)

lemma response_alive:
  assumes "alive {} e sc" "network_handle_peer_response e p input sc = Ok sc'"
  shows "alive {} e sc'"
proof -
  obtain x where x: "peer_at sc p = Some x"
    using assms(2) by (subst (asm) network_handle_peer_response.simps) (cases "peer_at sc p"; simp add: rx_step_def get_peer_def)
  have "rx_mid e p sc" using assms(1) listed [OF assms(1) x] aliveD [OF assms(1) x] x by (auto simp: rx_mid_def alive_iff)
  then have r: "rx_ready e p sc'" "rx_others p sc sc'" using response_mid assms(2) by blast+
  have "rx_buf y" if "peer_at sc' q = Some y" for q y
  proof (cases "q = p")
    case False
    then have "map_option rx_of (peer_at sc' q) = map_option rx_of (peer_at sc q)" using r(2) by (simp add: rx_others_def)
    then have "map_option rx_of (peer_at sc q) = Some (rx_of y)" using that by simp
    then obtain z where z: "peer_at sc q = Some z" "rx_of y = rx_of z" by auto
    show ?thesis using aliveD [OF assms(1) z(1)] rx_buf_cong [OF z(2)] by blast
  qed (use r(1) that in \<open>auto simp: rx_ready_def rx_fine_def\<close>)
  then show ?thesis using r(1) by (auto simp: alive_iff rx_ready_def rx_all_def)
qed

lemma kill_alive:
  assumes "alive {} e sc" "kill_peer p sc = Ok sc'"
  shows "alive {} e sc'"
proof -
  obtain x where x: "peer_at sc p = Some x" using assms(2) by (cases "peer_at sc p") (simp_all add: kill_peer_def get_peer_def)
  have "keep e UNIV sc (kill_peer p sc)" using assms(1) by (intro kill_keep listed [OF assms(1) x]) (simp add: alive_iff)
  then show ?thesis using alive_keep [OF assms(1)] assms(2) by blast
qed

lemma keepalive_alive:
  assumes "alive {} e sc" "network_peer_keepalive e p sc = Ok sc'"
  shows "alive {} e sc'"
proof -
  obtain x where x: "peer_at sc p = Some x" using assms(2) by (cases "peer_at sc p") (simp_all add: network_peer_keepalive_def get_peer_def)
  have "keep e UNIV sc (network_peer_write_keepalive (e_now e) p sc)" using assms(1) by (intro writes_keep(6) listed [OF assms(1) x]) (simp add: alive_iff)
  then show ?thesis using assms(1,2) x alive_keep [OF assms(1)] by (auto simp: network_peer_keepalive_def get_peer_def split: if_splits)
qed

lemma scheduler_alive: "alive {} e sc \<Longrightarrow> scheduler e sc = Ok sc' \<Longrightarrow> alive {} e sc'"
  using scheduler_run rx_all_sub by (auto simp: alive_iff)

lemma announce_alive: "alive {} e sc \<Longrightarrow> rmap snd (announce t fd ev sc) = Ok sc' \<Longrightarrow> alive {} e sc'"
  using alive_keep [of e sc "rmap snd (announce t fd ev sc)" sc'] announce_keep [of e sc t fd ev] unfolding alive_iff by blast

lemma set_count_same:
  assumes "set_count troot k msg upd t = Ok t'" "\<And>w u. num_pieces (upd w u) = num_pieces u \<and> piece_array (upd w u) = piece_array u \<and> files (upd w u) = files u"
  shows "num_pieces t' = num_pieces t \<and> piece_array t' = piece_array t \<and> files t' = files t"
  using assms by (auto simp: set_count_def rbind_eq_Ok rmap_eq_Ok split: option.splits)

lemma alive_tp:
  assumes "alive {} e sc" "num_pieces t = num_pieces (tp sc) \<and> piece_array t = piece_array (tp sc) \<and> files t = files (tp sc)"
  shows "alive {} e (sc\<lparr>tp := t\<rparr>)"
proof -
  have h: "healthy e sc" "rx_all sc" using assms(1) by (simp_all add: alive_iff)
  have "torrent_ok t" "files_ok t" using goodD(4,5) [OF h(1)] assms(2) by (simp_all add: torrent_ok_def pieces_ok_def files_ok_def)
  then have "healthy e (sc\<lparr>tp := t, dsk := dsk sc\<rparr>)" using healthy_tp(1) [OF h(1)] assms(2) by blast
  then show ?thesis using h(2) by (simp add: alive_iff rx_all_def)
qed

lemma read_answer_alive:
  assumes "alive {} e sc" "Tracker.read_answer e troot sc = Ok sc'"
  shows "alive {} e sc'"
proof -
  define same where "same t \<longleftrightarrow> num_pieces t = num_pieces (tp sc) \<and> piece_array t = piece_array (tp sc) \<and> files t = files (tp sc)" for t :: torrent
  have step: "same t'" if "set_count troot k msg (\<lambda>w. upd w) t = Ok t'" "same t"
    "\<And>w u. num_pieces (upd w u) = num_pieces u \<and> piece_array (upd w u) = piece_array u \<and> files (upd w u) = files u" for k msg upd t t'
    using set_count_same [OF that(1,3)] that(2) by (simp add: same_def)
  show ?thesis
  proof (cases "find_key troot ''failure reason''")
    case (Ok r)
    show ?thesis
    proof (cases r)
      case None
      obtain t1 t2 t q where t: "set_count troot ''interval'' ''interval is not a number'' (\<lambda>w. interval_update (\<lambda>_. w))
         ((tp sc)\<lparr>interval := DEFAULT_ANNOUNCE_INTERVAL\<rparr>) = Ok t1"
        "set_count troot ''complete'' ''complete is not a number'' (\<lambda>w. complete_update (\<lambda>_. w)) t1 = Ok t2"
        "set_count troot ''incomplete'' ''incomplete is not a number'' (\<lambda>w. incomplete_update (\<lambda>_. w)) t2 = Ok t"
        "(case q of None \<Rightarrow> Ok (sc\<lparr>tp := t\<rparr>)
          | Some n \<Rightarrow> rmap (\<lambda>sc. if servfd sc = 0 then sc\<lparr>servfd := e_listen e\<rparr> else sc) (network_peerlist_update e n (sc\<lparr>tp := t\<rparr>))) = Ok sc'"
        using assms(2) Ok None unfolding Tracker.read_answer_def Let_def by (auto simp: rbind_eq_Ok)
      have "same t1" by (rule step [OF t(1)]) (simp_all add: same_def)
      then have "same t2" by (rule step [OF t(2)]) simp
      then have "same t" by (rule step [OF t(3)]) simp
      then have a: "alive {} e (sc\<lparr>tp := t\<rparr>)" using alive_tp [OF assms(1)] by (simp add: same_def)
      show ?thesis
      proof (cases q)
        case (Some n)
        then obtain s where s: "network_peerlist_update e n (sc\<lparr>tp := t\<rparr>) = Ok s" "sc' = (if servfd s = 0 then s\<lparr>servfd := e_listen e\<rparr> else s)"
          using t(4) by (auto simp: rmap_eq_Ok)
        have "alive {} e s" by (rule peerlist_update_alive [OF a s(1)])
        then show ?thesis using s(2) alive_fields [of e s sc'] by (simp add: quiet_def)
      qed (use t(4) a in simp)
    qed (use assms Ok in \<open>simp add: Tracker.read_answer_def\<close>)
  qed (use assms(2) in \<open>simp add: Tracker.read_answer_def\<close>)
qed

lemma tracker_alive:
  assumes "alive {} e sc" "handle_announce_error e err input sc = Some (Ok sc')"
  shows "alive {} e sc'"
proof -
  have f: "alive {} e (s\<lparr>http_res := h, announce_underway := u\<rparr>)" if "alive {} e s" for s h u
    by (rule alive_fields [OF that]) (simp_all add: quiet_def)
  consider "sc' = sc\<lparr>announce_underway := False\<rparr>" | h where "sc' = sc\<lparr>http_res := h, announce_underway := False\<rparr>"
    | troot s where "Tracker.read_answer e troot sc = Ok s" "sc' = s\<lparr>http_res := None, announce_underway := False\<rparr>"
    using assms(2) by (auto simp: handle_announce_error_def Let_def rmap_eq_Ok split: option.splits if_splits res.splits)
  then show ?thesis
  proof cases
    case 1
    then show ?thesis using f [OF assms(1), of False "http_res sc"] by simp
  qed (use f assms(1) read_answer_alive in blast)+
qed

lemma gui_alive:
  assumes "alive {} e sc"
  shows "ctl_server_handle_connect err fd sc = Ok sc' \<Longrightarrow> alive {} e sc'" "ctl_server_handle_conn_error csc sc = Ok sc' \<Longrightarrow> alive {} e sc'"
proof -
  have f: "alive {} e (sc\<lparr>ctl_server := c\<rparr>)" for c by (rule alive_fields [OF assms]) (simp_all add: quiet_def)
  show "ctl_server_handle_connect err fd sc = Ok sc' \<Longrightarrow> alive {} e sc'" "ctl_server_handle_conn_error csc sc = Ok sc' \<Longrightarrow> alive {} e sc'"
    using f by (auto simp: ctl_server_handle_connect_def ctl_server_handle_conn_error_def Let_def rmap_eq_Ok split: if_splits option.splits)
qed

lemma handle_alive:
  assumes "alive {} e sc" "handle e ev sc = Some (Ok sc')"
  shows "alive {} e sc'"
proof (cases ev)
  case (Tracker_Input input)
  have "alive {} e (sc\<lparr>http_res := h\<rparr>)" for h by (rule alive_fields [OF assms(1)]) (simp_all add: quiet_def)
  then show ?thesis using assms(2) Tracker_Input by (auto simp: handle_def split: option.splits)
next
  case Announce_Timer
  then show ?thesis using assms announce_alive [OF assms(1)] by (auto simp: handle_def announce_update_def split: if_splits)
next
  case (Peer_Error p err)
  then show ?thesis using assms kill_alive by (auto simp: handle_def network_handle_peer_error_def split: if_splits)
qed (use assms(2) response_alive [OF assms(1)] keepalive_alive [OF assms(1)] peer_connect_alive [OF assms(1)] scheduler_alive [OF assms(1)]
    tracker_alive [OF assms(1)] gui_alive [OF assms(1)] in \<open>simp_all add: handle_def\<close>)

lemma runs_alive: "runs t0 sc0 t sc \<Longrightarrow> (\<And>e. e_now e = t0 \<Longrightarrow> alive {} e sc0) \<Longrightarrow> e_now e = t \<Longrightarrow> alive {} e sc"
proof (induction arbitrary: e rule: runs.induct)
  case (event t sc e' ev sc')
  let ?e = "e'\<lparr>e_now := t\<rparr>"
  have "alive {} ?e sc" using event.IH event.prems(1) by simp
  then have "alive {} e' sc" using alive_later [of "{}" ?e sc e'] event.hyps(2) by simp
  then have "alive {} e' sc'" using handle_alive event.hyps(3) by blast
  then show ?case using alive_later [of "{}" e' sc' e] event.prems(2) by simp
qed simp

section \<open>The start\<close>

definition sound :: "u32 \<Rightarrow> torrent \<Rightarrow> bool" where
  "sound n t \<longleftrightarrow> torrent_ok t \<and> files_ok t \<and> num_pieces t = n"

lemma sound_update:
  assumes "sound n t" "unat i < unat n" "same_files t t'" "tpp_index tpp = i" "unat (tpp_len tpp) \<le> unat (tpp_len (piece_array t ! unat i))"
  shows "sound n (update_piece t' i tpp)"
proof -
  have "num_pieces (update_piece t' i tpp) = n" using assms(1,3) by (auto simp: sound_def same_files_def update_piece_def)
  then show ?thesis using assms torrent_ok_update [of t i t' tpp] files_ok_update [of t t'] by (simp add: sound_def)
qed

lemma sound_counts: "sound n (t\<lparr>good_pieces := g\<rparr>) = sound n t" "sound n (t\<lparr>left := d\<rparr>) = sound n t" "sound n (t\<lparr>downloaded := d\<rparr>) = sound n t"
  by (simp_all add: sound_def torrent_ok_def pieces_ok_def files_ok_def)

lemma sound_find: "sound n t \<Longrightarrow> unat i < unat n \<Longrightarrow> torrent_piece_find t i = Ok (piece_array t ! unat i) \<and> tpp_index (piece_array t ! unat i) = i"
  using torrent_ok_piece [of t i] by (simp add: sound_def)

lemma sound_create:
  assumes "well_cut t" "files_ok t" "unat (piece_length t) \<le> 2 ^ 32 - 16384"
  shows "sound (num_pieces t) (torrent_pieces_create t)"
proof -
  let ?t = "torrent_pieces_create t"
  have w: "uint (piece_length t) * (uint (num_pieces t) - 1) < content_length t" "content_length t \<le> uint (piece_length t) * uint (num_pieces t)"
    "20 * unat (num_pieces t) < 2 ^ 32" using assms(1) by (simp_all add: well_cut_def)
  have "tpp_index (piece_array ?t ! unat i) = i \<and> unat (tpp_len (piece_array ?t ! unat i)) \<le> 2 ^ 32 - 16384" if i: "unat i < unat (num_pieces t)" for i
  proof -
    have p: "piece_array ?t ! unat i = piece_create t i" using i by (simp add: torrent_pieces_create_def)
    have "uint (tpp_len (piece_create t i)) \<le> uint (piece_length t)" using create_length [OF i w(1,2)] by simp
    then have "unat (tpp_len (piece_create t i)) \<le> unat (piece_length t)" by (simp add: word_le_def flip: word_le_nat_alt)
    then show ?thesis using p assms(3) by simp
  qed
  then have "torrent_ok ?t" using w(3) unfolding torrent_ok_def pieces_ok_def by (simp add: torrent_pieces_create_def)
  then show ?thesis using assms(2) by (simp add: sound_def files_ok_def torrent_pieces_create_def)
qed

lemma load_sound:
  assumes "sound n t" "torrent_fastresume_load t resume = Ok (r, t')"
  shows "sound n t'"
proof -
  have p: "sound n u'" if "unat i < unat n" "sound n u" "load_piece bf u i = Ok u'" for bf i u u'
  proof -
    note f = sound_find [OF that(2,1)]
    have "sound n (update_piece u i ((piece_array u ! unat i)\<lparr>tpp_flags := w\<rparr>))" for w
      by (rule sound_update [OF that(2,1)]) (simp_all add: f)
    then show ?thesis using that(2,3) f by (auto simp: load_piece_def rbind_eq_Ok sound_counts split: if_splits)
  qed
  have n: "num_pieces t = n" using assms(1) by (simp add: sound_def)
  show ?thesis
  proof (cases resume)
    case (Some c)
    then obtain bf where "rfold (load_piece bf) t (piece_indexes t) = Ok t'"
      using assms(2) by (auto simp: torrent_fastresume_load_def rbind_eq_Ok rmap_eq_Ok Let_def)
    then show ?thesis using rfold_invariant [of "load_piece bf" t "piece_indexes t" t' "sound n"] assms(1) p n by (metis piece_indexes_in)
  qed (use assms in \<open>auto simp: torrent_fastresume_load_def rbind_eq_Ok\<close>)
qed

lemma sound_same: "sound n t \<Longrightarrow> same_files t t' \<Longrightarrow> sound n t' \<and> piece_array t' = piece_array t"
  using files_ok_same [of t t'] by (auto simp: sound_def torrent_ok_def pieces_ok_def same_files_def)

lemma check_piece_sound:
  assumes "sound n t" "unat i < unat n" "check_piece pg (t, dk) i = Ok (t', dk')"
  shows "sound n t'"
proof -
  note f = sound_find [OF assms(1,2)]
  let ?p = "piece_array t ! unat i"
  define turn where "turn = (\<lambda>p1 t1 dk1. if \<not> isnew t1
                 then rmap (\<lambda>(j, tpp). (tpp, if j = 0 then t1\<lparr>good_pieces := good_pieces t1 + 1, downloaded := downloaded t1 + uint (tpp_len tpp)\<rparr> else t1))
                        (torrent_piece_checkhash t1 p1 dk1)
                 else Ok (p1, t1))"
  have run: "rbind (torrent_piece_map pg ?p (t, dk)) (\<lambda>(p1, t1, dk1). rbind (turn p1 t1 dk1) (\<lambda>(p2, t2).
      let (p3, t3) = torrent_piece_unmap p2 t2 in Ok (update_piece t3 i p3, dk1))) = Ok (t', dk')"
    using assms(3) f by (simp add: check_piece_def turn_def)
  obtain p1 t1 dk1 where m: "torrent_piece_map pg ?p (t, dk) = Ok (p1, t1, dk1)"
    and run2: "rbind (turn p1 t1 dk1) (\<lambda>(p2, t2). let (p3, t3) = torrent_piece_unmap p2 t2 in Ok (update_piece t3 i p3, dk1)) = Ok (t', dk')"
    by (rule rbind_OkE [OF run]) auto
  obtain p2 t2 where c: "turn p1 t1 dk1 = Ok (p2, t2)" and u: "(let (p3, t3) = torrent_piece_unmap p2 t2 in Ok (update_piece t3 i p3, dk1)) = Ok (t', dk')"
    by (rule rbind_OkE [OF run2]) auto
  have m1: "same_files t t1" "tpp_index p1 = i" "unat (tpp_len p1) \<le> unat (tpp_len ?p)"
    using piece_map_same [OF m] assms(1) f by (simp_all add: map_inv_def sound_def)
  note s1 = sound_same [OF assms(1) m1(1)]
  have s2: "sound n t2" "piece_array t2 = piece_array t" "tpp_index p2 = i" "unat (tpp_len p2) \<le> unat (tpp_len ?p)"
    using c [unfolded turn_def] s1 m1(2,3) checkhash_same [of t1 p1 dk1] by (auto simp: rmap_eq_Ok sound_counts split: if_splits)
  obtain p3 t3 where s3: "torrent_piece_unmap p2 t2 = (p3, t3)" by fastforce
  then show ?thesis using sound_update [OF s2(1) assms(2), of t3 p3] Network_Msg.unmap_same [OF s3] s2 u by simp
qed

lemma hash_check_sound:
  assumes "sound n t" "hash_check pg (t, dk) = Ok (t', dk')"
  shows "sound n t'"
proof -
  have n: "num_pieces t = n" using assms(1) by (simp add: sound_def)
  have "sound n (fst (t', dk'))"
  proof (rule rfold_invariant [where P = "\<lambda>s. sound n (fst s)"])
    show "rfold (check_piece pg) (t, dk) (piece_indexes t) = Ok (t', dk')" using assms(2) by (simp add: hash_check_def)
    show "sound n (fst s')" if "i \<in> set (piece_indexes t)" "sound n (fst s)" "check_piece pg s i = Ok s'" for s i s'
      using check_piece_sound [of n "fst s" i pg "snd s" "fst s'" "snd s'"] that n by (simp add: piece_indexes_in)
  qed (use assms(1) in simp)
  then show ?thesis by simp
qed

lemma start_session_alive:
  assumes "sound n t" "RARITY_AGE < e_now e"
  shows "alive {} e (start_session e prt fds t dk)"
proof -
  let ?sc = "start_session e prt fds t dk"
  have "session_ok {} ?sc"
    by (auto simp: session_ok_def links_ok_def linked_def start_session_def dls_of_def ix.queue_def ix.no_empty_def)
  moreover have "sound n (tp ?sc)" using assms(1) by (simp add: start_session_def sound_counts)
  then have "torrent_ok (tp ?sc)" "files_ok (tp ?sc)" by (simp_all add: sound_def)
  ultimately show ?thesis using assms(2) by (simp add: alive_def sched_ok_def rx_all_def rarity_ready_def start_session_def)
qed

lemma start_alive:
  assumes "sound n t" "RARITY_AGE < e_now e" "network_start_torrent e prt gui fds t dk = Ok (r, sc)"
  shows "alive {} e sc"
proof -
  obtain prt' where run: "announce (e_now e) (e_tracker e) (Some (cstr (str ''started'')))
      (let sc = start_session e prt' fds t dk; start = downloaded (tp sc); sc = sc\<lparr>tp := (tp sc)\<lparr>downloaded := 0\<rparr>\<rparr>
       in if gui then ctl_server_start start sc else sc) = Ok (r, sc)"
    using assms(3) unfolding network_start_torrent_def Let_def by (auto simp: rbind_eq_Ok)
  let ?s = "start_session e prt' fds t dk"
  have a: "alive {} e (?s\<lparr>tp := (tp ?s)\<lparr>downloaded := 0\<rparr>\<rparr>)" by (rule alive_tp [OF start_session_alive [OF assms(1,2)]]) simp
  have "alive {} e (if gui then ctl_server_start c (?s\<lparr>tp := (tp ?s)\<lparr>downloaded := 0\<rparr>\<rparr>) else ?s\<lparr>tp := (tp ?s)\<lparr>downloaded := 0\<rparr>\<rparr>)" for c
    using a alive_fields [OF a, of "ctl_server_start c (?s\<lparr>tp := (tp ?s)\<lparr>downloaded := 0\<rparr>\<rparr>)"] by (simp add: ctl_server_start_def quiet_def)
  note al = announce_alive [OF this]
  show ?thesis using al [OF arg_cong [OF run [unfolded Let_def], of "rmap snd", unfolded rmap.simps snd_conv]] .
qed

lemma program_alive:
  assumes "start_content e fds opts resume t dk = Ok (Announced r sc)" "well_cut t" "files_ok t"
    "unat (piece_length t) \<le> 2 ^ 32 - 16384" "RARITY_AGE < e_now e"
  shows "alive {} e sc"
proof -
  let ?n = "num_pieces t"
  obtain r1 t1 t2 dk2 where l: "torrent_fastresume_load (torrent_pieces_create t) resume = Ok (r1, t1)"
    "(if r1 = -1 then hash_check (e_page e) (t1, dk) else Ok (t1, dk)) = Ok (t2, dk2)"
    "network_start_torrent (e\<lparr>e_seed := seed opts\<rparr>) (map_option cstr (user_port opts)) (gui_port opts \<noteq> None) fds t2 dk2 = Ok (r, sc)"
    using assms(1) unfolding start_content_def by (auto simp: rbind_eq_Ok rmap_eq_Ok split: if_splits)
  have "sound ?n t1" using load_sound [OF sound_create [OF assms(2-4)] l(1)] .
  then have "sound ?n t2" using l(2) hash_check_sound by (auto split: if_splits)
  then have "alive {} (e\<lparr>e_seed := seed opts\<rparr>) sc" using start_alive [OF _ _ l(3)] assms(5) by simp
  then show ?thesis using alive_later by fastforce
qed

section \<open>Properties\<close>

text \<open>
  (C3) The whole program: whatever the peers, the tracker and the front end send, in whatever order and however often, and whatever the
  system answers, every session that the program reaches from its start is in order. The allocated peers are exactly the
  listed ones, none is lost and none is used after it was freed; downloads, index and peers agree; piece indexes, bit fields and the
  rarity array fit the torrent; every receive buffer has room for the bytes that are pending. The metainfo file has to
  describe its files and pieces consistently.
\<close>

theorem program_invariant:
  assumes "start_content e fds opts resume t dk = Ok (Announced r sc0)" "well_cut t" "files_ok t"
    "unat (piece_length t) \<le> 2 ^ 32 - 16384" "RARITY_AGE < e_now e" "runs (e_now e) sc0 now sc"
  shows "session_ok {} sc \<and> sched_ok sc \<and> dom (peer_at sc) = set (peers sc) \<and> distinct (peers sc)
    \<and> (\<forall>p x. peer_at sc p = Some x \<longrightarrow> rx_buf x)"
proof -
  have "alive {} (e\<lparr>e_now := now\<rparr>) sc"
    using runs_alive [OF assms(6), of "e\<lparr>e_now := now\<rparr>"] program_alive [OF assms(1-5)] alive_later by fastforce
  then show ?thesis by (auto simp: alive_def session_ok_def rx_all_def)
qed

text \<open>A run: the program starts with an empty fast-resume file, a peer connects and sends the first part of its handshake.\<close>

fun run_events :: "sysenv \<Rightarrow> event list \<Rightarrow> session \<Rightarrow> session res option" where
  "run_events e [] sc = Some (Ok sc)"
| "run_events e (ev # evs) sc = (case handle e ev sc of Some (Ok sc) \<Rightarrow> run_events e evs sc | r \<Rightarrow> r)"

lemma run_events_runs: "run_events e evs sc = Some (Ok sc') \<Longrightarrow> runs t0 sc0 (e_now e) sc \<Longrightarrow> runs t0 sc0 (e_now e) sc'"
proof (induction evs arbitrary: sc)
  case (Cons ev evs)
  then obtain s where "handle e ev sc = Some (Ok s)" "run_events e evs s = Some (Ok sc')" by (auto split: option.splits res.splits)
  then show ?case using Cons.IH runs.event [OF Cons.prems(2)] by simp
qed simp

definition loop_torrent :: torrent where
  "loop_torrent = (example_torrent 0)\<lparr>announce_url := str ''http://t/a'' @ [0]\<rparr>"

definition loop_env :: sysenv where
  "loop_env = plain_env\<lparr>e_now := 1000\<rparr>"

definition loop_events :: "event list" where
  "loop_events = [Peer_Connect [] 5 [127, 0, 0, 1] [26, 225], Peer_Input 0 (19 # str ''BitTorrent protocol'')]"

lemma loop_run: "case start_content loop_env 64 no_options (Some [0]) loop_torrent [[]] of
    Ok (Announced r sc) \<Rightarrow> (case run_events loop_env loop_events sc of Some (Ok sc) \<Rightarrow> peers sc = [0] | _ \<Rightarrow> False) | _ \<Rightarrow> False"
  by code_simp

theorem program_invariant_witness:
  "\<exists>r sc0 sc. start_content loop_env 64 no_options (Some [0]) loop_torrent [[]] = Ok (Announced r sc0) \<and> runs 1000 sc0 1000 sc
    \<and> peers sc = [0] \<and> session_ok {} sc"
proof -
  obtain r sc0 sc where s: "start_content loop_env 64 no_options (Some [0]) loop_torrent [[]] = Ok (Announced r sc0)"
    "run_events loop_env loop_events sc0 = Some (Ok sc)" "peers sc = [0]"
    using loop_run by (auto split: res.split_asm start_result.split_asm option.split_asm) (metis res.exhaust)
  have t: "e_now loop_env = 1000" by (simp add: loop_env_def)
  have r: "runs (e_now loop_env) sc0 1000 sc" using run_events_runs [OF s(2) runs.start] t by simp
  have "well_cut loop_torrent" "files_ok loop_torrent" "unat (piece_length loop_torrent) \<le> 2 ^ 32 - 16384" "RARITY_AGE < e_now loop_env"
    by (simp_all add: well_cut_def loop_torrent_def example_torrent_def content_length_def files_fit_def files_ok_def RARITY_AGE_def t)
  from program_invariant [OF s(1) this r] show ?thesis using s r t by auto
qed

end
