(* ===== verification/Piece_Place.thy ===== *)
theory Piece_Place
  imports Hash_Check
begin

text \<open>
  Pieces do not touch each other: a mapped piece is at its ranges of the files, the ranges of two pieces have no byte in common, and
  whatever block is written to a piece, even one that does not fit, changes no byte of another piece.
\<close>

section \<open>Ranges of different pieces\<close>

lemma cover_pos:
  assumes "(g, a, k) \<in> set (cover f fls s n)" "0 \<le> s"
  shows "s \<le> sum_list (take (g - f) fls) + a \<and> sum_list (take (g - f) fls) + a + k \<le> s + n"
  using assms
proof (induction f fls s n rule: cover.induct)
  case (2 f fl fls s n)
  have shift: "sum_list (take (g - f) (fl # fls)) = fl + sum_list (take (g - (f + 1)) fls)" if "f + 1 \<le> g"
    using that by (simp add: take_Cons')
  have ge: "f + 1 \<le> g" if "(g, a, k) \<in> set (cover (f + 1) fls s' m)" "0 \<le> s'" for s' m using cover_in [OF that] by simp
  show ?case
  proof (cases "n \<le> 0")
    case n: False
    show ?thesis
    proof (cases "fl \<le> s")
      case True
      then have m: "(g, a, k) \<in> set (cover (f + 1) fls (s - fl) n)" "0 \<le> s - fl" using 2(3) n by auto
      show ?thesis using 2(1) [OF n True m] shift [OF ge [OF m]] by simp
    next
      case False
      let ?k = "min n (fl - s)"
      consider "(g, a, k) = (f, s, ?k)" | "(g, a, k) \<in> set (cover (f + 1) fls 0 (n - ?k))"
        using 2(3) n False by (auto simp: Let_def)
      then show ?thesis
      proof cases
        case 2
        then have "0 < n - ?k" by (cases "n - ?k \<le> 0") auto
        then have "?k = fl - s" by (auto simp: min_def split: if_splits)
        then show ?thesis using "2.IH"(2) [OF n False refl 2] shift [OF ge [OF 2]] False by simp
      qed simp
    qed
  qed (use 2(3) in simp)
qed simp

lemma cover_apart:
  assumes "(g, a, k) \<in> set (cover 0 fls s n)" "(g, a', k') \<in> set (cover 0 fls s' n')" "0 \<le> s" "0 \<le> s'" "s + n \<le> s' \<or> s' + n' \<le> s"
  shows "a + k \<le> a' \<or> a' + k' \<le> a"
  using cover_pos [OF assms(1,3)] cover_pos [OF assms(2,4)] assms(5) by linarith

section \<open>Any write stays inside the mappings\<close>

lemma keeps_refl: "keeps dk dk ms"
  by (simp add: keeps_def same_shape_def)

lemma keeps_more: "keeps dk dk' ms \<Longrightarrow> set ms \<subseteq> set ms' \<Longrightarrow> keeps dk dk' ms'"
  by (auto simp: keeps_def)

lemma store_keeps: "mm_ok dk m \<Longrightarrow> k + length bs \<le> unat (mm_len m) \<Longrightarrow> mm_store dk m k bs = Ok dk' \<Longrightarrow> keeps dk dk' [m]"
  using mm_store_view [of dk m k bs] by (metis res.inject(1))

lemma store_then:
  assumes "mm_ok dk m" "k + length bs \<le> unat (mm_len m)" "rbind (mm_store dk m k bs) run = Ok dk'" "\<forall>m \<in> set ms. mm_ok dk m"
    and "\<And>dk1. \<forall>m \<in> set ms. mm_ok dk1 m \<Longrightarrow> run dk1 = Ok dk' \<Longrightarrow> keeps dk1 dk' ms"
  shows "keeps dk dk' (m # ms)"
proof -
  obtain dk1 where d: "mm_store dk m k bs = Ok dk1" "run dk1 = Ok dk'" using assms(3) by (auto simp: rbind_eq_Ok)
  have k: "keeps dk dk1 [m]" by (rule store_keeps [OF assms(1,2) d(1)])
  then have "\<forall>m \<in> set ms. mm_ok dk1 m" using assms(4) same_shape_ok by (auto simp: keeps_def)
  then show ?thesis using keeps_trans [OF k] assms(5) d(2) by blast
qed

lemma src_length: "src_bytes d k n = Ok bs \<Longrightarrow> length bs = n"
  by (auto simp: src_bytes_def split: if_splits)

lemma write_loop_keeps:
  assumes "block_write_loop ms off len d cl cb bl dk = Ok dk'" "\<forall>m \<in> set ms. mm_ok dk m" "bl < len \<or> bl = len \<and> cb = cl \<and> cl \<le> off"
  shows "keeps dk dk' ms"
  using assms
proof (induction ms arbitrary: cl cb bl dk)
  case (Cons m ms)
  have m: "mm_ok dk m" "\<forall>m \<in> set ms. mm_ok dk m" using Cons.prems(2) by simp_all
  show ?case
  proof (cases "bl < len")
    case True
    show ?thesis
    proof (cases "mm_len m < bl")
      case small: True
      obtain bs where bs: "src_bytes d (unat (len - bl)) (unat (mm_len m)) = Ok bs"
        "rbind (mm_store dk m 0 bs) (\<lambda>dk. block_write_loop ms off len d cl cb (bl - mm_len m) dk) = Ok dk'"
        using Cons.prems(1) True small by (auto simp: Let_def elim!: rbind_OkE)
      have "bl - mm_len m < len" using True small by (metis order.strict_implies_order order_le_less_trans word_sub_le)
      then show ?thesis using Cons.IH src_length [OF bs(1)] by (intro store_then [OF m(1) _ bs(2) m(2)]) auto
    next
      case False
      then obtain bs where bs: "src_bytes d (unat (len - bl)) (unat bl) = Ok bs" "mm_store dk m 0 bs = Ok dk'"
        using Cons.prems(1) True by (auto simp: Let_def elim!: rbind_OkE)
      then show ?thesis using False src_length [OF bs(1)] by (intro keeps_more [OF store_keeps [OF m(1) _ bs(2)]]) (auto simp: word_less_nat_alt)
    qed
  next
    case False
    then have b: "bl = len" "cb = cl" "cl \<le> off" using Cons.prems(3) by auto
    show ?thesis
    proof (cases "cl + uint (mm_len m) < off")
      case True
      then have "block_write_loop ms off len d (cl + uint (mm_len m)) (cl + uint (mm_len m)) len dk = Ok dk'"
        using Cons.prems(1) b by (simp add: Let_def)
      then have "keeps dk dk' ms" using Cons.IH m(2) True by fastforce
      then show ?thesis by (rule keeps_more) auto
    next
      case hit: False
      let ?k = "nat (off - cl)" and ?t = "mm_len m - of_nat (nat (off - cl))"
      have kl: "?k \<le> unat (mm_len m)" using hit b(3) by (simp add: not_less nat_le_iff)
      then have "unat (of_nat ?k :: u32) = ?k" using unsigned_less [of "mm_len m", where 'a = nat] by (simp add: unat_of_nat)
      then have kt: "?k + unat ?t = unat (mm_len m)" using kl by (simp add: unat_sub word_le_nat_alt)
      show ?thesis
      proof (cases "?t < len")
        case True
        obtain bs where bs: "src_bytes d 0 (unat ?t) = Ok bs"
          "rbind (mm_store dk m ?k bs) (\<lambda>dk. block_write_loop ms off len d (cl + uint (mm_len m)) (max cl off) (len - ?t) dk) = Ok dk'"
          using Cons.prems(1) True b hit by (auto simp: Let_def elim!: rbind_OkE)
        have "len - ?t < len \<or> len - ?t = len \<and> max cl off = cl + uint (mm_len m) \<and> cl + uint (mm_len m) \<le> off"
        proof (cases "?t = 0")
          case True
          then have "?k = unat (mm_len m)" using kt by simp
          then have "off - cl = uint (mm_len m)" using b(3) by (metis int_nat_eq nat_uint_eq uint_ge_0 diff_ge_0_iff_ge)
          then show ?thesis using True b(3) by simp
        next
          case False
          have "unat (len - ?t) = unat len - unat ?t" using \<open>?t < len\<close> by (simp add: unat_sub less_imp_le)
          moreover have "0 < unat ?t" "unat ?t < unat len" using False \<open>?t < len\<close> by (simp_all add: word_less_nat_alt unat_gt_0)
          ultimately show ?thesis by (simp add: word_less_nat_alt)
        qed
        then show ?thesis using Cons.IH src_length [OF bs(1)] kt by (intro store_then [OF m(1) _ bs(2) m(2)]) auto
      next
        case False
        then obtain bs where bs: "src_bytes d 0 (unat len) = Ok bs" "mm_store dk m ?k bs = Ok dk'"
          using Cons.prems(1) b hit by (auto simp: Let_def elim!: rbind_OkE)
        have "unat len \<le> unat ?t" using False by (simp add: word_le_nat_alt not_less)
        then show ?thesis using src_length [OF bs(1)] kt by (intro keeps_more [OF store_keeps [OF m(1) _ bs(2)]]) auto
      qed
    qed
  qed
qed (simp add: keeps_refl)

lemma block_write_keeps:
  assumes "torrent_block_write tpp off len d dk = Ok dk'" "\<forall>m \<in> set (tpp_mmaps tpp). mm_ok dk m" "0 \<le> off"
  shows "keeps dk dk' (tpp_mmaps tpp)"
  using write_loop_keeps [of "tpp_mmaps tpp" off len d 0 0 len dk dk'] assms by (simp add: torrent_block_write_def)

section \<open>The content of a piece\<close>

definition piece_range :: "torrent \<Rightarrow> u32 \<Rightarrow> (nat \<times> int \<times> int) list" where
  "piece_range t i = cover 0 (map file_length (files t)) (piece_start t i) (uint (tpp_len (piece_create t i)))"

definition piece_content :: "torrent \<Rightarrow> disk \<Rightarrow> u32 \<Rightarrow> bytes" where
  "piece_content t dk i = mread (stream t dk) (nat (piece_start t i)) (unat (tpp_len (piece_create t i)))"

lemma good_content: "piece_good t dk i \<longleftrightarrow> sha1_spec (piece_content t dk i) = mread (pieces t) (20 * unat i) 20"
  by (simp add: piece_good_def piece_content_def)

definition placed :: "torrent \<Rightarrow> disk \<Rightarrow> u32 \<Rightarrow> torrent_piece \<Rightarrow> bool" where
  "placed t dk i tpp \<longleftrightarrow> place tpp = piece_range t i \<and> (\<forall>m \<in> set (tpp_mmaps tpp). mm_ok dk m)"

lemma start_nonneg [simp]: "0 \<le> piece_start t i"
  by (simp add: piece_start_def)

lemma padded_map: "length dk = length (files t) \<Longrightarrow> map length (padded t dk) = map nat (map file_length (files t))"
  by (rule nth_equalityI) (simp_all add: padded_def)

lemma file_lengths:
  fixes i :: u32
  assumes "well_cut t" "unat i < unat (num_pieces t)"
  shows "\<forall>fl \<in> set (map file_length (files t)). 0 \<le> fl" "piece_start t i + uint (tpp_len (piece_create t i)) \<le> sum_list (map file_length (files t))"
proof -
  have "0 < content_length t" using piece_inside [OF assms] start_nonneg [of t i] by linarith
  then show "\<forall>fl \<in> set (map file_length (files t)). 0 \<le> fl"
    using assms by (cases "ttype t"; cases "files t") (auto simp: well_cut_def files_fit_def content_length_def intro: less_imp_le)
  show "piece_start t i + uint (tpp_len (piece_create t i)) \<le> sum_list (map file_length (files t))"
    using piece_inside(2) [OF assms] good_files [OF assms] by simp
qed

lemma range_in:
  assumes "(f, s, k) \<in> set (piece_range t i)"
  shows "f < length (files t) \<and> 0 \<le> s \<and> 0 < k \<and> s + k \<le> file_length (files t ! f)"
  using cover_in [OF assms [unfolded piece_range_def] start_nonneg] by auto

lemma content_ranges:
  assumes "well_cut t" "unat i < unat (num_pieces t)" "length dk = length (files t)"
  shows "piece_content t dk i = concat (map (seg_bytes (padded t dk)) (piece_range t i))"
  using cover_bytes [OF padded_map [OF assms(3)] file_lengths(1) [OF assms(1,2)] start_nonneg _ file_lengths(2) [OF assms(1,2)], of 0]
  by (simp add: piece_content_def piece_range_def stream_def seg_bytes_def)

lemma length_content:
  assumes "well_cut t" "unat i < unat (num_pieces t)" "length dk = length (files t)"
  shows "length (piece_content t dk i) = unat (tpp_len (piece_create t i))"
proof -
  have "length (stream t dk) = sum_list (map nat (map file_length (files t)))"
    using arg_cong [OF padded_map [OF assms(3)], of sum_list] by (simp add: stream_def length_concat)
  moreover have "int (sum_list (map nat xs)) = sum_list xs" if "\<forall>x \<in> set xs. 0 \<le> x" for xs :: "int list" using that by (induction xs) auto
  ultimately have "int (length (stream t dk)) = sum_list (map file_length (files t))" using file_lengths(1) [OF assms(1,2)] by (simp del: map_map)
  then have "nat (piece_start t i) + unat (tpp_len (piece_create t i)) \<le> length (stream t dk)"
    using file_lengths(2) [OF assms(1,2)] start_nonneg [of t i] uint_nat [of "tpp_len (piece_create t i)"] by linarith
  then show ?thesis by (simp add: piece_content_def)
qed

lemma placed_view:
  assumes "placed t dk i tpp" "length dk = length (files t)" "m \<in> set (tpp_mmaps tpp)"
  shows "view dk m = seg_bytes (padded t dk) (mm_file m, mm_off m, uint (mm_len m))"
proof -
  have ok: "mm_ok dk m" using assms(1,3) by (simp add: placed_def)
  have "(mm_file m, mm_off m, uint (mm_len m)) \<in> set (place tpp)" using assms(3) by (simp add: place_def)
  then have r: "(mm_file m, mm_off m, uint (mm_len m)) \<in> set (piece_range t i)" using assms(1) by (simp add: placed_def)
  note r = range_in [OF r]
  have "int (nat (mm_off m) + unat (mm_len m)) \<le> file_length (files t ! mm_file m)" using r by simp
  then have "mread (pad (file_length (files t ! mm_file m)) (dk ! mm_file m)) (nat (mm_off m)) (unat (mm_len m)) = view dk m"
    using ok by (simp add: mread_pad mm_ok_def view_def)
  then show ?thesis using r assms(2) by (simp add: seg_bytes_def padded_def)
qed

lemma placed_content:
  assumes "well_cut t" "unat i < unat (num_pieces t)" "length dk = length (files t)" "placed t dk i tpp"
  shows "piece_bytes tpp dk = piece_content t dk i" "piece_ok tpp dk"
proof -
  have "map (view dk) (tpp_mmaps tpp) = map (seg_bytes (padded t dk)) (place tpp)"
    unfolding place_def map_map by (rule map_cong [OF refl]) (simp add: placed_view [OF assms(4,3)])
  then show bytes: "piece_bytes tpp dk = piece_content t dk i"
    using assms(4) content_ranges [OF assms(1-3)] by (simp add: piece_bytes_def pview_def placed_def)
  have "0 < unat (tpp_len (piece_create t i))" using piece_inside(1) [OF assms(1,2)] by (simp add: unat_gt_0 word_neq_0_conv word_less_def)
  then have "piece_bytes tpp dk \<noteq> []" using bytes length_content [OF assms(1-3)] by auto
  then have "tpp_mmaps tpp \<noteq> []" by (auto simp: piece_bytes_def)
  moreover have "sorted_wrt apart (tpp_mmaps tpp)"
    using cover_sorted [OF start_nonneg] assms(4) by (intro sorted_apart) (simp add: placed_def place_def piece_range_def)
  ultimately show "piece_ok tpp dk" using assms(4) by (simp add: piece_ok_def placed_def)
qed

section \<open>Writing a block leaves the other pieces alone\<close>

lemma range_apart:
  fixes i j :: u32
  assumes "well_cut t" "unat i < unat (num_pieces t)" "unat j < unat (num_pieces t)" "i \<noteq> j"
    and "(f, a, k) \<in> set (piece_range t i)" "(f, a', k') \<in> set (piece_range t j)"
  shows "a + k \<le> a' \<or> a' + k' \<le> a"
proof -
  have le: "piece_start t x + uint (tpp_len (piece_create t x)) \<le> piece_start t y" if "unat x < unat (num_pieces t)" "uint x < uint y" for x y
  proof -
    have "uint (tpp_len (piece_create t x)) \<le> uint (piece_length t)" using create_length [OF that(1)] assms(1) by (simp add: well_cut_def)
    moreover have "uint (piece_length t) * (uint x + 1) \<le> uint (piece_length t) * uint y" using that(2) by (intro mult_left_mono) simp_all
    ultimately show ?thesis by (simp add: piece_start_def algebra_simps)
  qed
  have "uint i < uint j \<or> uint j < uint i" using assms(4) by (metis linorder_neqE word_uint_eq_iff)
  then have "piece_start t i + uint (tpp_len (piece_create t i)) \<le> piece_start t j \<or> piece_start t j + uint (tpp_len (piece_create t j)) \<le> piece_start t i"
    using le assms(2,3) by blast
  then show ?thesis using cover_apart assms(5,6) unfolding piece_range_def by (metis start_nonneg)
qed

lemma keeps_lengths:
  assumes "keeps dk dk' ms"
  shows "length dk' = length dk" "f < length dk \<Longrightarrow> length (dk' ! f) = length (dk ! f)"
proof -
  have m: "map length dk' = map length dk" using assms by (simp add: keeps_def same_shape_def)
  then show l: "length dk' = length dk" using map_eq_imp_length_eq by blast
  show "f < length dk \<Longrightarrow> length (dk' ! f) = length (dk ! f)" using arg_cong [OF m, of "\<lambda>xs. xs ! f"] l by simp
qed

lemma keeps_byte:
  assumes "keeps dk dk' ms" "f < length dk" "j < length (dk ! f)" "\<forall>m \<in> set ms. mm_file m \<noteq> f \<or> int j < mm_off m \<or> mm_off m + uint (mm_len m) \<le> int j"
  shows "dk' ! f ! j = dk ! f ! j"
proof -
  let ?m = "\<lparr>mm_file = f, mm_off = int j, mm_aligned = 0, mm_maplen = 0, mm_len = 1\<rparr>"
  have "mm_ok dk ?m" using assms(2,3) by (simp add: mm_ok_def)
  moreover have "\<forall>m \<in> set ms. apart m ?m" using assms(4) by (auto simp: apart_def)
  ultimately have "view dk' ?m = view dk ?m" using assms(1) by (simp add: keeps_def)
  moreover have "length (dk' ! f) = length (dk ! f)" using keeps_lengths(2) [OF assms(1,2)] .
  ultimately show ?thesis using assms(2,3) by (simp add: view_def mread_def take_Suc_conv_app_nth drop_Suc hd_drop_conv_nth flip: take_hd_drop)
qed

lemma keeps_range:
  assumes "keeps dk dk' ms" "f < length dk" "0 \<le> s"
    and "\<forall>m \<in> set ms. mm_file m = f \<longrightarrow> mm_off m + uint (mm_len m) \<le> s \<or> s + k \<le> mm_off m"
  shows "mread (pad fl (dk' ! f)) (nat s) (nat k) = mread (pad fl (dk ! f)) (nat s) (nat k)"
proof -
  note l = keeps_lengths(2) [OF assms(1,2)]
  have b: "pad fl (dk' ! f) ! j = pad fl (dk ! f) ! j" if j: "nat s \<le> j" "j < nat s + nat k" "j < nat fl" for j
  proof (cases "j < length (dk ! f)")
    case True
    then have "dk' ! f ! j = dk ! f ! j" using j(1,2) assms(3,4) by (intro keeps_byte [OF assms(1,2)]) fastforce+
    then show ?thesis using True l j(3) by (simp add: pad_def nth_append)
  qed (use j(3) l in \<open>simp add: pad_def nth_append\<close>)
  show ?thesis
  proof (rule nth_equalityI)
    fix j
    assume "j < length (mread (pad fl (dk' ! f)) (nat s) (nat k))"
    then have j: "j < nat k" "nat s + j < nat fl" unfolding length_mread length_pad min_less_iff_conj by linarith+
    then show "mread (pad fl (dk' ! f)) (nat s) (nat k) ! j = mread (pad fl (dk ! f)) (nat s) (nat k) ! j"
      using b [of "nat s + j"] by (simp add: mread_def nth_drop)
  qed (simp add: length_mread)
qed

lemma write_other:
  assumes "well_cut t" "unat i < unat (num_pieces t)" "unat j < unat (num_pieces t)" "i \<noteq> j" "length dk = length (files t)"
    and "placed t dk j tpp" "torrent_block_write tpp off len d dk = Ok dk'" "0 \<le> off"
  shows "piece_content t dk' i = piece_content t dk i" "length dk' = length dk" "placed t dk' j tpp"
proof -
  have k: "keeps dk dk' (tpp_mmaps tpp)" using block_write_keeps [OF assms(7) _ assms(8)] assms(6) by (simp add: placed_def)
  show l: "length dk' = length dk" by (rule keeps_lengths(1) [OF k])
  show "placed t dk' j tpp" using assms(6) k same_shape_ok by (auto simp: placed_def keeps_def)
  have "seg_bytes (padded t dk') x = seg_bytes (padded t dk) x" if x: "x \<in> set (piece_range t i)" for x
  proof -
    obtain f s n where f: "x = (f, s, n)" by (cases x)
    note r = range_in [OF x [unfolded f]]
    have "mm_off m + uint (mm_len m) \<le> s \<or> s + n \<le> mm_off m" if m: "m \<in> set (tpp_mmaps tpp)" "mm_file m = f" for m
    proof -
      have "(f, mm_off m, uint (mm_len m)) \<in> set (place tpp)" using m by (auto simp: place_def)
      then have "(f, mm_off m, uint (mm_len m)) \<in> set (piece_range t j)" using assms(6) by (simp add: placed_def)
      then show ?thesis using range_apart [OF assms(1-4) x [unfolded f]] by auto
    qed
    then have "mread (pad (file_length (files t ! f)) (dk' ! f)) (nat s) (nat n) = mread (pad (file_length (files t ! f)) (dk ! f)) (nat s) (nat n)"
      using r assms(5) by (intro keeps_range [OF k]) auto
    then show ?thesis using r assms(5) l by (simp add: f seg_bytes_def padded_def)
  qed
  then have m: "map (seg_bytes (padded t dk')) (piece_range t i) = map (seg_bytes (padded t dk)) (piece_range t i)" by simp
  show "piece_content t dk' i = piece_content t dk i"
    using content_ranges [OF assms(1,2,5)] content_ranges [OF assms(1,2) l [unfolded assms(5)]] unfolding m by simp
qed

end
