(* ===== verification/Storage_Inv.thy ===== *)
theory Storage_Inv
  imports Piece_Place Startup Network_Msg
begin

text \<open>
  What the storage promises while the program runs: a piece that is marked has the right bytes on the disk, and \<^verbatim>\<open>good_pieces\<close> counts
  the marked pieces. Mapping a piece, writing a block to a piece that is not marked, and the end of a piece keep it.
\<close>

section \<open>Runs that end well\<close>

text \<open>\<open>post P r\<close>: the run \<open>r\<close> ends in a fault or its result has the property \<open>P\<close>.\<close>

definition post :: "('a \<Rightarrow> bool) \<Rightarrow> 'a res \<Rightarrow> bool" where
  "post P r \<longleftrightarrow> (case r of Ok x \<Rightarrow> P x | Fault f \<Rightarrow> True)"

lemma post_Ok [simp]: "post P (Ok x) \<longleftrightarrow> P x"
  and post_Fault [simp]: "post P (Fault f)"
  by (simp_all add: post_def)

lemma postI: "(\<And>x. r = Ok x \<Longrightarrow> P x) \<Longrightarrow> post P r"
  and postD: "post P r \<Longrightarrow> r = Ok x \<Longrightarrow> P x"
  by (simp_all add: post_def split: res.splits)

lemma post_bind: "post P m \<Longrightarrow> (\<And>x. m = Ok x \<Longrightarrow> P x \<Longrightarrow> post R (f x)) \<Longrightarrow> post R (rbind m f)"
  by (cases m) simp_all

lemma post_pure: "(\<And>x. m = Ok x \<Longrightarrow> post R (f x)) \<Longrightarrow> post R (rbind m f)"
  by (cases m) simp_all

lemma post_rmap: "post (\<lambda>x. P (f x)) m \<Longrightarrow> post P (rmap f m)"
  by (cases m) simp_all

lemma post_if: "(c \<Longrightarrow> post P a) \<Longrightarrow> (\<not> c \<Longrightarrow> post P b) \<Longrightarrow> post P (if c then a else b)"
  by simp

lemma post_option: "(r = None \<Longrightarrow> post P a) \<Longrightarrow> (\<And>x. r = Some x \<Longrightarrow> post P (f x)) \<Longrightarrow> post P (case r of None \<Rightarrow> a | Some x \<Rightarrow> f x)"
  by (cases r) simp_all

lemma post_list: "(r = [] \<Longrightarrow> post P a) \<Longrightarrow> (\<And>x xs. r = x # xs \<Longrightarrow> post P (f x xs)) \<Longrightarrow> post P (case r of [] \<Rightarrow> a | x # xs \<Rightarrow> f x xs)"
  by (cases r) simp_all

lemma post_rfold: "P s \<Longrightarrow> (\<And>s x. x \<in> set xs \<Longrightarrow> P s \<Longrightarrow> post P (f s x)) \<Longrightarrow> post P (rfold f s xs)"
  by (induction xs arbitrary: s) (auto intro: post_bind)

section \<open>The invariant\<close>

definition piece_there :: "torrent \<Rightarrow> disk \<Rightarrow> u32 \<Rightarrow> torrent_piece \<Rightarrow> bool" where
  "piece_there t dk i tpp \<longleftrightarrow> tpp_len tpp = tpp_len (piece_create t i)
     \<and> (if tpp_flags tpp AND TORRENT_PIECE_MAPPED = 0 then tpp_mmaps tpp = [] else placed t dk i tpp)"

definition stored :: "torrent \<Rightarrow> torrent \<times> disk \<Rightarrow> bool" where
  "stored t s \<longleftrightarrow> (case s of (u, dk) \<Rightarrow> same_cut t u \<and> length dk = length (files t) \<and> length (piece_array u) = unat (num_pieces t)
     \<and> (\<forall>i. unat i < unat (num_pieces t) \<longrightarrow> tpp_index (piece_array u ! unat i) = i \<and> (have_piece u i \<longrightarrow> piece_good t dk i))
     \<and> good_pieces u = of_nat (card {i. unat i < unat (num_pieces t) \<and> have_piece u i})
     \<and> (good_pieces u \<noteq> num_pieces t \<longrightarrow> (\<forall>i. unat i < unat (num_pieces t) \<longrightarrow> piece_there t dk i (piece_array u ! unat i))))"

lemma stored_fields [simp]:
  "stored t (u\<lparr>downloaded := d\<rparr>, dk) = stored t (u, dk)" "stored t (u\<lparr>left := d\<rparr>, dk) = stored t (u, dk)"
  "stored t (u\<lparr>interval := w\<rparr>, dk) = stored t (u, dk)" "stored t (u\<lparr>complete := w\<rparr>, dk) = stored t (u, dk)"
  "stored t (u\<lparr>incomplete := w\<rparr>, dk) = stored t (u, dk)"
  by (simp_all add: stored_def same_cut_def have_piece_def)

lemma stored_count:
  assumes "stored t (u, dk)"
  shows "good_pieces u = num_pieces t \<longleftrightarrow> (\<forall>i. unat i < unat (num_pieces t) \<longrightarrow> have_piece u i)"
    "unat (good_pieces u) = card {i. unat i < unat (num_pieces t) \<and> have_piece u i}"
proof -
  let ?n = "unat (num_pieces t)" and ?c = "card {i. unat i < unat (num_pieces t) \<and> have_piece u i}"
  have n: "?n < 2 ^ 32" using unsigned_less [of "num_pieces t", where 'a = nat] by simp
  have "?c \<le> ?n" using card_all [of ?n "\<lambda>i. True"] n card_mono [of "{i. unat i < ?n}" "{i. unat i < ?n \<and> have_piece u i}"] by auto
  then show c: "unat (good_pieces u) = ?c" using assms n by (simp add: stored_def unat_of_nat)
  have "good_pieces u = num_pieces t \<longleftrightarrow> ?c = ?n" unfolding word_unat_eq_iff c ..
  then show "good_pieces u = num_pieces t \<longleftrightarrow> (\<forall>i. unat i < ?n \<longrightarrow> have_piece u i)" using card_all [of ?n "have_piece u"] n by simp
qed

section \<open>Mapping a piece\<close>

text \<open>What the mapping does in any case; when all pieces are good the files are opened for reading only and nothing grows.\<close>

definition map_frame :: "map_state \<Rightarrow> map_state \<Rightarrow> bool" where
  "map_frame st st' \<longleftrightarrow> (case (st, st') of ((tpp, u, dk), (tpp', u', dk')) \<Rightarrow> tpp_flags tpp' = tpp_flags tpp \<and> good_pieces u' = good_pieces u
     \<and> num_pieces u' = num_pieces u \<and> (good_pieces u = num_pieces u \<longrightarrow> dk' = dk))"

lemma map_frame_refl: "map_frame st st"
  and map_frame_trans: "map_frame a b \<Longrightarrow> map_frame b c \<Longrightarrow> map_frame a c"
  by (auto simp: map_frame_def split: prod.splits)

lemma map_one_frame: "map_frame st0 st \<Longrightarrow> post (map_frame st0) (map_one pg st seg)"
proof (rule postI)
  fix st'
  assume f: "map_frame st0 st" and r: "map_one pg st seg = Ok st'"
  obtain tpp u dk g off n m u' dk' where s: "st = (tpp, u, dk)" "seg = (g, off, n)" "torrent_mmap_create pg g off n (u, dk) = Ok (m, u', dk')"
    "st' = (tpp\<lparr>tpp_mmaps := tpp_mmaps tpp @ [m], tpp_len := tpp_len tpp + mm_len m\<rparr>, u', dk')"
    using r by (cases st; cases seg) (auto simp: map_one_def elim!: rbind_OkE)
  have "good_pieces u' = good_pieces u \<and> num_pieces u' = num_pieces u \<and> (good_pieces u = num_pieces u \<longrightarrow> dk' = dk)"
    using s(3) by (auto simp: torrent_mmap_create_def Let_def split: if_splits)
  then show "map_frame st0 st'" using map_frame_trans [OF f, of st'] by (simp add: map_frame_def s(1,4))
qed

lemma map_loop_frame: "map_frame st0 st \<Longrightarrow> post (map_frame st0) (piece_map_loop pg f fls off len st)"
proof (induction fls arbitrary: f off len st rule: length_induct)
  case (1 fls)
  show ?case
  proof (cases fls)
    case (Cons fl rest)
    have IH: "length xs \<le> length rest \<Longrightarrow> map_frame st0 s \<Longrightarrow> post (map_frame st0) (piece_map_loop pg g xs o' l s)" for xs g o' l s
      using "1.IH" Cons by (cases s) simp
    show ?thesis unfolding Cons piece_map_loop.simps(2) Let_def
      by (intro post_if post_bind [of "map_frame st0"] post_list post_Fault IH map_one_frame "1.prems"; simp)
  qed (use "1.prems" in simp)
qed

lemma piece_map_frame:
  assumes "torrent_piece_map pg tpp (u, dk) = Ok (tpp', u', dk')"
  shows "tpp_flags tpp' = tpp_flags tpp OR TORRENT_PIECE_MAPPED" "good_pieces u' = good_pieces u" "good_pieces u = num_pieces u \<Longrightarrow> dk' = dk"
proof -
  have "\<exists>q. tpp' = q\<lparr>tpp_flags := tpp_flags q OR TORRENT_PIECE_MAPPED\<rparr> \<and> map_frame (tpp, u, dk) (q, u', dk')"
  proof (cases "ttype u")
    case MULTIFILE
    then obtain q where q: "piece_map_loop pg 0 (map file_length (files u)) (uint (piece_length u) * uint (tpp_index tpp)) (tpp_len tpp) (tpp\<lparr>tpp_len := 0\<rparr>, u, dk) = Ok (q, u', dk')"
      "tpp' = q\<lparr>tpp_flags := tpp_flags q OR TORRENT_PIECE_MAPPED\<rparr>"
      using assms by (auto simp: torrent_piece_map_def Let_def rmap_eq_Ok)
    show ?thesis using postD [OF map_loop_frame [OF map_frame_refl] q(1)] q(2) by (intro exI [of _ q]) (simp add: map_frame_def)
  next
    case SINGLEFILE
    then obtain m where m: "torrent_mmap_create pg 0 (uint (piece_length u) * uint (tpp_index tpp)) (tpp_len tpp) (u, dk) = Ok (m, u', dk')"
      "tpp' = tpp\<lparr>tpp_mmaps := tpp_mmaps tpp @ [m], tpp_flags := tpp_flags tpp OR TORRENT_PIECE_MAPPED\<rparr>"
      using assms by (auto simp: torrent_piece_map_def Let_def rmap_eq_Ok rbind_eq_Ok)
    have "map_frame (tpp, u, dk) (tpp\<lparr>tpp_mmaps := tpp_mmaps tpp @ [m], tpp_len := tpp_len tpp + mm_len m\<rparr>, u', dk')"
      by (rule postD [OF map_one_frame [OF map_frame_refl], of pg _ "(0, uint (piece_length u) * uint (tpp_index tpp), tpp_len tpp)"]) (simp add: map_one_def m(1))
    then show ?thesis using m(2) by (intro exI [of _ "tpp\<lparr>tpp_mmaps := tpp_mmaps tpp @ [m]\<rparr>"]) (simp add: map_frame_def)
  qed
  then show "tpp_flags tpp' = tpp_flags tpp OR TORRENT_PIECE_MAPPED" "good_pieces u' = good_pieces u" "good_pieces u = num_pieces u \<Longrightarrow> dk' = dk"
    by (auto simp: map_frame_def)
qed

lemma flag_bits:
  fixes w :: u32
  shows "(w OR TORRENT_PIECE_MAPPED) AND TORRENT_PIECE_CKSUMOK = w AND TORRENT_PIECE_CKSUMOK" "(w OR TORRENT_PIECE_MAPPED) AND TORRENT_PIECE_MAPPED \<noteq> 0"
    "(w AND NOT TORRENT_PIECE_MAPPED) AND TORRENT_PIECE_CKSUMOK = w AND TORRENT_PIECE_CKSUMOK" "(w AND NOT TORRENT_PIECE_MAPPED) AND TORRENT_PIECE_MAPPED = 0"
    "(w OR TORRENT_PIECE_CKSUMOK) AND TORRENT_PIECE_MAPPED = w AND TORRENT_PIECE_MAPPED"
proof -
  have m: "TORRENT_PIECE_MAPPED AND TORRENT_PIECE_CKSUMOK = 0" "NOT TORRENT_PIECE_MAPPED AND TORRENT_PIECE_CKSUMOK = TORRENT_PIECE_CKSUMOK"
    "TORRENT_PIECE_MAPPED AND TORRENT_PIECE_MAPPED \<noteq> 0" by (simp_all add: TORRENT_PIECE_MAPPED_def TORRENT_PIECE_CKSUMOK_def)
  show "(w OR TORRENT_PIECE_MAPPED) AND TORRENT_PIECE_CKSUMOK = w AND TORRENT_PIECE_CKSUMOK" by (simp add: and.commute bit.conj_disj_distrib m(1) [simplified and.commute])
  show "(w AND NOT TORRENT_PIECE_MAPPED) AND TORRENT_PIECE_CKSUMOK = w AND TORRENT_PIECE_CKSUMOK" by (simp add: and.assoc m(2))
  show "(w AND NOT TORRENT_PIECE_MAPPED) AND TORRENT_PIECE_MAPPED = 0" by (simp add: and.assoc)
  show "(w OR TORRENT_PIECE_CKSUMOK) AND TORRENT_PIECE_MAPPED = w AND TORRENT_PIECE_MAPPED" by (simp add: and.commute bit.conj_disj_distrib m(1) [unfolded and.commute [of TORRENT_PIECE_MAPPED]])
  show "(w OR TORRENT_PIECE_MAPPED) AND TORRENT_PIECE_MAPPED \<noteq> 0"
  proof
    assume "(w OR TORRENT_PIECE_MAPPED) AND TORRENT_PIECE_MAPPED = 0"
    then have "bit ((w OR TORRENT_PIECE_MAPPED) AND TORRENT_PIECE_MAPPED) 1 = bit (0 :: u32) 1" by simp
    then show False by (simp add: TORRENT_PIECE_MAPPED_def bit_simps)
  qed
qed

section \<open>One step\<close>

text \<open>A step that replaces the descriptor of piece \<open>i\<close>, which it may mark, and changes no byte of a marked piece.\<close>

lemma stored_step:
  assumes "stored t (u, dk)" "unat i < unat (num_pieces t)" "same_cut t u'" "piece_array u' = piece_array u" "tpp_index q = i"
    and "length dk' = length dk" "\<And>j. unat j < unat (num_pieces t) \<Longrightarrow> have_piece u j \<Longrightarrow> piece_content t dk' j = piece_content t dk j"
    and "tpp_flags q AND TORRENT_PIECE_CKSUMOK \<noteq> 0 \<longleftrightarrow> b \<or> have_piece u i" "b \<Longrightarrow> \<not> have_piece u i \<and> piece_good t dk' i"
    and "good_pieces u' = good_pieces u + (if b then 1 else 0)"
    and "good_pieces u \<noteq> num_pieces t \<Longrightarrow> piece_there t dk' i q"
    and "\<And>j. good_pieces u \<noteq> num_pieces t \<Longrightarrow> unat j < unat (num_pieces t) \<Longrightarrow> j \<noteq> i \<Longrightarrow> placed t dk j (piece_array u ! unat j) \<Longrightarrow> placed t dk' j (piece_array u ! unat j)"
  shows "stored t (update_piece u' i q, dk')" "\<And>j. unat j < unat (num_pieces t) \<Longrightarrow> have_piece u j \<Longrightarrow> have_piece (update_piece u' i q) j"
proof -
  let ?n = "unat (num_pieces t)" and ?u = "update_piece u' i q"
  note s = assms(1) [unfolded stored_def prod.case]
  have len: "length (piece_array u) = ?n" using s by blast
  have at: "piece_array ?u ! unat j = (if j = i then q else piece_array u ! unat j)" if "unat j < ?n" for j
    using that len assms(2,4) by (simp add: update_piece_def nth_list_update word_unat_eq_iff)
  have hv: "have_piece ?u j \<longleftrightarrow> b \<and> j = i \<or> have_piece u j" if "unat j < ?n" for j
    using at [OF that] assms(8) by (auto simp: have_piece_def)
  have good: "piece_good t dk' j" if "unat j < ?n" "have_piece u j" for j
    using that s assms(7) by (simp add: good_content)
  have set: "{j. unat j < ?n \<and> have_piece ?u j} = (if b then insert i {j. unat j < ?n \<and> have_piece u j} else {j. unat j < ?n \<and> have_piece u j})"
    using hv assms(2) by auto
  have "good_pieces ?u = of_nat (card {j. unat j < ?n \<and> have_piece ?u j})"
    unfolding set using assms(9,10) s by (auto simp: update_piece_def)
  moreover have "piece_there t dk' j (piece_array ?u ! unat j)" if "good_pieces ?u \<noteq> num_pieces t" "unat j < ?n" for j
  proof -
    have g: "good_pieces u \<noteq> num_pieces t" using that(1) assms(9,10) stored_count(1) [OF assms(1)] assms(2) by (cases b) (auto simp: update_piece_def)
    then have "piece_there t dk j (piece_array u ! unat j)" using s that(2) by blast
    then show ?thesis using assms(11) [OF g] assms(12) [OF g that(2)] at [OF that(2)] by (auto simp: piece_there_def)
  qed
  moreover have "tpp_index (piece_array ?u ! unat j) = j \<and> (have_piece ?u j \<longrightarrow> piece_good t dk' j)" if "unat j < ?n" for j
    using at [OF that] hv [OF that] good [OF that] assms(5,9) s that by auto
  moreover have "same_cut t ?u" using assms(3) by (simp add: same_cut_def update_piece_def)
  ultimately show "stored t (?u, dk')" using s assms(4,6) unfolding stored_def prod.case by (simp add: update_piece_def)
  show "have_piece ?u j" if "unat j < ?n" "have_piece u j" for j using hv [OF that(1)] that(2) by blast
qed

lemma same_cut_padded: "same_cut t u \<Longrightarrow> padded u dk = padded t dk"
  by (simp add: same_cut_def padded_def)

lemma padded_content: "padded t dk' = padded t dk \<Longrightarrow> piece_content t dk' i = piece_content t dk i"
  by (simp add: piece_content_def stream_def)

lemma stored_map:
  assumes "well_cut t" "stored t (u, dk)" "unat i < unat (num_pieces t)" "tpp_flags (piece_array u ! unat i) AND TORRENT_PIECE_MAPPED = 0"
    and "torrent_piece_map pg (piece_array u ! unat i) (u, dk) = Ok (q, u', dk')"
  shows "stored t (update_piece u' i q, dk')" "tpp_flags q = tpp_flags (piece_array u ! unat i) OR TORRENT_PIECE_MAPPED"
    "\<And>j. unat j < unat (num_pieces t) \<Longrightarrow> have_piece u j \<Longrightarrow> have_piece (update_piece u' i q) j"
proof -
  let ?p = "piece_array u ! unat i"
  note s = assms(2) [unfolded stored_def prod.case]
  note f = piece_map_frame [OF assms(5)]
  show "tpp_flags q = tpp_flags ?p OR TORRENT_PIECE_MAPPED" by (rule f)
  have c: "same_cut t u" "tpp_index ?p = i" "num_pieces u = num_pieces t" using s assms(3) by (auto simp: same_cut_def)
  have fl: "\<forall>fl \<in> set (map file_length (files u)). 0 \<le> fl" using file_lengths(1) [OF assms(1,3)] c(1) by (simp only: same_cut_def)
  have "num_pieces u \<noteq> 0" using assms(3) c(3) by auto
  then have fo: "files_ok u" using fl by (simp add: files_ok_def)
  have m: "same_files u u'" "tpp_index q = i" using piece_map_same [OF assms(5) fo] c(2) by (simp_all add: map_inv_def)
  have u': "same_cut t u'" "piece_array u' = piece_array u" using m(1) c(1) by (auto simp: same_files_def same_cut_def)
  have flag: "tpp_flags q AND TORRENT_PIECE_CKSUMOK \<noteq> 0 \<longleftrightarrow> have_piece u i" unfolding f(1) flag_bits(1) by (simp add: have_piece_def)
  have g: "length dk' = length dk \<and> padded t dk' = padded t dk \<and> (good_pieces u \<noteq> num_pieces t \<longrightarrow> piece_there t dk' i q \<and> (\<forall>m. mm_ok dk m \<longrightarrow> mm_ok dk' m))"
  proof (cases "good_pieces u = num_pieces t")
    case False
    then have th: "piece_there t dk i ?p" using s assms(3) by blast
    have lf: "length dk = length (files u)" using s map_eq_imp_length_eq [of file_length "files u" file_length "files t"] by (simp add: same_cut_def)
    have "can_map u dk" using False c(3) lf by (simp add: can_map_def)
    moreover have "well_cut u" "tpp_len ?p = tpp_len (piece_create u i)" "tpp_mmaps ?p = []"
      using same_cut_simps [OF c(1)] assms(1,4) th by (simp_all add: piece_there_def)
    ultimately obtain q1 u1 dk1 where r: "torrent_piece_map pg ?p (u, dk) = Ok (q1, u1, dk1)" "mapped_to (q1, u1, dk1) ?p (mread (stream u dk) (nat (piece_start u i)) (unat (tpp_len ?p)))"
      "grown (u, dk) (u1, dk1)" "place q1 = cover 0 (map file_length (files u)) (piece_start u i) (uint (tpp_len ?p))"
      using mapped_piece [of u dk i ?p pg] assms(3) c by auto
    then have e: "q1 = q" "u1 = u'" "dk1 = dk'" using assms(5) by simp_all
    have gr: "padded u' dk' = padded u dk" "\<forall>m. mm_ok dk m \<longrightarrow> mm_ok dk' m" "length dk' = length (files u')" using r(3) by (simp_all add: grown_def can_map_def e)
    have "length (files u') = length (files u)" using u'(1) c(1) map_eq_imp_length_eq [of file_length "files u'" file_length "files u"] by (simp add: same_cut_def)
    moreover have "padded t dk' = padded t dk" using gr(1) same_cut_padded [OF u'(1)] same_cut_padded [OF c(1)] by simp
    moreover have "placed t dk' i q"
      using r(2,4) th c(1) same_cut_simps [OF c(1)] by (simp add: placed_def piece_range_def mapped_to_def piece_ok_def piece_there_def same_cut_def e)
    then have "piece_there t dk' i q" using th r(2) flag_bits(2) by (simp add: piece_there_def f(1) mapped_to_def e)
    ultimately show ?thesis using gr lf by simp
  qed (use f(3) c(3) in simp)
  have "stored t (update_piece u' i q, dk') \<and> (\<forall>j. unat j < unat (num_pieces t) \<longrightarrow> have_piece u j \<longrightarrow> have_piece (update_piece u' i q) j)"
    by (intro conjI allI impI stored_step [OF assms(2,3) u' m(2), where b = False and dk' = dk'])
      (use g flag f(2) padded_content [of t dk' dk] in \<open>auto simp: placed_def\<close>)
  then show "stored t (update_piece u' i q, dk')" "\<And>j. unat j < unat (num_pieces t) \<Longrightarrow> have_piece u j \<Longrightarrow> have_piece (update_piece u' i q) j" by blast+
qed

lemma stored_write:
  assumes "well_cut t" "stored t (u, dk)" "unat i < unat (num_pieces t)" "\<not> have_piece u i" "tpp_flags (piece_array u ! unat i) AND TORRENT_PIECE_MAPPED \<noteq> 0"
    and "torrent_block_write (piece_array u ! unat i) off len d dk = Ok dk'" "0 \<le> off"
  shows "stored t (u, dk')"
proof -
  let ?p = "piece_array u ! unat i"
  note s = assms(2) [unfolded stored_def prod.case]
  have g: "good_pieces u \<noteq> num_pieces t" using stored_count(1) [OF assms(2)] assms(3,4) by blast
  then have th: "piece_there t dk i ?p" using s assms(3) by blast
  then have pl: "placed t dk i ?p" using assms(5) by (simp add: piece_there_def)
  have l: "length dk = length (files t)" using s by blast
  have o: "piece_content t dk' j = piece_content t dk j \<and> length dk' = length dk \<and> placed t dk' i ?p" if "unat j < unat (num_pieces t)" "j \<noteq> i" for j
    using write_other [OF assms(1) that(1) assms(3) that(2) l pl assms(6,7)] by blast
  have k: "keeps dk dk' (tpp_mmaps ?p)" using block_write_keeps [OF assms(6) _ assms(7)] pl by (simp add: placed_def)
  then have ok: "mm_ok dk' m = mm_ok dk m" for m using same_shape_ok by (auto simp: keeps_def)
  have "update_piece u i ?p = u" by (simp add: update_piece_def)
  moreover have "stored t (update_piece u i ?p, dk')"
    by (rule stored_step(1) [OF assms(2,3), where b = False])
      (use s assms(3,4) th o keeps_lengths(1) [OF k] ok in \<open>auto simp: have_piece_def piece_there_def placed_def\<close>)
  ultimately show ?thesis by simp
qed

lemma stored_finish:
  assumes "well_cut t" "stored t (u, dk)" "unat i < unat (num_pieces t)" "\<not> have_piece u i" "tpp_flags (piece_array u ! unat i) AND TORRENT_PIECE_MAPPED \<noteq> 0"
    and "torrent_piece_checkhash u (piece_array u ! unat i) dk = Ok (res, q1)" "torrent_piece_unmap q1 u = (q, u')"
  shows "stored t ((update_piece u' i q)\<lparr>good_pieces := good_pieces u + (if res = 0 then 1 else 0)\<rparr>, dk)" "good_pieces u' = good_pieces u"
    "\<And>j. unat j < unat (num_pieces t) \<Longrightarrow> have_piece u j \<Longrightarrow> have_piece (update_piece u' i q) j"
proof -
  let ?p = "piece_array u ! unat i"
  note s = assms(2) [unfolded stored_def prod.case]
  have g: "good_pieces u \<noteq> num_pieces t" using stored_count(1) [OF assms(2)] assms(3,4) by blast
  then have th: "piece_there t dk i ?p" using s assms(3) by blast
  have c: "same_cut t u" "tpp_index ?p = i" "length dk = length (files t)" "tpp_len ?p = tpp_len (piece_create t i)" "placed t dk i ?p"
    using s assms(3,5) th by (auto simp: piece_there_def)
  note pc = placed_content [OF assms(1,3) c(3,5)]
  have "\<exists>r. torrent_piece_checkhash u ?p dk = Ok (r, if r = 0 then ?p\<lparr>tpp_flags := tpp_flags ?p OR TORRENT_PIECE_CKSUMOK\<rparr> else ?p)
      \<and> (r = 0 \<longleftrightarrow> sha1_spec (piece_bytes ?p dk) = mread (pieces u) (20 * unat (tpp_index ?p)) 20)"
    using assms(1,3) c by (intro checkhash_run [OF pc(2) assms(5)]) (auto simp: pc(1) length_content [OF assms(1,3) c(3)] well_cut_def same_cut_def)
  then have r: "q1 = (if res = 0 then ?p\<lparr>tpp_flags := tpp_flags ?p OR TORRENT_PIECE_CKSUMOK\<rparr> else ?p)" "res = 0 \<Longrightarrow> piece_good t dk i"
    using assms(6) c(1,2) by (auto simp: pc(1) good_content same_cut_def)
  obtain F where F: "q = q1\<lparr>tpp_mmaps := [], tpp_flags := tpp_flags q1 AND NOT TORRENT_PIECE_MAPPED\<rparr>" "u' = u\<lparr>files := F\<rparr>" "map file_length F = map file_length (files u)"
    using unmap_lengths [of q1 u] assms(7) by (metis prod.inject)
  show "good_pieces u' = good_pieces u" using F(2) by simp
  let ?u = "u'\<lparr>good_pieces := good_pieces u + (if res = 0 then 1 else 0)\<rparr>"
  have fl: "tpp_flags q AND TORRENT_PIECE_CKSUMOK \<noteq> 0 \<longleftrightarrow> res = 0 \<or> have_piece u i" "tpp_flags q AND TORRENT_PIECE_MAPPED = 0"
    using assms(4) flag_set [of "tpp_flags ?p"] by (auto simp: F(1) r(1) flag_bits have_piece_def simp del: flag_set)
  have "same_cut t ?u" "piece_array ?u = piece_array u" "tpp_index q = i" "tpp_len q = tpp_len (piece_create t i)" "tpp_mmaps q = []"
    using c F r(1) by (auto simp: same_cut_def)
  then have "stored t (update_piece ?u i q, dk) \<and> (\<forall>j. unat j < unat (num_pieces t) \<longrightarrow> have_piece u j \<longrightarrow> have_piece (update_piece ?u i q) j)" using fl r(2) assms(4)
    by (intro conjI allI impI stored_step [OF assms(2,3), where b = "res = 0" and dk' = dk]) (auto simp: piece_there_def)
  then show "stored t ((update_piece u' i q)\<lparr>good_pieces := good_pieces u + (if res = 0 then 1 else 0)\<rparr>, dk)"
    "\<And>j. unat j < unat (num_pieces t) \<Longrightarrow> have_piece u j \<Longrightarrow> have_piece (update_piece u' i q) j"
    by (cases u', simp add: update_piece_def have_piece_def)+
qed

end
