(* ===== verification/Store_Frame.thy ===== *)
theory Store_Frame
  imports Scheduler Tracker
begin

text \<open>
  The parts of the program that leave the storage alone: peers, downloads, uploads, messages to send, the choice of blocks, the
  peer list, the announce and the control server change neither the torrent nor its files, nor the fast-resume file.
\<close>

type_synonym store = "torrent \<times> disk \<times> bytes option"

definition store :: "session \<Rightarrow> store" where
  "store sc = (tp sc, dsk sc, resume_file sc)"

lemma store_fields [simp]:
  "store (set_peer sc p x) = store sc" "store (set_dl sc d y) = store sc" "store (sc\<lparr>peers := ps\<rparr>) = store sc"
  "store (sc\<lparr>peer_at := pa\<rparr>) = store sc" "store (sc\<lparr>dl_at := da\<rparr>) = store sc" "store (sc\<lparr>piece_dl_by_idxoff := ns\<rparr>) = store sc"
  "store (sc\<lparr>fresh_peer := n\<rparr>) = store sc" "store (sc\<lparr>fresh_dl := n\<rparr>) = store sc" "store (sc\<lparr>servfd := fd\<rparr>) = store sc"
  "store (sc\<lparr>num_peers := w\<rparr>) = store sc" "store (sc\<lparr>http_res := h\<rparr>) = store sc" "store (sc\<lparr>announce_underway := b\<rparr>) = store sc"
  "store (sc\<lparr>last_announce := i\<rparr>) = store sc" "store (sc\<lparr>last_rarity := i\<rparr>) = store sc" "store (sc\<lparr>rarity_array := ra\<rparr>) = store sc"
  "store (sc\<lparr>ctl_server := cs\<rparr>) = store sc" "store (sc\<lparr>outbox := out\<rparr>) = store sc" "store (sc\<lparr>tracker_out := tr\<rparr>) = store sc"
  by (simp_all add: store_def set_peer_def set_dl_def)

lemma rfold_store: "rfold f sc xs = Ok sc' \<Longrightarrow> (\<And>s x s'. f s x = Ok s' \<Longrightarrow> store s' = store s) \<Longrightarrow> store sc' = store sc"
  by (rule rfold_invariant [where P = "\<lambda>s. store s = store sc"]) auto

lemmas res_Ok = rbind_eq_Ok rmap_eq_Ok

section \<open>Messages\<close>

lemma write_store: "network_peer_write t p msg sc = Ok sc' \<Longrightarrow> store sc' = store sc"
  by (auto simp: network_peer_write_def res_Ok)

lemma flag_store: "write_flag t p mid f sc = Ok sc' \<Longrightarrow> store sc' = store sc"
  by (auto simp: write_flag_def res_Ok dest!: write_store)

lemma messages_store:
  "network_peer_write_have t p idx sc = Ok sc' \<Longrightarrow> store sc' = store sc" "network_peer_request_block t p idx off len sc = Ok sc' \<Longrightarrow> store sc' = store sc"
  "network_peer_reject_block t p idx off len sc = Ok sc' \<Longrightarrow> store sc' = store sc" "network_peer_write_haveall t p sc = Ok sc' \<Longrightarrow> store sc' = store sc"
  "network_peer_write_havenone t p sc = Ok sc' \<Longrightarrow> store sc' = store sc" "network_peer_write_keepalive t p sc = Ok sc' \<Longrightarrow> store sc' = store sc"
  "network_peer_write_interested t p sc = Ok sc' \<Longrightarrow> store sc' = store sc" "network_peer_write_unchoke t p sc = Ok sc' \<Longrightarrow> store sc' = store sc"
  "network_peer_write_choke t p sc = Ok sc' \<Longrightarrow> store sc' = store sc" "network_peer_write_bitfield t p sc = Ok sc' \<Longrightarrow> store sc' = store sc"
  "network_peer_handshake t p sc = Ok sc' \<Longrightarrow> store sc' = store sc"
  using write_store flag_store
  by (auto simp: network_peer_write_have_def network_peer_request_block_def network_peer_reject_block_def network_peer_write_haveall_def
      network_peer_write_havenone_def network_peer_write_keepalive_def network_peer_write_interested_def network_peer_write_unchoke_def
      network_peer_write_choke_def network_peer_write_bitfield_def network_peer_handshake_def Let_def res_Ok split: if_splits dest!: write_store)

lemma state_store: "kill_peer p sc = Ok sc' \<Longrightarrow> store sc' = store sc" "change_state p f sc = Ok sc' \<Longrightarrow> store sc' = store sc"
  by (auto simp: kill_peer_def change_state_def res_Ok)

lemma broadcast_store: "broadcast m sc = Ok sc' \<Longrightarrow> store sc' = store sc"
  by (auto simp: broadcast_def res_Ok split: option.splits)

lemma notify_store:
  "ctl_server_notify_bytes n sc = Ok sc' \<Longrightarrow> store sc' = store sc" "ctl_server_notify_pieces sc = Ok sc' \<Longrightarrow> store sc' = store sc"
  "ctl_server_notify_peers sc = Ok sc' \<Longrightarrow> store sc' = store sc"
  using broadcast_store by (auto simp: ctl_server_notify_bytes_def ctl_server_notify_pieces_def ctl_server_notify_peers_def)

lemma announce_store: "announce t fd ev sc = Ok (r, sc') \<Longrightarrow> store sc' = store sc"
  by (auto simp: announce_def Let_def elim!: rbind_OkE split: if_split_asm option.split_asm prod.split_asm)

section \<open>Downloads, uploads and the choice of blocks\<close>

lemma dl_create_store: "network_piece_dl_create p idx off len sc = Ok (d, sc') \<Longrightarrow> store sc' = store sc"
  by (auto simp: network_piece_dl_create_def Let_def res_Ok)

lemma dl_free_store: "network_piece_dl_free d sc = Ok sc' \<Longrightarrow> store sc' = store sc"
  by (auto simp: network_piece_dl_free_def Let_def res_Ok split: option.splits)

lemma free_block_store: "free_block idx sc off = Ok sc' \<Longrightarrow> store sc' = store sc"
  by (auto simp: free_block_def res_Ok split: option.splits dest: dl_free_store)

lemma orphan_store: "orphan_dl p sc d = Ok sc' \<Longrightarrow> store sc' = store sc"
  by (auto simp: orphan_dl_def Let_def res_Ok split: if_splits dest!: dl_free_store)

lemma peer_free_store: "network_peer_free p sc = Ok sc' \<Longrightarrow> store sc' = store sc"
  by (auto simp: network_peer_free_def res_Ok dest!: rfold_store [OF _ orphan_store])

lemma ul_store: "network_piece_ul_enqueue p idx off len sc = Ok sc' \<Longrightarrow> store sc' = store sc" "network_piece_ul_dequeue p sc = Ok (r, sc') \<Longrightarrow> store sc' = store sc"
  by (auto simp: network_piece_ul_enqueue_def network_piece_ul_dequeue_def elim!: rbind_OkE split: list.split_asm)

lemma rarest_store: "scheduler_piece_find_rarest t p ignore sc = Ok (i, found, sc') \<Longrightarrow> store sc' = store sc"
  by (auto simp: scheduler_piece_find_rarest_def scheduler_piece_rarityarray_def elim!: rbind_OkE split: if_split_asm prod.split_asm)

lemma choose_store: "choose_piece t rnd p sc = Ok (r, sc') \<Longrightarrow> store sc' = store sc"
  by (auto simp: choose_piece_def elim!: rbind_OkE split: option.split_asm if_split_asm prod.split_asm dest!: rarest_store)

lemma gimme_store: "scheduler_piece_gimme t rnd p nocreate sc = Ok (r, hint, sc') \<Longrightarrow> store sc' = store sc"
  by (auto simp: scheduler_piece_gimme_def take_block_def rmap_eq_Ok elim!: rbind_OkE split: option.split_asm if_split_asm next_block.split_asm
      dest!: choose_store dl_create_store)

lemma ask_store: "ask_interest e p sc = Ok sc' \<Longrightarrow> store sc' = store sc"
  by (auto simp: ask_interest_def res_Ok split: if_splits dest!: gimme_store messages_store)

section \<open>Received messages, except blocks\<close>

lemma choke_store: "process_choke p sc = Ok sc' \<Longrightarrow> store sc' = store sc"
proof -
  have "store s' = store s" if "choke_dl p s d = Ok s'" for s s' d using that by (auto simp: choke_dl_def Let_def res_Ok)
  then show "process_choke p sc = Ok sc' \<Longrightarrow> store sc' = store sc"
    by (auto simp: process_choke_def Let_def res_Ok split: if_splits dest!: rfold_store)
qed

lemma bits_store: "process_have e p m sc = Ok sc' \<Longrightarrow> store sc' = store sc" "process_bitfield e p m sc = Ok sc' \<Longrightarrow> store sc' = store sc"
  "process_haveall e p b sc = Ok sc' \<Longrightarrow> store sc' = store sc"
  by (auto simp: process_have_def process_bitfield_def process_haveall_def take_bitfield_def Let_def res_Ok split: if_splits option.splits dest!: ask_store state_store)

lemma requests_store: "process_request e p m sc = Ok sc' \<Longrightarrow> store sc' = store sc" "process_cancel p m sc = Ok sc' \<Longrightarrow> store sc' = store sc"
  "process_reject p m sc = Ok sc' \<Longrightarrow> store sc' = store sc" "process_suggest m sc = Ok sc' \<Longrightarrow> store sc' = store sc"
  by (auto simp: process_request_def process_cancel_def process_reject_def process_suggest_def res_Ok split: if_splits option.splits
      dest!: ul_store state_store messages_store dl_free_store)

lemma process_store:
  assumes "network_peer_process_message e mid p m sc = Ok sc'" "mid \<noteq> PEER_MSG_ID_PIECE"
  shows "store sc' = store sc"
  using assms by (auto simp: network_peer_process_message_def split: if_splits dest: choke_store state_store bits_store requests_store)

lemma send_bitfield_store: "send_bitfield e p sc = Ok sc' \<Longrightarrow> store sc' = store sc"
  by (auto simp: send_bitfield_def res_Ok split: if_splits dest!: messages_store state_store)

section \<open>The peer list\<close>

lemma add_peer_store: "network_peerlist_add_peer p sc = Ok sc' \<Longrightarrow> store sc' = store sc"
  by (auto simp: network_peerlist_add_peer_def res_Ok split: if_splits dest: peer_free_store)

lemma add_address_store: "add_address i a prt sc = Ok sc' \<Longrightarrow> store sc' = store sc"
  by (auto simp: add_address_def network_peer_create_def res_Ok dest!: add_peer_store)

lemma connect_store: "network_peerlist_connect e sc = Ok sc' \<Longrightarrow> store sc' = store sc"
proof -
  have "store s' = store s" if "connect_turn e s p = Ok s'" for s s' p
    using that by (auto simp: connect_turn_def network_connect_peer_def Let_def res_Ok split: if_splits dest!: peer_free_store messages_store)
  then show "network_peerlist_connect e sc = Ok sc' \<Longrightarrow> store sc' = store sc" by (auto simp: network_peerlist_connect_def dest!: rfold_store)
qed

lemma peerlist_store: "network_peerlist_update e n sc = Ok sc' \<Longrightarrow> store sc' = store sc"
proof -
  have d: "store s' = store s" if "dict_peer e s dict = Ok s'" for s s' dict
    using that by (auto simp: dict_peer_def Let_def res_Ok split: if_splits option.splits dest!: add_address_store)
  have "store s' = store s" if "network_peerlist_update_string e v s = Ok s'" for v s s'
    using that by (auto simp: network_peerlist_update_string_def res_Ok split: prod.splits if_splits dest!: connect_store rfold_store add_address_store)
  moreover have "store s' = store s" if "network_peerlist_update_dict e n s = Ok s'" for s s'
    using that by (auto simp: network_peerlist_update_dict_def res_Ok split: if_splits dest!: connect_store rfold_store d)
  ultimately show "network_peerlist_update e n sc = Ok sc' \<Longrightarrow> store sc' = store sc"
    by (auto simp: network_peerlist_update_def res_Ok split: if_splits dest!: notify_store)
qed

lemma peer_connect_store: "network_handle_peer_connect e err fd a prt sc = Ok sc' \<Longrightarrow> store sc' = store sc"
  by (auto simp: network_handle_peer_connect_def network_peer_create_def Let_def res_Ok split: if_splits dest!: peer_free_store messages_store)

section \<open>The scheduler, except uploads\<close>

lemma kill_reap_store: "scheduler_threshold_kill e p sc = Ok (b, sc') \<Longrightarrow> store sc' = store sc" "scheduler_reap_dead p sc = Ok (b, sc') \<Longrightarrow> store sc' = store sc"
  by (auto simp: scheduler_threshold_kill_def scheduler_reap_dead_def res_Ok split: if_splits dest!: peer_free_store state_store)

lemma fill_store: "scheduler_fill_requests e p sc = Ok sc' \<Longrightarrow> store sc' = store sc"
proof -
  have "store s' = store s" if "fill_turn e p s i = Ok s'" for s s' i
    using that by (auto simp: fill_turn_def res_Ok split: option.splits dest!: gimme_store messages_store)
  then show "scheduler_fill_requests e p sc = Ok sc' \<Longrightarrow> store sc' = store sc"
    by (auto simp: scheduler_fill_requests_def Let_def res_Ok split: if_splits dest!: rfold_store)
qed

lemma choke_algorithm_store: "scheduler_choke_algorithm e sc = Ok sc' \<Longrightarrow> store sc' = store sc"
proof -
  have f: "store s' = store s" if "unchoke_fast e s q = Ok s'" for s s' q
    using that by (auto simp: unchoke_fast_def res_Ok split: if_splits dest: messages_store)
  have c: "store s' = store s" if "choke_rest e fast p2 s q = Ok s'" for fast p2 s s' q
    using that by (auto simp: choke_rest_def res_Ok split: if_splits dest: messages_store)
  have o: "store s' = store s" if "opportunistic e pcs s = Ok (p2, s')" for pcs s s' p2
    using that by (auto simp: opportunistic_def Let_def rmap_eq_Ok elim!: rbind_OkE split: if_split_asm list.split_asm dest!: messages_store)
  show "scheduler_choke_algorithm e sc = Ok sc' \<Longrightarrow> store sc' = store sc"
    using rfold_store [where f = "unchoke_fast e", OF _ f] rfold_store [where f = "choke_rest e fast p2" for fast p2, OF _ c]
    by (fastforce simp: scheduler_choke_algorithm_def Let_def res_Ok split: if_splits dest: o)
qed

lemma endgame_store: "scheduler_endgame_algorithm e sc = Ok sc' \<Longrightarrow> store sc' = store sc"
proof -
  have b: "store s' = store s" if "endgame_block e p i len s off = Ok s'" for p i len s s' off
    using that by (auto simp: endgame_block_def res_Ok split: if_splits dest!: dl_create_store messages_store)
  have p: "store s' = store s" if "endgame_peer e i len s p = Ok s'" for i len s s' p
    using that by (auto simp: endgame_peer_def res_Ok split: if_splits dest!: rfold_store [OF _ b])
  have "store s' = store s" if "endgame_piece e s i = Ok s'" for i s s'
    using that by (auto simp: endgame_piece_def res_Ok split: if_splits dest!: rfold_store [OF _ p])
  then show "scheduler_endgame_algorithm e sc = Ok sc' \<Longrightarrow> store sc' = store sc"
    by (auto simp: scheduler_endgame_algorithm_def dest!: rfold_store)
qed

end
