(* ===== verification/Session_Store.thy ===== *)
theory Session_Store
  imports Storage_Inv Store_Frame Event_Loop
begin

text \<open>
  The handlers that use the storage keep its invariant: blocks that arrive, the end of a piece, and uploads. With the parts that
  leave the storage alone this gives every event.
\<close>

section \<open>The invariant of the session\<close>

text \<open>What a fast-resume file claims is there: \<open>t\<close> is the torrent as the metainfo file gives it, \<open>u\<close> as it is now.\<close>

definition claims :: "torrent \<Rightarrow> torrent \<Rightarrow> bytes option \<Rightarrow> bool" where
  "claims t u f \<longleftrightarrow> (\<forall>r v i. torrent_fastresume_load (torrent_pieces_create t) f = Ok (r, v) \<longrightarrow> unat i < unat (num_pieces t) \<longrightarrow> have_piece v i \<longrightarrow> have_piece u i)"

text \<open>\<open>f\<close> is the file that was there at the start.\<close>

definition safe :: "torrent \<Rightarrow> bytes option \<Rightarrow> store \<Rightarrow> bool" where
  "safe t f s \<longleftrightarrow> (case s of (u, dk, rf) \<Rightarrow> stored t (u, dk) \<and> claims t u (if rf = None then f else rf))"

lemma safeD: "safe t f (store sc) \<Longrightarrow> stored t (tp sc, dsk sc)"
  by (simp add: safe_def store_def)

lemma safe_fields [simp]:
  "safe t f (u\<lparr>downloaded := n\<rparr>, s) = safe t f (u, s)" "safe t f (u\<lparr>left := n\<rparr>, s) = safe t f (u, s)" "safe t f (u\<lparr>interval := w\<rparr>, s) = safe t f (u, s)"
  "safe t f (u\<lparr>complete := w\<rparr>, s) = safe t f (u, s)" "safe t f (u\<lparr>incomplete := w\<rparr>, s) = safe t f (u, s)"
  by (cases s; simp add: safe_def claims_def have_piece_def)+

lemma claims_more: "claims t u f \<Longrightarrow> (\<And>i. unat i < unat (num_pieces t) \<Longrightarrow> have_piece u i \<Longrightarrow> have_piece u' i) \<Longrightarrow> claims t u' f"
  by (auto simp: claims_def)

lemma safe_more:
  "safe t f (u, dk, rf) \<Longrightarrow> stored t (u', dk') \<Longrightarrow> (\<And>i. unat i < unat (num_pieces t) \<Longrightarrow> have_piece u i \<Longrightarrow> have_piece u' i) \<Longrightarrow> safe t f (u', dk', rf)"
  using claims_more [of t u _ u'] by (auto simp: safe_def)

text \<open>The program writes what it has.\<close>

lemma dump_claims:
  assumes "well_cut t" "same_cut t u" "length (piece_array u) = unat (num_pieces t)" "torrent_fastresume_dump u = Ok c"
  shows "claims t u (Some c)"
  unfolding claims_def
proof (intro allI impI)
  fix r v i
  let ?t = "torrent_pieces_create t"
  assume v: "torrent_fastresume_load ?t (Some c) = Ok (r, v)" and i: "unat i < unat (num_pieces t)" and hv: "have_piece v i"
  have n: "num_pieces ?t = num_pieces t" "num_pieces u = num_pieces t" using assms(2) by (simp_all add: torrent_pieces_create_def same_cut_def)
  have ok: "pieces_ok ?t" "pieces_ok u" using assms(1,3) n by (simp_all add: pieces_ok_def well_cut_def torrent_pieces_create_def)
  obtain x where "resume_name u ''torrent_fastresume_dump: snprintf truncation'' = Ok x" using assms(4) by (auto simp: torrent_fastresume_dump_def rbind_eq_Ok)
  then have c: "length c = unat (bitfield_len u)" "\<forall>i. unat i < unat (num_pieces u) \<longrightarrow> util_getbit c i = Ok (have_piece u i)"
    using resume_dump_run [OF ok(2)] assms(4) by auto
  obtain y where "resume_name ?t ''torrent_fastresume_load: snprintf truncation'' = Ok y" using v by (auto simp: torrent_fastresume_load_def rbind_eq_Ok)
  then have "\<exists>w. torrent_fastresume_load ?t (Some c) = Ok (0, w) \<and> marked ?t {i. unat i < unat (num_pieces ?t) \<and> have_piece u i} w"
    using c n by (intro load_run [OF ok(1)]) (simp_all add: bitfield_len_def)
  then have m: "marked ?t {i. unat i < unat (num_pieces ?t) \<and> have_piece u i} v" using v by auto
  have "\<not> have_piece ?t i" using i by (simp add: have_piece_def torrent_pieces_create_def)
  then show "have_piece u i" using marked_have [OF m, of i] i hv n(1) by simp
qed

section \<open>A block\<close>

lemma find_in:
  assumes "stored t (u, dk)" "torrent_piece_find u i = Ok q"
  shows "unat i < unat (num_pieces t)" "q = piece_array u ! unat i"
  using assms by (auto simp: stored_def torrent_piece_find_def split: if_splits)

text \<open>Piece \<open>i\<close> is mapped and not yet good.\<close>

definition filling :: "torrent \<Rightarrow> bytes option \<Rightarrow> u32 \<Rightarrow> store \<Rightarrow> bool" where
  "filling t f i s \<longleftrightarrow> safe t f s \<and> unat i < unat (num_pieces t) \<and> \<not> have_piece (fst s) i \<and> tpp_flags (piece_array (fst s) ! unat i) AND TORRENT_PIECE_MAPPED \<noteq> 0"

lemma fillingD:
  assumes "filling t f i (store sc)"
  shows "stored t (tp sc, dsk sc)" "unat i < unat (num_pieces t)" "\<not> have_piece (tp sc) i" "tpp_flags (piece_array (tp sc) ! unat i) AND TORRENT_PIECE_MAPPED \<noteq> 0"
    "safe t f (tp sc, dsk sc, resume_file sc)"
  using assms safeD [of t f sc] by (simp_all add: filling_def store_def)

lemma map_filling:
  assumes "well_cut t" "safe t f (u, dk, rf)" "unat i < unat (num_pieces t)" "tpp_flags (piece_array u ! unat i) AND TORRENT_PIECE_MAPPED = 0"
    and "torrent_piece_map pg (piece_array u ! unat i) (u, dk) = Ok (q, u', dk')"
  shows "safe t f (update_piece u' i q, dk', rf)" "\<not> have_piece u i \<Longrightarrow> filling t f i (update_piece u' i q, dk', rf)"
proof -
  have s: "stored t (u, dk)" using assms(2) by (simp add: safe_def)
  note m = stored_map [OF assms(1) s assms(3-5)]
  show f: "safe t f (update_piece u' i q, dk', rf)" by (rule safe_more [OF assms(2) m(1,3)])
  have "unat i < length (piece_array u')" using m(1) assms(3) by (simp add: stored_def update_piece_def)
  then have "piece_array (update_piece u' i q) ! unat i = q" by (simp add: update_piece_def)
  then show "\<not> have_piece u i \<Longrightarrow> filling t f i (update_piece u' i q, dk', rf)"
    using f m(2) assms(3) flag_bits(2) by (simp add: filling_def have_piece_def flag_bits(1))
qed

lemma read_piece_filling:
  assumes "well_cut t" "filling t f i (store sc)"
  shows "post (\<lambda>s. filling t f i (store s)) (network_peer_read_piece e p i off len d sc)"
  unfolding network_peer_read_piece_def
proof (intro post_pure post_option)
  fix q r x dk pd
  assume q: "torrent_piece_find (tp sc) i = Ok q" and w: "torrent_block_write q (uint off) len d (dsk sc) = Ok dk"
  note s = fillingD [OF assms(2)]
  have "stored t (tp sc, dk)" using stored_write [OF assms(1) s(1-4)] w find_in(2) [OF s(1) q] by simp
  then have "safe t f (tp sc, dk, resume_file sc)" using safe_more [OF s(5)] by blast
  then have f: "filling t f i ((tp sc)\<lparr>downloaded := n\<rparr>, dk, resume_file sc)" for n
    using s by (simp add: filling_def have_piece_def)
  let ?s = "set_dl (sc\<lparr>dsk := dk\<rparr>) x (pd\<lparr>pd_bytes := pd_bytes pd + len\<rparr>)"
  have "store (?s\<lparr>tp := (tp ?s)\<lparr>downloaded := downloaded (tp ?s) + uint len\<rparr>\<rparr>) = ((tp sc)\<lparr>downloaded := downloaded (tp sc) + uint len\<rparr>, dk, resume_file sc)"
    by (simp add: store_def set_dl_def)
  then show "post (\<lambda>s. filling t f i (store s))
         (let sc = ?s; sc = sc\<lparr>tp := (tp sc)\<lparr>downloaded := downloaded (tp sc) + uint len\<rparr>\<rparr>
          in rbind (get_peer sc p) (\<lambda>x. ctl_server_notify_bytes (downloaded (tp sc)) (set_peer sc p (x\<lparr>totalrx := totalrx x + ucast len\<rparr>))))"
    using f unfolding Let_def by (intro post_pure postI) (auto dest!: notify_store(1))
qed (use assms(2) in simp)

lemma announced_store: "rmap snd (announce now fd ev sc) = Ok sc' \<Longrightarrow> store sc' = store sc"
  using announce_store by (auto simp: rmap_eq_Ok)

lemma piece_done_store:
  assumes "piece_done e i len offs sc = Ok sc'"
  shows "\<exists>c. torrent_fastresume_dump (tp sc) = Ok c
    \<and> store sc' = ((tp sc)\<lparr>good_pieces := good_pieces (tp sc) + 1, left := left (tp sc) - uint len\<rparr>, dsk sc, Some c)"
proof -
  obtain c s1 s2 s3 where r: "torrent_fastresume_dump (tp sc) = Ok c"
    "(let sc = sc\<lparr>resume_file := Some c, tp := (tp sc)\<lparr>good_pieces := good_pieces (tp sc) + 1, left := left (tp sc) - uint len\<rparr>\<rparr> in
      if good_pieces (tp sc) = num_pieces (tp sc)
            then if \<not> e_seed e then Fault (Exit ''download complete'')
                 else if \<not> announce_underway sc then rmap snd (announce (e_now e) (e_tracker e) (Some (cstr (str ''completed''))) sc)
                 else Ok sc
            else Ok sc) = Ok s1"
    "rfold (\<lambda>sc q. network_peer_write_have (e_now e) q i sc) s1 (peers s1) = Ok s2" "ctl_server_notify_pieces s2 = Ok s3" "rfold (free_block i) s3 offs = Ok sc'"
    using assms unfolding piece_done_def Let_def by (auto simp: rbind_eq_Ok simp del: if_split)
  have "store sc' = store s3" using rfold_store [OF r(5) free_block_store] .
  moreover have "store s3 = store s2" using notify_store(2) [OF r(4)] .
  moreover have "store s2 = store s1" by (rule rfold_store [OF r(3)]) (rule messages_store(1))
  moreover have "store s1 = ((tp sc)\<lparr>good_pieces := good_pieces (tp sc) + 1, left := left (tp sc) - uint len\<rparr>, dsk sc, Some c)"
    using r(2) unfolding Let_def by (auto simp: store_def [of "session.tp_update f s" for f s] split: if_split_asm dest!: announced_store)
  ultimately show ?thesis using r(1) by simp
qed

lemma finish_stored:
  assumes "well_cut t" "filling t f i (store sc)"
  shows "post (\<lambda>s. safe t f (store s)) (finish_piece e i offs sc)"
  unfolding finish_piece_def
proof (intro post_pure)
  fix q y
  assume q: "torrent_piece_find (tp sc) i = Ok q" and y: "torrent_piece_checkhash (tp sc) q (dsk sc) = Ok y"
  obtain res q1 q2 u2 where r: "y = (res, q1)" "torrent_piece_unmap q1 (tp sc) = (q2, u2)" by (metis prod.exhaust)
  note s = fillingD [OF assms(2)]
  let ?u = "update_piece u2 i q2"
  have f: "stored t (?u\<lparr>good_pieces := good_pieces (tp sc) + (if res = 0 then 1 else 0)\<rparr>, dsk sc)" "good_pieces u2 = good_pieces (tp sc)"
    "unat j < unat (num_pieces t) \<Longrightarrow> have_piece (tp sc) j \<Longrightarrow> have_piece ?u j" for j
    using stored_finish [OF assms(1) s(1-4)] y r find_in(2) [OF s(1) q] by simp_all
  let ?sc = "sc\<lparr>tp := ?u\<rparr>"
  have g: "good_pieces ?u = good_pieces (tp sc)" using f(2) by (simp add: update_piece_def)
  have "safe t f (store s)" if "res = 0" "piece_done e i n offs ?sc = Ok s" for n s
  proof -
    note d = piece_done_store [OF that(2)]
    obtain c where c: "torrent_fastresume_dump ?u = Ok c" "store s = (?u\<lparr>good_pieces := good_pieces (tp sc) + 1, left := left ?u - uint n\<rparr>, dsk sc, Some c)"
      using d g by auto
    have k: "stored t (?u\<lparr>good_pieces := good_pieces (tp sc) + 1\<rparr>, dsk sc)" using f(1) that(1) by simp
    then have "claims t ?u (Some c)" using c(1) by (intro dump_claims [OF assms(1)]) (simp_all add: stored_def same_cut_def)
    then show ?thesis using k c(2) by (simp add: safe_def claims_def have_piece_def)
  qed
  moreover have "safe t f (store s)" if "res \<noteq> 0" "rfold (free_block i) ?sc offs = Ok s" for s
  proof -
    have "?u\<lparr>good_pieces := good_pieces (tp sc)\<rparr> = ?u" using f(2) by (simp add: update_piece_def)
    then have "safe t f (?u, dsk sc, resume_file sc)" using f(1,3) that(1) by (intro safe_more [OF s(5)]) simp_all
    then show ?thesis using rfold_store [OF that(2) free_block_store] by (simp add: store_def)
  qed
  ultimately show "post (\<lambda>s. safe t f (store s)) (case y of (res, tpp) \<Rightarrow> let (tpp, t) = torrent_piece_unmap tpp (tp sc); sc = sc\<lparr>tp := update_piece t i tpp\<rparr> in
     if res = 0 then piece_done e i (tpp_len tpp) offs sc else rfold (free_block i) sc offs)"
    by (intro postI) (auto simp: r Let_def split: if_splits)
qed

lemma take_piece_stored:
  assumes "well_cut t" "safe t f (store sc)" "\<not> have_piece (tp sc) i"
  shows "post (\<lambda>s. safe t f (store s)) (take_piece e p i off len d sc)"
  unfolding take_piece_def Let_def
proof (rule post_pure, rule post_pure)
  fix x q
  let ?sc = "set_peer sc p (x\<lparr>dl_queue_len := dl_queue_len x - 1\<rparr>)"
  assume "torrent_piece_find (tp ?sc) i = Ok q"
  then have q: "unat i < unat (num_pieces t)" "q = piece_array (tp sc) ! unat i" using find_in [OF safeD [OF assms(2)]] by simp_all
  have s: "safe t f (tp sc, dsk sc, resume_file sc)" "resume_file ?sc = resume_file sc" using assms(2) by (simp_all add: store_def set_peer_def)
  have m: "post (\<lambda>s. filling t f i (store s)) (if tpp_flags q AND TORRENT_PIECE_MAPPED = 0
     then rmap (\<lambda>(q, u, dk). ?sc\<lparr>tp := update_piece u i q, dsk := dk\<rparr>) (torrent_piece_map (e_page e) q (tp ?sc, dsk ?sc)) else Ok ?sc)"
  proof (rule post_if)
    assume "tpp_flags q AND TORRENT_PIECE_MAPPED = 0"
    then show "post (\<lambda>s. filling t f i (store s)) (rmap (\<lambda>(q, u, dk). ?sc\<lparr>tp := update_piece u i q, dsk := dk\<rparr>) (torrent_piece_map (e_page e) q (tp ?sc, dsk ?sc)))"
      using map_filling(2) [OF assms(1) s(1) q(1) _ _ assms(3)] q(2) s(2) by (intro post_rmap postI) (auto simp: store_def)
  next
    assume "tpp_flags q AND TORRENT_PIECE_MAPPED \<noteq> 0"
    then show "post (\<lambda>s. filling t f i (store s)) (Ok ?sc)" using assms(2,3) q s(2) by (simp add: filling_def store_def)
  qed
  show "post (\<lambda>s. safe t f (store s)) (rbind (if tpp_flags q AND TORRENT_PIECE_MAPPED = 0
     then rmap (\<lambda>(q, u, dk). ?sc\<lparr>tp := update_piece u i q, dsk := dk\<rparr>) (torrent_piece_map (e_page e) q (tp ?sc, dsk ?sc)) else Ok ?sc) (\<lambda>sc.
     rbind (network_peer_read_piece e p i off len d sc) (\<lambda>sc. rbind (torrent_piece_find (tp sc) i) (\<lambda>tpp.
     rbind (block_offs (tpp_len tpp)) (\<lambda>offs. rbind (blocks_loop sc p i offs) (\<lambda>found.
       if found then finish_piece e i offs sc else Ok sc))))))"
    by (intro post_bind [OF m] post_bind [OF read_piece_filling [OF assms(1)]] post_pure post_if finish_stored [OF assms(1)]) (auto simp: filling_def)
qed

lemma process_piece_stored:
  assumes "well_cut t" "safe t f (store sc)"
  shows "post (\<lambda>s. safe t f (store s)) (process_piece e p m sc)"
proof -
  have t: "post (\<lambda>s. safe t f (store s)) (take_piece e p i off len d sc)" if "torrent_piece_find (tp sc) i = Ok q" "tpp_flags q AND TORRENT_PIECE_CKSUMOK = 0" for i q off len d
    using take_piece_stored [OF assms] that find_in(2) [OF safeD [OF assms(2)]] by (simp add: have_piece_def)
  have k: "post (\<lambda>s. safe t f (store s)) (kill_peer p sc)" using assms(2) state_store(1) by (intro postI) (metis (no_types))
  show ?thesis unfolding process_piece_def
    by (intro post_pure post_if post_option post_bind [of "\<lambda>s. safe t f (store s)"] k t) (use assms(2) in simp_all)
qed

lemma message_stored:
  assumes "well_cut t" "safe t f (store sc)"
  shows "post (\<lambda>s. safe t f (store s)) (network_peer_process_message e mid p m sc)"
proof (cases "mid = PEER_MSG_ID_PIECE")
  case True
  have "network_peer_process_message e PEER_MSG_ID_PIECE p m sc = process_piece e p m sc"
    by (simp add: network_peer_process_message_def PEER_MSG_ID_CHOKE_def PEER_MSG_ID_UNCHOKE_def PEER_MSG_ID_INTERESTED_def PEER_MSG_ID_NOTINTERESTED_def
        PEER_MSG_ID_HAVE_def PEER_MSG_ID_BITFIELD_def PEER_MSG_ID_REQUEST_def PEER_MSG_ID_PIECE_def)
  then show ?thesis using True process_piece_stored [OF assms] by simp
next
  case False
  then show ?thesis using assms(2) process_store by (intro postI) (metis (no_types))
qed

section \<open>Input of a peer\<close>

lemma rx_step_stored:
  assumes "well_cut t" "safe t f (store sc)"
  shows "post (\<lambda>(rest, s). safe t f (store s)) (rx_step e p input sc)"
proof -
  have m: "post (\<lambda>s. safe t f (store s)) (rx_message e p m s)" if "safe t f (store s)" for m s
    unfolding rx_message_def by (intro post_pure post_bind [OF message_stored [OF assms(1) that]]) simp
  have f: "post (\<lambda>s. safe t f (store s)) (rx_frame e p x sc)" for x
    unfolding rx_frame_def by (intro post_if post_option post_rmap m) (simp_all add: assms(2) post_def split: res.splits)
  have b: "post (\<lambda>s. safe t f (store s)) (send_bitfield e p s)" if "safe t f (store s)" for s
    using that send_bitfield_store by (intro postI) (metis (no_types))
  show ?thesis unfolding rx_step_def Let_def
    by (intro post_pure post_bind [OF f] post_rmap) (simp add: b)
qed

lemma response_stored:
  assumes "well_cut t" "safe t f (store sc)"
  shows "post (\<lambda>s. safe t f (store s)) (network_handle_peer_response e p input sc)"
  using assms(2)
proof (induction e p input sc rule: network_handle_peer_response.induct)
  case (1 e p input sc)
  show ?case by (subst network_handle_peer_response.simps, rule post_bind [OF rx_step_stored [OF assms(1) "1.prems"]])
    (use "1.IH" in \<open>auto split: prod.splits\<close>)
qed

section \<open>The scheduler\<close>

lemma write_piece_stored:
  assumes "well_cut t" "safe t f (store sc)"
  shows "post (\<lambda>s. safe t f (store s)) (network_peer_write_piece pg now p i off len sc)"
proof -
  have s: "safe t f (tp sc, dsk sc, resume_file sc)" using assms(2) by (simp add: store_def)
  have m: "post (\<lambda>(q, s). safe t f (store s)) (if tpp_flags q AND TORRENT_PIECE_MAPPED = 0
     then rmap (\<lambda>(q, u, dk). (q, sc\<lparr>tp := update_piece u i q, dsk := dk\<rparr>)) (torrent_piece_map pg q (tp sc, dsk sc)) else Ok (q, sc))"
    if "torrent_piece_find (tp sc) i = Ok q" for q
    using map_filling(1) [OF assms(1) s find_in(1) [OF safeD [OF assms(2)] that]] find_in(2) [OF safeD [OF assms(2)] that] assms(2)
    by (intro post_if post_rmap postI) (auto simp: store_def)
  have w: "post (\<lambda>s. safe t f (store s)) (network_peer_write now p msg s)" if "safe t f (store s)" for s msg
    using that write_store by (intro postI) (metis (no_types))
  show ?thesis unfolding network_peer_write_piece_def Let_def
    by (rule post_pure, rule post_bind [OF m], assumption)
      (auto intro!: post_pure post_option post_if intro: postD [OF w] split: prod.split)
qed

lemma scheduler_stored:
  assumes "well_cut t" "safe t f (store sc)"
  shows "post (\<lambda>s. safe t f (store s)) (scheduler e sc)"
proof -
  let ?P = "\<lambda>s. safe t f (store s)"
  have u: "post ?P (scheduler_dequeue_uploads e p s)" if "?P s" for p s
    unfolding scheduler_dequeue_uploads_def
  proof (rule post_pure)
    fix y
    assume y: "network_piece_ul_dequeue p s = Ok y"
    then have "?P (snd y)" using that ul_store(2) [of p s "fst y" "snd y"] by simp
    then show "post ?P (case y of (r, sc) \<Rightarrow> case r of None \<Rightarrow> Ok sc | Some pu \<Rightarrow> network_peer_write_piece (e_page e) (e_now e) p (pu_idx pu) (pu_off pu) (pu_len pu) sc)"
      by (cases y) (auto intro!: post_option write_piece_stored [OF assms(1)])
  qed
  have f: "post ?P (scheduler_fill_requests e p s)" if "?P s" for p s using that fill_store by (intro postI) (metis (no_types))
  have d: "post ?P (scheduler_peer e s p)" if "?P s" for s p
  proof -
    have r: "post (\<lambda>(b, s). ?P s) (scheduler_reap_dead p s)" using that kill_reap_store(2) by (intro postI) (metis (no_types) case_prodI2)
    have k: "post (\<lambda>(b, s). ?P s) (scheduler_threshold_kill e p s)" if "?P s" for s using that kill_reap_store(1) by (intro postI) (metis (no_types) case_prodI2)
    show ?thesis unfolding scheduler_peer_def
      by (rule post_bind [OF r], clarsimp, rule post_bind [OF k], assumption, clarsimp, rule post_bind [OF u], assumption, rule f)
  qed
  have c: "post ?P (scheduler_choke_algorithm e s)" if "?P s" for s using that choke_algorithm_store by (intro postI) (metis (no_types))
  have g: "post ?P (scheduler_endgame_algorithm e s)" if "?P s" for s using that endgame_store by (intro postI) (metis (no_types))
  have a: "post ?P (rmap snd (announce n fd ev s))" if "?P s" for n fd ev s using that announced_store by (intro postI) (metis (no_types))
  show ?thesis unfolding scheduler_def Let_def
    by (intro post_bind [OF post_rfold [where P = ?P]] post_bind [OF c] post_pure post_bind [of ?P] post_if g a d) (simp_all add: assms(2))
qed

section \<open>Every event\<close>

lemma answer_stored:
  assumes "safe t f (store sc)" "Tracker.read_answer e troot sc = Ok sc'"
  shows "safe t f (store sc')"
proof -
  have c: "post (\<lambda>u. safe t f (u, d)) (set_count troot k msg upd u)" if "safe t f (u, d)" "\<And>w u. safe t f (upd w u, d) = safe t f (u, d)" for k msg upd u d
    unfolding set_count_def using that by (intro post_pure post_option post_rmap postI) simp_all
  have l: "post (\<lambda>s. safe t f (store s)) (rmap (\<lambda>sc. if servfd sc = 0 then sc\<lparr>servfd := e_listen e\<rparr> else sc) (network_peerlist_update e n s))"
    if "safe t f (store s)" for n s
    using that peerlist_store by (intro post_rmap postI) (auto dest: peerlist_store)
  have s: "safe t f (store (sc\<lparr>tp := u\<rparr>)) = safe t f (u, dsk sc, resume_file sc)" for u by (simp add: store_def)
  have "post (\<lambda>s. safe t f (store s)) (Tracker.read_answer e troot sc)"
    unfolding Tracker.read_answer_def Let_def
    by (rule post_pure, rule post_if, simp add: assms(1), rule post_bind [OF c [of _ "(dsk sc, resume_file sc)"]], use assms(1) in \<open>simp add: store_def\<close>, simp,
        rule post_bind [OF c [of _ "(dsk sc, resume_file sc)"]], assumption, simp, rule post_bind [OF c [of _ "(dsk sc, resume_file sc)"]], assumption, simp,
        intro post_pure post_option l) (simp_all add: s)
  then show ?thesis using assms(2) by (rule postD)
qed

lemma tracker_stored:
  assumes "safe t f (store sc)" "handle_announce_error e err input sc = Some (Ok sc')"
  shows "safe t f (store sc')"
proof -
  consider "store sc' = store sc" | troot s where "Tracker.read_answer e troot sc = Ok s" "store sc' = store s"
    using assms(2) by (auto simp: handle_announce_error_def Let_def rmap_eq_Ok split: option.splits if_splits res.splits)
  then show ?thesis using assms(1) answer_stored by cases auto
qed

lemma gui_store: "ctl_server_handle_connect err fd sc = Ok sc' \<Longrightarrow> store sc' = store sc" "ctl_server_handle_conn_error csc sc = Ok sc' \<Longrightarrow> store sc' = store sc"
  by (auto simp: ctl_server_handle_connect_def ctl_server_handle_conn_error_def Let_def rmap_eq_Ok split: if_splits option.splits)

lemma handle_stored:
  assumes "well_cut t" "safe t f (store sc)" "handle e ev sc = Some (Ok sc')"
  shows "safe t f (store sc')"
proof (cases ev)
  case (Peer_Error p err)
  then show ?thesis using assms(2,3) state_store(1) by (auto simp: handle_def network_handle_peer_error_def split: if_splits)
next
  case (Peer_Keepalive p)
  then show ?thesis using assms(2,3) by (auto simp: handle_def network_peer_keepalive_def rbind_eq_Ok split: if_splits dest!: messages_store)
next
  case (Tracker_Input input)
  then show ?thesis using assms(2,3) by (auto simp: handle_def split: option.splits)
next
  case Announce_Timer
  then show ?thesis using assms(2,3) by (auto simp: handle_def announce_update_def split: if_splits dest!: announced_store)
qed (use assms(2,3) postD [OF response_stored [OF assms(1,2)]] postD [OF scheduler_stored [OF assms(1,2)]] tracker_stored [OF assms(2)]
    peer_connect_store gui_store in \<open>auto simp: handle_def\<close>)

lemma runs_stored: "runs t0 sc0 now sc \<Longrightarrow> well_cut t \<Longrightarrow> safe t f (store sc0) \<Longrightarrow> safe t f (store sc)"
  by (induction rule: runs.induct) (auto dest: handle_stored)

end
