(* ===== verification/Content.thy ===== *)
theory Content
  imports Session_Store
begin

text \<open>
  What the program has on the disk: at the start the pieces are marked by the hash check or by the fast-resume file, and from then
  on every piece that is marked has the right bytes.
\<close>

section \<open>The start\<close>

lemma marked_stored:
  assumes "good_pieces t = 0" "downloaded t = 0" "marked (torrent_pieces_create t) I u" "same_cut t u" "length dk' = length (files t)" "padded t dk' = padded t dk"
    "I \<subseteq> {i. unat i < unat (num_pieces t) \<and> piece_good t dk i}"
  shows "stored t (u, dk')"
proof -
  let ?t = "torrent_pieces_create t" and ?n = "unat (num_pieces t)"
  have t: "num_pieces ?t = num_pieces t" "good_pieces ?t = 0" "length (piece_array ?t) = ?n" using assms(1) by (simp_all add: torrent_pieces_create_def)
  have at: "piece_array ?t ! unat i = piece_create t i" if "unat i < ?n" for i using that by (simp add: torrent_pieces_create_def)
  have u: "length (piece_array u) = ?n" "good_pieces u = of_nat (card I)" using assms(3) t by (simp_all add: marked_def)
  have el: "piece_array u ! unat i = (piece_create t i)\<lparr>tpp_flags := if i \<in> I then 0 OR TORRENT_PIECE_CKSUMOK else 0\<rparr>" if "unat i < ?n" for i
  proof -
    have "piece_array u ! unat i = (piece_array ?t ! unat i)\<lparr>tpp_flags := if i \<in> I then tpp_flags (piece_array ?t ! unat i) OR TORRENT_PIECE_CKSUMOK
        else tpp_flags (piece_array ?t ! unat i)\<rparr>" using assms(3) that t(1) by (simp only: marked_def)
    then show ?thesis using at [OF that] by simp
  qed
  have hv: "have_piece u i \<longleftrightarrow> i \<in> I" if "unat i < ?n" for i using marked_have [OF assms(3), of i] that t(1) at [OF that] by (simp add: have_piece_def)
  then have I: "{i. unat i < ?n \<and> have_piece u i} = I" using assms(7) by auto
  have "piece_good t dk' i" if "i \<in> I" for i using that assms(7) padded_content [OF assms(6)] by (auto simp: good_content)
  moreover have "piece_there t dk' i (piece_array u ! unat i)" if "unat i < ?n" for i
    unfolding el [OF that] by (simp add: piece_there_def TORRENT_PIECE_CKSUMOK_def TORRENT_PIECE_MAPPED_def)
  ultimately show ?thesis using assms(4,5) u hv el unfolding stored_def prod.case I by auto
qed

lemma load_marked:
  assumes "well_cut t" "torrent_fastresume_load (torrent_pieces_create t) resume = Ok (r, u)"
  shows "\<exists>I. marked (torrent_pieces_create t) I u \<and> I \<subseteq> {i. unat i < unat (num_pieces t)}" "same_cut t u" "r = -1 \<Longrightarrow> u = torrent_pieces_create t"
proof -
  let ?t = "torrent_pieces_create t"
  have t: "num_pieces ?t = num_pieces t" "same_cut t ?t" by (simp_all add: same_cut_def torrent_pieces_create_def)
  have ok: "pieces_ok ?t" using assms(1) by (simp add: pieces_ok_def well_cut_def torrent_pieces_create_def)
  show "(\<exists>I. marked ?t I u \<and> I \<subseteq> {i. unat i < unat (num_pieces t)})" "same_cut t u" "r = -1 \<Longrightarrow> u = ?t"
  proof (atomize (full), cases resume)
    case None
    then have "u = ?t" using assms(2) by (auto simp: torrent_fastresume_load_def rbind_eq_Ok)
    then show "(\<exists>I. marked ?t I u \<and> I \<subseteq> {i. unat i < unat (num_pieces t)}) \<and> same_cut t u \<and> (r = -1 \<longrightarrow> u = ?t)" using marked_refl [of ?t] t(2) by auto
  next
    case (Some c)
    define n where "n = unat (bitfield_len ?t)"
    define bf where "bf = mwrite (replicate n 0) 0 (take n c)"
    have run: "rfold (load_piece bf) ?t (piece_indexes ?t) = Ok u" "r = 0"
      using assms(2) Some by (auto simp: torrent_fastresume_load_def rbind_eq_Ok rmap_eq_Ok Let_def bf_def n_def)
    have "length bf = n" by (simp add: bf_def mwrite_def)
    then have "unat i < 8 * length bf" if "unat i < unat (num_pieces ?t)" for i using bitfield_covers [OF ok that] by (simp add: n_def)
    then have "util_getbit bf i = Ok (util_getbit bf i = Ok True)" if "unat i < unat (num_pieces ?t)" for i
      using that byte_of_in [of i bf] by (auto simp: getbit_bit)
    then have "\<exists>v. rfold (load_piece bf) ?t (piece_indexes ?t) = Ok v \<and> marked ?t ({} \<union> {i \<in> set (piece_indexes ?t). util_getbit bf i = Ok True}) v"
      by (intro load_loop_run [OF ok marked_refl _ piece_indexes_distinct]) (simp_all add: piece_indexes_in)
    then have "marked ?t {i \<in> set (piece_indexes ?t). util_getbit bf i = Ok True} u" using run(1) by simp
    moreover have "same_cut t u"
      by (rule rfold_invariant [OF run(1), where P = "same_cut t"])
        (use t(2) in \<open>auto simp: load_piece_def rbind_eq_Ok same_cut_def update_piece_def split: if_splits\<close>)
    ultimately show "(\<exists>I. marked ?t I u \<and> I \<subseteq> {i. unat i < unat (num_pieces t)}) \<and> same_cut t u \<and> (r = -1 \<longrightarrow> u = ?t)"
      using run(2) t(1) by (auto simp: piece_indexes_in)
  qed
qed

text \<open>The fast-resume file claims no piece that is not there.\<close>

definition resume_true :: "torrent \<Rightarrow> disk \<Rightarrow> bytes option \<Rightarrow> bool" where
  "resume_true t dk resume \<longleftrightarrow> (\<forall>r u i. torrent_fastresume_load (torrent_pieces_create t) resume = Ok (r, u) \<longrightarrow> unat i < unat (num_pieces t)
     \<longrightarrow> have_piece u i \<longrightarrow> piece_good t dk i)"

lemma start_stored:
  assumes "start_content e fds opts resume t dk = Ok (Announced r sc)" "well_cut t" "good_pieces t = 0" "downloaded t = 0" "length dk = length (files t)"
    "resume_true t dk resume"
  shows "safe t resume (store sc)"
proof -
  let ?t = "torrent_pieces_create t" and ?n = "num_pieces t"
  obtain r1 u1 u2 dk2 where l: "torrent_fastresume_load ?t resume = Ok (r1, u1)"
    "(if r1 = -1 then hash_check (e_page e) (u1, dk) else Ok (u1, dk)) = Ok (u2, dk2)"
    "network_start_torrent (e\<lparr>e_seed := seed opts\<rparr>) (map_option cstr (user_port opts)) (gui_port opts \<noteq> None) fds u2 dk2 = Ok (r, sc)"
    using assms(1) unfolding start_content_def by (auto simp: rbind_eq_Ok rmap_eq_Ok split: if_splits)
  note m = load_marked [OF assms(2) l(1)]
  have "stored t (u2, dk2)"
  proof (cases "r1 = -1")
    case True
    have c: "well_cut ?t" "fresh_pieces ?t" "length dk = length (files ?t)"
      using assms(2-5) well_cut_create fresh_create by (simp_all add: torrent_pieces_create_def)
    have h: "same_cut t ?t" by (simp add: same_cut_def torrent_pieces_create_def)
    obtain I where "checked ?t dk (unat (num_pieces ?t)) I (u2, dk2)" using hash_run [OF c, of "e_page e"] l(2) m(3) True by auto
    then have I: "same_cut ?t u2" "length dk2 = length (files u2)" "padded u2 dk2 = padded ?t dk" "marked ?t I u2" "I \<subseteq> {i. unat i < unat (num_pieces ?t) \<and> piece_good ?t dk i}"
      by (simp_all add: checked_def)
    have s: "same_cut t u2" using I(1) h by (simp add: same_cut_def)
    have "piece_good ?t dk = piece_good t dk" using same_cut_simps [OF h] same_cut_padded [OF h] h by (simp add: piece_good_def fun_eq_iff stream_def same_cut_def)
    moreover have "length (files u2) = length (files t)" using s map_eq_imp_length_eq by (auto simp: same_cut_def)
    moreover have "padded t dk2 = padded t dk" using I(3) same_cut_padded [OF s] same_cut_padded [OF h] by simp
    ultimately show ?thesis using I h by (intro marked_stored [OF assms(3,4) I(4) s]) (auto simp: same_cut_def)
  next
    case False
    obtain I where I: "marked ?t I u1" "I \<subseteq> {i. unat i < unat ?n}" using m(1) by blast
    have "piece_good t dk i" if "i \<in> I" for i
      using that I marked_have [OF I(1), of i] assms(6) l(1) by (auto simp: resume_true_def torrent_pieces_create_def)
    moreover have "u2 = u1" "dk2 = dk" using l(2) False by simp_all
    ultimately show ?thesis using I(2) by (simp, intro marked_stored [OF assms(3,4) I(1) m(2) assms(5) refl]) auto
  qed
  moreover have "claims t u2 resume"
  proof (cases "r1 = -1")
    case True
    have "\<not> have_piece ?t i" if "unat i < unat ?n" for i using that by (simp add: have_piece_def torrent_pieces_create_def)
    then show ?thesis using l(1) m(3) True by (simp add: claims_def)
  qed (use l(1,2) in \<open>simp add: claims_def\<close>)
  ultimately have "safe t resume (u2, dk2, None)" by (simp add: safe_def)
  moreover have "store sc = ((if good_pieces u2 = num_pieces u2 then u2\<lparr>left := 0\<rparr> else u2)\<lparr>downloaded := 0\<rparr>, dk2, None)"
  proof -
    obtain prt where a: "announce (e_now e) (e_tracker e) (Some (cstr (str ''started'')))
      (let sc = start_session (e\<lparr>e_seed := seed opts\<rparr>) prt fds u2 dk2; start = downloaded (tp sc); sc = sc\<lparr>tp := (tp sc)\<lparr>downloaded := 0\<rparr>\<rparr>
       in if gui_port opts \<noteq> None then ctl_server_start start sc else sc) = Ok (r, sc)"
      using l(3) unfolding network_start_torrent_def Let_def by (auto simp: rbind_eq_Ok)
    show ?thesis unfolding announce_store [OF a] by (simp add: Let_def ctl_server_start_def store_def start_session_def)
  qed
  ultimately show ?thesis by simp
qed

section \<open>Properties\<close>

text \<open>
  (C1) The content: in every session that the program reaches from its start, whatever the peers, the tracker and the front end send, every piece
  that is marked as good has on the disk exactly the bytes whose SHA-1 the metainfo file gives, and \<^verbatim>\<open>good_pieces\<close> is the number of marked
  pieces. So when it reaches \<^verbatim>\<open>num_pieces\<close>, the whole content is there. No later block, not even one that does not fit into its piece,
  damages a marked piece. The fast-resume file, when there is one at the start, must not claim pieces that are not on the disk; the file that the
  program leaves does not either, nor does the one that it writes when a signal ends it, so the same holds after a restart.
\<close>

theorem content_integrity:
  assumes "start_content e fds opts resume t dk = Ok (Announced r sc0)" "well_cut t" "good_pieces t = 0" "downloaded t = 0"
    "length dk = length (files t)" "resume_true t dk resume" "runs (e_now e) sc0 now sc"
  shows "(\<forall>i. unat i < unat (num_pieces t) \<longrightarrow> have_piece (tp sc) i \<longrightarrow> piece_good t (dsk sc) i)
    \<and> unat (good_pieces (tp sc)) = card {i. unat i < unat (num_pieces t) \<and> have_piece (tp sc) i}
    \<and> (good_pieces (tp sc) = num_pieces t \<longrightarrow> (\<forall>i. unat i < unat (num_pieces t) \<longrightarrow> piece_good t (dsk sc) i))
    \<and> resume_true t (dsk sc) (if resume_file sc = None then resume else resume_file sc)
    \<and> (\<forall>c. terminate_handler (Some (tp sc)) = Ok c \<longrightarrow> resume_true t (dsk sc) c)"
proof -
  have k: "safe t resume (store sc)" using runs_stored [OF assms(7,2)] start_stored [OF assms(1-6)] by blast
  note s = safeD [OF k]
  have g: "\<forall>i. unat i < unat (num_pieces t) \<longrightarrow> have_piece (tp sc) i \<longrightarrow> piece_good t (dsk sc) i" using s by (simp add: stored_def)
  moreover have "claims t (tp sc) (if resume_file sc = None then resume else resume_file sc)" using k by (simp add: safe_def store_def)
  then have "resume_true t (dsk sc) (if resume_file sc = None then resume else resume_file sc)" using g unfolding claims_def resume_true_def by blast
  moreover have "resume_true t (dsk sc) c" if c: "terminate_handler (Some (tp sc)) = Ok c" for c
  proof -
    obtain b where b: "torrent_fastresume_dump (tp sc) = Ok b" "c = Some b" using c by (auto simp: terminate_handler_def rmap_eq_Ok)
    have "claims t (tp sc) (Some b)" using s by (intro dump_claims [OF assms(2) _ _ b(1)]) (simp_all add: stored_def)
    then show ?thesis using g unfolding b(2) claims_def resume_true_def by blast
  qed
  ultimately show ?thesis using stored_count [OF s] by blast
qed

text \<open>A run: the first piece is on the disk and in the fast-resume file, a peer connects and sends the first part of its handshake.\<close>

definition half_torrent :: "bytes \<Rightarrow> torrent" where
  "half_torrent h = loop_torrent\<lparr>pieces := h\<rparr>"

definition half_disk :: disk where "half_disk = [[1, 2, 3, 4, 5, 6, 7, 8]]"

lemma half_run: "case start_content loop_env 64 no_options (Some [128]) (half_torrent h) half_disk of
    Ok (Announced r sc) \<Rightarrow> (case run_events loop_env loop_events sc of Some (Ok sc) \<Rightarrow> peers sc = [0] \<and> have_piece (tp sc) 0 | _ \<Rightarrow> False) | _ \<Rightarrow> False"
  by code_simp

lemma half_load: "case torrent_fastresume_load (torrent_pieces_create (half_torrent h)) (Some [128]) of Ok (r, u) \<Rightarrow> \<not> have_piece u 1 | _ \<Rightarrow> True"
  by code_simp

theorem content_integrity_witness:
  "\<exists>h r sc0 sc. start_content loop_env 64 no_options (Some [128]) (half_torrent h) half_disk = Ok (Announced r sc0) \<and> runs 1000 sc0 1000 sc
    \<and> have_piece (tp sc) 0 \<and> piece_good (half_torrent h) (dsk sc) 0"
proof -
  define h where "h = sha1_spec [1, 2, 3, 4, 5, 6, 7, 8] @ replicate 20 0"
  let ?t = "half_torrent h"
  have l: "length (sha1_spec [1, 2, 3, 4, 5, 6, 7, 8]) = 20" by (rule length_sha1_spec)
  obtain r sc0 sc where s: "start_content loop_env 64 no_options (Some [128]) ?t half_disk = Ok (Announced r sc0)"
    "run_events loop_env loop_events sc0 = Some (Ok sc)" "have_piece (tp sc) 0"
    using half_run [of h] by (auto split: res.split_asm start_result.split_asm option.split_asm) (metis res.exhaust)
  have n: "e_now loop_env = 1000" by (simp add: loop_env_def)
  have run: "runs (e_now loop_env) sc0 1000 sc" using run_events_runs [OF s(2) runs.start] n by simp
  have t: "well_cut ?t" "good_pieces ?t = 0" "downloaded ?t = 0" "length half_disk = length (files ?t)" "num_pieces ?t = 2"
    using l by (simp_all add: h_def well_cut_def half_torrent_def half_disk_def loop_torrent_def example_torrent_def content_length_def files_fit_def)
  have g: "piece_good ?t half_disk 0"
    using l by (simp add: piece_good_def h_def half_torrent_def loop_torrent_def example_torrent_def half_disk_def stream_def padded_def pad_def piece_start_def piece_create_def mread_def)
  have two: "i = 0 \<or> i = 1" if "unat i < 2" for i :: u32
  proof -
    have "unat i = 0 \<or> unat i = 1" using that by linarith
    then show ?thesis by (simp add: word_unat_eq_iff)
  qed
  have "resume_true ?t half_disk (Some [128])" using half_load [of h] g t(5) by (auto simp: resume_true_def dest!: two)
  from content_integrity [OF s(1) t(1-4) this run] show ?thesis using s run n t(5) by (intro exI [of _ h] exI [of _ r] exI [of _ sc0] exI [of _ sc]) simp
qed

end
