(* ===== verification/Spec2Isabelle.thy ===== *)
theory Spec2Isabelle
  imports Parse_Roundtrip Torrent_Check Metainfo Session_Safe Bookkeeping Tracker Network_Rx Sched_Inv Tailq Rbtree_Index Progress Startup Event_Loop Content
begin

text \<open>
  Unworkable is a BitTorrent client in C. It reads a metainfo file, announces itself to a tracker, connects to the peers the
  tracker names, asks them for blocks of the content, checks finished pieces against their SHA-1 and serves blocks
  to others. One process runs an event loop; the state is one session with its peers, block downloads and the torrent on disk.
  This library models the program from its sources under \<^verbatim>\<open>src/\<close> and proves what its parts promise.

  \<^bold>\<open>Conventions\<close> (\<open>Prelude\<close>). A function that may fail returns a \<open>res\<close>: \<open>Ok v\<close>, or \<open>Fault\<close> with \<open>Exit\<close> for every
  \<^verbatim>\<open>err\<close>, \<^verbatim>\<open>errx\<close> and \<^verbatim>\<open>abort\<close>, and with \<open>Undef\<close> for every access outside an object, use of freed memory or missing pointer. So
  \<open>f x = Ok y\<close> says that the code returns and touches only memory it may touch. Machine integers are words of their width,
  \<^verbatim>\<open>off_t\<close> and \<^verbatim>\<open>time_t\<close> are integers within the ranges the code uses. Memory objects are byte lists, \<open>mread\<close> and
  \<open>mwrite\<close> copy within them. Loops are \<open>rfold\<close> over the elements they visit or recursive functions with a termination proof.

  \<^bold>\<open>Data structures.\<close> \<open>Bitfield\<close> has the bit arrays of \<^verbatim>\<open>util.c\<close>, behind the interface \<open>bit_array\<close>. \<open>Sha1\<close> has
  \<^verbatim>\<open>sha1.c\<close> with its unrolled rounds and streaming context; \<open>Sha1_Spec\<close> proves it equal to the hash of the
  standard for every way of cutting a message. \<open>Cstring\<close> has \<^verbatim>\<open>strlcpy\<close>, \<^verbatim>\<open>strlcat\<close>, \<^verbatim>\<open>strtonum\<close>. \<open>Buf\<close> has the
  growing buffers of \<^verbatim>\<open>buf.c\<close>, behind the interface \<open>char_source\<close> that the lexer uses.

  \<^bold>\<open>Metainfo.\<close> \<open>Bencode\<close> has the trees of \<^verbatim>\<open>bencode.c\<close>: search and freeing. \<open>Parse\<close> has \<^verbatim>\<open>parse.y\<close>: the lexer with its
  static flags and the pushdown machine of the grammar. \<open>Parse_Safe\<close> shows that it returns on every input, with a well-formed tree
  if it accepts; its fuel is computed from the length of the input and is proved to be enough. \<open>Parse_Roundtrip\<close> shows
  that it inverts the encoding. \<open>Metainfo\<close> has the reading of a metainfo file in \<^verbatim>\<open>torrent.c\<close>: info hash, files, pieces.

  \<^bold>\<open>Storage\<close> (\<^verbatim>\<open>torrent.c\<close>). \<open>Torrent\<close> has pieces, files, memory mappings and block access; the disk is a list of
  file contents. \<open>Torrent_Map\<close> shows that a mapped piece is the right range of the concatenated files, \<open>Torrent_Blocks\<close>
  that blocks are read and written in place, behind the interface \<open>block_store\<close>, and that a piece is assembled from its
  blocks in any order. \<open>Torrent_Check\<close> has the hash check, the bit field and the fast-resume file with its round trip.

  \<^bold>\<open>Session\<close> (\<^verbatim>\<open>includes.h\<close>, \<^verbatim>\<open>network.c\<close>). \<open>Session\<close> has the session as a record: tables of peers and downloads whose
  entries are \<open>None\<close> before allocation and after freeing, queues as lists, and the index of downloads by piece and offset.
  \<open>Session_Inv\<close> states the invariant \<open>session_ok\<close>, with the index behind the interface \<open>queue_index\<close>; \<open>Session_Safe\<close> shows that
  peers are freed safely. \<open>Bookkeeping\<close> shows that every sequence of operations on peers and downloads keeps it, that none of
  them fails, and that lookups, also those in the tree behind the index, find exactly the downloads of a block. \<open>Wire\<close> has the messages that are sent, \<open>Ctl_Server\<close>
  the control server of \<^verbatim>\<open>ctl_server.c\<close>, \<open>Announce\<close> the request to the tracker and \<open>Tracker\<close> its answer (\<^verbatim>\<open>announce.c\<close>).

  \<^bold>\<open>Containers\<close> (\<^verbatim>\<open>openbsd-compat/sys\<close>). The session has its queues and its index as lists. \<open>Tailq\<close> has the \<^verbatim>\<open>TAILQ\<close> macros
  on pointers and shows that they do to a queue what the model does to a list. \<open>Rbtree\<close> has the \<^verbatim>\<open>RB\<close> macros on pointers: rotations,
  colours, insertion, removal, search and the walk. \<open>Rbtree_Rep\<close> relates pointers to trees with a position in them,
  \<open>Rbtree_Ins\<close> and \<open>Rbtree_Del\<close> show that insertion and removal keep the red-black invariant, behind the interface \<open>rb_keys\<close> of a
  comparison function, \<open>Rbtree_Walk\<close> that the walk is in order. \<open>Rbtree_Index\<close> interprets it for the comparison function of
  \<^verbatim>\<open>network.c\<close> and shows that the tree refines the list, for indexes and offsets below \<open>2 ^ 31\<close>, beyond which that function
  is not an order. The fuel of the loops is the number of operations and two, which is proved to be enough.

  \<^bold>\<open>Receiving\<close> (\<^verbatim>\<open>network.c\<close>). \<open>Network\<close> has the handlers of peer input: framing, handshake, every message, the peer
  list. What the system answers (clock, random numbers, page size, descriptors of new connections, address lookup) is the
  record \<open>sysenv\<close>, an argument. \<open>Network_Inv\<close> and \<open>Network_Msg\<close> prove with a small calculus of runs, \<open>keep\<close>, that every
  message keeps a session \<open>healthy\<close>: bookkeeping, bit field sizes, piece indexes, rarity array. \<open>Network_Rx\<close> adds the
  framing: the cuts of the network make no difference, and the receive buffer always has room for what is pending.

  \<^bold>\<open>Scheduling\<close> (\<^verbatim>\<open>scheduler.c\<close>). \<open>Sched_Select\<close> has the choice of the next block and \<open>Sched_Sound\<close> what it hands out: the
  first free block of a piece, and which piece the rarity array leads to. \<open>Scheduler\<close> has the run of every second; \<open>Sched_Choke\<close> proves
  the choking algorithm, that it serves the fastest interested peers, \<open>Sched_Inv\<close> the rest and the whole run.

  \<^bold>\<open>Start and display\<close> (\<^verbatim>\<open>main.c\<close>, \<^verbatim>\<open>util.c\<close>, \<^verbatim>\<open>progressmeter.c\<close>). \<open>Hash_Check\<close> has the check of all pieces at the start and shows
  that it counts exactly the pieces whose bytes on the disk have the right hash. \<open>Startup\<close> has the command line, the line that the hash check
  displays, the choice between fast resume and hash check, and the start of the torrent; it joins the metainfo file, the storage, the session and
  the tracker. \<open>Util\<close> has \<^verbatim>\<open>mkpath\<close> and \<^verbatim>\<open>atomicio\<close>, with the answers of the operating system as arguments. \<open>Floats\<close>
  has the rounding of single and double precision on rational numbers, with normal exponents only, for the percentages and speeds of \<open>Progress\<close>, the
  progress meter; the line it builds is proved to fill the window and stay inside its buffer.

  \<^bold>\<open>The whole program.\<close> \<open>Peer_List\<close> shows that new peers, from the tracker and from incoming connections, and the connections to them keep
  the session in order, with the invariant \<open>alive\<close> that names the peers that are allocated but not listed yet. \<open>Event_Loop\<close> has the events
  that libevent delivers and the handler of each, and the sessions the program reaches from \<^verbatim>\<open>main\<close> by any sequence of them. It shows that
  all of them are in order, with the lemmas of every part above; the clock may not run backwards.

  \<^bold>\<open>The content.\<close> \<open>Piece_Place\<close> shows that the ranges of two pieces have no byte in common and that a block, even one that does not fit,
  changes only bytes of its own piece. \<open>Storage_Inv\<close> has the invariant \<open>stored\<close>: a marked piece has the right bytes, mapped pieces are at
  their ranges, \<^verbatim>\<open>good_pieces\<close> counts the marked ones; and the rules of \<open>post\<close>, the partial correctness of a run. \<open>Store_Frame\<close> shows what
  leaves the storage alone, \<open>Session_Store\<close> that every event keeps the invariant and that the fast-resume file claims only what is there,
  and \<open>Content\<close> that the start establishes it: in every reachable session the marked pieces are on the disk as the metainfo file
  describes them, also after a restart.

  \<^bold>\<open>Bounds.\<close> The random numbers of a run are a function of the number of the draw. The theorems on sessions assume fewer
  than \<open>2 ^ 32\<close> peers where the counter is compared with the list, speeds and numbers of peers below \<open>2 ^ 31\<close> where they are
  sorted by a difference that is cut to an \<^verbatim>\<open>int\<close>, keys of the index below \<open>2 ^ 31\<close> where the list stands for the tree, and pieces shorter than \<open>2 ^ 32 - 16384\<close> bytes, so that the
  block loop ends; the parser's limits on nesting and numbers are those of the code.

  \<^bold>\<open>Not modelled.\<close> The event library itself, timers and socket setup (\<^verbatim>\<open>network_init\<close>, \<^verbatim>\<open>network_listen\<close>, \<^verbatim>\<open>network_connect\<close>) only call
  the operating system and libevent; \<^verbatim>\<open>network_crypto_dh\<close> is never called. The replacement of \<^verbatim>\<open>getaddrinfo\<close> and the family of
  \<^verbatim>\<open>err\<close> and \<^verbatim>\<open>warn\<close> are vendored library code: the first is a parameter, the second are faults. \<^verbatim>\<open>trace.c\<close> writes a log;
  only its \<^verbatim>\<open>terminate_handler\<close> is modelled, in \<open>Startup\<close>. When a download is complete the program exits: the session of that moment is not among
  the reachable ones. Failures of the file system are left out, and \<^verbatim>\<open>snprintf\<close> into its own argument is that of OpenBSD. The Python front end is outside. The splay trees and the
  other lists of \<^verbatim>\<open>tree.h\<close> and \<^verbatim>\<open>queue.h\<close> are never used.
\<close>

end
